(* ===== verification/Prelude.thy ===== *)
theory Prelude
  imports Main "HOL-Library.Word" "HOL-Library.Monad_Syntax"
begin

text \<open>
  Shared vocabulary of the development: the machine integers of the Rust sources, the partial
  operations of \<^verbatim>\<open>Vec\<close> and slices that the components use (\<open>get\<close>, \<open>resize\<close>, \<open>rposition\<close>,
  \<open>remove\<close>), the sum type with which panics are made visible, and the generic lemmas on them.

  Arithmetic is that of the release profile of \<^verbatim>\<open>src/Cargo.toml\<close>: no overflow checks, so machine
  integers wrap around, and \<^verbatim>\<open>debug_assert!\<close> is not executed.
\<close>

unbundle bit_operations_syntax

type_synonym u16 = "16 word"
type_synonym u32 = "32 word"
type_synonym u64 = "64 word"

named_theorems vec_simps \<open>rewrite rules for the slice and vector operations\<close>

subsection \<open>Panics as values\<close>

text \<open>
  Code that can panic (an \<^verbatim>\<open>assert!\<close>, an \<^verbatim>\<open>unwrap\<close>, an index out of range, a push on a full
  fixed-capacity vector) has the result type \<open>'a run\<close>: \<open>None\<close> is the panic. A Rust \<^verbatim>\<open>Option\<close> that is
  returned by such code is an option inside the run.
\<close>

type_synonym 'a run = "'a option"

definition rust_assert :: "bool \<Rightarrow> unit run" where
  "rust_assert b = (if b then Some () else None)"

lemma rust_assert_Some [simp]: "rust_assert b = Some u \<longleftrightarrow> b"
  by (simp add: rust_assert_def)

lemma rust_assert_bind [simp]: "b \<Longrightarrow> Option.bind (rust_assert b) f = f ()"
  by (simp add: rust_assert_def)

subsection \<open>Three-way comparison\<close>

datatype ordering = Less | Equal | Greater

definition cmp :: "'a::linorder \<Rightarrow> 'a \<Rightarrow> ordering" where
  "cmp a b = (if a < b then Less else if a = b then Equal else Greater)"

text \<open>\<^verbatim>\<open>Ordering::then_with\<close>\<close>

definition then_with :: "ordering \<Rightarrow> ordering \<Rightarrow> ordering" where
  "then_with a b = (if a = Equal then b else a)"

lemma cmp_simps [simp]:
  "cmp a b = Less \<longleftrightarrow> a < b"
  "cmp a b = Equal \<longleftrightarrow> a = b"
  "cmp a b = Greater \<longleftrightarrow> b < a"
  "Less = cmp a b \<longleftrightarrow> a < b"
  "Equal = cmp a b \<longleftrightarrow> a = b"
  "Greater = cmp a b \<longleftrightarrow> b < a"
  by (auto simp: cmp_def)

lemma then_with_eq:
  "then_with a b = Less \<longleftrightarrow> a = Less \<or> a = Equal \<and> b = Less"
  "then_with a b = Greater \<longleftrightarrow> a = Greater \<or> a = Equal \<and> b = Greater"
  "then_with a b = Equal \<longleftrightarrow> a = Equal \<and> b = Equal"
  by (auto simp: then_with_def)

subsection \<open>Vectors\<close>

definition vec_get :: "'a list \<Rightarrow> nat \<Rightarrow> 'a option" where
  "vec_get xs i = (if i < length xs then Some (xs ! i) else None)"

definition vec_resize :: "nat \<Rightarrow> 'a \<Rightarrow> 'a list \<Rightarrow> 'a list" where
  "vec_resize n x xs = take n xs @ replicate (n - length xs) x"

definition vec_remove :: "nat \<Rightarrow> 'a list \<Rightarrow> 'a list" where
  "vec_remove i xs = take i xs @ drop (Suc i) xs"

definition vec_last :: "'a list \<Rightarrow> 'a option" where
  "vec_last xs = (if xs = [] then None else Some (last xs))"

text \<open>\<^verbatim>\<open>rposition\<close>: the last index whose element satisfies the predicate.\<close>

fun rposition :: "('a \<Rightarrow> bool) \<Rightarrow> 'a list \<Rightarrow> nat option" where
  "rposition P [] = None"
| "rposition P (x # xs) =
     (case rposition P xs of
        Some i \<Rightarrow> Some (Suc i)
      | None \<Rightarrow> if P x then Some 0 else None)"

lemma vec_get_simps [vec_simps]:
  "vec_get [] i = None"
  "vec_get (x # xs) 0 = Some x"
  "vec_get (x # xs) (Suc i) = vec_get xs i"
  by (simp_all add: vec_get_def)

lemma length_vec_resize [simp]: "length (vec_resize n x xs) = n"
  by (simp add: vec_resize_def)

lemma nth_vec_resize:
  "i < n \<Longrightarrow> vec_resize n x xs ! i = (if i < length xs then xs ! i else x)"
  by (auto simp: vec_resize_def nth_append)

lemma vec_resize_same [simp]: "vec_resize (length xs) x xs = xs"
  by (simp add: vec_resize_def)

lemma vec_last_simps [simp]:
  "vec_last [] = None" "vec_last (xs @ [x]) = Some x"
  by (simp_all add: vec_last_def)

lemma vec_last_Some_iff: "vec_last xs = Some x \<longleftrightarrow> (\<exists>ys. xs = ys @ [x])"
  by (cases xs rule: rev_cases) (auto simp: vec_last_def)

lemma rposition_None_iff: "rposition P xs = None \<longleftrightarrow> (\<forall>x \<in> set xs. \<not> P x)"
  by (induction xs) (auto split: option.splits)

lemma rposition_SomeD:
  "rposition P xs = Some i \<Longrightarrow>
     i < length xs \<and> P (xs ! i) \<and> (\<forall>j. i < j \<longrightarrow> j < length xs \<longrightarrow> \<not> P (xs ! j))"
proof (induction xs arbitrary: i)
  case Nil
  then show ?case by simp
next
  case (Cons x xs)
  show ?case
  proof (cases "rposition P xs")
    case None
    then have "\<forall>j < length xs. \<not> P (xs ! j)" by (simp add: rposition_None_iff)
    with None Cons.prems show ?thesis
      by (auto split: if_splits simp: nth_Cons')
  next
    case (Some k)
    with Cons.prems have "i = Suc k" by simp
    with Cons.IH [OF Some] show ?thesis by (auto simp: nth_Cons')
  qed
qed

lemma vec_remove_decomp:
  "i < length xs \<Longrightarrow> xs = take i xs @ xs ! i # drop (Suc i) xs"
  by (simp add: id_take_nth_drop)

lemma set_vec_remove_subset: "set (vec_remove i xs) \<subseteq> set xs"
  using set_take_subset [of i xs] set_drop_subset [of "Suc i" xs]
  by (auto simp: vec_remove_def)

subsection \<open>Words\<close>

lemma word_zero_le [simp]: "(0 :: 'a::len word) \<le> w"
  by simp

lemma unat_max: "unat (max a b) = max (unat a) (unat b)"
  by (simp add: max_def word_le_nat_alt)

lemma unat_min: "unat (min a b) = min (unat a) (unat b)"
  by (simp add: min_def word_le_nat_alt)

lemma unat_inc:
  fixes w :: "'a::len word"
  assumes "w < - 1"
  shows "unat (w + 1) = Suc (unat w)"
proof -
  have "1 + w \<noteq> 0"
  proof
    assume "1 + w = 0"
    then have "w = - 1" by (metis add.commute eq_neg_iff_add_eq_0)
    with assms show False by simp
  qed
  then show ?thesis using unatSuc [of w] by (simp add: add.commute)
qed

lemma pair_order_encoding:
  fixes a b c d m :: nat
  assumes "b < m" "d < m"
  shows "a * m + b < c * m + d \<longleftrightarrow> a < c \<or> (a = c \<and> b < d)"
proof (cases a c rule: linorder_cases)
  case less
  then have "Suc a * m \<le> c * m" by (intro mult_le_mono1) simp
  with less assms show ?thesis by simp
next
  case equal
  then show ?thesis by simp
next
  case greater
  then have "Suc c * m \<le> a * m" by (intro mult_le_mono1) simp
  with greater assms show ?thesis by simp
qed

lemma pred_option_code [code]: "pred_option P None = True" "pred_option P (Some x) = P x"
  by simp_all

end
