(* ===== verification/Clock.thy ===== *)
theory Clock
  imports Prelude
begin

text \<open>
  The logical clocks of \<^verbatim>\<open>src/crates/clock/src/clock.rs\<close>: replica identifiers, Lamport timestamps
  with their total order, and version vectors (\<open>Global\<close>). A version vector is the list of the
  sequence numbers indexed by replica; reading past its end gives 0. The lemmas show that the
  in-place vector algorithms (\<open>resize\<close>, zipped loops, truncation) compute the pointwise operations
  on the vector read as a function, and that they keep it free of trailing zeros, which is what
  makes \<open>observed_all\<close> the pointwise order.
\<close>

subsection \<open>Replica identifiers\<close>

type_synonym replica_id = u16

abbreviation LOCAL :: replica_id where "LOCAL \<equiv> 0"
abbreviation REMOTE_SERVER :: replica_id where "REMOTE_SERVER \<equiv> 1"
abbreviation AGENT :: replica_id where "AGENT \<equiv> 2"
abbreviation LOCAL_BRANCH :: replica_id where "LOCAL_BRANCH \<equiv> 3"
abbreviation FIRST_COLLAB_ID :: replica_id where "FIRST_COLLAB_ID \<equiv> 8"

definition is_remote :: "replica_id \<Rightarrow> bool" where
  "is_remote r \<longleftrightarrow> r = REMOTE_SERVER \<or> r \<ge> FIRST_COLLAB_ID"

subsection \<open>Lamport timestamps\<close>

type_synonym seq = u32

datatype lamport = Lamport (lam_value: seq) (lam_replica: replica_id)

text \<open>\<^verbatim>\<open>impl Ord for Lamport\<close>: the value first, the replica breaks ties.\<close>

definition lamport_cmp :: "lamport \<Rightarrow> lamport \<Rightarrow> ordering" where
  "lamport_cmp a b = then_with (cmp (lam_value a) (lam_value b)) (cmp (lam_replica a) (lam_replica b))"

instantiation lamport :: linorder
begin

definition less_eq_lamport :: "lamport \<Rightarrow> lamport \<Rightarrow> bool" where
  "less_eq_lamport a b \<longleftrightarrow> lamport_cmp a b \<noteq> Greater"

definition less_lamport :: "lamport \<Rightarrow> lamport \<Rightarrow> bool" where
  "less_lamport a b \<longleftrightarrow> lamport_cmp a b = Less"

instance
  by standard
    (auto simp: less_eq_lamport_def less_lamport_def lamport_cmp_def then_with_eq
      intro: lamport.expand)

end

lemma less_lamport_iff:
  "a < b \<longleftrightarrow>
     lam_value a < lam_value b \<or> (lam_value a = lam_value b \<and> lam_replica a < lam_replica b)"
  by (auto simp: less_lamport_def lamport_cmp_def then_with_eq)

lemma less_eq_lamport_iff:
  "a \<le> b \<longleftrightarrow>
     lam_value a < lam_value b \<or> (lam_value a = lam_value b \<and> lam_replica a \<le> lam_replica b)"
  by (auto simp: less_eq_lamport_def lamport_cmp_def then_with_eq)

lemma cmp_lamport: "lamport_cmp a b = cmp a b"
  by (auto simp: cmp_def less_lamport_def lamport_cmp_def then_with_def lamport.expand)

definition lamport_MIN :: lamport where
  "lamport_MIN = Lamport 0 0"

definition lamport_MAX :: lamport where
  "lamport_MAX = Lamport (- 1) (- 1)"

definition lamport_new :: "replica_id \<Rightarrow> lamport" where
  "lamport_new r = Lamport 1 r"

definition as_u64 :: "lamport \<Rightarrow> u64" where
  "as_u64 t = push_bit 32 (ucast (lam_value t)) OR ucast (lam_replica t)"

text \<open>\<open>tick\<close> returns the old timestamp and the advanced clock.\<close>

definition tick :: "lamport \<Rightarrow> lamport \<times> lamport" where
  "tick c = (c, Lamport (lam_value c + 1) (lam_replica c))"

definition lamport_observe :: "lamport \<Rightarrow> lamport \<Rightarrow> lamport" where
  "lamport_observe c t = Lamport (max (lam_value c) (lam_value t) + 1) (lam_replica c)"

subsection \<open>Version vectors\<close>

type_synonym global = "seq list"

definition global_new :: global where
  "global_new = []"

definition global_get :: "global \<Rightarrow> replica_id \<Rightarrow> seq" where
  "global_get g r = (case vec_get g (unat r) of Some v \<Rightarrow> v | None \<Rightarrow> 0)"

definition global_observe :: "global \<Rightarrow> lamport \<Rightarrow> global" where
  "global_observe g t =
     (if lam_value t > 0 then
        let new_len = unat (lam_replica t) + 1;
            g1 = (if new_len > length g then vec_resize new_len 0 g else g);
            i = unat (lam_replica t)
        in g1[i := max (g1 ! i) (lam_value t)]
      else g)"

text \<open>A loop \<^verbatim>\<open>for (left, right) in self.iter_mut().zip(other)\<close>: positions past the shorter of the
  two vectors are left as they are.\<close>

fun zip_update :: "('a \<Rightarrow> 'b \<Rightarrow> 'a) \<Rightarrow> 'a list \<Rightarrow> 'b list \<Rightarrow> 'a list" where
  "zip_update f (x # xs) (y # ys) = f x y # zip_update f xs ys"
| "zip_update f xs _ = xs"

definition global_join :: "global \<Rightarrow> global \<Rightarrow> global" where
  "global_join g other =
     (let g1 = (if length other > length g then vec_resize (length other) 0 g else g)
      in zip_update max g1 other)"

text \<open>One step of the loop of \<open>meet\<close>: unobserved entries take the other side's value.\<close>

definition meet_entry :: "seq \<Rightarrow> seq \<Rightarrow> seq" where
  "meet_entry left right =
     (if left = 0 then right else if right = 0 then left else min left right)"

text \<open>\<open>new_len\<close> is one more than the last index of the zipped prefix whose entry is not 0.\<close>

definition meet_new_len :: "global \<Rightarrow> nat" where
  "meet_new_len g = (case rposition (\<lambda>v. v \<noteq> 0) g of Some i \<Rightarrow> Suc i | None \<Rightarrow> 0)"

definition global_meet :: "global \<Rightarrow> global \<Rightarrow> global" where
  "global_meet g other =
     (let g1 = (if length other > length g then vec_resize (length other) 0 g else g);
          g2 = zip_update meet_entry g1 other;
          new_len = meet_new_len (take (length other) g2)
      in if length other = length g2 then take new_len g2 else g2)"

definition global_observed :: "global \<Rightarrow> lamport \<Rightarrow> bool" where
  "global_observed g t \<longleftrightarrow> global_get g (lam_replica t) \<ge> lam_value t"

definition observed_any :: "global \<Rightarrow> global \<Rightarrow> bool" where
  "observed_any g other \<longleftrightarrow> list_ex (\<lambda>(left, right). right > 0 \<and> left \<ge> right) (zip g other)"

definition observed_all :: "global \<Rightarrow> global \<Rightarrow> bool" where
  "observed_all g other \<longleftrightarrow>
     (if length g < length other then False
      else list_all (\<lambda>(left, right). left \<ge> right) (zip g other))"

definition changed_since :: "global \<Rightarrow> global \<Rightarrow> bool" where
  "changed_since g other \<longleftrightarrow>
     length g > length other \<or> list_ex (\<lambda>(left, right). left > right) (zip g other)"

text \<open>\<open>iter\<close>: one timestamp per entry, with the index cast to \<^verbatim>\<open>u16\<close>.\<close>

definition global_iter :: "global \<Rightarrow> lamport list" where
  "global_iter g = map (\<lambda>(i, v). Lamport v (word_of_nat i)) (enumerate 0 g)"

text \<open>\<^verbatim>\<open>Iterator::max_by_key\<close> returns the last of several maximal elements.\<close>

fun max_by_key :: "('a \<Rightarrow> 'b::linorder) \<Rightarrow> 'a list \<Rightarrow> 'a option" where
  "max_by_key f [] = None"
| "max_by_key f (x # xs) =
     (case max_by_key f xs of
        None \<Rightarrow> Some x
      | Some y \<Rightarrow> if f x > f y then Some x else Some y)"

definition most_recent :: "global \<Rightarrow> lamport option" where
  "most_recent g = max_by_key lam_value (global_iter g)"

definition global_from_iter :: "lamport list \<Rightarrow> global" where
  "global_from_iter ts = foldl global_observe global_new ts"


subsection \<open>The vector read as a function\<close>

definition gv :: "global \<Rightarrow> nat \<Rightarrow> seq" where
  "gv g n = (if n < length g then g ! n else 0)"

definition canonical :: "global \<Rightarrow> bool" where
  "canonical g \<longleftrightarrow> g = [] \<or> last g \<noteq> 0"

definition wf_global :: "global \<Rightarrow> bool" where
  "wf_global g \<longleftrightarrow> length g \<le> 2 ^ 16 \<and> canonical g"

lemma global_get_gv: "global_get g r = gv g (unat r)"
  by (simp add: global_get_def gv_def vec_get_def)

lemma gv_beyond [simp]: "length g \<le> n \<Longrightarrow> gv g n = 0"
  by (simp add: gv_def)

lemma gv_resize [simp]: "length g \<le> n \<Longrightarrow> gv (vec_resize n 0 g) i = gv g i"
  by (auto simp: gv_def nth_vec_resize)

lemma gv_Nil [simp]: "gv [] n = 0"
  by (simp add: gv_def)

lemma gv_take: "gv (take k g) n = (if n < k then gv g n else 0)"
  by (auto simp: gv_def)

lemma gv_eq_all_get:
  assumes "length a \<le> 2 ^ 16" "length b \<le> 2 ^ 16"
  shows "(\<forall>n. P (gv a n) (gv b n)) \<longleftrightarrow> P 0 0 \<and> (\<forall>r. P (global_get a r) (global_get b r))"
proof (intro iffI conjI allI)
  fix n
  assume R: "P 0 0 \<and> (\<forall>r. P (global_get a r) (global_get b r))"
  show "P (gv a n) (gv b n)"
  proof (cases "n < 2 ^ 16")
    case True
    then have "unat (word_of_nat n :: replica_id) = n"
      by (simp add: unat_of_nat)
    with R show ?thesis by (metis global_get_gv)
  next
    case False
    with assms R show ?thesis by simp
  qed
next
  assume L: "\<forall>n. P (gv a n) (gv b n)"
  then have "P (gv a (length a + length b)) (gv b (length a + length b))" ..
  then show "P 0 0" by simp
  show "P (global_get a r) (global_get b r)" for r
    using L by (simp add: global_get_gv)
qed

lemma canonical_iff_gv: "canonical g \<longleftrightarrow> (g = [] \<or> gv g (length g - 1) \<noteq> 0)"
  by (cases g rule: rev_cases) (auto simp: canonical_def gv_def nth_append)

lemma canonical_length_le:
  assumes "canonical a" "\<forall>n. gv b n = 0 \<longrightarrow> gv a n = 0"
  shows "length a \<le> length b"
proof (rule ccontr)
  assume "\<not> length a \<le> length b"
  then have "a \<noteq> []" "gv b (length a - 1) = 0" by auto
  with assms show False by (auto simp: canonical_iff_gv)
qed

lemma canonical_ext:
  assumes "canonical a" "canonical b" "\<forall>n. gv a n = gv b n"
  shows "a = b"
proof (rule nth_equalityI)
  show len: "length a = length b"
    using canonical_length_le [OF assms(1), of b] canonical_length_le [OF assms(2), of a] assms(3)
    by auto
  show "a ! i = b ! i" if "i < length a" for i
    using that assms(3) len by (metis gv_def)
qed

subsection \<open>The operations, pointwise\<close>

lemma length_zip_update [simp]: "length (zip_update f xs ys) = length xs"
  by (induction f xs ys rule: zip_update.induct) auto

lemma nth_zip_update:
  "i < length xs \<Longrightarrow> zip_update f xs ys ! i = (if i < length ys then f (xs ! i) (ys ! i) else xs ! i)"
  by (induction f xs ys arbitrary: i rule: zip_update.induct) (auto simp: nth_Cons split: nat.split)

lemma gv_zip_update:
  assumes "length b \<le> length a" and "\<And>x. f x 0 = x"
  shows "gv (zip_update f a b) n = f (gv a n) (gv b n)"
  using assms by (auto simp: gv_def nth_zip_update)

lemma gv_observe [simp]:
  "gv (global_observe g t) n =
     (if n = unat (lam_replica t) then max (gv g n) (lam_value t) else gv g n)"
  by (auto simp: global_observe_def Let_def gv_def nth_list_update nth_vec_resize word_gt_0)

lemma length_observe:
  "length (global_observe g t) =
     (if lam_value t > 0 then max (length g) (Suc (unat (lam_replica t))) else length g)"
  by (auto simp: global_observe_def Let_def)

lemma gv_join [simp]: "gv (global_join a b) n = max (gv a n) (gv b n)"
  by (auto simp: global_join_def Let_def gv_zip_update)

lemma length_join: "length (global_join a b) = max (length a) (length b)"
  by (auto simp: global_join_def Let_def)

lemma meet_entry_0 [simp]: "meet_entry x 0 = x" "meet_entry 0 x = x"
  by (simp_all add: meet_entry_def)

lemma meet_entry_eq_0 [simp]: "meet_entry x y = 0 \<longleftrightarrow> x = 0 \<and> y = 0"
  by (auto simp: meet_entry_def min_def)

lemma meet_new_len_le: "meet_new_len g \<le> length g"
  by (auto simp: meet_new_len_def Suc_le_eq split: option.split dest: rposition_SomeD)

lemma gv_take_new_len: "gv (take (meet_new_len g) g) n = gv g n"
proof (cases "rposition (\<lambda>v. v \<noteq> 0) g")
  case None
  then show ?thesis by (auto simp: meet_new_len_def gv_def rposition_None_iff)
next
  case (Some i)
  with rposition_SomeD [OF Some] show ?thesis
    by (auto simp: meet_new_len_def gv_def)
qed

lemma canonical_take_new_len: "canonical (take (meet_new_len g) g)"
proof (cases "rposition (\<lambda>v. v \<noteq> 0) g")
  case None
  then show ?thesis by (simp add: meet_new_len_def canonical_def)
next
  case (Some i)
  with rposition_SomeD [OF Some] show ?thesis
    by (simp add: meet_new_len_def canonical_def take_Suc_conv_app_nth)
qed

lemma gv_meet [simp]: "gv (global_meet a b) n = meet_entry (gv a n) (gv b n)"
  by (auto simp: global_meet_def Let_def gv_zip_update gv_take_new_len)

lemma length_meet_le: "length (global_meet a b) \<le> max (length a) (length b)"
  by (auto simp: global_meet_def Let_def)

lemma observed_all_iff:
  "observed_all a b \<longleftrightarrow> length b \<le> length a \<and> (\<forall>n. gv b n \<le> gv a n)"
  by (auto simp: observed_all_def list_all_length gv_def)

lemma changed_since_iff: "changed_since a b \<longleftrightarrow> \<not> observed_all b a"
  by (auto simp: changed_since_def observed_all_def list_ex_length list_all_length not_le
      min.commute)

lemma canonical_observed_all:
  "canonical b \<Longrightarrow> observed_all a b \<longleftrightarrow> (\<forall>n. gv b n \<le> gv a n)"
  using canonical_length_le [of b a] by (auto simp: observed_all_iff) (metis word_le_0_iff)

subsection \<open>The invariant\<close>

lemma wf_global_new [simp]: "wf_global global_new"
  by (simp add: wf_global_def global_new_def canonical_def)

lemma canonicalI:
  "(\<And>n. length g = Suc n \<Longrightarrow> gv g n \<noteq> 0) \<Longrightarrow> canonical g"
  by (cases g rule: rev_cases) (auto simp: canonical_iff_gv)

lemma canonicalD: "canonical g \<Longrightarrow> length g = Suc n \<Longrightarrow> gv g n \<noteq> 0"
  by (auto simp: canonical_iff_gv)

lemma max_word_0 [simp]: "max x y = (0 :: 'a::len word) \<longleftrightarrow> x = 0 \<and> y = 0"
  by (auto simp: max_def)

lemma wf_global_observe:
  assumes "wf_global g"
  shows "wf_global (global_observe g t)"
proof -
  have "unat (lam_replica t) < 2 ^ 16"
    using unsigned_less [of "lam_replica t"] by simp
  moreover have "canonical (global_observe g t)"
    using assms canonicalD [of g]
    by (intro canonicalI) (auto simp: length_observe wf_global_def max_def word_gt_0 split: if_splits)
  ultimately show ?thesis
    using assms by (auto simp: wf_global_def length_observe)
qed

lemma wf_global_join: "wf_global a \<Longrightarrow> wf_global b \<Longrightarrow> wf_global (global_join a b)"
  using canonicalD [of a] canonicalD [of b]
  by (auto simp: wf_global_def length_join max_def intro!: canonicalI split: if_splits)

lemma canonical_meet:
  assumes "canonical a"
  shows "canonical (global_meet a b)"
proof (cases "length b < length a")
  case True
  then have len: "length (global_meet a b) = length a"
    by (simp add: global_meet_def Let_def)
  show ?thesis
    using canonicalD [OF assms] len by (auto intro!: canonicalI)
next
  case False
  then show ?thesis
    by (auto simp: global_meet_def Let_def canonical_take_new_len)
qed

lemma wf_global_meet: "wf_global a \<Longrightarrow> wf_global b \<Longrightarrow> wf_global (global_meet a b)"
  using length_meet_le [of a b] canonical_meet [of a b] by (auto simp: wf_global_def)

lemma wf_global_from_iter: "wf_global (global_from_iter ts)"
  unfolding global_from_iter_def
  by (induction ts rule: rev_induct) (simp_all add: wf_global_observe)

lemmas wf_global_intros =
  wf_global_new wf_global_observe wf_global_join wf_global_meet wf_global_from_iter


subsection \<open>Timestamps as 64-bit numbers\<close>

lemma unat_as_u64: "unat (as_u64 t) = unat (lam_value t) * 2 ^ 32 + unat (lam_replica t)"
proof -
  let ?v = "push_bit 32 (ucast (lam_value t)) :: u64" and ?r = "ucast (lam_replica t) :: u64"
  have r: "unat (lam_replica t) < 2 ^ 16" "unat (lam_value t) < 2 ^ 32"
    using unsigned_less [of "lam_replica t"] unsigned_less [of "lam_value t"] by simp_all
  have disj: "?v AND ?r = 0"
    by (rule bit_word_eqI) (auto simp: bit_simps dest: bit_imp_le_length)
  have "unat ?v = unat (lam_value t) * 2 ^ 32"
    using r by (simp add: push_bit_eq_mult unat_word_ariths unsigned_ucast_eq
        take_bit_nat_eq_self_iff take_bit_nat_eq_self)
  moreover have "unat ?r = unat (lam_replica t)"
    using r by (simp add: unsigned_ucast_eq take_bit_nat_eq_self_iff)
  moreover have "?v OR ?r = ?v + ?r"
    using disj by (simp add: disjunctive_add_eq_or)
  ultimately show ?thesis
    using r by (simp add: as_u64_def unat_word_ariths)
qed

subsection \<open>Properties\<close>

text \<open>\<open>Lamport::as_u64\<close> is an order embedding: comparing the packed 64-bit numbers is comparing
  the timestamps with \<open>Ord\<close>, for every value and replica.\<close>

theorem as_u64_order_embedding: "as_u64 a < as_u64 b \<longleftrightarrow> a < b"
proof -
  have "unat (lam_replica x) < 2 ^ 32" for x
    using unsigned_less [of "lam_replica x", where ?'a = nat] by simp
  then show ?thesis
    by (simp add: word_less_nat_alt unat_as_u64 pair_order_encoding less_lamport_iff
        word_unat_eq_iff)
qed

text \<open>As long as the 32-bit counter does not wrap, \<open>Lamport::observe\<close> moves the clock past both
  its own value and the observed timestamp, and every later \<open>tick\<close> returns a timestamp greater than
  all timestamps observed before.\<close>

theorem lamport_observe_then_tick:
  assumes "lam_value c < - 1" and "lam_value t < - 1"
  shows "c < lamport_observe c t \<and> t < fst (tick (lamport_observe c t))
    \<and> lam_replica (lamport_observe c t) = lam_replica c"
proof -
  let ?m = "max (lam_value c) (lam_value t)"
  have m: "?m < - 1" using assms by (simp add: max_def)
  then have "?m < ?m + 1" by (simp add: word_less_nat_alt unat_inc)
  then have "lam_value c < ?m + 1" "lam_value t < ?m + 1"
    by (meson max.cobounded1 max.cobounded2 order_le_less_trans)+
  then show ?thesis
    by (simp add: less_lamport_iff lamport_observe_def tick_def)
qed

theorem lamport_observe_then_tick_witness:
  "Lamport 3 1 < lamport_observe (Lamport 3 1) (Lamport 7 9)
   \<and> Lamport 7 9 < fst (tick (lamport_observe (Lamport 3 1) (Lamport 7 9)))"
  using lamport_observe_then_tick [of "Lamport 3 1" "Lamport 7 9"] by simp

text \<open>On version vectors as the code builds them, \<open>observed_all\<close> is the pointwise order of the
  sequence numbers, \<open>changed_since\<close> is its negation with the arguments swapped, and \<open>observed\<close>
  holds exactly for the timestamps below the vector's entry.\<close>

theorem observed_all_pointwise:
  assumes "wf_global a" and "wf_global b"
  shows "(observed_all a b \<longleftrightarrow> (\<forall>r. global_get b r \<le> global_get a r))
    \<and> (changed_since b a \<longleftrightarrow> (\<exists>r. global_get b r > global_get a r))"
proof -
  have "observed_all a b \<longleftrightarrow> (\<forall>r. global_get b r \<le> global_get a r)"
    using assms gv_eq_all_get [of b a "(\<le>)"]
    by (simp add: canonical_observed_all wf_global_def)
  then show ?thesis
    by (simp add: changed_since_iff not_le)
qed

theorem observed_all_pointwise_witness:
  "(observed_all [2, 5] [2, 4] \<longleftrightarrow> (\<forall>r. global_get [2, 4] r \<le> global_get [2, 5] r))
   \<and> (changed_since [2, 4] [2, 5] \<longleftrightarrow> (\<exists>r. global_get [2, 4] r > global_get [2, 5] r))"
  by (rule observed_all_pointwise) (simp_all add: wf_global_def canonical_def)

text \<open>(C22) \<open>Global::join\<close> computes the least upper bound of two version vectors in the order of
  \<open>observed_all\<close> and keeps the representation free of trailing zeros.\<close>

theorem global_join_least_upper_bound:
  assumes "wf_global a" and "wf_global b" and "wf_global c"
  shows "wf_global (global_join a b)
    \<and> observed_all (global_join a b) a \<and> observed_all (global_join a b) b
    \<and> (observed_all c (global_join a b) \<longleftrightarrow> observed_all c a \<and> observed_all c b)"
  using assms wf_global_join [OF assms(1,2)]
  by (auto simp: canonical_observed_all wf_global_def)

theorem global_join_least_upper_bound_witness:
  "observed_all [4, 4, 9] (global_join [4] [1, 3]) \<longleftrightarrow>
     observed_all [4, 4, 9] [4] \<and> observed_all [4, 4, 9] [1, 3]"
  using global_join_least_upper_bound [of "[4]" "[1, 3]" "[4, 4, 9]"]
  by (simp add: wf_global_def canonical_def)

text \<open>\<open>Global::meet\<close> takes, replica by replica, the smaller of the two sequence numbers where both
  sides have observed the replica and the observed one where only one side has, and keeps the
  representation free of trailing zeros.\<close>

theorem global_meet_pointwise:
  assumes "wf_global a" and "wf_global b"
  shows "wf_global (global_meet a b)
    \<and> global_get (global_meet a b) r =
           (if global_get a r = 0 then global_get b r
            else if global_get b r = 0 then global_get a r
            else min (global_get a r) (global_get b r))"
  using wf_global_meet [OF assms] by (simp_all add: global_get_gv meet_entry_def)

theorem global_meet_pointwise_witness:
  "wf_global (global_meet [4, 0, 2] [1, 3]) \<and> global_get (global_meet [4, 0, 2] [1, 3]) 1 = 3"
  using global_meet_pointwise [of "[4, 0, 2]" "[1, 3]" 1]
  by (simp add: wf_global_def canonical_def global_get_def vec_get_def)

text \<open>Collecting timestamps into a \<open>Global\<close> observes exactly them: the vector contains every one of
  them, and any well-formed vector that contains all of them is at least as large.\<close>

theorem global_from_iter_least:
  assumes "wf_global g"
  shows "list_all (global_observed (global_from_iter ts)) ts
    \<and> (observed_all g (global_from_iter ts) \<longleftrightarrow> list_all (global_observed g) ts)"
proof (intro conjI)
  have gv_iter: "gv (global_from_iter ts) n \<le> x \<longleftrightarrow>
      (\<forall>t \<in> set ts. n = unat (lam_replica t) \<longrightarrow> lam_value t \<le> x)" for n x ts
    unfolding global_from_iter_def
    by (induction ts rule: rev_induct) (auto simp: global_new_def)
  have "global_observed (global_from_iter ts) t" if "t \<in> set ts" for t
    using that
      gv_iter [of ts "unat (lam_replica t)" "gv (global_from_iter ts) (unat (lam_replica t))"]
    by (auto simp: global_observed_def global_get_gv)
  then show "list_all (global_observed (global_from_iter ts)) ts"
    by (simp add: list_all_iff)
  show "observed_all g (global_from_iter ts) \<longleftrightarrow> list_all (global_observed g) ts"
    using wf_global_from_iter [of ts]
    by (auto simp: canonical_observed_all wf_global_def gv_iter list_all_iff global_observed_def
        global_get_gv)
qed

theorem global_from_iter_least_witness:
  "observed_all [0, 3] (global_from_iter [Lamport 3 1, Lamport 2 1]) \<longleftrightarrow>
     list_all (global_observed [0, 3]) [Lamport 3 1, Lamport 2 1]"
  using global_from_iter_least [of "[0, 3]" "[Lamport 3 1, Lamport 2 1]"]
  by (simp add: wf_global_def canonical_def)

end
