(* ===== verification/Locator.thy ===== *)
theory Locator
  imports Prelude "HOL-Library.List_Lexorder"
begin

text \<open>
  Dense position identifiers of \<^verbatim>\<open>src/crates/text/src/locator.rs\<close>. A locator is a non-empty
  sequence of 64-bit digits ordered lexicographically (the derived \<^verbatim>\<open>Ord\<close>); \<open>between\<close> makes a new
  one strictly between two others. The main lemma needs the right bound not to end in a 0 digit,
  an invariant that \<open>between\<close> itself establishes; without it the result can overshoot.
\<close>

type_synonym locator = "u64 list"

definition locator_min :: locator where
  "locator_min = [0]"

definition locator_max :: locator where
  "locator_max = [- 1]"

definition saturating_sub :: "u64 \<Rightarrow> u64 \<Rightarrow> u64" where
  "saturating_sub a b = (if a \<le> b then 0 else a - b)"

text \<open>\<open>iter.chain(repeat(d))\<close>: the next digit of an exhausted locator is the padding.\<close>

fun next_digit :: "u64 \<Rightarrow> locator \<Rightarrow> u64" where
  "next_digit d [] = d"
| "next_digit d (x # xs) = x"

definition mid_digit :: "u64 \<Rightarrow> u64 \<Rightarrow> u64" where
  "mid_digit l r = l + drop_bit 48 (saturating_sub r l)"

text \<open>The loop over the two padded, infinite digit streams. It ends at the latest one digit past
  both locators, where the digits are 0 and \<^verbatim>\<open>u64::MAX\<close>.\<close>

function between :: "locator \<Rightarrow> locator \<Rightarrow> locator" where
  "between lhs rhs =
     (let l = next_digit 0 lhs; r = next_digit (- 1) rhs; mid = mid_digit l r
      in if mid > l then [mid] else mid # between (tl lhs) (tl rhs))"
  by pat_completeness auto
termination
proof (relation "measure (\<lambda>(lhs, rhs). length lhs + length rhs)", simp)
  fix lhs rhs :: locator and l r mid
  assume l: "l = next_digit 0 lhs" and r: "r = next_digit (- 1) rhs"
    and mid: "mid = mid_digit l r" and stop: "\<not> mid > l"
  have "lhs \<noteq> [] \<or> rhs \<noteq> []"
  proof (rule ccontr)
    assume "\<not> (lhs \<noteq> [] \<or> rhs \<noteq> [])"
    with l r mid have "l = 0" "mid = drop_bit 48 (- 1)"
      by (simp_all add: mid_digit_def saturating_sub_def)
    with stop show False by (simp add: mask_eq_exp_minus_1)
  qed
  then show "((tl lhs, tl rhs), (lhs, rhs)) \<in> measure (\<lambda>(lhs, rhs). length lhs + length rhs)"
    by (cases lhs; cases rhs) auto
qed

declare between.simps [simp del]

text \<open>\<open>assign\<close> (also \<open>add_summary\<close> of the locator summary): copy the other locator.\<close>

definition locator_assign :: "locator \<Rightarrow> locator \<Rightarrow> locator" where
  "locator_assign self other = vec_resize (length other) 0 other"

definition locator_len :: "locator \<Rightarrow> nat" where
  "locator_len l = length l"

subsection \<open>One digit\<close>

lemma drop_bit_48: "unat (drop_bit 48 (x :: u64)) = unat x div 2 ^ 48"
  by (subst unat_drop_bit_eq) (simp add: drop_bit_eq_div)

lemma unat_saturating_sub: "unat (saturating_sub a b) = unat a - unat b"
  by (auto simp: saturating_sub_def word_le_nat_alt unat_sub)

lemma unat_mid_digit: "unat (mid_digit l r) = unat l + (unat r - unat l) div 2 ^ 48"
proof -
  have "(unat r - unat l) div 2 ^ 48 \<le> unat r - unat l" by (rule div_le_dividend)
  then have "unat l + (unat r - unat l) div 2 ^ 48 < 2 ^ 64"
    using unsigned_less [of r, where ?'a = nat] unsigned_less [of l, where ?'a = nat]
    by (cases "unat l \<le> unat r") auto
  then show ?thesis
    by (simp add: mid_digit_def unat_word_ariths drop_bit_48 unat_saturating_sub)
qed

lemma mid_digit_ge: "l \<le> mid_digit l r"
  by (simp add: word_le_nat_alt unat_mid_digit)

lemma mid_digit_stays: "r \<le> l \<Longrightarrow> mid_digit l r = l"
  by (simp add: word_unat_eq_iff word_le_nat_alt unat_mid_digit)

lemma mid_digit_less: "l < r \<Longrightarrow> mid_digit l r < r"
proof -
  assume "l < r"
  then have d: "0 < unat r - unat l" by (simp add: word_less_nat_alt)
  then have "(unat r - unat l) div 2 ^ 48 < unat r - unat l" by simp
  with d show ?thesis by (simp add: word_less_nat_alt unat_mid_digit)
qed

lemma not_greater_mid: "\<not> mid_digit l r > l \<Longrightarrow> mid_digit l r = l"
  using mid_digit_ge [of l r] by simp

lemma unat_MAX: "unat (- 1 :: u64) = 2 ^ 64 - 1"
  by (simp add: unat_eq_nat_uint uint_word_ariths)

subsection \<open>The loop\<close>

lemma between_step:
  assumes "l = next_digit 0 lhs" "r = next_digit (- 1) rhs"
  obtains (stop) "mid_digit l r > l" "between lhs rhs = [mid_digit l r]"
    | (go) "mid_digit l r = l" "between lhs rhs = l # between (tl lhs) (tl rhs)"
  using assms not_greater_mid [of l r] between.simps [of lhs rhs] by (auto simp: Let_def)

lemma between_not_Nil [simp]: "between lhs rhs \<noteq> []"
  by (subst between.simps) (simp add: Let_def)

lemma last_between: "last (between lhs rhs) \<noteq> 0"
proof (induction lhs rhs rule: between.induct)
  case (1 lhs rhs)
  show ?case
  proof (rule between_step [OF refl refl, of lhs rhs])
    assume "mid_digit (next_digit 0 lhs) (next_digit (- 1) rhs) > next_digit 0 lhs"
      and "between lhs rhs = [mid_digit (next_digit 0 lhs) (next_digit (- 1) rhs)]"
    then show ?thesis by auto
  next
    assume "mid_digit (next_digit 0 lhs) (next_digit (- 1) rhs) = next_digit 0 lhs"
      and "between lhs rhs = next_digit 0 lhs # between (tl lhs) (tl rhs)"
    with 1 show ?thesis by simp
  qed
qed

lemma length_between: "length (between lhs rhs) \<le> Suc (max (length lhs) (length rhs))"
proof (induction lhs rhs rule: between.induct)
  case (1 lhs rhs)
  show ?case
  proof (rule between_step [OF refl refl, of lhs rhs])
    assume go: "mid_digit (next_digit 0 lhs) (next_digit (- 1) rhs) = next_digit 0 lhs"
      and eq: "between lhs rhs = next_digit 0 lhs # between (tl lhs) (tl rhs)"
    have "lhs \<noteq> [] \<or> rhs \<noteq> []"
    proof (rule ccontr)
      assume "\<not> ?thesis"
      with go have "unat (mid_digit 0 (- 1)) = 0" by simp
      then show False by (simp add: unat_mid_digit unat_MAX)
    qed
    moreover from 1 go have "length (between (tl lhs) (tl rhs)) \<le> Suc (max (length (tl lhs)) (length (tl rhs)))"
      by simp
    ultimately show ?thesis
      using eq by (cases lhs; cases rhs) auto
  qed simp
qed

text \<open>The result is above the left bound for any two locators.\<close>

lemma lhs_less_between: "lhs < between lhs rhs"
proof (induction lhs rhs rule: between.induct)
  case (1 lhs rhs)
  show ?case
  proof (rule between_step [OF refl refl, of lhs rhs])
    assume "mid_digit (next_digit 0 lhs) (next_digit (- 1) rhs) > next_digit 0 lhs"
      and "between lhs rhs = [mid_digit (next_digit 0 lhs) (next_digit (- 1) rhs)]"
    then show ?thesis by (cases lhs) auto
  next
    assume "mid_digit (next_digit 0 lhs) (next_digit (- 1) rhs) = next_digit 0 lhs"
      and "between lhs rhs = next_digit 0 lhs # between (tl lhs) (tl rhs)"
    with 1 show ?thesis by (cases lhs) auto
  qed
qed

text \<open>Once the left digit is the smaller one, the result stays below the right bound.\<close>

lemma between_less_rhs:
  assumes "lhs < rhs" and "last rhs \<noteq> 0"
  shows "between lhs rhs < rhs"
  using assms
proof (induction lhs rhs rule: between.induct)
  case (1 lhs rhs)
  from 1 obtain r rs where rhs: "rhs = r # rs" by (cases rhs) auto
  let ?l = "next_digit 0 lhs"
  have le: "?l \<le> r" using 1(2) rhs by (cases lhs) auto
  show ?case
  proof (rule between_step [of ?l lhs r rhs])
    assume "mid_digit ?l r > ?l" and "between lhs rhs = [mid_digit ?l r]"
    then show ?thesis
      using rhs le mid_digit_less [of ?l r] mid_digit_stays [of r ?l] by force
  next
    assume go: "mid_digit ?l r = ?l" and eq: "between lhs rhs = ?l # between (tl lhs) (tl rhs)"
    show ?thesis
    proof (cases "?l < r")
      case True
      with eq rhs show ?thesis by simp
    next
      case False
      with le have l: "?l = r" by simp
      have "tl lhs < rs" and "last rs \<noteq> 0"
        using 1(2,3) rhs l by (cases lhs; cases rs; auto)+
      with 1(1) go rhs l have "between (tl lhs) rs < rs" by simp
      with eq rhs l show ?thesis by simp
    qed
  qed (simp_all add: rhs)
qed


subsection \<open>Sequential appends\<close>

text \<open>The locators of text typed at the end of a buffer: each is made between its predecessor and
  \<open>Locator::max\<close>, as in \<open>Buffer::new_normalized\<close> and \<open>push_fragments_for_insertion\<close>.\<close>

fun append_locator :: "nat \<Rightarrow> locator" where
  "append_locator 0 = locator_min"
| "append_locator (Suc n) = between (append_locator n) locator_max"

lemma between_single_max:
  assumes "unat v + 2 ^ 48 < 2 ^ 64"
  shows "between [v] locator_max = [mid_digit v (- 1)]"
proof (rule between_step [of v "[v]" "- 1" locator_max])
  assume "mid_digit v (- 1) = v"
  then have "(2 ^ 64 - 1 - unat v) div 2 ^ 48 = 0"
    using unat_mid_digit [of v "- 1"] by (simp add: unat_MAX)
  then have "2 ^ 64 - 1 - unat v < (2 ^ 48 :: nat)" by (simp add: div_eq_0_iff)
  with assms show ?thesis by simp
qed (simp_all add: locator_max_def)

lemma append_locator_shape:
  "n \<le> 2 ^ 47 \<Longrightarrow> \<exists>v. append_locator n = [v] \<and> unat v \<le> n * 65535"
proof (induction n)
  case 0
  then show ?case by (simp add: locator_min_def)
next
  case (Suc n)
  then obtain v where v: "append_locator n = [v]" "unat v \<le> n * 65535" by auto
  from v(2) Suc.prems have small: "unat v + 2 ^ 48 < 2 ^ 64" by simp
  have "(2 ^ 64 - 1 - unat v) div 2 ^ 48 \<le> (2 ^ 64 - 1) div 2 ^ 48"
    by (rule div_le_mono) simp
  then have "unat (mid_digit v (- 1)) \<le> unat v + 65535"
    by (simp add: unat_mid_digit unat_MAX)
  with v small show ?case by (simp add: between_single_max)
qed

subsection \<open>Properties\<close>

text \<open>(C21) \<open>Locator::between\<close> is dense: for two locators in order whose right one does not end in the
  digit 0, the result lies strictly between them and does not end in 0 either, so that it may
  serve as a right bound again; its length exceeds the longer argument by at most one digit. The
  loop over the two infinite digit streams therefore always ends.\<close>

theorem between_strictly_between:
  assumes "lhs < rhs" and "last rhs \<noteq> 0"
  shows "lhs < between lhs rhs \<and> between lhs rhs < rhs \<and> last (between lhs rhs) \<noteq> 0
    \<and> length (between lhs rhs) \<le> Suc (max (length lhs) (length rhs))"
  using lhs_less_between between_less_rhs [OF assms] last_between length_between by blast

theorem between_strictly_between_witness:
  "[3, 7] < between [3, 7] [3, 8] \<and> between [3, 7] [3, 8] < [3, 8]"
  using between_strictly_between [of "[3, 7]" "[3, 8]"] by simp

text \<open>The restriction to right bounds that do not end in 0 is needed: between \<open>[5]\<close> and \<open>[5, 0]\<close>
  the function returns a locator above the right bound.\<close>

lemma between_overshoots_zero_ended: "[5] < [5, 0 :: u64] \<and> between [5] [5, 0] > [5, 0]"
proof -
  have "between [] [] = [mid_digit 0 (- 1)]"
    by (rule between_step [of 0 "[]" "- 1" "[]"])
      (auto simp: word_unat_eq_iff unat_mid_digit unat_MAX)
  then have "between [5] [5, 0] = [5, 0, mid_digit 0 (- 1)]"
    by (simp add: between.simps [of "[5]"] between.simps [of "[]" "[0]"] Let_def mid_digit_stays)
  then show ?thesis by simp
qed

text \<open>Appending sequentially keeps locators at depth one: after any number of appends up to
  \<open>2 ^ 47\<close> the locator still has a single digit.\<close>

theorem append_locator_depth_one:
  assumes "n \<le> 2 ^ 47"
  shows "length (append_locator n) = 1"
  using append_locator_shape [OF assms] by auto

theorem append_locator_depth_one_witness: "length (append_locator 100000) = 1"
  by (rule append_locator_depth_one) simp

end
