(* ===== verification/Sum_Tree.thy ===== *)
theory Sum_Tree
  imports Prelude
begin

text \<open>
  The B+ tree of \<^verbatim>\<open>src/crates/sum_tree/src/sum_tree.rs\<close>. Leaves hold items with their summaries,
  internal nodes hold subtrees with theirs; every node caches the sum of the summaries below it.
  The Rust traits \<^verbatim>\<open>Item\<close> and \<^verbatim>\<open>Summary\<close> are a record of the three operations (\<open>sops\<close>), handed to
  every operation as the trait bound is; their laws are the locale \<open>summary_laws\<close>.

  \<^verbatim>\<open>Arc\<close> sharing and copy-on-write are invisible in a pure model. Fixed-capacity vectors keep their
  capacity check (\<open>fits\<close>), and \<open>unwrap\<close> on an empty vector is a panic, so that the theorems show
  that no operation on a well-formed tree panics.
\<close>

subsection \<open>Items, summaries, nodes\<close>

record ('t, 's) sops =
  item_summary :: "'t \<Rightarrow> 's"
  zero_summary :: "'s"
  add_summary :: "'s \<Rightarrow> 's \<Rightarrow> 's"

datatype bias = Left | Right

definition bias_invert :: "bias \<Rightarrow> bias" where
  "bias_invert b = (case b of Left \<Rightarrow> Right | Right \<Rightarrow> Left)"

definition TREE_BASE :: nat where
  "TREE_BASE = 6"

datatype ('t, 's) sum_tree =
    Internal nat 's "'s list" "('t, 's) sum_tree list"
  | Leaf 's "'t list" "'s list"

text \<open>An \<^verbatim>\<open>ArrayVec\<close> of capacity \<open>2 * TREE_BASE\<close>: collecting, extending or pushing beyond panics.\<close>

definition fits :: "'a list \<Rightarrow> 'a list run" where
  "fits xs = (if length xs \<le> 2 * TREE_BASE then Some xs else None)"

fun is_leaf :: "('t, 's) sum_tree \<Rightarrow> bool" where
  "is_leaf (Leaf s is ss) = True"
| "is_leaf (Internal h s ss ts) = False"

fun tree_height :: "('t, 's) sum_tree \<Rightarrow> nat" where
  "tree_height (Internal h s ss ts) = h"
| "tree_height (Leaf s is ss) = 0"

fun tree_summary :: "('t, 's) sum_tree \<Rightarrow> 's" where
  "tree_summary (Internal h s ss ts) = s"
| "tree_summary (Leaf s is ss) = s"

fun child_summaries :: "('t, 's) sum_tree \<Rightarrow> 's list" where
  "child_summaries (Internal h s ss ts) = ss"
| "child_summaries (Leaf s is ss) = ss"

fun child_trees :: "('t, 's) sum_tree \<Rightarrow> ('t, 's) sum_tree list run" where
  "child_trees (Internal h s ss ts) = Some ts"
| "child_trees (Leaf s is ss) = None"

fun node_items :: "('t, 's) sum_tree \<Rightarrow> 't list run" where
  "node_items (Leaf s is ss) = Some is"
| "node_items (Internal h s ss ts) = None"

fun is_underflowing :: "('t, 's) sum_tree \<Rightarrow> bool" where
  "is_underflowing (Internal h s ss ts) = (length ts < TREE_BASE)"
| "is_underflowing (Leaf s is ss) = (length is < TREE_BASE)"

definition sum_summaries :: "('t, 's) sops \<Rightarrow> 's list \<Rightarrow> 's" where
  "sum_summaries cx ss = foldl (add_summary cx) (zero_summary cx) ss"

subsection \<open>Construction\<close>

definition tree_new :: "('t, 's) sops \<Rightarrow> ('t, 's) sum_tree" where
  "tree_new cx = Leaf (zero_summary cx) [] []"

definition from_summary :: "'s \<Rightarrow> ('t, 's) sum_tree" where
  "from_summary s = Leaf s [] []"

fun tree_is_empty :: "('t, 's) sum_tree \<Rightarrow> bool" where
  "tree_is_empty (Internal h s ss ts) = False"
| "tree_is_empty (Leaf s is ss) = (is = [])"

definition from_child_trees ::
  "('t, 's) sops \<Rightarrow> ('t, 's) sum_tree \<Rightarrow> ('t, 's) sum_tree \<Rightarrow> ('t, 's) sum_tree" where
  "from_child_trees cx left right =
     (let ss = [tree_summary left, tree_summary right]
      in Internal (tree_height left + 1) (sum_summaries cx ss) ss [left, right])"

fun leftmost_leaf :: "('t, 's) sum_tree \<Rightarrow> ('t, 's) sum_tree run" where
  "leftmost_leaf (Leaf s is ss) = Some (Leaf s is ss)"
| "leftmost_leaf (Internal h s ss []) = None"
| "leftmost_leaf (Internal h s ss (t # ts)) = leftmost_leaf t"

lemma size_last_child [termination_simp]:
  "vec_last ts = Some t \<Longrightarrow> size t < Suc (n + size_list size ts)"
  by (auto simp: vec_last_Some_iff)

fun rightmost_leaf :: "('t, 's) sum_tree \<Rightarrow> ('t, 's) sum_tree run" where
  "rightmost_leaf (Leaf s is ss) = Some (Leaf s is ss)"
| "rightmost_leaf (Internal h s ss ts) =
     (case vec_last ts of None \<Rightarrow> None | Some t \<Rightarrow> rightmost_leaf t)"

definition tree_first :: "('t, 's) sum_tree \<Rightarrow> 't option run" where
  "tree_first t = do {
     leaf \<leftarrow> leftmost_leaf t;
     is \<leftarrow> node_items leaf;
     Some (vec_get is 0)
   }"

definition tree_last :: "('t, 's) sum_tree \<Rightarrow> 't option run" where
  "tree_last t = do {
     leaf \<leftarrow> rightmost_leaf t;
     is \<leftarrow> node_items leaf;
     Some (vec_last is)
   }"

definition last_summary :: "('t, 's) sum_tree \<Rightarrow> 's option run" where
  "last_summary t = do {
     leaf \<leftarrow> rightmost_leaf t;
     Some (vec_last (child_summaries leaf))
   }"

subsection \<open>Appending\<close>

text \<open>The midpoint at which an overfull node is split.\<close>

definition midpoint :: "nat \<Rightarrow> nat" where
  "midpoint child_count = (child_count + child_count mod 2) div 2"

text \<open>Both halves of a leaf or of an internal node, from the concatenated items (subtrees) and
  summaries.\<close>

definition split_leaf ::
  "('t, 's) sops \<Rightarrow> nat \<Rightarrow> 't list \<Rightarrow> 's list \<Rightarrow> (('t, 's) sum_tree \<times> ('t, 's) sum_tree) run" where
  "split_leaf cx m all_items all_summaries = do {
     left_items \<leftarrow> fits (take m all_items);
     right_items \<leftarrow> fits (drop m all_items);
     left_summaries \<leftarrow> fits (take m all_summaries);
     right_summaries \<leftarrow> fits (drop m all_summaries);
     Some (Leaf (sum_summaries cx left_summaries) left_items left_summaries,
           Leaf (sum_summaries cx right_summaries) right_items right_summaries)
   }"

definition split_internal ::
  "('t, 's) sops \<Rightarrow> nat \<Rightarrow> nat \<Rightarrow> ('t, 's) sum_tree list \<Rightarrow> 's list \<Rightarrow>
     (('t, 's) sum_tree \<times> ('t, 's) sum_tree) run" where
  "split_internal cx h m all_trees all_summaries = do {
     left_summaries \<leftarrow> fits (take m all_summaries);
     right_summaries \<leftarrow> fits (drop m all_summaries);
     left_trees \<leftarrow> fits (take m all_trees);
     right_trees \<leftarrow> fits (drop m all_trees);
     Some (Internal h (sum_summaries cx left_summaries) left_summaries left_trees,
           Internal h (sum_summaries cx right_summaries) right_summaries right_trees)
   }"

text \<open>The end of the internal case of \<open>push_tree_recursive\<close>: put the new children behind the old ones
  and split the node if it becomes too large.\<close>

definition push_children ::
  "('t, 's) sops \<Rightarrow> nat \<Rightarrow> 's \<Rightarrow> 's list \<Rightarrow> ('t, 's) sum_tree list \<Rightarrow> 's list \<Rightarrow>
     ('t, 's) sum_tree list \<Rightarrow> (('t, 's) sum_tree \<times> ('t, 's) sum_tree option) run" where
  "push_children cx h s ss ts summaries_to_append trees_to_append =
     (let child_count = length ts + length trees_to_append
      in if child_count > 2 * TREE_BASE then do {
           (l, r) \<leftarrow> split_internal cx h (midpoint child_count)
                       (ts @ trees_to_append) (ss @ summaries_to_append);
           Some (l, Some r)
         } else do {
           ss2 \<leftarrow> fits (ss @ summaries_to_append);
           ts2 \<leftarrow> fits (ts @ trees_to_append);
           Some (Internal h s ss2 ts2, None)
         })"

text \<open>\<open>push_tree_recursive\<close> returns the updated node and the node split off, if any.\<close>

fun push_tree_recursive ::
  "('t, 's) sops \<Rightarrow> ('t, 's) sum_tree \<Rightarrow> ('t, 's) sum_tree \<Rightarrow>
     (('t, 's) sum_tree \<times> ('t, 's) sum_tree option) run" where
  "push_tree_recursive cx (Internal h s ss ts) other =
     (let s1 = add_summary cx s (tree_summary other);
          height_delta = int h - int (tree_height other)
      in Option.bind
           (if height_delta = 0 then
              map_option (\<lambda>cts. (ss, ts, child_summaries other, cts)) (child_trees other)
            else if height_delta = 1 \<and> \<not> is_underflowing other then
              Some (ss, ts, [tree_summary other], [other])
            else
              (case vec_last ts of
                 None \<Rightarrow> None
               | Some c \<Rightarrow>
                   Option.bind (push_tree_recursive cx c other)
                     (\<lambda>(c1, split).
                        if ss = [] then None
                        else Some (butlast ss @ [tree_summary c1], butlast ts @ [c1],
                                   (case split of None \<Rightarrow> [] | Some t \<Rightarrow> [tree_summary t]),
                                   (case split of None \<Rightarrow> [] | Some t \<Rightarrow> [t])))))
           (\<lambda>(ss1, ts1, summaries_to_append, trees_to_append).
              push_children cx h s1 ss1 ts1 summaries_to_append trees_to_append))"
| "push_tree_recursive cx (Leaf s is ss) other =
     Option.bind (node_items other) (\<lambda>other_items.
       let child_count = length is + length other_items
       in if child_count > 2 * TREE_BASE then
            Option.bind
              (split_leaf cx (midpoint child_count) (is @ other_items) (ss @ child_summaries other))
              (\<lambda>(l, r). Some (l, Some r))
          else
            Option.bind (fits (is @ other_items)) (\<lambda>is2.
            Option.bind (fits (ss @ child_summaries other)) (\<lambda>ss2.
              Some (Leaf (add_summary cx s (tree_summary other)) is2 ss2, None))))"

text \<open>\<open>merge_into_right\<close> puts \<open>small\<close> in front of \<open>large\<close>; it returns \<open>large\<close> and the node split off
  to its left, if any.\<close>

fun merge_into_right ::
  "('t, 's) sops \<Rightarrow> ('t, 's) sum_tree \<Rightarrow> ('t, 's) sum_tree \<Rightarrow>
     (('t, 's) sum_tree \<times> ('t, 's) sum_tree option) run" where
  "merge_into_right cx (Internal h0 s0 ss0 ts0) (Internal h s ss ts) =
     (let total = length ts + length ts0
      in if total \<le> 2 * TREE_BASE then do {
           all_trees \<leftarrow> fits (ts0 @ ts);
           all_summaries \<leftarrow> fits (ss0 @ ss);
           Some (Internal h (add_summary cx s0 s) all_summaries all_trees, None)
         } else do {
           (l, r) \<leftarrow> split_internal cx h ((total + 1) div 2) (ts0 @ ts) (ss0 @ ss);
           Some (r, Some l)
         })"
| "merge_into_right cx (Leaf s0 is0 ss0) (Leaf s is ss) =
     (let total = length is0 + length is
      in if total \<le> 2 * TREE_BASE then do {
           all_items \<leftarrow> fits (is0 @ is);
           all_summaries \<leftarrow> fits (ss0 @ ss);
           Some (Leaf (add_summary cx s0 s) all_items all_summaries, None)
         } else do {
           (l, r) \<leftarrow> split_leaf cx ((total + 1) div 2) (is0 @ is) (ss0 @ ss);
           Some (r, Some l)
         })"
| "merge_into_right cx _ _ = None"

text \<open>\<open>append_large\<close> puts a lower tree in front of a higher one; it returns the higher tree and the
  node left over to its left, if any.\<close>

fun append_large ::
  "('t, 's) sops \<Rightarrow> ('t, 's) sum_tree \<Rightarrow> ('t, 's) sum_tree \<Rightarrow>
     (('t, 's) sum_tree \<times> ('t, 's) sum_tree option) run" where
  "append_large cx small (Leaf s is ss) =
     (if tree_height small = 0 then
        if \<not> is_underflowing small then Some (Leaf s is ss, Some small)
        else merge_into_right cx small (Leaf s is ss)
      else None)"
| "append_large cx small (Internal h s ss ts) =
     (if tree_height small = h then
        if \<not> is_underflowing small then Some (Internal h s ss ts, Some small)
        else merge_into_right cx small (Internal h s ss ts)
      else
        (case ts of
           [] \<Rightarrow> None
         | first # rest \<Rightarrow>
             Option.bind (append_large cx small first) (\<lambda>(first1, res).
               if ss = [] then None
               else
                 let s1 = add_summary cx (tree_summary small) s;
                     ss1 = tree_summary first1 # tl ss;
                     ts1 = first1 # rest
                 in (case res of
                       None \<Rightarrow> Some (Internal h s1 ss1 ts1, None)
                     | Some tree \<Rightarrow>
                         if length ts1 < 2 * TREE_BASE then
                           Some (Internal h s1 (tree_summary tree # ss1) (tree # ts1), None)
                         else
                           let new_ss = tree_summary tree # take TREE_BASE ss1;
                               rest_ss = drop TREE_BASE ss1
                           in Some (Internal h (sum_summaries cx rest_ss) rest_ss (drop TREE_BASE ts1),
                                    Some (Internal h (sum_summaries cx new_ss) new_ss
                                            (tree # take TREE_BASE ts1)))))))"

definition tree_append ::
  "('t, 's) sops \<Rightarrow> ('t, 's) sum_tree \<Rightarrow> ('t, 's) sum_tree \<Rightarrow> ('t, 's) sum_tree run" where
  "tree_append cx self other =
     (if tree_is_empty self then Some other
      else if tree_is_empty other then Some self
      else if tree_height self < tree_height other then do {
        (other1, res) \<leftarrow> append_large cx self other;
        Some (case res of Some tree \<Rightarrow> from_child_trees cx tree other1 | None \<Rightarrow> other1)
      } else do {
        (self1, split) \<leftarrow> push_tree_recursive cx self other;
        Some (case split of Some t \<Rightarrow> from_child_trees cx self1 t | None \<Rightarrow> self1)
      })"

definition tree_push :: "('t, 's) sops \<Rightarrow> ('t, 's) sum_tree \<Rightarrow> 't \<Rightarrow> ('t, 's) sum_tree run" where
  "tree_push cx self item =
     (let summary = item_summary cx item
      in tree_append cx self (Leaf summary [item] [summary]))"

definition from_item :: "('t, 's) sops \<Rightarrow> 't \<Rightarrow> ('t, 's) sum_tree run" where
  "from_item cx item = tree_push cx (tree_new cx) item"


subsection \<open>Bulk construction\<close>

function chunks :: "nat \<Rightarrow> 'a list \<Rightarrow> 'a list list" where
  "chunks n xs = (if n = 0 \<or> xs = [] then [] else take n xs # chunks n (drop n xs))"
  by pat_completeness auto
termination
  by (relation "measure (length \<circ> snd)") auto

declare chunks.simps [simp del]

text \<open>A leaf over at most \<open>2 * TREE_BASE\<close> items: its summary starts from the first item's, not from
  zero (\<open>item_summaries[0]\<close> panics on an empty chunk).\<close>

definition leaf_of_items :: "('t, 's) sops \<Rightarrow> 't list \<Rightarrow> ('t, 's) sum_tree run" where
  "leaf_of_items cx xs =
     (case map (item_summary cx) xs of
        [] \<Rightarrow> None
      | s # ss \<Rightarrow> Some (Leaf (foldl (add_summary cx) s ss) xs (s # ss)))"

fun mapM :: "('a \<Rightarrow> 'b run) \<Rightarrow> 'a list \<Rightarrow> 'b list run" where
  "mapM f [] = Some []"
| "mapM f (x # xs) = do { y \<leftarrow> f x; ys \<leftarrow> mapM f xs; Some (y # ys) }"

text \<open>One level of \<open>from_iter\<close>: children are pushed into a current parent, which is closed when full.\<close>

fun group_parents ::
  "('t, 's) sops \<Rightarrow> nat \<Rightarrow> ('s \<times> 's list \<times> ('t, 's) sum_tree list) option \<Rightarrow>
     ('t, 's) sum_tree list \<Rightarrow> ('t, 's) sum_tree list" where
  "group_parents cx h current [] =
     (case current of None \<Rightarrow> [] | Some (s, ss, ts) \<Rightarrow> [Internal h s ss ts])"
| "group_parents cx h current (child # children) =
     (let (s, ss, ts) = (case current of None \<Rightarrow> (zero_summary cx, [], []) | Some p \<Rightarrow> p);
          s1 = add_summary cx s (tree_summary child);
          ss1 = ss @ [tree_summary child];
          ts1 = ts @ [child]
      in if length ts1 = 2 * TREE_BASE
         then Internal h s1 ss1 ts1 # group_parents cx h None children
         else group_parents cx h (Some (s1, ss1, ts1)) children)"

lemma length_group_parents:
  "case current of None \<Rightarrow> k = 0 | Some (s, ss, ts) \<Rightarrow> k = length ts \<and> 0 < k \<and> k < 2 * TREE_BASE \<Longrightarrow>
   length (group_parents cx h current children) * 12 \<le> k + length children + 11"
proof (induction children arbitrary: current k)
  case Nil
  then show ?case by (auto simp: Suc_le_eq split: option.splits)
next
  case (Cons c cs)
  let ?s = "case current of None \<Rightarrow> zero_summary cx | Some (s, ss, ts) \<Rightarrow> s"
  let ?ss = "case current of None \<Rightarrow> [] | Some (s, ss, ts) \<Rightarrow> ss"
  let ?ts = "case current of None \<Rightarrow> [] | Some (s, ss, ts) \<Rightarrow> ts"
  have k: "length ?ts = k" "k < 12" using Cons.prems by (auto simp: TREE_BASE_def split: option.splits)
  have eq: "(case current of None \<Rightarrow> (zero_summary cx, [], []) | Some p \<Rightarrow> p) = (?s, ?ss, ?ts)"
    by (auto split: option.split)
  show ?case
  proof (cases "Suc k = 2 * TREE_BASE")
    case True
    with Cons.IH [of 0 None] k show ?thesis by (simp add: eq TREE_BASE_def)
  next
    case False
    with Cons.IH [of "Suc k" "Some (add_summary cx ?s (tree_summary c), ?ss @ [tree_summary c], ?ts @ [c])"] k
    show ?thesis by (simp add: eq TREE_BASE_def)
  qed
qed

text \<open>The loop over the levels; \<open>nodes\<close> is the current level.\<close>

function build_levels ::
  "('t, 's) sops \<Rightarrow> nat \<Rightarrow> ('t, 's) sum_tree list \<Rightarrow> ('t, 's) sum_tree" where
  "build_levels cx h nodes =
     (if length nodes > 1 then build_levels cx (h + 1) (group_parents cx (h + 1) None nodes)
      else case nodes of [] \<Rightarrow> tree_new cx | t # _ \<Rightarrow> t)"
  by pat_completeness auto
termination
proof (relation "measure (\<lambda>(cx, h, nodes). length nodes)", simp)
  fix cx :: "('t, 's) sops" and h :: nat and nodes :: "('t, 's) sum_tree list"
  assume "1 < length nodes"
  with length_group_parents [where current = None and k = 0 and cx = cx and h = "h + 1" and children = nodes]
  show "((cx, h + 1, group_parents cx (h + 1) None nodes), cx, h, nodes)
      \<in> measure (\<lambda>(cx, h, nodes). length nodes)"
    by simp
qed

declare build_levels.simps [simp del]

definition from_iter :: "('t, 's) sops \<Rightarrow> 't list \<Rightarrow> ('t, 's) sum_tree run" where
  "from_iter cx xs = do {
     nodes \<leftarrow> mapM (leaf_of_items cx) (chunks (2 * TREE_BASE) xs);
     Some (build_levels cx 0 nodes)
   }"

text \<open>\<open>from_par_iter\<close> builds each level by chunking it; a parent's summary starts from its first
  child's.\<close>

definition parent_of_chunk ::
  "('t, 's) sops \<Rightarrow> nat \<Rightarrow> ('t, 's) sum_tree list \<Rightarrow> ('t, 's) sum_tree run" where
  "parent_of_chunk cx h ts =
     (case map tree_summary ts of
        [] \<Rightarrow> None
      | s # ss \<Rightarrow> Some (Internal h (foldl (add_summary cx) s ss) (s # ss) ts))"

lemma length_chunks: "0 < n \<Longrightarrow> length (chunks n xs) * n \<le> length xs + n - 1"
proof (induction n xs rule: chunks.induct)
  case (1 n xs)
  show ?case
  proof (cases "xs = []")
    case True
    then show ?thesis by (simp add: chunks.simps [of n])
  next
    case False
    then have "length (chunks n xs) = Suc (length (chunks n (drop n xs)))"
      using 1(2) by (simp add: chunks.simps [of n xs])
    moreover have "length (chunks n (drop n xs)) * n \<le> length xs - n + n - 1"
      using 1 False by simp
    moreover have "Suc 0 \<le> length xs" using False by (simp add: Suc_le_eq)
    moreover have "chunks n (drop n xs) = []" if "length xs \<le> n"
      using that by (simp add: chunks.simps [of n])
    ultimately show ?thesis using 1(2) by (cases "length xs \<le> n") simp_all
  qed
qed

lemma length_mapM: "mapM f xs = Some ys \<Longrightarrow> length ys = length xs"
  by (induction xs arbitrary: ys) (auto simp: bind_eq_Some_conv)

function build_levels_par ::
  "('t, 's) sops \<Rightarrow> nat \<Rightarrow> ('t, 's) sum_tree list \<Rightarrow> ('t, 's) sum_tree run" where
  "build_levels_par cx h nodes =
     (if length nodes > 1 then
        (case mapM (parent_of_chunk cx (h + 1)) (chunks (2 * TREE_BASE) nodes) of
           None \<Rightarrow> None
         | Some parents \<Rightarrow> build_levels_par cx (h + 1) parents)
      else Some (case nodes of [] \<Rightarrow> tree_new cx | t # _ \<Rightarrow> t))"
  by pat_completeness auto
termination
proof (relation "measure (\<lambda>(cx, h, nodes). length nodes)", simp)
  fix cx :: "('t, 's) sops" and h :: nat and nodes parents :: "('t, 's) sum_tree list"
  assume "1 < length nodes"
    and "mapM (parent_of_chunk cx (h + 1)) (chunks (2 * TREE_BASE) nodes) = Some parents"
  with length_chunks [of "2 * TREE_BASE" nodes] length_mapM
  show "((cx, h + 1, parents), cx, h, nodes) \<in> measure (\<lambda>(cx, h, nodes). length nodes)"
    by (fastforce simp: TREE_BASE_def)
qed

declare build_levels_par.simps [simp del]

definition from_par_iter :: "('t, 's) sops \<Rightarrow> 't list \<Rightarrow> ('t, 's) sum_tree run" where
  "from_par_iter cx xs = do {
     nodes \<leftarrow> mapM (leaf_of_items cx) (chunks (2 * TREE_BASE) xs);
     build_levels_par cx 0 nodes
   }"

definition tree_extend :: "('t, 's) sops \<Rightarrow> ('t, 's) sum_tree \<Rightarrow> 't list \<Rightarrow> ('t, 's) sum_tree run" where
  "tree_extend cx self xs = do {
     other \<leftarrow> from_iter cx xs;
     tree_append cx self other
   }"

definition par_extend :: "('t, 's) sops \<Rightarrow> ('t, 's) sum_tree \<Rightarrow> 't list \<Rightarrow> ('t, 's) sum_tree run" where
  "par_extend cx self xs = do {
     other \<leftarrow> from_par_iter cx xs;
     tree_append cx self other
   }"

subsection \<open>Updating the first and the last item\<close>

text \<open>The recursive workers return the updated node and its new summary; an empty leaf returns none.\<close>

fun update_last_recursive ::
  "('t, 's) sops \<Rightarrow> ('t \<Rightarrow> 't) \<Rightarrow> ('t, 's) sum_tree \<Rightarrow> (('t, 's) sum_tree \<times> 's option) run" where
  "update_last_recursive cx f (Internal h s ss ts) =
     (case vec_last ts of
        None \<Rightarrow> None
      | Some c \<Rightarrow>
          if ss = [] then None
          else Option.bind (update_last_recursive cx f c) (\<lambda>(c1, res).
            case res of
              None \<Rightarrow> None
            | Some s1 \<Rightarrow>
                let ss1 = butlast ss @ [s1]; s2 = sum_summaries cx ss1
                in Some (Internal h s2 ss1 (butlast ts @ [c1]), Some s2)))"
| "update_last_recursive cx f (Leaf s is ss) =
     (if is = [] \<or> ss = [] then Some (Leaf s is ss, None)
      else
        let item = f (last is);
            ss1 = butlast ss @ [item_summary cx item];
            s1 = sum_summaries cx ss1
        in Some (Leaf s1 (butlast is @ [item]) ss1, Some s1))"

fun update_first_recursive ::
  "('t, 's) sops \<Rightarrow> ('t \<Rightarrow> 't) \<Rightarrow> ('t, 's) sum_tree \<Rightarrow> (('t, 's) sum_tree \<times> 's option) run" where
  "update_first_recursive cx f (Internal h s ss []) = None"
| "update_first_recursive cx f (Internal h s ss (c # ts)) =
     (if ss = [] then None
      else Option.bind (update_first_recursive cx f c) (\<lambda>(c1, res).
        case res of
          None \<Rightarrow> None
        | Some s1 \<Rightarrow>
            let ss1 = s1 # tl ss; s2 = sum_summaries cx ss1
            in Some (Internal h s2 ss1 (c1 # ts), Some s2)))"
| "update_first_recursive cx f (Leaf s is ss) =
     (if is = [] \<or> ss = [] then Some (Leaf s is ss, None)
      else
        let item = f (hd is);
            ss1 = item_summary cx item # tl ss;
            s1 = sum_summaries cx ss1
        in Some (Leaf s1 (item # tl is) ss1, Some s1))"

definition update_last :: "('t, 's) sops \<Rightarrow> ('t \<Rightarrow> 't) \<Rightarrow> ('t, 's) sum_tree \<Rightarrow> ('t, 's) sum_tree run" where
  "update_last cx f t = map_option fst (update_last_recursive cx f t)"

definition update_first :: "('t, 's) sops \<Rightarrow> ('t \<Rightarrow> 't) \<Rightarrow> ('t, 's) sum_tree \<Rightarrow> ('t, 's) sum_tree run" where
  "update_first cx f t = map_option fst (update_first_recursive cx f t)"

subsection \<open>The item sequence and the well-formedness of a tree\<close>

fun tree_items :: "('t, 's) sum_tree \<Rightarrow> 't list" where
  "tree_items (Internal h s ss ts) = concat (map tree_items ts)"
| "tree_items (Leaf s is ss) = is"

definition items_summary :: "('t, 's) sops \<Rightarrow> 't list \<Rightarrow> 's" where
  "items_summary cx is = sum_summaries cx (map (item_summary cx) is)"

text \<open>Every node is non-empty and within its capacity, all leaves are at the same depth, and every
  cached summary is the sum of what it stands for. Minimal fill is not part of the invariant:
  \<open>from_iter\<close> may leave the last node of a level with a single child.\<close>

fun wf_node :: "('t, 's) sops \<Rightarrow> ('t, 's) sum_tree \<Rightarrow> bool" where
  "wf_node cx (Internal h s ss ts) \<longleftrightarrow>
     ts \<noteq> [] \<and> length ts \<le> 2 * TREE_BASE \<and> ss = map tree_summary ts \<and> s = sum_summaries cx ss
     \<and> (\<forall>t \<in> set ts. wf_node cx t \<and> h = Suc (tree_height t))"
| "wf_node cx (Leaf s is ss) \<longleftrightarrow>
     is \<noteq> [] \<and> length is \<le> 2 * TREE_BASE \<and> ss = map (item_summary cx) is
     \<and> s = sum_summaries cx ss"

definition wf_tree :: "('t, 's) sops \<Rightarrow> ('t, 's) sum_tree \<Rightarrow> bool" where
  "wf_tree cx t \<longleftrightarrow> wf_node cx t \<or> (\<exists>s. t = Leaf s [] [])"

lemma wf_node_imp_tree [simp]: "wf_node cx t \<Longrightarrow> wf_tree cx t"
  by (simp add: wf_tree_def)

lemma wf_node_nonempty: "wf_node cx t \<Longrightarrow> tree_items t \<noteq> []"
  by (induction cx t rule: wf_node.induct) (auto simp: neq_Nil_conv)

lemma wf_node_not_empty [simp]: "wf_node cx t \<Longrightarrow> \<not> tree_is_empty t"
  by (cases t) auto

lemma wf_tree_cases:
  assumes "wf_tree cx t"
  obtains (empty) s where "t = Leaf s [] []" "tree_items t = []" | (node) "wf_node cx t"
  using assms by (auto simp: wf_tree_def)

lemma wf_tree_is_empty: "wf_tree cx t \<Longrightarrow> tree_is_empty t \<longleftrightarrow> tree_items t = []"
  by (auto elim!: wf_tree_cases dest: wf_node_nonempty)

lemma wf_tree_new [simp]: "wf_tree cx (tree_new cx)" "tree_items (tree_new cx) = []"
  by (simp_all add: wf_tree_def tree_new_def)

lemma wf_node_height0: "wf_node cx t \<Longrightarrow> tree_height t = 0 \<longleftrightarrow> is_leaf t"
  by (cases t) (auto simp: neq_Nil_conv)

lemma fits_Some [simp]: "length xs \<le> 2 * TREE_BASE \<Longrightarrow> fits xs = Some xs"
  by (simp add: fits_def)

lemma midpoint_bounds:
  assumes "n > 2 * TREE_BASE" "n \<le> 4 * TREE_BASE"
  shows "0 < midpoint n" "midpoint n < n" "midpoint n \<le> 2 * TREE_BASE" "n - midpoint n \<le> 2 * TREE_BASE"
  using assms unfolding midpoint_def TREE_BASE_def by linarith+

lemma half_bounds:
  assumes "n > 2 * TREE_BASE" "n \<le> 4 * TREE_BASE"
  shows "0 < (n + 1) div 2" "(n + 1) div 2 < n" "(n + 1) div 2 \<le> 2 * TREE_BASE"
    "n - (n + 1) div 2 \<le> 2 * TREE_BASE"
  using assms unfolding TREE_BASE_def by linarith+

subsection \<open>The laws of summaries\<close>

text \<open>What the tree needs of a \<^verbatim>\<open>Summary\<close>: addition is associative and the zero is neutral on the
  left. Neutrality on the right is not required, and the summaries that keep the last key do not
  have it.\<close>

locale summary_laws =
  fixes cx :: "('t, 's) sops"
  assumes add_assoc: "add_summary cx (add_summary cx a b) c = add_summary cx a (add_summary cx b c)"
    and zero_left: "add_summary cx (zero_summary cx) a = a"
begin

lemma foldl_add: "foldl (add_summary cx) (add_summary cx a b) xs = add_summary cx a (foldl (add_summary cx) b xs)"
  by (induction xs arbitrary: b) (simp_all add: add_assoc)

lemma sum_Nil: "sum_summaries cx [] = zero_summary cx"
  by (simp add: sum_summaries_def)

lemma sum_single [simp]: "sum_summaries cx [a] = a"
  by (simp add: sum_summaries_def zero_left)

lemma sum_append:
  assumes "ys \<noteq> []"
  shows "sum_summaries cx (xs @ ys) = add_summary cx (sum_summaries cx xs) (sum_summaries cx ys)"
proof -
  from assms obtain y zs where ys: "ys = y # zs" by (cases ys) auto
  show ?thesis
    by (simp add: ys sum_summaries_def foldl_add [symmetric] zero_left)
qed

lemma sum_concat:
  assumes "\<forall>xs \<in> set xss. xs \<noteq> []"
  shows "sum_summaries cx (concat xss) = sum_summaries cx (map (sum_summaries cx) xss)"
  using assms
proof (induction xss rule: rev_induct)
  case (snoc xs xss)
  then show ?case by (simp add: sum_append)
qed simp

lemma items_summary_append:
  "ys \<noteq> [] \<Longrightarrow> items_summary cx (xs @ ys) = add_summary cx (items_summary cx xs) (items_summary cx ys)"
  by (simp add: items_summary_def sum_append)

lemma items_summary_concat:
  assumes "\<forall>xs \<in> set xss. xs \<noteq> []"
  shows "items_summary cx (concat xss) = sum_summaries cx (map (items_summary cx) xss)"
  using assms sum_concat [of "map (map (item_summary cx)) xss"]
  by (simp add: items_summary_def [abs_def] map_concat comp_def)

text \<open>The cached summary of a node is the sum of the summaries of its items.\<close>

lemma tree_summary_items: "wf_node cx t \<Longrightarrow> tree_summary t = items_summary cx (tree_items t)"
proof (induction t)
  case (Internal h s ss ts)
  then have "map tree_summary ts = map (items_summary cx) (map tree_items ts)"
    by simp
  moreover have "items_summary cx (concat (map tree_items ts)) = sum_summaries cx (map (items_summary cx) (map tree_items ts))"
    using Internal.prems by (intro items_summary_concat) (auto dest: wf_node_nonempty)
  ultimately show ?case
    using Internal.prems by (simp only: wf_node.simps tree_summary.simps tree_items.simps)
next
  case (Leaf s its ss)
  then show ?case by (simp add: items_summary_def)
qed

definition wf_children :: "nat \<Rightarrow> ('t, 's) sum_tree list \<Rightarrow> bool" where
  "wf_children h ts \<longleftrightarrow> (\<forall>t \<in> set ts. wf_node cx t \<and> h = Suc (tree_height t))"

lemma wf_children_simps [simp]:
  "wf_children h []"
  "wf_children h (t # ts) \<longleftrightarrow> wf_node cx t \<and> h = Suc (tree_height t) \<and> wf_children h ts"
  "wf_children h (ts @ us) \<longleftrightarrow> wf_children h ts \<and> wf_children h us"
  by (auto simp: wf_children_def)

lemma wf_children_take_drop:
  "wf_children h ts \<Longrightarrow> wf_children h (take m ts)" "wf_children h ts \<Longrightarrow> wf_children h (drop m ts)"
  by (auto simp: wf_children_def dest: in_set_takeD in_set_dropD)

lemma sum_children:
  "wf_children h ts \<Longrightarrow> sum_summaries cx (map tree_summary ts) = items_summary cx (concat (map tree_items ts))"
  by (subst items_summary_concat)
    (auto simp: wf_children_def tree_summary_items wf_node_nonempty intro!: arg_cong [where f = "sum_summaries cx"])

lemma wf_internal_iff:
  "wf_node cx (Internal h s ss ts) \<longleftrightarrow>
     ts \<noteq> [] \<and> length ts \<le> 2 * TREE_BASE \<and> ss = map tree_summary ts \<and> wf_children h ts
     \<and> s = items_summary cx (concat (map tree_items ts))"
  using sum_children [of h ts] by (auto simp: wf_children_def)

subsection \<open>Splitting and joining nodes\<close>

text \<open>The contract shared by the functions that return a node and possibly a second one beside it.\<close>

definition joined :: "nat \<Rightarrow> 't list \<Rightarrow> ('t, 's) sum_tree \<Rightarrow> ('t, 's) sum_tree option \<Rightarrow> bool" where
  "joined h xs t split \<longleftrightarrow>
     wf_node cx t \<and> tree_height t = h
     \<and> (case split of
          None \<Rightarrow> tree_items t = xs
        | Some r \<Rightarrow> wf_node cx r \<and> tree_height r = h \<and> tree_items t @ tree_items r = xs)"

lemma split_internal_ok:
  assumes "wf_children h ts" "0 < m" "m < length ts" "m \<le> 2 * TREE_BASE" "length ts - m \<le> 2 * TREE_BASE"
  shows "\<exists>l r. split_internal cx h m ts (map tree_summary ts) = Some (l, r)
    \<and> wf_node cx l \<and> wf_node cx r \<and> tree_height l = h \<and> tree_height r = h
    \<and> tree_items l @ tree_items r = concat (map tree_items ts)"
proof -
  let ?l = "Internal h (sum_summaries cx (map tree_summary (take m ts))) (map tree_summary (take m ts)) (take m ts)"
  let ?r = "Internal h (sum_summaries cx (map tree_summary (drop m ts))) (map tree_summary (drop m ts)) (drop m ts)"
  have "split_internal cx h m ts (map tree_summary ts) = Some (?l, ?r)"
    using assms by (simp add: split_internal_def take_map drop_map)
  moreover have "wf_node cx ?l" "wf_node cx ?r"
    using assms wf_children_take_drop [of h ts m] by (auto simp: wf_children_def)
  moreover have "tree_items ?l @ tree_items ?r = concat (map tree_items ts)"
    by (simp flip: concat_append map_append)
  ultimately show ?thesis by (metis tree_height.simps(1))
qed

lemma split_leaf_ok:
  assumes "0 < m" "m < length xs" "m \<le> 2 * TREE_BASE" "length xs - m \<le> 2 * TREE_BASE"
  shows "\<exists>l r. split_leaf cx m xs (map (item_summary cx) xs) = Some (l, r)
    \<and> wf_node cx l \<and> wf_node cx r \<and> tree_height l = 0 \<and> tree_height r = 0
    \<and> tree_items l @ tree_items r = xs"
  using assms by (auto simp: split_leaf_def take_map drop_map)

lemma push_children_ok:
  assumes "wf_children h ts" "ts \<noteq> []" "length ts \<le> 2 * TREE_BASE"
    and "wf_children h us" "length us \<le> 2 * TREE_BASE"
    and "s = items_summary cx (concat (map tree_items (ts @ us)))"
  shows "\<exists>t split. push_children cx h s (map tree_summary ts) ts (map tree_summary us) us = Some (t, split)
    \<and> joined h (concat (map tree_items (ts @ us))) t split"
proof (cases "length ts + length us > 2 * TREE_BASE")
  case True
  let ?m = "midpoint (length ts + length us)"
  have b: "0 < ?m" "?m < length (ts @ us)" "?m \<le> 2 * TREE_BASE" "length (ts @ us) - ?m \<le> 2 * TREE_BASE"
    using midpoint_bounds [OF True] assms by auto
  obtain l r where "split_internal cx h ?m (ts @ us) (map tree_summary (ts @ us)) = Some (l, r)"
    "wf_node cx l" "wf_node cx r" "tree_height l = h" "tree_height r = h"
    "tree_items l @ tree_items r = concat (map tree_items (ts @ us))"
    using split_internal_ok [of h "ts @ us" ?m] assms b by auto
  with True show ?thesis
    by (simp add: push_children_def joined_def)
next
  case False
  then have "push_children cx h s (map tree_summary ts) ts (map tree_summary us) us =
      Some (Internal h s (map tree_summary (ts @ us)) (ts @ us), None)"
    by (simp add: push_children_def)
  moreover have "wf_node cx (Internal h s (map tree_summary (ts @ us)) (ts @ us))"
    using False assms by (simp only: wf_internal_iff) auto
  ultimately show ?thesis
    by (simp add: joined_def del: wf_node.simps)
qed

lemma push_leaf_ok:
  assumes "wf_node cx (Leaf s xs ss)" "wf_node cx (Leaf s' ys ss')"
  shows "\<exists>t split. push_tree_recursive cx (Leaf s xs ss) (Leaf s' ys ss') = Some (t, split)
    \<and> joined 0 (xs @ ys) t split"
proof (cases "length xs + length ys > 2 * TREE_BASE")
  case True
  let ?m = "midpoint (length xs + length ys)"
  have b: "0 < ?m" "?m < length (xs @ ys)" "?m \<le> 2 * TREE_BASE" "length (xs @ ys) - ?m \<le> 2 * TREE_BASE"
    using midpoint_bounds [OF True] assms by auto
  from split_leaf_ok [OF b] assms True show ?thesis
    by (auto simp: joined_def)
next
  case False
  with assms show ?thesis
    by (auto simp: joined_def sum_append)
qed

text \<open>What is appended at the top of the internal case, by the three branches of the code.\<close>

lemma push_tree_recursive_ok:
  "wf_node cx self \<Longrightarrow> wf_node cx other \<Longrightarrow> tree_height other \<le> tree_height self \<Longrightarrow>
   \<exists>t split. push_tree_recursive cx self other = Some (t, split)
     \<and> joined (tree_height self) (tree_items self @ tree_items other) t split"
proof (induction self)
  case (Leaf s xs ss)
  then obtain s' ys ss' where "other = Leaf s' ys ss'"
    using wf_node_height0 [of cx other] by (cases other) auto
  with Leaf show ?case using push_leaf_ok by simp
next
  case (Internal h s ss ts)
  have w: "wf_children h ts" "ts \<noteq> []" "length ts \<le> 2 * TREE_BASE" "ss = map tree_summary ts"
    "s = items_summary cx (concat (map tree_items ts))"
    using Internal.prems(1) by (simp_all only: wf_internal_iff not_False_eq_True)
  have s1: "add_summary cx s (tree_summary other) =
      items_summary cx (concat (map tree_items ts) @ tree_items other)"
    using w Internal.prems(2) by (simp add: items_summary_append wf_node_nonempty tree_summary_items)
  consider (same) "tree_height other = h"
    | (child) "Suc (tree_height other) = h" "\<not> is_underflowing other"
    | (deep) "tree_height other < h" "Suc (tree_height other) \<noteq> h \<or> is_underflowing other"
    using Internal.prems(3) by fastforce
  then show ?case
  proof cases
    case same
    with w have "h \<noteq> 0" by (cases ts) auto
    with same obtain s' ss' us where o: "other = Internal h s' ss' us" by (cases other) auto
    then have us: "wf_children h us" "length us \<le> 2 * TREE_BASE" "ss' = map tree_summary us"
      using Internal.prems(2) by (simp_all only: wf_internal_iff not_False_eq_True)
    show ?thesis
      using push_children_ok [OF w(1-3) us(1,2) refl] s1 w(4) us(3) o by simp
  next
    case child
    show ?thesis
      using push_children_ok [OF w(1-3), of "[other]"] s1 child w(4) Internal.prems(2)
      by (auto simp: TREE_BASE_def)
  next
    case deep
    from w(2) obtain us c where ts: "ts = us @ [c]" by (cases ts rule: rev_cases) auto
    with w have c: "wf_node cx c" "h = Suc (tree_height c)" by simp_all
    from deep c have "tree_height other \<le> tree_height c" by simp
    then obtain c1 split where step: "push_tree_recursive cx c other = Some (c1, split)"
      and j: "joined (tree_height c) (tree_items c @ tree_items other) c1 split"
      using Internal.IH [of c] ts c(1) Internal.prems(2) by auto
    let ?new = "case split of None \<Rightarrow> [] | Some t \<Rightarrow> [t]"
    have eq: "push_tree_recursive cx (Internal h s ss ts) other =
        push_children cx h (add_summary cx s (tree_summary other))
          (map tree_summary (us @ [c1])) (us @ [c1]) (map tree_summary ?new) ?new"
      using deep step ts w(4) by (auto simp: butlast_append split: option.split)
    have items: "concat (map tree_items ((us @ [c1]) @ ?new)) = concat (map tree_items ts) @ tree_items other"
      using j ts by (auto simp: joined_def split: option.splits)
    have "wf_children h (us @ [c1])" "us @ [c1] \<noteq> []" "length (us @ [c1]) \<le> 2 * TREE_BASE"
      "wf_children h ?new" "length ?new \<le> 2 * TREE_BASE"
      using j w ts c by (auto simp: joined_def TREE_BASE_def split: option.split)
    from push_children_ok [OF this, of "add_summary cx s (tree_summary other)"]
    show ?thesis using s1 by (simp only: eq items tree_items.simps tree_height.simps)
  qed
qed

lemma merge_into_right_ok:
  assumes "wf_node cx small" "wf_node cx large" "tree_height small = tree_height large"
  shows "\<exists>t split. merge_into_right cx small large = Some (t, split)
    \<and> wf_node cx t \<and> tree_height t = tree_height large
    \<and> (case split of
         None \<Rightarrow> tree_items t = tree_items small @ tree_items large
       | Some l \<Rightarrow> wf_node cx l \<and> tree_height l = tree_height large
           \<and> tree_items l @ tree_items t = tree_items small @ tree_items large)"
proof (cases large)
  case (Internal h s ss ts)
  then obtain s0 ss0 ts0 where small: "small = Internal h s0 ss0 ts0"
    using assms by (cases small) (auto simp: neq_Nil_conv)
  have w: "wf_children h ts" "ts \<noteq> []" "length ts \<le> 2 * TREE_BASE" "ss = map tree_summary ts"
    "s = items_summary cx (concat (map tree_items ts))"
    using assms(2) unfolding Internal by (simp_all only: wf_internal_iff not_False_eq_True)
  have w0: "wf_children h ts0" "ts0 \<noteq> []" "length ts0 \<le> 2 * TREE_BASE" "ss0 = map tree_summary ts0"
    "s0 = items_summary cx (concat (map tree_items ts0))"
    using assms(1) unfolding small by (simp_all only: wf_internal_iff not_False_eq_True)
  show ?thesis
  proof (cases "length ts + length ts0 \<le> 2 * TREE_BASE")
    case True
    have "wf_node cx (Internal h (add_summary cx s0 s) (map tree_summary (ts0 @ ts)) (ts0 @ ts))"
      using True w w0 wf_node_nonempty [OF assms(2)] Internal
      by (simp only: wf_internal_iff) (simp add: items_summary_append)
    with True Internal small w w0 show ?thesis by (simp del: wf_node.simps)
  next
    case False
    let ?m = "(length ts + length ts0 + 1) div 2"
    have b: "0 < ?m" "?m < length (ts0 @ ts)" "?m \<le> 2 * TREE_BASE" "length (ts0 @ ts) - ?m \<le> 2 * TREE_BASE"
      using half_bounds [of "length ts + length ts0"] False w w0 by auto
    obtain l r where "split_internal cx h ?m (ts0 @ ts) (map tree_summary (ts0 @ ts)) = Some (l, r)"
      "wf_node cx l" "wf_node cx r" "tree_height l = h" "tree_height r = h"
      "tree_items l @ tree_items r = concat (map tree_items (ts0 @ ts))"
      using split_internal_ok [of h "ts0 @ ts" ?m] w w0 b by auto
    with False Internal small w w0 show ?thesis by simp
  qed
next
  case (Leaf s xs ss)
  then obtain s0 ss0 xs0 where small: "small = Leaf s0 xs0 ss0"
    using assms by (cases small) (auto simp: neq_Nil_conv)
  show ?thesis
  proof (cases "length xs0 + length xs \<le> 2 * TREE_BASE")
    case True
    with assms Leaf small show ?thesis by (simp add: sum_append)
  next
    case False
    let ?m = "(length xs0 + length xs + 1) div 2"
    have b: "0 < ?m" "?m < length (xs0 @ xs)" "?m \<le> 2 * TREE_BASE" "length (xs0 @ xs) - ?m \<le> 2 * TREE_BASE"
      using half_bounds [of "length xs0 + length xs"] False assms Leaf small by auto
    from split_leaf_ok [OF b] assms False Leaf small show ?thesis by auto
  qed
qed

subsection \<open>Appending\<close>

lemma append_large_ok:
  "wf_node cx small \<Longrightarrow> wf_node cx large \<Longrightarrow> tree_height small \<le> tree_height large \<Longrightarrow>
   \<exists>t split. append_large cx small large = Some (t, split)
     \<and> wf_node cx t \<and> tree_height t = tree_height large
     \<and> (case split of
          None \<Rightarrow> tree_items t = tree_items small @ tree_items large
        | Some l \<Rightarrow> wf_node cx l \<and> tree_height l = tree_height large
            \<and> tree_items l @ tree_items t = tree_items small @ tree_items large)"
proof (induction large)
  case (Leaf s xs ss)
  then show ?case using merge_into_right_ok [of small "Leaf s xs ss"] by auto
next
  case (Internal h s ss ts)
  have w: "wf_children h ts" "ts \<noteq> []" "length ts \<le> 2 * TREE_BASE" "ss = map tree_summary ts"
    "s = items_summary cx (concat (map tree_items ts))"
    using Internal.prems(2) by (simp_all only: wf_internal_iff not_False_eq_True)
  show ?case
  proof (cases "tree_height small = h")
    case True
    then show ?thesis
      using Internal.prems merge_into_right_ok [OF Internal.prems(1,2)] by auto
  next
    case False
    from w(2) obtain c cs where ts: "ts = c # cs" by (cases ts) auto
    with w have c: "wf_node cx c" "h = Suc (tree_height c)" by simp_all
    with False Internal.prems have "tree_height small \<le> tree_height c" by simp
    then obtain c1 res where step: "append_large cx small c = Some (c1, res)"
      and c1: "wf_node cx c1" "tree_height c1 = tree_height c"
      and res: "case res of
          None \<Rightarrow> tree_items c1 = tree_items small @ tree_items c
        | Some l \<Rightarrow> wf_node cx l \<and> tree_height l = tree_height c
            \<and> tree_items l @ tree_items c1 = tree_items small @ tree_items c"
      using Internal.IH [of c] ts c Internal.prems(1) by auto
    have s1: "add_summary cx (tree_summary small) s =
        items_summary cx (tree_items small @ concat (map tree_items ts))"
      using w ts c Internal.prems(1)
      by (simp add: items_summary_append tree_summary_items wf_node_nonempty)
    have kids: "wf_children h (c1 # cs)" using w ts c c1 by simp
    show ?thesis
    proof (cases res)
      case None
      have "wf_node cx (Internal h (add_summary cx (tree_summary small) s)
          (map tree_summary (c1 # cs)) (c1 # cs))"
        using kids w ts res None s1 by (simp only: wf_internal_iff) simp
      with None False step ts w(4) res show ?thesis by (simp del: wf_node.simps)
    next
      case (Some tree)
      with res c have tree: "wf_children h [tree]" by simp
      have items: "concat (map tree_items (tree # c1 # cs)) = tree_items small @ concat (map tree_items ts)"
        using res Some ts by simp
      show ?thesis
      proof (cases "length ts < 2 * TREE_BASE")
        case True
        have "wf_node cx (Internal h (add_summary cx (tree_summary small) s)
            (map tree_summary (tree # c1 # cs)) (tree # c1 # cs))"
          using kids tree w ts True s1 items by (simp only: wf_internal_iff) auto
        with True Some False step ts w(4) items show ?thesis by (simp del: wf_node.simps)
      next
        case full: False
        let ?l = "tree # take TREE_BASE (c1 # cs)" and ?r = "drop TREE_BASE (c1 # cs)"
        have len: "length (c1 # cs) = 12" using full w ts by (simp add: TREE_BASE_def)
        have "wf_children h ?l" "wf_children h ?r"
          using wf_children_take_drop [OF kids, of TREE_BASE] tree by simp_all
        then have "wf_node cx (Internal h (sum_summaries cx (map tree_summary ?l)) (map tree_summary ?l) ?l)"
          "wf_node cx (Internal h (sum_summaries cx (map tree_summary ?r)) (map tree_summary ?r) ?r)"
          using len by (simp_all only: wf_internal_iff sum_children) (simp_all add: TREE_BASE_def)
        moreover have "append_large cx small (Internal h s ss ts) =
            Some (Internal h (sum_summaries cx (map tree_summary ?r)) (map tree_summary ?r) ?r,
              Some (Internal h (sum_summaries cx (map tree_summary ?l)) (map tree_summary ?l) ?l))"
          using full Some False step ts w(4)
          by (simp add: Let_def TREE_BASE_def take_Cons' drop_Cons' take_map drop_map)
        moreover have "concat (map tree_items ?l) @ concat (map tree_items ?r)
            = tree_items small @ concat (map tree_items ts)"
          using items by (simp flip: concat_append map_append)
        ultimately show ?thesis by (simp del: wf_node.simps)
      qed
    qed
  qed
qed

lemma from_child_trees_ok:
  assumes "wf_node cx l" "wf_node cx r" "tree_height l = tree_height r"
  shows "wf_node cx (from_child_trees cx l r)"
    and "tree_items (from_child_trees cx l r) = tree_items l @ tree_items r"
  using assms by (simp_all add: from_child_trees_def Let_def TREE_BASE_def)

lemma tree_append_ok:
  assumes "wf_tree cx a" "wf_tree cx b"
  shows "\<exists>t. tree_append cx a b = Some t \<and> wf_tree cx t \<and> tree_items t = tree_items a @ tree_items b"
proof (cases "tree_is_empty a \<or> tree_is_empty b")
  case True
  then show ?thesis
    using assms wf_tree_is_empty [OF assms(1)] wf_tree_is_empty [OF assms(2)]
    by (auto simp: tree_append_def)
next
  case False
  with assms have n: "wf_node cx a" "wf_node cx b" by (auto elim!: wf_tree_cases)
  show ?thesis
  proof (cases "tree_height a < tree_height b")
    case True
    then obtain t split where "append_large cx a b = Some (t, split)" "wf_node cx t"
      "tree_height t = tree_height b"
      and sp: "case split of
          None \<Rightarrow> tree_items t = tree_items a @ tree_items b
        | Some l \<Rightarrow> wf_node cx l \<and> tree_height l = tree_height b
            \<and> tree_items l @ tree_items t = tree_items a @ tree_items b"
      using append_large_ok [OF n] by auto
    with True False from_child_trees_ok show ?thesis
      by (cases split) (auto simp: tree_append_def)
  next
    case le: False
    then obtain t split where "push_tree_recursive cx a b = Some (t, split)"
      and "joined (tree_height a) (tree_items a @ tree_items b) t split"
      using push_tree_recursive_ok [OF n] by auto
    with le False from_child_trees_ok show ?thesis
      by (cases split) (auto simp: tree_append_def joined_def)
  qed
qed

lemma wf_singleton: "wf_node cx (Leaf (item_summary cx x) [x] [item_summary cx x])"
  by (simp add: TREE_BASE_def)

lemma tree_push_ok:
  assumes "wf_tree cx a"
  shows "\<exists>t. tree_push cx a x = Some t \<and> wf_tree cx t \<and> tree_items t = tree_items a @ [x]"
  using tree_append_ok [OF assms wf_node_imp_tree [OF wf_singleton [of x]]]
  by (simp add: tree_push_def Let_def)

subsection \<open>Bulk construction\<close>

lemma foldl_from_first: "foldl (add_summary cx) s ss = sum_summaries cx (s # ss)"
  by (simp add: sum_summaries_def zero_left)

lemma mapM_leaf_of_items:
  assumes "\<forall>xs \<in> set xss. xs \<noteq> [] \<and> length xs \<le> 2 * TREE_BASE"
  shows "\<exists>nodes. mapM (leaf_of_items cx) xss = Some nodes \<and> wf_children (Suc 0) nodes
    \<and> concat (map tree_items nodes) = concat xss"
  using assms
proof (induction xss)
  case (Cons xs xss)
  then obtain x ys where "xs = x # ys" by (cases xs) auto
  with Cons show ?case
    by (auto simp: leaf_of_items_def foldl_from_first)
qed simp

lemma chunks_props:
  "0 < n \<Longrightarrow> concat (chunks n xs) = xs \<and> (\<forall>ys \<in> set (chunks n xs). ys \<noteq> [] \<and> length ys \<le> n)"
proof (induction n xs rule: chunks.induct)
  case (1 n xs)
  then show ?case by (cases "xs = []") (simp_all add: chunks.simps [of n "[]"] chunks.simps [of n xs])
qed

lemma group_parents_ok:
  assumes "case current of None \<Rightarrow> pre = []
      | Some (s, ss, ts) \<Rightarrow> ts = pre \<and> ts \<noteq> [] \<and> ss = map tree_summary ts \<and> s = sum_summaries cx ss
          \<and> length ts < 2 * TREE_BASE"
    and "wf_children h (pre @ children)"
  shows "wf_children (Suc h) (group_parents cx h current children)
    \<and> concat (map tree_items (group_parents cx h current children)) = concat (map tree_items (pre @ children))"
  using assms
proof (induction children arbitrary: current pre)
  case Nil
  then show ?case
    by (auto simp: wf_children_def split: option.splits)
next
  case (Cons c cs)
  let ?sum = "\<lambda>ts. sum_summaries cx (map tree_summary ts)"
  have cur: "(case current of None \<Rightarrow> (zero_summary cx, [], []) | Some p \<Rightarrow> p) =
      (?sum pre, map tree_summary pre, pre)" "length pre < 2 * TREE_BASE"
    using Cons.prems(1) by (auto simp: sum_Nil TREE_BASE_def split: option.splits)
  have s1: "add_summary cx (?sum pre) (tree_summary c) = ?sum (pre @ [c])"
    by (simp add: sum_append)
  show ?case
  proof (cases "Suc (length pre) = 2 * TREE_BASE")
    case True
    have "wf_children h cs" using Cons.prems(2) by auto
    with Cons.IH [of "[]" None] have IH: "wf_children (Suc h) (group_parents cx h None cs)"
      "concat (map tree_items (group_parents cx h None cs)) = concat (map tree_items cs)"
      by simp_all
    have "wf_node cx (Internal h (?sum (pre @ [c])) (map tree_summary (pre @ [c])) (pre @ [c]))"
      using Cons.prems(2) True by (auto simp: wf_children_def)
    with True cur s1 IH show ?thesis by (simp add: Let_def del: wf_node.simps)
  next
    case False
    let ?cur = "Some (?sum (pre @ [c]), map tree_summary (pre @ [c]), pre @ [c])"
    have "group_parents cx h current (c # cs) = group_parents cx h ?cur cs"
      using False cur s1 by (simp add: Let_def)
    moreover have "wf_children (Suc h) (group_parents cx h ?cur cs)
        \<and> concat (map tree_items (group_parents cx h ?cur cs)) = concat (map tree_items ((pre @ [c]) @ cs))"
      using Cons.prems(2) False cur by (intro Cons.IH) auto
    ultimately show ?thesis by simp
  qed
qed

lemma build_levels_ok:
  "wf_children (Suc h) nodes \<Longrightarrow>
   wf_tree cx (build_levels cx h nodes) \<and> tree_items (build_levels cx h nodes) = concat (map tree_items nodes)"
proof (induction nodes arbitrary: h rule: measure_induct_rule [of length])
  case (less nodes)
  show ?case
  proof (cases "length nodes > 1")
    case True
    let ?up = "group_parents cx (h + 1) None nodes"
    have "length ?up < length nodes"
      using length_group_parents [where current = None and k = 0 and cx = cx and h = "h + 1" and children = nodes] True
      by simp
    moreover have "wf_children (Suc (Suc h)) ?up" "concat (map tree_items ?up) = concat (map tree_items nodes)"
      using group_parents_ok [of "[]" None "Suc h" nodes] less.prems by simp_all
    ultimately show ?thesis
      using True less.IH [of ?up "h + 1"] by (simp add: build_levels.simps [of cx h nodes])
  next
    case False
    then show ?thesis
      using less.prems build_levels.simps [of cx h nodes] by (cases nodes) auto
  qed
qed

lemma from_iter_ok: "\<exists>t. from_iter cx xs = Some t \<and> wf_tree cx t \<and> tree_items t = xs"
proof -
  have "\<forall>ys \<in> set (chunks (2 * TREE_BASE) xs). ys \<noteq> [] \<and> length ys \<le> 2 * TREE_BASE"
    and cat: "concat (chunks (2 * TREE_BASE) xs) = xs"
    using chunks_props [of "2 * TREE_BASE" xs] by (simp_all add: TREE_BASE_def)
  then obtain nodes where "mapM (leaf_of_items cx) (chunks (2 * TREE_BASE) xs) = Some nodes"
    "wf_children (Suc 0) nodes" "concat (map tree_items nodes) = xs"
    using mapM_leaf_of_items by metis
  with build_levels_ok [of 0 nodes] show ?thesis by (simp add: from_iter_def)
qed

lemma tree_extend_ok:
  assumes "wf_tree cx a"
  shows "\<exists>t. tree_extend cx a xs = Some t \<and> wf_tree cx t \<and> tree_items t = tree_items a @ xs"
  using from_iter_ok [of xs] tree_append_ok [OF assms] by (auto simp: tree_extend_def)

text \<open>Grouping children one by one is chunking.\<close>

lemma group_parents_chunks:
  assumes "case current of None \<Rightarrow> pre = []
      | Some (s, ss, ts) \<Rightarrow> ts = pre \<and> ts \<noteq> [] \<and> ss = map tree_summary ts \<and> s = sum_summaries cx ss
          \<and> length ts < 2 * TREE_BASE"
  shows "mapM (parent_of_chunk cx h) (chunks (2 * TREE_BASE) (pre @ children)) =
    Some (group_parents cx h current children)"
  using assms
proof (induction children arbitrary: current pre)
  case Nil
  show ?case
  proof (cases current)
    case None
    with Nil show ?thesis by (simp add: chunks.simps)
  next
    case (Some p)
    with Nil obtain t ts where "pre = t # ts" "length pre < 2 * TREE_BASE" by (cases pre) auto
    with Nil Some show ?thesis
      by (auto simp: chunks.simps [of _ "t # ts"] chunks.simps [of _ "[]"] parent_of_chunk_def
          foldl_from_first)
  qed
next
  case (Cons c cs)
  let ?sum = "\<lambda>ts. sum_summaries cx (map tree_summary ts)"
  have cur: "(case current of None \<Rightarrow> (zero_summary cx, [], []) | Some p \<Rightarrow> p) =
      (?sum pre, map tree_summary pre, pre)" and len: "length pre < 2 * TREE_BASE"
    using Cons.prems by (auto simp: sum_Nil TREE_BASE_def split: option.splits)
  have s1: "add_summary cx (?sum pre) (tree_summary c) = ?sum (pre @ [c])"
    by (simp add: sum_append)
  show ?case
  proof (cases "Suc (length pre) = 2 * TREE_BASE")
    case True
    have chunk: "chunks (2 * TREE_BASE) (pre @ c # cs) = (pre @ [c]) # chunks (2 * TREE_BASE) cs"
      using True [symmetric] by (simp add: chunks.simps [of _ "pre @ c # cs"] TREE_BASE_def)
    obtain t ts where pre: "pre @ [c] = t # ts" by (cases pre) auto
    have "parent_of_chunk cx h (pre @ [c]) = Some (Internal h (?sum (pre @ [c])) (map tree_summary (pre @ [c])) (pre @ [c]))"
      unfolding pre by (simp add: parent_of_chunk_def foldl_from_first)
    with chunk True cur s1 Cons.IH [of "[]" None] show ?thesis by (simp add: Let_def)
  next
    case False
    with len have "Suc (length pre) < 2 * TREE_BASE" by simp
    with False cur s1 Cons.IH [of "pre @ [c]" "Some (?sum (pre @ [c]), map tree_summary (pre @ [c]), pre @ [c])"]
    show ?thesis by (simp add: Let_def)
  qed
qed

lemma build_levels_par_eq: "build_levels_par cx h nodes = Some (build_levels cx h nodes)"
proof (induction nodes arbitrary: h rule: measure_induct_rule [of length])
  case (less nodes)
  let ?up = "group_parents cx (h + 1) None nodes"
  have "length ?up < length nodes" if "length nodes > 1"
    using length_group_parents [where current = None and k = 0 and cx = cx and h = "h + 1" and children = nodes] that
    by simp
  moreover have "mapM (parent_of_chunk cx (h + 1)) (chunks (2 * TREE_BASE) nodes) = Some ?up"
    using group_parents_chunks [of "[]" None] by simp
  ultimately show ?case
    using less.IH [of ?up "h + 1"]
    by (simp add: build_levels.simps [of cx h nodes] build_levels_par.simps [of cx h nodes])
qed

lemma from_par_iter_eq: "from_par_iter cx xs = from_iter cx xs"
  by (simp add: from_par_iter_def from_iter_def build_levels_par_eq)

subsection \<open>Ends of the sequence\<close>

lemma leftmost_leaf_ok:
  "wf_node cx t \<Longrightarrow> \<exists>s xs ss. leftmost_leaf t = Some (Leaf s xs ss) \<and> xs \<noteq> [] \<and> hd xs = hd (tree_items t)"
proof (induction t rule: leftmost_leaf.induct)
  case (3 h s ss t ts)
  then show ?case by (auto simp: hd_append wf_node_nonempty)
qed auto

lemma rightmost_leaf_ok:
  "wf_node cx t \<Longrightarrow>
   \<exists>s xs ss. rightmost_leaf t = Some (Leaf s xs ss) \<and> xs \<noteq> [] \<and> ss = map (item_summary cx) xs
     \<and> last xs = last (tree_items t)"
proof (induction t rule: rightmost_leaf.induct)
  case (2 h s ss ts)
  then obtain us c where ts: "ts = us @ [c]" by (cases ts rule: rev_cases) auto
  with 2 show ?case by (auto simp: wf_node_nonempty)
qed auto

lemma update_last_ok:
  "wf_node cx t \<Longrightarrow>
   \<exists>t'. update_last_recursive cx f t = Some (t', Some (tree_summary t')) \<and> wf_node cx t'
     \<and> tree_height t' = tree_height t
     \<and> tree_items t' = butlast (tree_items t) @ [f (last (tree_items t))]"
proof (induction t)
  case (Leaf s xs ss)
  then show ?case by (auto simp: map_butlast Let_def)
next
  case (Internal h s ss ts)
  then obtain us c where ts: "ts = us @ [c]" by (cases ts rule: rev_cases) auto
  with Internal obtain c' where "update_last_recursive cx f c = Some (c', Some (tree_summary c'))"
    "wf_node cx c'" "tree_height c' = tree_height c"
    "tree_items c' = butlast (tree_items c) @ [f (last (tree_items c))]" by auto
  with Internal.prems ts wf_node_nonempty [of cx c] show ?case
    by (auto simp: butlast_append Let_def)
qed

lemma update_first_ok:
  "wf_node cx t \<Longrightarrow>
   \<exists>t'. update_first_recursive cx f t = Some (t', Some (tree_summary t')) \<and> wf_node cx t'
     \<and> tree_height t' = tree_height t
     \<and> tree_items t' = f (hd (tree_items t)) # tl (tree_items t)"
proof (induction t)
  case (Leaf s xs ss)
  then show ?case by (cases xs) (auto simp: Let_def)
next
  case (Internal h s ss ts)
  then obtain c us where ts: "ts = c # us" by (cases ts) auto
  with Internal obtain c' where "update_first_recursive cx f c = Some (c', Some (tree_summary c'))"
    "wf_node cx c'" "tree_height c' = tree_height c"
    "tree_items c' = f (hd (tree_items c)) # tl (tree_items c)" by auto
  with Internal.prems ts wf_node_nonempty [of cx c] show ?case
    by (auto simp: Let_def hd_append tl_append split: list.split)
qed

end

subsection \<open>Properties\<close>

text \<open>A summary that counts the items, as the witnesses' instance.\<close>

definition count_sops :: "(nat, nat) sops" where
  "count_sops = \<lparr>item_summary = (\<lambda>_. 1), zero_summary = 0, add_summary = (+)\<rparr>"

interpretation count: summary_laws count_sops
  by unfold_locales (simp_all add: count_sops_def)

text \<open>(C15) \<open>SumTree::append\<close> never panics on well-formed trees (no fixed-capacity vector overflows, no
  empty node is unwrapped), whatever the two heights; the result is again height-balanced with
  exact cached summaries, and its items are those of the first tree followed by those of the
  second.\<close>

theorem tree_append_concatenates:
  assumes "summary_laws cx" and "wf_tree cx a" and "wf_tree cx b"
  shows "\<exists>t. tree_append cx a b = Some t \<and> wf_tree cx t \<and> tree_items t = tree_items a @ tree_items b"
  using summary_laws.tree_append_ok [OF assms] .

theorem tree_append_concatenates_witness:
  "\<exists>t. tree_append count_sops (Leaf 2 [7, 8] [1, 1]) (Leaf 1 [9] [1]) = Some t
     \<and> wf_tree count_sops t \<and> tree_items t = [7, 8, 9]"
  using tree_append_concatenates [OF count.summary_laws_axioms,
      of "Leaf 2 [7, 8] [1, 1]" "Leaf 1 [9] [1]"]
  by (simp add: count_sops_def sum_summaries_def TREE_BASE_def)

text \<open>(C19) Building a tree from a sequence gives a well-formed tree with exactly those items, and the
  parallel construction \<open>from_par_iter\<close> (which chunks every level) builds the very same tree as the
  sequential \<open>from_iter\<close> (which fills one parent after the other).\<close>

theorem from_iter_builds_sequence:
  assumes "summary_laws cx"
  shows "\<exists>t. from_iter cx xs = Some t \<and> from_par_iter cx xs = Some t \<and> wf_tree cx t \<and> tree_items t = xs"
  using summary_laws.from_iter_ok [OF assms] summary_laws.from_par_iter_eq [OF assms] by metis

theorem from_iter_builds_sequence_witness:
  "\<exists>t. from_iter count_sops [1, 2, 3] = Some t \<and> from_par_iter count_sops [1, 2, 3] = Some t
     \<and> wf_tree count_sops t \<and> tree_items t = [1, 2, 3]"
  by (rule from_iter_builds_sequence [OF count.summary_laws_axioms])

text \<open>(C20) In a well-formed tree the cached summary of the root is the sum of the summaries of all items
  in order, the first and the last item are found at the ends of the tree, and updating the last
  item in place changes just that item and keeps all cached summaries exact.\<close>

theorem tree_summary_and_ends:
  assumes "summary_laws cx" and "wf_node cx t"
  shows "tree_summary t = items_summary cx (tree_items t)
    \<and> tree_first t = Some (Some (hd (tree_items t))) \<and> tree_last t = Some (Some (last (tree_items t)))
    \<and> last_summary t = Some (Some (item_summary cx (last (tree_items t))))
    \<and> (\<exists>t'. update_last cx f t = Some t' \<and> wf_node cx t'
         \<and> tree_items t' = butlast (tree_items t) @ [f (last (tree_items t))])
    \<and> (\<exists>t'. update_first cx f t = Some t' \<and> wf_node cx t'
         \<and> tree_items t' = f (hd (tree_items t)) # tl (tree_items t))"
proof (intro conjI)
  show "tree_summary t = items_summary cx (tree_items t)"
    using summary_laws.tree_summary_items [OF assms] .
  obtain s xs ss where "leftmost_leaf t = Some (Leaf s xs ss)" "xs \<noteq> []" "hd xs = hd (tree_items t)"
    using summary_laws.leftmost_leaf_ok [OF assms] by blast
  then show "tree_first t = Some (Some (hd (tree_items t)))"
    by (simp add: tree_first_def vec_get_def hd_conv_nth)
  obtain s xs ss where l: "rightmost_leaf t = Some (Leaf s xs ss)" "xs \<noteq> []"
    "ss = map (item_summary cx) xs" "last xs = last (tree_items t)"
    using summary_laws.rightmost_leaf_ok [OF assms] by blast
  then show "tree_last t = Some (Some (last (tree_items t)))"
    and "last_summary t = Some (Some (item_summary cx (last (tree_items t))))"
    by (simp_all add: tree_last_def last_summary_def vec_last_def last_map)
  show "\<exists>t'. update_last cx f t = Some t' \<and> wf_node cx t'
      \<and> tree_items t' = butlast (tree_items t) @ [f (last (tree_items t))]"
    using summary_laws.update_last_ok [OF assms, of f] by (auto simp: update_last_def)
  show "\<exists>t'. update_first cx f t = Some t' \<and> wf_node cx t'
      \<and> tree_items t' = f (hd (tree_items t)) # tl (tree_items t)"
    using summary_laws.update_first_ok [OF assms, of f] by (auto simp: update_first_def)
qed

theorem tree_summary_and_ends_witness:
  "tree_last (Leaf (2 :: nat) [7, 8 :: nat] [1, 1]) = Some (Some 8)
   \<and> (\<exists>t'. update_last count_sops Suc (Leaf 2 [7, 8] [1, 1]) = Some t' \<and> tree_items t' = [7, 9])"
  using tree_summary_and_ends [OF count.summary_laws_axioms, of "Leaf 2 [7, 8] [1, 1]" Suc]
  by (auto simp: count_sops_def sum_summaries_def TREE_BASE_def)

end
