(* ===== verification/Sum_Find.thy ===== *)
theory Sum_Find
  imports Sum_Tree
begin

text \<open>
  Seeking in the B+ tree: dimensions, seek targets and the descents \<open>find\<close>, \<open>find_exact\<close> and
  \<open>find_with_prev\<close> of \<^verbatim>\<open>src/crates/sum_tree/src/sum_tree.rs\<close>. A dimension is a record of its zero
  and of adding a summary; a seek target is the function \<^verbatim>\<open>target.cmp(position)\<close>. The specification
  is the linear scan of the item sequence (\<open>scan\<close>); the locale \<open>seek_laws\<close> states what a descent by
  cached summaries needs of dimension and target.
\<close>

record ('s, 'd) dim =
  dim_zero :: "'d"
  dim_add :: "'d \<Rightarrow> 's \<Rightarrow> 'd"

type_synonym 'd target = "'d \<Rightarrow> ordering"

text \<open>\<open>comparison == Less || (comparison == Equal && bias == Left)\<close>: the target lies at or before the end
  of the child that was compared.\<close>

definition target_in :: "'d target \<Rightarrow> bias \<Rightarrow> 'd \<Rightarrow> bool" where
  "target_in target b d \<longleftrightarrow> target d = Less \<or> (target d = Equal \<and> b = Left)"

text \<open>\<open>entry_found\<close> of the leaf loop: the exact search wants equality.\<close>

definition entry_found :: "bool \<Rightarrow> 'd target \<Rightarrow> bias \<Rightarrow> 'd \<Rightarrow> bool" where
  "entry_found exact target b d = (if exact then target d = Equal else target_in target b d)"

text \<open>The loop over the items of a leaf: the reached position, and the item found with its end.\<close>

fun find_in_leaf ::
  "('s, 'd) dim \<Rightarrow> bool \<Rightarrow> 'd target \<Rightarrow> bias \<Rightarrow> 'd \<Rightarrow> ('t \<times> 's) list \<Rightarrow> 'd \<times> ('t \<times> 'd) option" where
  "find_in_leaf D exact target b pos [] = (pos, None)"
| "find_in_leaf D exact target b pos ((item, s) # rest) =
     (let child_end = dim_add D pos s
      in if entry_found exact target b child_end then (pos, Some (item, child_end))
         else find_in_leaf D exact target b child_end rest)"

text \<open>The loop over the children of an internal node: the position before the child to descend into.\<close>

fun find_child ::
  "('s, 'd) dim \<Rightarrow> 'd target \<Rightarrow> bias \<Rightarrow> 'd \<Rightarrow> (('t, 's) sum_tree \<times> 's) list \<Rightarrow>
     'd \<times> ('t, 's) sum_tree option" where
  "find_child D target b pos [] = (pos, None)"
| "find_child D target b pos ((child, s) # rest) =
     (let child_end = dim_add D pos s
      in if target_in target b child_end then (pos, Some child)
         else find_child D target b child_end rest)"

lemma find_child_mem:
  "find_child D target b pos cs = (pos', Some t) \<Longrightarrow> t \<in> fst ` set cs"
  by (induction D target b pos cs rule: find_child.induct) (force simp: Let_def split: if_splits)+

lemma find_child_size [termination_simp]:
  "(pos', Some t) = find_child D target b pos (zip ts ss) \<Longrightarrow> size t < Suc (n + size_list size ts)"
proof -
  assume "(pos', Some t) = find_child D target b pos (zip ts ss)"
  then have "t \<in> fst ` set (zip ts ss)" using find_child_mem by metis
  then have "t \<in> set ts" by (auto dest: set_zip_leftD)
  then have "size t \<le> size_list size ts" by (rule size_list_estimation' [OF _ order_refl])
  then show ?thesis by simp
qed

fun find_iterate ::
  "('s, 'd) dim \<Rightarrow> bool \<Rightarrow> 'd target \<Rightarrow> bias \<Rightarrow> 'd \<Rightarrow> ('t, 's) sum_tree \<Rightarrow> 'd \<times> ('t \<times> 'd) option" where
  "find_iterate D exact target b pos (Internal h s ss ts) =
     (case find_child D target b pos (zip ts ss) of
        (pos', Some child) \<Rightarrow> find_iterate D exact target b pos' child
      | (pos', None) \<Rightarrow> (pos', None))"
| "find_iterate D exact target b pos (Leaf s is ss) =
     find_in_leaf D exact target b pos (zip is ss)"

text \<open>\<open>find\<close> (\<open>exact\<close> false) and \<open>find_exact\<close>: start and end of the item found, and the item.\<close>

definition tree_find_gen ::
  "bool \<Rightarrow> ('s, 'd) dim \<Rightarrow> 'd target \<Rightarrow> bias \<Rightarrow> ('t, 's) sum_tree \<Rightarrow> 'd \<times> 'd \<times> 't option" where
  "tree_find_gen exact D target b t =
     (let tree_end = dim_add D (dim_zero D) (tree_summary t);
          comparison = target tree_end
      in if comparison = Greater \<or> (comparison = Equal \<and> b = Right)
         then (tree_end, tree_end, None)
         else (case find_iterate D exact target b (dim_zero D) t of
                 (pos, Some (item, e)) \<Rightarrow> (pos, e, Some item)
               | (pos, None) \<Rightarrow> (pos, pos, None)))"

definition tree_find ::
  "('s, 'd) dim \<Rightarrow> 'd target \<Rightarrow> bias \<Rightarrow> ('t, 's) sum_tree \<Rightarrow> 'd \<times> 'd \<times> 't option" where
  "tree_find = tree_find_gen False"

definition find_exact ::
  "('s, 'd) dim \<Rightarrow> 'd target \<Rightarrow> bias \<Rightarrow> ('t, 's) sum_tree \<Rightarrow> 'd \<times> 'd \<times> 't option" where
  "find_exact = tree_find_gen True"

text \<open>The variant that also returns the item before the one found.\<close>

fun find_prev_in_leaf ::
  "('s, 'd) dim \<Rightarrow> 'd target \<Rightarrow> bias \<Rightarrow> 'd \<Rightarrow> 't option \<Rightarrow> ('t \<times> 's) list \<Rightarrow>
     'd \<times> ('t option \<times> 't \<times> 'd) option" where
  "find_prev_in_leaf D target b pos prev [] = (pos, None)"
| "find_prev_in_leaf D target b pos prev ((item, s) # rest) =
     (let child_end = dim_add D pos s
      in if target_in target b child_end then (pos, Some (prev, item, child_end))
         else find_prev_in_leaf D target b child_end (Some item) rest)"

text \<open>Skipping a child remembers its last item (\<open>child_tree.last()\<close>, which panics on an empty node).\<close>

fun find_prev_child ::
  "('s, 'd) dim \<Rightarrow> 'd target \<Rightarrow> bias \<Rightarrow> 'd \<Rightarrow> 't option \<Rightarrow> (('t, 's) sum_tree \<times> 's) list \<Rightarrow>
     ('d \<times> 't option \<times> ('t, 's) sum_tree option) run" where
  "find_prev_child D target b pos prev [] = Some (pos, prev, None)"
| "find_prev_child D target b pos prev ((child, s) # rest) =
     (let child_end = dim_add D pos s
      in if target_in target b child_end then Some (pos, prev, Some child)
         else Option.bind (tree_last child) (\<lambda>l. find_prev_child D target b child_end l rest))"

lemma find_prev_child_mem:
  "find_prev_child D target b pos prev cs = Some (pos', prev', Some t) \<Longrightarrow> t \<in> fst ` set cs"
  by (induction D target b pos prev cs rule: find_prev_child.induct)
    (force simp: Let_def bind_eq_Some_conv split: if_splits)+

lemma find_prev_child_size [termination_simp]:
  "find_prev_child D target b pos prev (zip ts ss) = Some (pos', prev', Some t) \<Longrightarrow>
   size t < Suc (n + size_list size ts)"
proof -
  assume "find_prev_child D target b pos prev (zip ts ss) = Some (pos', prev', Some t)"
  then have "t \<in> fst ` set (zip ts ss)" by (rule find_prev_child_mem)
  then have "t \<in> set ts" by (auto dest: set_zip_leftD)
  then have "size t \<le> size_list size ts" by (rule size_list_estimation' [OF _ order_refl])
  then show ?thesis by simp
qed

fun find_with_prev_iterate ::
  "('s, 'd) dim \<Rightarrow> 'd target \<Rightarrow> bias \<Rightarrow> 'd \<Rightarrow> 't option \<Rightarrow> ('t, 's) sum_tree \<Rightarrow>
     ('d \<times> ('t option \<times> 't \<times> 'd) option) run" where
  "find_with_prev_iterate D target b pos prev (Internal h s ss ts) =
     (case find_prev_child D target b pos prev (zip ts ss) of
        None \<Rightarrow> None
      | Some (pos', prev', Some child) \<Rightarrow> find_with_prev_iterate D target b pos' prev' child
      | Some (pos', prev', None) \<Rightarrow> Some (pos', None))"
| "find_with_prev_iterate D target b pos prev (Leaf s is ss) =
     Some (find_prev_in_leaf D target b pos prev (zip is ss))"

definition find_with_prev ::
  "('s, 'd) dim \<Rightarrow> 'd target \<Rightarrow> bias \<Rightarrow> ('t, 's) sum_tree \<Rightarrow> ('d \<times> 'd \<times> ('t option \<times> 't) option) run" where
  "find_with_prev D target b t =
     (let tree_end = dim_add D (dim_zero D) (tree_summary t);
          comparison = target tree_end
      in if comparison = Greater \<or> (comparison = Equal \<and> b = Right)
         then Some (tree_end, tree_end, None)
         else Option.bind (find_with_prev_iterate D target b (dim_zero D) None t) (\<lambda>res.
           case res of
             (pos, Some (prev, item, e)) \<Rightarrow> Some (pos, e, Some (prev, item))
           | (pos, None) \<Rightarrow> Some (pos, pos, None)))"


subsection \<open>The specification: a linear scan\<close>

definition pos_after :: "('t, 's) sops \<Rightarrow> ('s, 'd) dim \<Rightarrow> 'd \<Rightarrow> 't list \<Rightarrow> 'd" where
  "pos_after cx D pos xs = foldl (\<lambda>d x. dim_add D d (item_summary cx x)) pos xs"

fun ends :: "('t, 's) sops \<Rightarrow> ('s, 'd) dim \<Rightarrow> 'd \<Rightarrow> 't list \<Rightarrow> 'd list" where
  "ends cx D pos [] = []"
| "ends cx D pos (x # xs) = (let e = dim_add D pos (item_summary cx x) in e # ends cx D e xs)"

text \<open>The first item at whose end the target has been reached, with the item before it.\<close>

fun scan_prev ::
  "('t, 's) sops \<Rightarrow> ('s, 'd) dim \<Rightarrow> ('d \<Rightarrow> bool) \<Rightarrow> 'd \<Rightarrow> 't option \<Rightarrow> 't list \<Rightarrow>
     'd \<times> ('t option \<times> 't \<times> 'd) option" where
  "scan_prev cx D hit pos prev [] = (pos, None)"
| "scan_prev cx D hit pos prev (x # xs) =
     (let e = dim_add D pos (item_summary cx x)
      in if hit e then (pos, Some (prev, x, e)) else scan_prev cx D hit e (Some x) xs)"

fun scan ::
  "('t, 's) sops \<Rightarrow> ('s, 'd) dim \<Rightarrow> ('d \<Rightarrow> bool) \<Rightarrow> 'd \<Rightarrow> 't list \<Rightarrow> 'd \<times> ('t \<times> 'd) option" where
  "scan cx D hit pos [] = (pos, None)"
| "scan cx D hit pos (x # xs) =
     (let e = dim_add D pos (item_summary cx x)
      in if hit e then (pos, Some (x, e)) else scan cx D hit e xs)"

text \<open>Once reached, the target stays reached along the sequence.\<close>

definition seek_ordered :: "('t, 's) sops \<Rightarrow> ('s, 'd) dim \<Rightarrow> ('d \<Rightarrow> bool) \<Rightarrow> 'd \<Rightarrow> 't list \<Rightarrow> bool" where
  "seek_ordered cx D hit pos xs \<longleftrightarrow> sorted_wrt (\<lambda>d e. hit d \<longrightarrow> hit e) (ends cx D pos xs)"

lemma pos_after_simps [simp]:
  "pos_after cx D pos [] = pos"
  "pos_after cx D pos (x # xs) = pos_after cx D (dim_add D pos (item_summary cx x)) xs"
  "pos_after cx D pos (xs @ ys) = pos_after cx D (pos_after cx D pos xs) ys"
  by (simp_all add: pos_after_def)

lemma ends_append [simp]: "ends cx D pos (xs @ ys) = ends cx D pos xs @ ends cx D (pos_after cx D pos xs) ys"
  by (induction xs arbitrary: pos) (simp_all add: Let_def)

lemma last_ends: "xs \<noteq> [] \<Longrightarrow> ends cx D pos xs \<noteq> [] \<and> last (ends cx D pos xs) = pos_after cx D pos xs"
  by (induction xs arbitrary: pos rule: list_nonempty_induct) (auto simp: Let_def)

lemma seek_ordered_append:
  assumes "seek_ordered cx D hit pos (xs @ ys)"
  shows "seek_ordered cx D hit pos xs" "seek_ordered cx D hit (pos_after cx D pos xs) ys"
  using assms by (simp_all add: seek_ordered_def sorted_wrt_append)

lemma seek_ordered_not_reached:
  assumes "seek_ordered cx D hit pos xs" "\<not> hit (pos_after cx D pos xs)"
  shows "\<forall>e \<in> set (ends cx D pos xs). \<not> hit e"
proof (cases "xs = []")
  case False
  then obtain es where "ends cx D pos xs = es @ [pos_after cx D pos xs]"
    using last_ends [of xs cx D pos] by (metis append_butlast_last_id)
  with assms show ?thesis by (auto simp: seek_ordered_def sorted_wrt_append)
qed simp

lemma scan_skip:
  "\<forall>e \<in> set (ends cx D pos xs). \<not> hit e \<Longrightarrow>
   scan cx D hit pos (xs @ ys) = scan cx D hit (pos_after cx D pos xs) ys"
  by (induction xs arbitrary: pos) (auto simp: Let_def)

lemma scan_prev_skip:
  "\<forall>e \<in> set (ends cx D pos xs). \<not> hit e \<Longrightarrow>
   scan_prev cx D hit pos prev (xs @ ys) =
     scan_prev cx D hit (pos_after cx D pos xs) (if xs = [] then prev else Some (last xs)) ys"
  by (induction xs arbitrary: pos prev) (auto simp: Let_def)

lemma scan_hit:
  "xs \<noteq> [] \<Longrightarrow> hit (pos_after cx D pos xs) \<Longrightarrow> scan cx D hit pos (xs @ ys) = scan cx D hit pos xs"
  by (induction xs arbitrary: pos rule: list_nonempty_induct) (auto simp: Let_def)

lemma scan_prev_hit:
  "xs \<noteq> [] \<Longrightarrow> hit (pos_after cx D pos xs) \<Longrightarrow>
   scan_prev cx D hit pos prev (xs @ ys) = scan_prev cx D hit pos prev xs"
  by (induction xs arbitrary: pos prev rule: list_nonempty_induct) (auto simp: Let_def)

lemma scan_prev_scan:
  "scan cx D hit pos xs = (p, r) \<Longrightarrow> \<exists>r'. scan_prev cx D hit pos prev xs = (p, r') \<and> r = map_option snd r'"
  by (induction xs arbitrary: pos prev) (auto simp: Let_def split: if_splits)

text \<open>What the scan returns: the sequence splits at the item found.\<close>

lemma scan_Some:
  "scan cx D hit pos xs = (p, Some (x, e)) \<Longrightarrow>
   \<exists>ys zs. xs = ys @ x # zs \<and> p = pos_after cx D pos ys \<and> e = dim_add D p (item_summary cx x)
     \<and> hit e \<and> (\<forall>d \<in> set (ends cx D pos ys). \<not> hit d)"
proof (induction xs arbitrary: pos)
  case (Cons y xs)
  let ?e = "dim_add D pos (item_summary cx y)"
  show ?case
  proof (cases "hit ?e")
    case True
    with Cons.prems show ?thesis by (intro exI [of _ "[]"] exI [of _ xs]) (auto simp: Let_def)
  next
    case False
    with Cons.prems obtain ys zs where "xs = ys @ x # zs" "p = pos_after cx D ?e ys"
      "e = dim_add D p (item_summary cx x)" "hit e" "\<forall>d \<in> set (ends cx D ?e ys). \<not> hit d"
      using Cons.IH [of ?e] by (auto simp: Let_def)
    with False show ?thesis by (intro exI [of _ "y # ys"] exI [of _ zs]) (auto simp: Let_def)
  qed
qed simp

lemma scan_None:
  "scan cx D hit pos xs = (p, None) \<Longrightarrow>
   p = pos_after cx D pos xs \<and> (\<forall>d \<in> set (ends cx D pos xs). \<not> hit d)"
  by (induction xs arbitrary: pos) (auto simp: Let_def split: if_splits)

lemma scan_none_hit:
  "\<forall>d \<in> set (ends cx D pos xs). \<not> hit d \<Longrightarrow> scan cx D hit pos xs = (pos_after cx D pos xs, None)"
  using scan_skip [of cx D pos xs hit "[]"] by simp

subsection \<open>Descending by cached summaries\<close>

locale seek_laws = summary_laws cx
  for cx :: "('t, 's) sops" +
  fixes D :: "('s, 'd) dim"
  assumes dim_add_add: "dim_add D d (add_summary cx a b) = dim_add D (dim_add D d a) b"
begin

lemma dim_add_foldl: "dim_add D d (foldl (add_summary cx) s ss) = foldl (dim_add D) (dim_add D d s) ss"
  by (induction ss rule: rev_induct) (simp_all add: dim_add_add)

lemma dim_add_items:
  assumes "xs \<noteq> []"
  shows "dim_add D d (items_summary cx xs) = pos_after cx D d xs"
proof -
  from assms obtain x ys where xs: "xs = x # ys" by (cases xs) auto
  have "foldl (dim_add D) d (map (item_summary cx) zs) = pos_after cx D d zs" for d zs
    by (induction zs arbitrary: d) simp_all
  then show ?thesis
    by (simp add: xs items_summary_def sum_summaries_def zero_left dim_add_foldl)
qed

lemma dim_add_tree: "wf_node cx t \<Longrightarrow> dim_add D d (tree_summary t) = pos_after cx D d (tree_items t)"
  by (simp add: tree_summary_items dim_add_items wf_node_nonempty)

lemma find_in_leaf_scan:
  "find_in_leaf D False target b pos (zip xs (map (item_summary cx) xs)) = scan cx D (target_in target b) pos xs"
  by (induction xs arbitrary: pos) (simp_all add: Let_def entry_found_def)

lemma find_prev_in_leaf_scan:
  "find_prev_in_leaf D target b pos prev (zip xs (map (item_summary cx) xs)) =
     scan_prev cx D (target_in target b) pos prev xs"
  by (induction xs arbitrary: pos prev) (simp_all add: Let_def)

lemma find_iterate_scan:
  "wf_node cx t \<Longrightarrow> seek_ordered cx D (target_in target b) pos (tree_items t) \<Longrightarrow>
   find_iterate D False target b pos t = scan cx D (target_in target b) pos (tree_items t)"
proof (induction t arbitrary: pos)
  case (Leaf s xs ss)
  then show ?case by (simp add: find_in_leaf_scan)
next
  case (Internal h s ss ts)
  let ?hit = "target_in target b"
  have "(case find_child D target b pos (zip us (map tree_summary us)) of
      (pos', Some child) \<Rightarrow> find_iterate D False target b pos' child
    | (pos', None) \<Rightarrow> (pos', None)) = scan cx D ?hit pos (concat (map tree_items us))"
    if "set us \<subseteq> set ts" "seek_ordered cx D ?hit pos (concat (map tree_items us))" for us pos
    using that
  proof (induction us arbitrary: pos)
    case (Cons t us)
    then have t: "t \<in> set ts" "wf_node cx t" using Internal.prems(1) by auto
    have ord: "seek_ordered cx D ?hit pos (tree_items t)"
      "seek_ordered cx D ?hit (pos_after cx D pos (tree_items t)) (concat (map tree_items us))"
      using seek_ordered_append [of cx D ?hit pos "tree_items t"] Cons.prems(2) by simp_all
    show ?case
    proof (cases "?hit (pos_after cx D pos (tree_items t))")
      case True
      then show ?thesis
        using t ord Internal.IH [of t pos]
        by (simp add: Let_def dim_add_tree scan_hit wf_node_nonempty)
    next
      case False
      then show ?thesis
        using t ord Cons seek_ordered_not_reached [OF ord(1)]
        by (simp add: Let_def dim_add_tree scan_skip)
    qed
  qed simp
  from this [of ts pos] Internal.prems show ?case by simp
qed

lemma tree_last_ok: "wf_node cx t \<Longrightarrow> tree_last t = Some (Some (last (tree_items t)))"
  using rightmost_leaf_ok [of t] by (auto simp: tree_last_def vec_last_def)

lemma find_with_prev_iterate_scan:
  "wf_node cx t \<Longrightarrow> seek_ordered cx D (target_in target b) pos (tree_items t) \<Longrightarrow>
   find_with_prev_iterate D target b pos prev t = Some (scan_prev cx D (target_in target b) pos prev (tree_items t))"
proof (induction t arbitrary: pos prev)
  case (Leaf s xs ss)
  then show ?case by (simp add: find_prev_in_leaf_scan)
next
  case (Internal h s ss ts)
  let ?hit = "target_in target b"
  have "(case find_prev_child D target b pos prev (zip us (map tree_summary us)) of
      None \<Rightarrow> None
    | Some (pos', prev', Some child) \<Rightarrow> find_with_prev_iterate D target b pos' prev' child
    | Some (pos', prev', None) \<Rightarrow> Some (pos', None))
    = Some (scan_prev cx D ?hit pos prev (concat (map tree_items us)))"
    if "set us \<subseteq> set ts" "seek_ordered cx D ?hit pos (concat (map tree_items us))" for us pos prev
    using that
  proof (induction us arbitrary: pos prev)
    case (Cons t us)
    then have t: "t \<in> set ts" "wf_node cx t" using Internal.prems(1) by auto
    have ord: "seek_ordered cx D ?hit pos (tree_items t)"
      "seek_ordered cx D ?hit (pos_after cx D pos (tree_items t)) (concat (map tree_items us))"
      using seek_ordered_append [of cx D ?hit pos "tree_items t"] Cons.prems(2) by simp_all
    show ?case
    proof (cases "?hit (pos_after cx D pos (tree_items t))")
      case True
      then show ?thesis
        using t ord Internal.IH [of t pos prev]
        by (simp add: Let_def dim_add_tree scan_prev_hit wf_node_nonempty)
    next
      case False
      then show ?thesis
        using t ord Cons seek_ordered_not_reached [OF ord(1)] wf_node_nonempty [OF t(2)]
        by (simp add: Let_def dim_add_tree scan_prev_skip tree_last_ok)
    qed
  qed simp
  from this [of ts pos prev] Internal.prems show ?case by simp
qed

text \<open>The early exit of \<open>find\<close> agrees with a scan that finds nothing.\<close>

lemma early_exit:
  assumes "wf_node cx t" "seek_ordered cx D (target_in target b) (dim_zero D) (tree_items t)"
    and "target (dim_add D (dim_zero D) (tree_summary t)) = Greater
      \<or> target (dim_add D (dim_zero D) (tree_summary t)) = Equal \<and> b = Right"
  shows "scan cx D (target_in target b) (dim_zero D) (tree_items t) =
    (dim_add D (dim_zero D) (tree_summary t), None)"
proof -
  have "\<not> target_in target b (pos_after cx D (dim_zero D) (tree_items t))"
    using assms(3) by (auto simp: target_in_def dim_add_tree [OF assms(1)])
  from scan_none_hit [OF seek_ordered_not_reached [OF assms(2) this]]
  show ?thesis by (simp add: dim_add_tree [OF assms(1)])
qed

lemma tree_find_scan:
  assumes "wf_node cx t" "seek_ordered cx D (target_in target b) (dim_zero D) (tree_items t)"
  shows "tree_find D target b t =
    (case scan cx D (target_in target b) (dim_zero D) (tree_items t) of
       (pos, Some (item, e)) \<Rightarrow> (pos, e, Some item)
     | (pos, None) \<Rightarrow> (pos, pos, None))"
  using early_exit [OF assms] find_iterate_scan [OF assms]
  by (auto simp: tree_find_def tree_find_gen_def Let_def)

lemma find_with_prev_scan:
  assumes "wf_node cx t" "seek_ordered cx D (target_in target b) (dim_zero D) (tree_items t)"
  shows "find_with_prev D target b t = Some
    (case scan_prev cx D (target_in target b) (dim_zero D) None (tree_items t) of
       (pos, Some (prev, item, e)) \<Rightarrow> (pos, e, Some (prev, item))
     | (pos, None) \<Rightarrow> (pos, pos, None))"
proof (cases "target (dim_add D (dim_zero D) (tree_summary t)) = Greater
    \<or> target (dim_add D (dim_zero D) (tree_summary t)) = Equal \<and> b = Right")
  case True
  from scan_prev_scan [OF early_exit [OF assms True], of None] True show ?thesis
    by (auto simp: find_with_prev_def Let_def)
next
  case False
  then show ?thesis
    by (auto simp: find_with_prev_def Let_def find_with_prev_iterate_scan [OF assms]
        split: option.split prod.split)
qed

end

text \<open>The dimension that counts items.\<close>

definition count_dim :: "(nat, nat) dim" where
  "count_dim = \<lparr>dim_zero = 0, dim_add = (+)\<rparr>"

interpretation count_seek: seek_laws count_sops count_dim
  by unfold_locales (simp add: count_dim_def count_sops_def)

text \<open>(C17) Searching by summaries is searching linearly: on a well-formed tree, \<open>find\<close> returns the start
  and end position of, and, the first item at whose end the target has been reached, or the end of the
  tree; \<open>find_with_prev\<close> does not panic and returns in addition the item before it, whichever leaf that
  item is in.\<close>

theorem find_is_linear_scan:
  assumes "seek_laws cx D" "wf_node cx t" "seek_ordered cx D (target_in target b) (dim_zero D) (tree_items t)"
  shows "tree_find D target b t =
      (case scan cx D (target_in target b) (dim_zero D) (tree_items t) of
         (pos, Some (item, e)) \<Rightarrow> (pos, e, Some item)
       | (pos, None) \<Rightarrow> (pos, pos, None))
    \<and> find_with_prev D target b t = Some
      (case scan_prev cx D (target_in target b) (dim_zero D) None (tree_items t) of
         (pos, Some (prev, item, e)) \<Rightarrow> (pos, e, Some (prev, item))
       | (pos, None) \<Rightarrow> (pos, pos, None))"
  using seek_laws.tree_find_scan [OF assms] seek_laws.find_with_prev_scan [OF assms] by simp

theorem find_is_linear_scan_witness:
  "let t = Internal 1 3 [2, 1] [Leaf 2 [7, 8] [1, 1], Leaf 1 [9 :: nat] [1 :: nat]]
   in tree_find count_dim (cmp 2) Right t = (2, 3, Some 9)
      \<and> find_with_prev count_dim (cmp 2) Right t = Some (2, 3, Some (Some 8, 9))"
  using find_is_linear_scan [OF count_seek.seek_laws_axioms,
      of "Internal 1 3 [2, 1] [Leaf 2 [7, 8] [1, 1], Leaf 1 [9] [1]]" "cmp 2" Right]
  by (simp add: count_sops_def count_dim_def seek_ordered_def target_in_def cmp_def sum_summaries_def TREE_BASE_def Let_def)

end
