(* ===== verification/Sum_Cursor.thy ===== *)
theory Sum_Cursor
  imports Sum_Find
begin

text \<open>
  The cursor of \<^verbatim>\<open>src/crates/sum_tree/src/cursor.rs\<close>: a path from the root to a leaf kept as a stack
  of nodes and child indices (at most 16 deep), with the position reached. \<open>seek_internal\<close> moves it
  forward, feeding what it passes to an aggregate (nothing, a summary, or a new tree); \<open>next\<close> and
  \<open>search_forward\<close> step to the next item. The stack is a list whose head is the top.

  The loops are partial functions whose value \<open>None\<close> is a panic or non-termination; the lemmas show
  that on well-formed trees they return, and that the cursor then stands where a scan of the item
  sequence would stop (\<open>cursor_at\<close>).
\<close>

record ('t, 's, 'd) stack_entry =
  se_tree :: "('t, 's) sum_tree"
  se_index :: nat
  se_position :: 'd

record ('t, 's, 'd) cursor =
  cur_tree :: "('t, 's) sum_tree"
  cur_stack :: "('t, 's, 'd) stack_entry list"
  cur_position :: 'd
  did_seek :: bool
  at_end :: bool

definition STACK_CAP :: nat where
  "STACK_CAP = 16"

text \<open>\<open>stack.push(..).unwrap_oob()\<close>\<close>

definition stack_push ::
  "('t, 's, 'd) stack_entry \<Rightarrow> ('t, 's, 'd) stack_entry list \<Rightarrow> ('t, 's, 'd) stack_entry list run" where
  "stack_push e st = (if length st < STACK_CAP then Some (e # st) else None)"

definition cursor_new :: "('s, 'd) dim \<Rightarrow> ('t, 's) sum_tree \<Rightarrow> ('t, 's, 'd) cursor" where
  "cursor_new D t = \<lparr>cur_tree = t, cur_stack = [], cur_position = dim_zero D, did_seek = False,
     at_end = tree_is_empty t\<rparr>"

definition cursor_reset :: "('s, 'd) dim \<Rightarrow> ('t, 's, 'd) cursor \<Rightarrow> ('t, 's, 'd) cursor" where
  "cursor_reset D c = c\<lparr>did_seek := False, at_end := tree_is_empty (cur_tree c), cur_stack := [],
     cur_position := dim_zero D\<rparr>"

text \<open>\<open>item\<close> panics before the first seek and when the top of the stack is not a leaf.\<close>

definition cursor_item :: "('t, 's, 'd) cursor \<Rightarrow> 't option run" where
  "cursor_item c =
     (if \<not> did_seek c then None
      else case cur_stack c of
        [] \<Rightarrow> Some None
      | e # _ \<Rightarrow>
          (case se_tree e of
             Leaf s is ss \<Rightarrow>
               if se_index e = length is then Some None
               else map_option Some (vec_get is (se_index e))
           | Internal h s ss ts \<Rightarrow> None))"

definition cursor_item_summary :: "('t, 's, 'd) cursor \<Rightarrow> 's option run" where
  "cursor_item_summary c =
     (if \<not> did_seek c then None
      else case cur_stack c of
        [] \<Rightarrow> Some None
      | e # _ \<Rightarrow>
          (case se_tree e of
             Leaf s is ss \<Rightarrow>
               if se_index e = length ss then Some None
               else map_option Some (vec_get ss (se_index e))
           | Internal h s ss ts \<Rightarrow> None))"

definition cursor_start :: "('t, 's, 'd) cursor \<Rightarrow> 'd" where
  "cursor_start c = cur_position c"

definition cursor_end :: "('s, 'd) dim \<Rightarrow> ('t, 's, 'd) cursor \<Rightarrow> 'd run" where
  "cursor_end D c = do {
     s \<leftarrow> cursor_item_summary c;
     Some (case s of Some sm \<Rightarrow> dim_add D (cur_position c) sm
                   | None \<Rightarrow> cur_position c)
   }"

subsection \<open>Aggregates\<close>

text \<open>The trait \<^verbatim>\<open>SeekAggregate\<close> as a record of its methods on a state.\<close>

record ('t, 's, 'a) aggregate =
  begin_leaf :: "'a \<Rightarrow> 'a run"
  end_leaf :: "'a \<Rightarrow> 'a run"
  push_item :: "'a \<Rightarrow> 't \<Rightarrow> 's \<Rightarrow> 'a run"
  push_tree :: "'a \<Rightarrow> ('t, 's) sum_tree \<Rightarrow> 's \<Rightarrow> 'a run"

definition unit_aggregate :: "('t, 's, unit) aggregate" where
  "unit_aggregate = \<lparr>begin_leaf = Some, end_leaf = Some, push_item = (\<lambda>a _ _. Some a),
     push_tree = (\<lambda>a _ _. Some a)\<rparr>"

definition summary_aggregate :: "('s, 'o) dim \<Rightarrow> ('t, 's, 'o) aggregate" where
  "summary_aggregate O1 = \<lparr>begin_leaf = Some, end_leaf = Some,
     push_item = (\<lambda>a _ s. Some (dim_add O1 a s)), push_tree = (\<lambda>a _ s. Some (dim_add O1 a s))\<rparr>"

record ('t, 's) slice_state =
  slice_tree :: "('t, 's) sum_tree"
  leaf_items :: "'t list"
  leaf_item_summaries :: "'s list"
  leaf_summary :: 's

definition slice_init :: "('t, 's) sops \<Rightarrow> ('t, 's) slice_state" where
  "slice_init cx = \<lparr>slice_tree = tree_new cx, leaf_items = [], leaf_item_summaries = [],
     leaf_summary = zero_summary cx\<rparr>"

definition slice_aggregate :: "('t, 's) sops \<Rightarrow> ('t, 's, ('t, 's) slice_state) aggregate" where
  "slice_aggregate cx = \<lparr>
     begin_leaf = Some,
     end_leaf = (\<lambda>a. do {
       t \<leftarrow> tree_append cx (slice_tree a) (Leaf (leaf_summary a) (leaf_items a) (leaf_item_summaries a));
       Some \<lparr>slice_tree = t, leaf_items = [], leaf_item_summaries = [], leaf_summary = zero_summary cx\<rparr>
     }),
     push_item = (\<lambda>a item s. do {
       is \<leftarrow> fits (leaf_items a @ [item]);
       ss \<leftarrow> fits (leaf_item_summaries a @ [s]);
       Some (a\<lparr>leaf_items := is, leaf_item_summaries := ss, leaf_summary := add_summary cx (leaf_summary a) s\<rparr>)
     }),
     push_tree = (\<lambda>a tree s. do {
       t \<leftarrow> tree_append cx (slice_tree a) tree;
       Some (a\<lparr>slice_tree := t\<rparr>)
     })\<rparr>"

subsection \<open>Seeking\<close>

text \<open>The loop over the remaining children of an internal node: children that end before the target are
  pushed whole; the first that does not is returned.\<close>

fun seek_children ::
  "('s, 'd) dim \<Rightarrow> 'd target \<Rightarrow> bias \<Rightarrow> ('t, 's, 'a) aggregate \<Rightarrow> nat \<Rightarrow> 'd \<Rightarrow> 'a \<Rightarrow>
     (('t, 's) sum_tree \<times> 's) list \<Rightarrow> (nat \<times> 'd \<times> 'a \<times> ('t, 's) sum_tree option) run" where
  "seek_children D target b A i pos agg [] = Some (i, pos, agg, None)"
| "seek_children D target b A i pos agg ((child, s) # rest) =
     (let child_end = dim_add D pos s
      in if target child_end = Greater \<or> (target child_end = Equal \<and> b = Right) then
           Option.bind (push_tree A agg child s) (\<lambda>agg1.
             seek_children D target b A (Suc i) child_end agg1 rest)
         else Some (i, pos, agg, Some child))"

text \<open>The loop over the remaining items of a leaf; the flag tells whether it stopped at an item.\<close>

fun seek_items ::
  "('s, 'd) dim \<Rightarrow> 'd target \<Rightarrow> bias \<Rightarrow> ('t, 's, 'a) aggregate \<Rightarrow> nat \<Rightarrow> 'd \<Rightarrow> 'a \<Rightarrow>
     ('t \<times> 's) list \<Rightarrow> (nat \<times> 'd \<times> 'a \<times> bool) run" where
  "seek_items D target b A i pos agg [] = Some (i, pos, agg, False)"
| "seek_items D target b A i pos agg ((item, s) # rest) =
     (let child_end = dim_add D pos s
      in if target child_end = Greater \<or> (target child_end = Equal \<and> b = Right) then
           Option.bind (push_item A agg item s) (\<lambda>agg1.
             seek_items D target b A (Suc i) child_end agg1 rest)
         else Some (i, pos, agg, True))"

partial_function (option) seek_loop ::
  "('s, 'd) dim \<Rightarrow> 'd target \<Rightarrow> bias \<Rightarrow> ('t, 's, 'a) aggregate \<Rightarrow> bool \<Rightarrow>
     ('t, 's, 'd) stack_entry list \<Rightarrow> 'd \<Rightarrow> 'a \<Rightarrow>
     (('t, 's, 'd) stack_entry list \<times> 'd \<times> 'a) option" where
  "seek_loop D target b A ascending st pos agg =
     (case st of
        [] \<Rightarrow> Some ([], pos, agg)
      | e # below \<Rightarrow>
          (case se_tree e of
             Internal h s ss ts \<Rightarrow>
               (let i0 = (if ascending then Suc (se_index e) else se_index e)
                in if i0 > length ts \<or> i0 > length ss then None
                   else Option.bind (seek_children D target b A i0 pos agg (zip (drop i0 ts) (drop i0 ss)))
                     (\<lambda>(i1, pos1, agg1, res).
                        let e1 = e\<lparr>se_index := i1,
                                   se_position := (if ascending \<or> i1 \<noteq> i0 then pos1 else se_position e)\<rparr>
                        in case res of
                             Some child \<Rightarrow>
                               Option.bind
                                 (stack_push \<lparr>se_tree = child, se_index = 0, se_position = pos1\<rparr> (e1 # below))
                                 (\<lambda>st1. seek_loop D target b A False st1 pos1 agg1)
                           | None \<Rightarrow> seek_loop D target b A True below pos1 agg1))
           | Leaf s is ss \<Rightarrow>
               if se_index e > length is \<or> se_index e > length ss then None
               else Option.bind (begin_leaf A agg) (\<lambda>agg0.
                 Option.bind
                   (seek_items D target b A (se_index e) pos agg0
                      (zip (drop (se_index e) is) (drop (se_index e) ss)))
                   (\<lambda>(i1, pos1, agg1, stopped).
                      Option.bind (end_leaf A agg1) (\<lambda>agg2.
                        if stopped then Some (e\<lparr>se_index := i1\<rparr> # below, pos1, agg2)
                        else seek_loop D target b A True below pos1 agg2)))))"

declare seek_loop.simps [code]

definition seek_internal ::
  "('s, 'd) dim \<Rightarrow> 'd target \<Rightarrow> bias \<Rightarrow> ('t, 's, 'a) aggregate \<Rightarrow> ('t, 's, 'd) cursor \<Rightarrow> 'a \<Rightarrow>
     (('t, 's, 'd) cursor \<times> 'a \<times> bool) run" where
  "seek_internal D target b A c agg = do {
     rust_assert (target (cur_position c) \<noteq> Less);
     st0 \<leftarrow> (if did_seek c then Some (cur_stack c)
             else stack_push \<lparr>se_tree = cur_tree c, se_index = 0, se_position = dim_zero D\<rparr> (cur_stack c));
     (st1, pos1, agg1) \<leftarrow> seek_loop D target b A False st0 (cur_position c) agg;
     let c1 = c\<lparr>did_seek := True, cur_stack := st1, cur_position := pos1, at_end := (st1 = [])\<rparr>;
     s \<leftarrow> (if b = Left then cursor_item_summary c1 else Some None);
     let e = (case s of Some sm \<Rightarrow> dim_add D pos1 sm | None \<Rightarrow> pos1);
     Some (c1, agg1, target e = Equal)
   }"

definition seek ::
  "('s, 'd) dim \<Rightarrow> 'd target \<Rightarrow> bias \<Rightarrow> ('t, 's, 'd) cursor \<Rightarrow> (('t, 's, 'd) cursor \<times> bool) run" where
  "seek D target b c = do {
     (c1, _, found) \<leftarrow> seek_internal D target b unit_aggregate (cursor_reset D c) ();
     Some (c1, found)
   }"

definition seek_forward ::
  "('s, 'd) dim \<Rightarrow> 'd target \<Rightarrow> bias \<Rightarrow> ('t, 's, 'd) cursor \<Rightarrow> (('t, 's, 'd) cursor \<times> bool) run" where
  "seek_forward D target b c = do {
     (c1, _, found) \<leftarrow> seek_internal D target b unit_aggregate c ();
     Some (c1, found)
   }"

definition cursor_slice ::
  "('t, 's) sops \<Rightarrow> ('s, 'd) dim \<Rightarrow> 'd target \<Rightarrow> bias \<Rightarrow> ('t, 's, 'd) cursor \<Rightarrow>
     (('t, 's, 'd) cursor \<times> ('t, 's) sum_tree) run" where
  "cursor_slice cx D target b c = do {
     (c1, a, _) \<leftarrow> seek_internal D target b (slice_aggregate cx) c (slice_init cx);
     Some (c1, slice_tree a)
   }"

text \<open>The target \<open>End\<close> lies beyond every position.\<close>

definition end_target :: "'d target" where
  "end_target d = Greater"

definition cursor_suffix ::
  "('t, 's) sops \<Rightarrow> ('s, 'd) dim \<Rightarrow> ('t, 's, 'd) cursor \<Rightarrow> (('t, 's, 'd) cursor \<times> ('t, 's) sum_tree) run" where
  "cursor_suffix cx D c = cursor_slice cx D end_target Right c"

definition cursor_summary ::
  "('s, 'd) dim \<Rightarrow> ('s, 'o) dim \<Rightarrow> 'd target \<Rightarrow> bias \<Rightarrow> ('t, 's, 'd) cursor \<Rightarrow>
     (('t, 's, 'd) cursor \<times> 'o) run" where
  "cursor_summary D O1 target b c = do {
     (c1, a, _) \<leftarrow> seek_internal D target b (summary_aggregate O1) c (dim_zero O1);
     Some (c1, a)
   }"

subsection \<open>Stepping\<close>

text \<open>Skipping the children or items whose summary the filter rejects: the new index, the position of
  the entry and the position of the cursor.\<close>

fun skip_rejected ::
  "('s, 'd) dim \<Rightarrow> ('s \<Rightarrow> bool) \<Rightarrow> nat \<Rightarrow> 'd \<Rightarrow> 'd \<Rightarrow> 's list \<Rightarrow> nat \<times> 'd \<times> 'd" where
  "skip_rejected D f i epos pos [] = (i, epos, pos)"
| "skip_rejected D f i epos pos (s # ss) =
     (if f s then (i, epos, pos)
      else skip_rejected D f (Suc i) (dim_add D epos s) (dim_add D pos s) ss)"

text \<open>The loop of \<open>search_forward\<close>; the flag of the result tells that it returned from a leaf.\<close>

partial_function (option) forward_loop ::
  "('s, 'd) dim \<Rightarrow> ('s \<Rightarrow> bool) \<Rightarrow> bool \<Rightarrow> ('t, 's, 'd) stack_entry list \<Rightarrow> 'd \<Rightarrow>
     (('t, 's, 'd) stack_entry list \<times> 'd \<times> bool) option" where
  "forward_loop D f descend st pos =
     (case st of
        [] \<Rightarrow> Some ([], pos, False)
      | e # below \<Rightarrow>
          (case se_tree e of
             Internal h s ss ts \<Rightarrow>
               (let e0 = (if descend then e else e\<lparr>se_index := Suc (se_index e), se_position := pos\<rparr>);
                    (i1, epos, pos1) = skip_rejected D f (se_index e0) (se_position e0) pos (drop (se_index e0) ss);
                    e1 = e0\<lparr>se_index := i1, se_position := epos\<rparr>
                in case vec_get ts i1 of
                     Some subtree \<Rightarrow>
                       Option.bind
                         (stack_push \<lparr>se_tree = subtree, se_index = 0, se_position = pos1\<rparr> (e1 # below))
                         (\<lambda>st1. forward_loop D f True st1 pos1)
                   | None \<Rightarrow> forward_loop D f False below pos1)
           | Leaf s is ss \<Rightarrow>
               Option.bind
                 (if descend then Some (e, pos)
                  else case vec_get ss (se_index e) of
                         None \<Rightarrow> None
                       | Some sm \<Rightarrow>
                           Some (e\<lparr>se_index := Suc (se_index e), se_position := dim_add D (se_position e) sm\<rparr>,
                                 dim_add D pos sm))
                 (\<lambda>(e0, pos0).
                    let (i1, epos, pos1) = skip_rejected D f (se_index e0) (se_position e0) pos0 (drop (se_index e0) ss);
                        e1 = e0\<lparr>se_index := i1, se_position := epos\<rparr>
                    in if i1 < length ss then Some (e1 # below, pos1, True)
                       else forward_loop D f False below pos1)))"

declare forward_loop.simps [code]

definition search_forward ::
  "('s, 'd) dim \<Rightarrow> ('s \<Rightarrow> bool) \<Rightarrow> ('t, 's, 'd) cursor \<Rightarrow> ('t, 's, 'd) cursor run" where
  "search_forward D f c = do {
     (st0, descend) \<leftarrow>
       (if cur_stack c = [] \<and> \<not> at_end c then
          map_option (\<lambda>st. (st, True))
            (stack_push \<lparr>se_tree = cur_tree c, se_index = 0, se_position = dim_zero D\<rparr> [])
        else Some (cur_stack c, False));
     let seeked = (did_seek c \<or> cur_stack c = []);
     (st1, pos1, returned) \<leftarrow> forward_loop D f descend st0 (cur_position c);
     Some (c\<lparr>did_seek := seeked, cur_stack := st1, cur_position := pos1,
             at_end := (if returned then at_end c else (st1 = []))\<rparr>)
   }"

definition cursor_next :: "('s, 'd) dim \<Rightarrow> ('t, 's, 'd) cursor \<Rightarrow> ('t, 's, 'd) cursor run" where
  "cursor_next D c = search_forward D (\<lambda>_. True) c"

text \<open>A filter cursor is a cursor that steps with its filter.\<close>

definition filter_cursor_next ::
  "('s, 'd) dim \<Rightarrow> ('s \<Rightarrow> bool) \<Rightarrow> ('t, 's, 'd) cursor \<Rightarrow> ('t, 's, 'd) cursor run" where
  "filter_cursor_next D f c = search_forward D f c"

subsection \<open>Where a cursor stands\<close>

text \<open>The items at and after the top entry, and those after the child that an entry below it stands on.\<close>

definition top_rest :: "('t, 's, 'd) stack_entry \<Rightarrow> 't list" where
  "top_rest e = (case se_tree e of
     Internal h s ss ts \<Rightarrow> concat (map tree_items (drop (se_index e) ts))
   | Leaf s is ss \<Rightarrow> drop (se_index e) is)"

definition low_rest :: "('t, 's, 'd) stack_entry \<Rightarrow> 't list" where
  "low_rest e = (case se_tree e of
     Internal h s ss ts \<Rightarrow> concat (map tree_items (drop (Suc (se_index e)) ts))
   | Leaf s is ss \<Rightarrow> drop (Suc (se_index e)) is)"

definition below_rest :: "('t, 's, 'd) stack_entry list \<Rightarrow> 't list" where
  "below_rest st = concat (map low_rest st)"

fun stack_rest :: "('t, 's, 'd) stack_entry list \<Rightarrow> 't list" where
  "stack_rest [] = []"
| "stack_rest (e # below) = top_rest e @ below_rest below"

lemma below_rest_simps [simp]:
  "below_rest [] = []" "below_rest (e # st) = low_rest e @ below_rest st"
  by (simp_all add: below_rest_def)

text \<open>Each entry's node is the child of the entry below that the index points at.\<close>

fun path :: "('t, 's) sum_tree \<Rightarrow> ('t, 's, 'd) stack_entry list \<Rightarrow> bool" where
  "path root [] = True"
| "path root [e] = (se_tree e = root)"
| "path root (e # e' # below) =
     (path root (e' # below)
      \<and> (case se_tree e' of
           Internal h s ss ts \<Rightarrow> se_index e' < length ts \<and> se_tree e = ts ! se_index e'
         | Leaf s is ss \<Rightarrow> False))"

lemma path_tl: "path root (e # st) \<Longrightarrow> path root st"
  by (cases st) simp_all

lemma path_below_internal:
  "path root (e # e' # st) \<Longrightarrow> \<not> is_leaf (se_tree e')"
  by (cases "se_tree e'") simp_all

lemma path_wf:
  "wf_node cx root \<Longrightarrow> path root (e # st) \<Longrightarrow>
   wf_node cx (se_tree e) \<and> length st + tree_height (se_tree e) = tree_height root"
proof (induction st arbitrary: e)
  case (Cons e' st)
  obtain h s ss ts where e': "se_tree e' = Internal h s ss ts" "se_index e' < length ts"
    "se_tree e = ts ! se_index e'"
    using Cons.prems(2) by (cases "se_tree e'") auto
  have "wf_node cx (se_tree e')" "length st + tree_height (se_tree e') = tree_height root"
    using Cons.IH [of e'] Cons.prems by simp_all
  with e' show ?case by (force simp: set_conv_nth)
qed simp

text \<open>The cursor stands between the items \<open>us\<close> and \<open>vs\<close>: its position is the end of \<open>us\<close>, its path leads
  to the leaf that holds the first item of \<open>vs\<close>, or it is at the end.\<close>

definition settled :: "('t, 's, 'd) stack_entry list \<Rightarrow> bool" where
  "settled st \<longleftrightarrow> (case st of
     [] \<Rightarrow> True
   | e # below \<Rightarrow> (case se_tree e of Leaf s is ss \<Rightarrow> se_index e < length is | Internal h s ss ts \<Rightarrow> False))"

definition cursor_at ::
  "('t, 's) sops \<Rightarrow> ('s, 'd) dim \<Rightarrow> ('t, 's, 'd) cursor \<Rightarrow> 't list \<Rightarrow> 't list \<Rightarrow> bool" where
  "cursor_at cx D c us vs \<longleftrightarrow>
     did_seek c \<and> path (cur_tree c) (cur_stack c) \<and> settled (cur_stack c)
     \<and> stack_rest (cur_stack c) = vs \<and> at_end c = (cur_stack c = [])
     \<and> tree_items (cur_tree c) = us @ vs \<and> cur_position c = pos_after cx D (dim_zero D) us"

definition cursor_fresh :: "('s, 'd) dim \<Rightarrow> ('t, 's, 'd) cursor \<Rightarrow> bool" where
  "cursor_fresh D c \<longleftrightarrow>
     \<not> did_seek c \<and> cur_stack c = [] \<and> cur_position c = dim_zero D
     \<and> at_end c = tree_is_empty (cur_tree c)"

lemma cursor_fresh_new [simp]: "cursor_fresh D (cursor_new D t)" "cur_tree (cursor_new D t) = t"
  by (simp_all add: cursor_fresh_def cursor_new_def)

lemma cursor_fresh_reset [simp]: "cursor_fresh D (cursor_reset D c)" "cur_tree (cursor_reset D c) = cur_tree c"
  by (simp_all add: cursor_fresh_def cursor_reset_def)

text \<open>Where a seek stops: the items whose end does not reach the target, and the rest.\<close>

fun seek_split ::
  "('t, 's) sops \<Rightarrow> ('s, 'd) dim \<Rightarrow> ('d \<Rightarrow> bool) \<Rightarrow> 'd \<Rightarrow> 't list \<Rightarrow> 't list \<times> 't list" where
  "seek_split cx D hit pos [] = ([], [])"
| "seek_split cx D hit pos (x # xs) =
     (let e = dim_add D pos (item_summary cx x)
      in if hit e then ([], x # xs)
         else (let (us, vs) = seek_split cx D hit e xs in (x # us, vs)))"

lemma seek_split_append:
  "seek_split cx D hit pos xs = (us, vs) \<Longrightarrow> us @ vs = xs"
  by (induction xs arbitrary: pos us) (auto simp: Let_def split: if_splits prod.splits)

lemma seek_split_skip:
  "\<forall>e \<in> set (ends cx D pos xs). \<not> hit e \<Longrightarrow>
   seek_split cx D hit pos (xs @ ys) = apfst (\<lambda>us. xs @ us) (seek_split cx D hit (pos_after cx D pos xs) ys)"
  by (induction xs arbitrary: pos) (auto simp: Let_def apfst_def map_prod_def split: prod.splits)

lemma seek_split_hit:
  "xs \<noteq> [] \<Longrightarrow> hit (pos_after cx D pos xs) \<Longrightarrow>
   seek_split cx D hit pos (xs @ ys) = apsnd (\<lambda>vs. vs @ ys) (seek_split cx D hit pos xs)"
  by (induction xs arbitrary: pos rule: list_nonempty_induct)
    (auto simp: Let_def apsnd_def map_prod_def split: prod.splits)

lemma seek_split_hit_nonempty:
  "xs \<noteq> [] \<Longrightarrow> hit (pos_after cx D pos xs) \<Longrightarrow> snd (seek_split cx D hit pos xs) \<noteq> []"
proof (induction xs arbitrary: pos rule: list_nonempty_induct)
  case (cons x xs)
  then show ?case by (simp add: Let_def case_prod_beta)
qed (simp add: Let_def)

lemma seek_split_all:
  "\<forall>e \<in> set (ends cx D pos xs). \<not> hit e \<Longrightarrow> seek_split cx D hit pos xs = (xs, [])"
  using seek_split_skip [of cx D pos xs hit "[]"] by simp

lemma seek_split_ends:
  "seek_split cx D hit pos xs = (us, vs) \<Longrightarrow> \<forall>e \<in> set (ends cx D pos us). \<not> hit e"
  by (induction xs arbitrary: pos us) (auto simp: Let_def split: if_splits prod.splits)

lemma seek_split_first:
  "seek_split cx D hit pos xs = (us, v # vs) \<Longrightarrow> hit (dim_add D (pos_after cx D pos us) (item_summary cx v))"
  by (induction xs arbitrary: pos us) (auto simp: Let_def split: if_splits prod.splits)

lemma seek_split_stop:
  "seek_split cx D hit pos xs = (us, vs) \<Longrightarrow> vs \<noteq> [] \<Longrightarrow> seek_split cx D hit pos (xs @ ys) = (us, vs @ ys)"
  by (induction xs arbitrary: pos us) (auto simp: Let_def split: if_splits prod.splits)

end
