(* ===== verification/Sum_Seek.thy ===== *)
theory Sum_Seek
  imports Sum_Cursor
begin

text \<open>
  What the seeks of the cursor compute. The locale \<open>seek_aggregate\<close> states what \<open>seek_internal\<close> needs
  of the aggregate it feeds (the trait \<^verbatim>\<open>SeekAggregate\<close> of \<^verbatim>\<open>src/crates/sum_tree/src/cursor.rs\<close>): a
  relation between its state and the sequence of items passed so far. Within it, \<open>seek_internal\<close> is
  shown to return and to split the remaining items where a linear scan would. The three aggregates of
  the source are interpretations.
\<close>

fun push_all :: "('t, 's) sops \<Rightarrow> ('t, 's, 'a) aggregate \<Rightarrow> 'a \<Rightarrow> 't list \<Rightarrow> 'a run" where
  "push_all cx A a [] = Some a"
| "push_all cx A a (x # xs) = Option.bind (push_item A a x (item_summary cx x)) (\<lambda>a1. push_all cx A a1 xs)"

lemma not_target_in:
  "target d = Greater \<or> (target d = Equal \<and> b = Right) \<longleftrightarrow> \<not> target_in target b d"
  by (cases "target d"; cases b) (simp_all add: target_in_def)

lemma seek_items_split:
  "seek_items D target b A i pos agg (zip xs (map (item_summary cx) xs)) =
   (let (us, vs) = seek_split cx D (target_in target b) pos xs
    in map_option (\<lambda>a. (i + length us, pos_after cx D pos us, a, vs \<noteq> [])) (push_all cx A agg us))"
proof (induction xs arbitrary: i pos agg)
  case (Cons x xs)
  show ?case
    by (cases "push_item A agg x (item_summary cx x)")
      (simp_all add: Let_def not_target_in Cons.IH case_prod_beta)
qed simp

lemma path_retop: "path root (e # st) \<Longrightarrow> se_tree e' = se_tree e \<Longrightarrow> path root (e' # st)"
  by (cases st) (auto split: sum_tree.splits)

text \<open>The index of an entry the loop is about to process: when ascending, the child it stands on exists.\<close>

definition entry_ok :: "bool \<Rightarrow> ('t, 's, 'd) stack_entry \<Rightarrow> bool" where
  "entry_ok ascending e \<longleftrightarrow> (case se_tree e of
     Internal h s ss ts \<Rightarrow> (if ascending then se_index e < length ts else se_index e \<le> length ts)
   | Leaf s is ss \<Rightarrow> \<not> ascending \<and> se_index e \<le> length is)"

lemma path_entry_ok: "path root (e # e' # st) \<Longrightarrow> entry_ok True e'"
  by (cases "se_tree e'") (simp_all add: entry_ok_def)

definition entry_rest :: "bool \<Rightarrow> ('t, 's, 'd) stack_entry \<Rightarrow> 't list" where
  "entry_rest ascending e = (if ascending then low_rest e else top_rest e)"

text \<open>A cursor between the items \<open>us\<close> and \<open>vs\<close>: it has been moved there, or it is new or reset and stands
  before all items.\<close>

definition cursor_between ::
  "('t, 's) sops \<Rightarrow> ('s, 'd) dim \<Rightarrow> ('t, 's, 'd) cursor \<Rightarrow> 't list \<Rightarrow> 't list \<Rightarrow> bool" where
  "cursor_between cx D c us vs \<longleftrightarrow>
     cursor_at cx D c us vs \<or> (cursor_fresh D c \<and> us = [] \<and> vs = tree_items (cur_tree c))"

lemma cursor_between_position: "cursor_between cx D c us vs \<Longrightarrow> cur_position c = pos_after cx D (dim_zero D) us"
  by (auto simp: cursor_between_def cursor_at_def cursor_fresh_def)

lemma cursor_between_items: "cursor_between cx D c us vs \<Longrightarrow> tree_items (cur_tree c) = us @ vs"
  by (auto simp: cursor_between_def cursor_at_def)

lemma settled_leaf:
  assumes "wf_tree cx root" "path root st" "settled st" "st \<noteq> []"
  obtains e below s xs where "st = e # below" "se_tree e = Leaf s xs (map (item_summary cx) xs)"
    "se_index e < length xs" "wf_node cx root"
proof -
  obtain e below where st: "st = e # below" using assms(4) by (cases st) auto
  then obtain s xs ss where e: "se_tree e = Leaf s xs ss" "se_index e < length xs"
    using assms(3) by (cases "se_tree e") (simp_all add: settled_def)
  have "wf_node cx root"
  proof (rule ccontr)
    assume "\<not> wf_node cx root"
    then obtain s' where r: "root = Leaf s' [] []" using assms(1) by (auto simp: wf_tree_def)
    have "below = []"
      using assms(2) r unfolding st
    proof (induction below arbitrary: e)
      case (Cons e' st)
      then have "st = []" using path_tl by blast
      with Cons.prems show ?case by auto
    qed simp
    with e assms(2) r st show False by simp
  qed
  moreover from path_wf [OF this, of e below] assms(2) have "wf_node cx (se_tree e)" by (simp add: st)
  ultimately show ?thesis using e st that by simp
qed

lemma cursor_at_item:
  assumes "cursor_at cx D c us vs" "wf_tree cx (cur_tree c)"
  shows "cursor_item c = Some (case vs of [] \<Rightarrow> None | v # _ \<Rightarrow> Some v)"
    and "cursor_item_summary c = Some (case vs of [] \<Rightarrow> None | v # _ \<Rightarrow> Some (item_summary cx v))"
proof -
  have c: "did_seek c" "path (cur_tree c) (cur_stack c)" "settled (cur_stack c)" "stack_rest (cur_stack c) = vs"
    using assms(1) by (simp_all add: cursor_at_def)
  have "cursor_item c = Some (case vs of [] \<Rightarrow> None | v # _ \<Rightarrow> Some v)
    \<and> cursor_item_summary c = Some (case vs of [] \<Rightarrow> None | v # _ \<Rightarrow> Some (item_summary cx v))"
  proof (cases "cur_stack c = []")
    case False
    then obtain e below s xs where st: "cur_stack c = e # below"
      "se_tree e = Leaf s xs (map (item_summary cx) xs)" "se_index e < length xs"
      using settled_leaf [OF assms(2) c(2,3)] by metis
    then have "vs = xs ! se_index e # drop (Suc (se_index e)) xs @ below_rest below"
      using c(4) by (simp add: top_rest_def Cons_nth_drop_Suc [symmetric])
    with st c(1) show ?thesis
      by (simp add: cursor_item_def cursor_item_summary_def vec_get_def)
  qed (use c in \<open>simp add: cursor_item_def cursor_item_summary_def\<close>)
  then show "cursor_item c = Some (case vs of [] \<Rightarrow> None | v # _ \<Rightarrow> Some v)"
    and "cursor_item_summary c = Some (case vs of [] \<Rightarrow> None | v # _ \<Rightarrow> Some (item_summary cx v))"
    by simp_all
qed

locale seek_aggregate = seek_laws cx D
  for cx :: "('t, 's) sops" and D :: "('s, 'd) dim" +
  fixes A :: "('t, 's, 'a) aggregate" and rep :: "'a \<Rightarrow> 't list \<Rightarrow> bool"
  assumes leaf_run: "rep a us \<Longrightarrow> length xs \<le> 2 * TREE_BASE \<Longrightarrow>
      \<exists>a0 a1 a2. begin_leaf A a = Some a0 \<and> push_all cx A a0 xs = Some a1 \<and> end_leaf A a1 = Some a2
        \<and> rep a2 (us @ xs)"
    and tree_run: "rep a us \<Longrightarrow> wf_node cx t \<Longrightarrow>
      \<exists>a1. push_tree A a t (tree_summary t) = Some a1 \<and> rep a1 (us @ tree_items t)"
begin

text \<open>Passing whole children: the loop stops at the first child whose end reaches the target.\<close>

lemma seek_children_ok:
  assumes "\<forall>t \<in> set ts. wf_node cx t" "rep agg us"
    and "seek_ordered cx D (target_in target b) pos (concat (map tree_items ts))"
  shows "\<exists>k agg1. k \<le> length ts
    \<and> seek_children D target b A i pos agg (zip ts (map tree_summary ts)) =
        Some (i + k, pos_after cx D pos (concat (map tree_items (take k ts))), agg1,
              if k < length ts then Some (ts ! k) else None)
    \<and> rep agg1 (us @ concat (map tree_items (take k ts)))
    \<and> (\<forall>e \<in> set (ends cx D pos (concat (map tree_items (take k ts)))). \<not> target_in target b e)
    \<and> (k < length ts \<longrightarrow> target_in target b
         (pos_after cx D (pos_after cx D pos (concat (map tree_items (take k ts)))) (tree_items (ts ! k))))"
  using assms
proof (induction ts arbitrary: i pos agg us)
  case (Cons t ts)
  let ?hit = "target_in target b" and ?p = "pos_after cx D pos (tree_items t)"
  have ord: "seek_ordered cx D ?hit pos (tree_items t)" "seek_ordered cx D ?hit ?p (concat (map tree_items ts))"
    using seek_ordered_append [of cx D ?hit pos "tree_items t"] Cons.prems(3) by simp_all
  have e: "dim_add D pos (tree_summary t) = ?p" using Cons.prems(1) by (simp add: dim_add_tree)
  show ?case
  proof (cases "?hit ?p")
    case True
    then show ?thesis
      using Cons.prems by (intro exI [of _ 0] exI [of _ agg]) (simp add: e Let_def not_target_in)
  next
    case False
    obtain a1 where a1: "push_tree A agg t (tree_summary t) = Some a1" "rep a1 (us @ tree_items t)"
      using tree_run [OF Cons.prems(2), of t] Cons.prems(1) by auto
    obtain k agg1 where k: "k \<le> length ts"
      "seek_children D target b A (Suc i) ?p a1 (zip ts (map tree_summary ts)) =
        Some (Suc i + k, pos_after cx D ?p (concat (map tree_items (take k ts))), agg1,
              if k < length ts then Some (ts ! k) else None)"
      "rep agg1 ((us @ tree_items t) @ concat (map tree_items (take k ts)))"
      "\<forall>e \<in> set (ends cx D ?p (concat (map tree_items (take k ts)))). \<not> ?hit e"
      "k < length ts \<longrightarrow> ?hit
         (pos_after cx D (pos_after cx D ?p (concat (map tree_items (take k ts)))) (tree_items (ts ! k)))"
      using Cons.IH [OF _ a1(2) ord(2), of "Suc i"] Cons.prems(1) by auto
    then show ?thesis
      using False a1 seek_ordered_not_reached [OF ord(1) False]
      by (intro exI [of _ "Suc k"] exI [of _ agg1]) (auto simp: e Let_def not_target_in)
  qed
qed simp

text \<open>The loop started on a node's first child, when the node's end reaches the target: it stops inside
  the node.\<close>

definition stops_at ::
  "('t, 's) sum_tree \<Rightarrow> 'd target \<Rightarrow> bias \<Rightarrow> 'd \<Rightarrow> 't list \<Rightarrow> 't list \<Rightarrow> 't list \<Rightarrow>
     (('t, 's, 'd) stack_entry list \<times> 'd \<times> 'a) option \<Rightarrow> bool" where
  "stops_at root target b pos passed xs rest r \<longleftrightarrow>
     (let (us, vs) = seek_split cx D (target_in target b) pos xs
      in \<exists>st agg. r = Some (st, pos_after cx D pos us, agg) \<and> rep agg (passed @ us)
           \<and> path root st \<and> settled st \<and> stack_rest st = vs @ rest)"

lemma leaf_step:
  assumes e: "se_tree e = Leaf s xs (map (item_summary cx) xs)" and "length xs \<le> 2 * TREE_BASE"
    "se_index e \<le> length xs" "path root (e # below)" "rep agg passed"
  obtains (stop) "\<And>ys zs. below_rest below = ys @ zs \<Longrightarrow> stops_at root target b pos passed (top_rest e @ ys) zs
      (seek_loop D target b A asc (e # below) pos agg)"
  | (none) agg1 where "rep agg1 (passed @ top_rest e)"
      "\<forall>d \<in> set (ends cx D pos (top_rest e)). \<not> target_in target b d"
      "seek_loop D target b A asc (e # below) pos agg =
         seek_loop D target b A True below (pos_after cx D pos (top_rest e)) agg1"
proof -
  define ys where "ys = drop (se_index e) xs"
  have top: "top_rest e = ys" by (simp add: top_rest_def e ys_def)
  obtain us vs where uv: "seek_split cx D (target_in target b) pos ys = (us, vs)" by fastforce
  then have app: "us @ vs = ys" by (rule seek_split_append)
  then have "length us \<le> length ys" by auto
  then have "length us \<le> 2 * TREE_BASE" using assms(2) by (simp add: ys_def)
  from leaf_run [OF assms(5) this] obtain a0 a1 a2 where a: "begin_leaf A agg = Some a0"
    "push_all cx A a0 us = Some a1" "end_leaf A a1 = Some a2" "rep a2 (passed @ us)" by blast
  have z: "zip (drop (se_index e) xs) (drop (se_index e) (map (item_summary cx) xs)) = zip ys (map (item_summary cx) ys)"
    by (simp add: ys_def drop_map)
  let ?e = "e\<lparr>se_index := se_index e + length us\<rparr>"
  have loop: "seek_loop D target b A asc (e # below) pos agg =
      (if vs \<noteq> [] then Some (?e # below, pos_after cx D pos us, a2)
       else seek_loop D target b A True below (pos_after cx D pos us) a2)"
    using assms(3) a uv z by (subst seek_loop.simps) (simp add: e seek_items_split)
  show ?thesis
  proof (cases "vs = []")
    case True
    with app uv a loop show ?thesis
      by (intro none [of a2]) (use seek_split_ends [OF uv] in \<open>simp_all add: top\<close>)
  next
    case False
    have "drop (se_index e + length us) xs = drop (length us) ys" by (simp add: ys_def add.commute)
    then have rest: "drop (se_index e + length us) xs = vs" by (simp add: app [symmetric])
    with False have "se_index e + length us < length xs" using leI by fastforce
    then show ?thesis
      using False seek_split_stop [OF uv False] a loop rest path_retop [OF assms(4), of ?e]
      by (intro stop) (simp add: stops_at_def top settled_def top_rest_def [of ?e] e)
  qed
qed

lemma stops_at_skip:
  assumes "\<forall>e \<in> set (ends cx D pos us). \<not> target_in target b e"
    and "stops_at root target b (pos_after cx D pos us) (passed @ us) vs rest r"
  shows "stops_at root target b pos passed (us @ vs) rest r"
  using assms by (auto simp: stops_at_def seek_split_skip apfst_def map_prod_def split: prod.splits)

lemma stops_at_hit:
  assumes "us \<noteq> []" "target_in target b (pos_after cx D pos us)"
    and "stops_at root target b pos passed us (vs @ rest) r"
  shows "stops_at root target b pos passed (us @ vs) rest r"
  using assms by (auto simp: stops_at_def seek_split_hit apsnd_def map_prod_def split: prod.splits)

text \<open>The processing of an internal node, from the child \<open>i0\<close> on.\<close>

lemma internal_step:
  assumes node: "se_tree e = Internal h s ss ts" "wf_node cx (se_tree e)" "entry_ok asc e"
    and "rep agg passed" "seek_ordered cx D (target_in target b) pos (entry_rest asc e)"
  obtains (child) e1 agg1 us where "se_tree e1 = se_tree e" "se_index e1 < length ts"
      "entry_rest asc e = us @ tree_items (ts ! se_index e1) @ low_rest e1"
      "rep agg1 (passed @ us)" "\<forall>d \<in> set (ends cx D pos us). \<not> target_in target b d"
      "target_in target b (pos_after cx D (pos_after cx D pos us) (tree_items (ts ! se_index e1)))"
      "seek_loop D target b A asc (e # below) pos agg =
         Option.bind (stack_push \<lparr>se_tree = ts ! se_index e1, se_index = 0, se_position = pos_after cx D pos us\<rparr>
             (e1 # below))
           (\<lambda>st1. seek_loop D target b A False st1 (pos_after cx D pos us) agg1)"
  | (none) agg1 where "rep agg1 (passed @ entry_rest asc e)"
      "\<forall>d \<in> set (ends cx D pos (entry_rest asc e)). \<not> target_in target b d"
      "seek_loop D target b A asc (e # below) pos agg =
         seek_loop D target b A True below (pos_after cx D pos (entry_rest asc e)) agg1"
proof -
  define i0 where "i0 = (if asc then Suc (se_index e) else se_index e)"
  define us where "us = drop i0 ts"
  have rest: "entry_rest asc e = concat (map tree_items us)"
    by (simp add: entry_rest_def low_rest_def top_rest_def node us_def i0_def)
  have ss: "ss = map tree_summary ts" using node by simp
  have i0: "i0 \<le> length ts" using node by (simp add: entry_ok_def i0_def split: if_splits)
  have z: "zip (drop i0 ts) (drop i0 ss) = zip us (map tree_summary us)"
    by (simp add: us_def ss drop_map)
  have wf: "\<forall>t \<in> set us. wf_node cx t" using node by (auto simp: us_def dest: in_set_dropD)
  obtain k agg1 where k: "k \<le> length us"
    "seek_children D target b A i0 pos agg (zip us (map tree_summary us)) =
        Some (i0 + k, pos_after cx D pos (concat (map tree_items (take k us))), agg1,
              if k < length us then Some (us ! k) else None)"
    "rep agg1 (passed @ concat (map tree_items (take k us)))"
    "\<forall>e \<in> set (ends cx D pos (concat (map tree_items (take k us)))). \<not> target_in target b e"
    "k < length us \<longrightarrow> target_in target b
         (pos_after cx D (pos_after cx D pos (concat (map tree_items (take k us)))) (tree_items (us ! k)))"
    using seek_children_ok [OF wf assms(4), of target b pos i0] assms(5) by (auto simp: rest)
  note loop = seek_loop.simps [of D target b A asc "e # below" pos agg]
  show ?thesis
  proof (cases "k < length us")
    case True
    define e1 where "e1 = e\<lparr>se_index := i0 + k,
      se_position := (if asc \<or> i0 + k \<noteq> i0 then pos_after cx D pos (concat (map tree_items (take k us)))
                      else se_position e)\<rparr>"
    have idx: "ts ! (i0 + k) = us ! k" "i0 + k < length ts" using True i0 by (auto simp: us_def)
    have "us = take k us @ us ! k # drop (Suc k) us" using True by (simp add: id_take_nth_drop)
    then have "concat (map tree_items us) =
        concat (map tree_items (take k us)) @ tree_items (us ! k) @ concat (map tree_items (drop (Suc k) us))"
      by (metis concat.simps(2) concat_append list.simps(9) map_append)
    moreover have "low_rest e1 = concat (map tree_items (drop (Suc k) us))"
      by (simp add: low_rest_def e1_def node us_def add.commute)
    ultimately show ?thesis
      using True k idx i0 z
      by (intro child [of e1 "concat (map tree_items (take k us))" agg1])
        (simp_all add: e1_def rest loop node ss Let_def i0_def [symmetric])
  next
    case False
    with k i0 z show ?thesis
      by (intro none [of agg1]) (simp_all add: rest loop node ss Let_def i0_def [symmetric])
  qed
qed

text \<open>The loop started on a node's first child, when the node's end reaches the target: it stops inside
  the node.\<close>

lemma seek_loop_descends:
  assumes "wf_node cx t" "se_tree e = t" "se_index e = 0" "length below + tree_height t < STACK_CAP"
    "path root (e # below)" "rep agg passed"
    "seek_ordered cx D (target_in target b) pos (tree_items t)"
    "target_in target b (pos_after cx D pos (tree_items t))"
  shows "stops_at root target b pos passed (tree_items t) (below_rest below)
    (seek_loop D target b A False (e # below) pos agg)"
  using assms
proof (induction t arbitrary: e below pos agg passed)
  case (Leaf s xs ss)
  have e: "se_tree e = Leaf s xs (map (item_summary cx) xs)" "length xs \<le> 2 * TREE_BASE" "se_index e \<le> length xs"
    and top: "top_rest e = xs"
    using Leaf.prems by (auto simp: top_rest_def)
  from Leaf.prems have "xs \<noteq> []" by simp
  with Leaf.prems(8) have "pos_after cx D pos xs \<in> set (ends cx D pos xs)"
    using last_ends [of xs cx D pos] by (metis last_in_set)
  then show ?case
  proof (cases rule: leaf_step [OF e Leaf.prems(5,6), of target b pos False, case_names stop none])
    case stop
    from stop [of "[]" "below_rest below"] show ?thesis by (simp add: top)
  qed (use Leaf.prems(8) in \<open>simp add: top\<close>)
next
  case (Internal h s ss ts)
  have e: "wf_node cx (se_tree e)" "entry_ok False e" and rest: "entry_rest False e = tree_items (Internal h s ss ts)"
    using Internal.prems by (simp_all add: entry_ok_def entry_rest_def top_rest_def)
  have ord: "seek_ordered cx D (target_in target b) pos (entry_rest False e)"
    using Internal.prems(7) by (simp add: rest)
  show ?case
  proof (cases rule: internal_step [OF Internal.prems(2) e Internal.prems(6) ord, of below, case_names child none])
    case (child e1 agg1 us)
    let ?t = "ts ! se_index e1" and ?p = "pos_after cx D pos us"
    let ?e = "\<lparr>se_tree = ?t, se_index = 0, se_position = ?p\<rparr>"
    have t: "?t \<in> set ts" "wf_node cx ?t" "h = Suc (tree_height ?t)"
      using Internal.prems(1) child(2) by auto
    have room: "Suc (length below) < STACK_CAP" "length (e1 # below) + tree_height ?t < STACK_CAP"
      using Internal.prems(4) t(3) by simp_all
    have "seek_ordered cx D (target_in target b) ?p (tree_items ?t)"
      using ord seek_ordered_append(1) [of cx D "target_in target b" ?p "tree_items ?t" "low_rest e1"]
        seek_ordered_append(2) [of cx D "target_in target b" pos us "tree_items ?t @ low_rest e1"]
      by (simp add: child(3))
    moreover have "path root (?e # e1 # below)"
      using path_retop [OF Internal.prems(5) child(1)] child(1,2) Internal.prems(2) by simp
    ultimately have "stops_at root target b ?p (passed @ us) (tree_items ?t) (below_rest (e1 # below))
        (seek_loop D target b A False (?e # e1 # below) ?p agg1)"
      using Internal.IH [OF t(1,2), of ?e "e1 # below" agg1 "passed @ us" ?p] room child(4,6) by simp
    then have "stops_at root target b pos passed (us @ tree_items ?t @ low_rest e1) (below_rest below)
        (seek_loop D target b A False (?e # e1 # below) ?p agg1)"
      using child(5,6) t(2) by (intro stops_at_skip stops_at_hit) (simp_all add: wf_node_nonempty)
    moreover have "tree_items (Internal h s ss ts) = us @ tree_items ?t @ low_rest e1"
      using child(3) by (simp add: rest)
    ultimately show ?thesis
      using room child(7) by (simp add: stack_push_def)
  next
    case (none agg1)
    have "pos_after cx D pos (entry_rest False e) \<in> set (ends cx D pos (entry_rest False e))"
      using last_ends [of "entry_rest False e" cx D pos] wf_node_nonempty [OF Internal.prems(1)]
      by (metis last_in_set rest)
    with none Internal.prems(8) show ?thesis by (auto simp: rest)
  qed
qed

text \<open>The loop from any entry of a path: it returns, and stops where the scan of what remains stops.\<close>

lemma seek_loop_ok:
  assumes "wf_node cx root" "tree_height root < STACK_CAP" "path root st"
    and "\<And>e below. st = e # below \<Longrightarrow> entry_ok asc e"
    and "rep agg passed"
  defines "rest \<equiv> (case st of [] \<Rightarrow> [] | e # below \<Rightarrow> entry_rest asc e @ below_rest below)"
  assumes "seek_ordered cx D (target_in target b) pos rest"
  shows "stops_at root target b pos passed rest [] (seek_loop D target b A asc st pos agg)"
  using assms(3-5,7) unfolding rest_def
proof (induction st arbitrary: asc pos agg passed)
  case Nil
  then show ?case by (subst seek_loop.simps) (simp add: stops_at_def settled_def)
next
  case (Cons e below)
  have wf: "wf_node cx (se_tree e)" "length below + tree_height (se_tree e) = tree_height root"
    using path_wf [OF assms(1) Cons.prems(1)] by simp_all
  have ok: "entry_ok asc e" using Cons.prems(2) by simp
  have ord: "seek_ordered cx D (target_in target b) pos (entry_rest asc e)"
    "seek_ordered cx D (target_in target b) (pos_after cx D pos (entry_rest asc e)) (below_rest below)"
    using seek_ordered_append [of cx D "target_in target b" pos "entry_rest asc e"] Cons.prems(4) by simp_all
  have up: "stops_at root target b pos passed (entry_rest asc e @ below_rest below) []
      (seek_loop D target b A True below (pos_after cx D pos (entry_rest asc e)) agg1)"
    if "rep agg1 (passed @ entry_rest asc e)"
      "\<forall>d \<in> set (ends cx D pos (entry_rest asc e)). \<not> target_in target b d" for agg1
  proof -
    have "(case below of [] \<Rightarrow> [] | e # below \<Rightarrow> entry_rest True e @ below_rest below) = below_rest below"
      by (cases below) (simp_all add: entry_rest_def)
    moreover have "below = e' # st \<Longrightarrow> entry_ok True e'" for e' st
      using path_entry_ok Cons.prems(1) by blast
    ultimately show ?thesis
      using that ord(2) path_tl [OF Cons.prems(1)]
        Cons.IH [of True agg1 "passed @ entry_rest asc e" "pos_after cx D pos (entry_rest asc e)"]
      by (intro stops_at_skip) simp_all
  qed
  show ?case
  proof (cases "se_tree e")
    case (Leaf s xs ss)
    then have e: "se_tree e = Leaf s xs (map (item_summary cx) xs)" "length xs \<le> 2 * TREE_BASE"
        "se_index e \<le> length xs" and "\<not> asc"
      using wf ok by (simp_all add: entry_ok_def)
    then have top: "entry_rest asc e = top_rest e" by (simp add: entry_rest_def)
    show ?thesis
    proof (cases rule: leaf_step [OF e Cons.prems(1,3), of target b pos asc, case_names stop none])
      case stop
      from stop [of "below_rest below" "[]"] show ?thesis by (simp add: top)
    next
      case (none agg1)
      then show ?thesis using up [of agg1] by (simp add: top)
    qed
  next
    case (Internal h s ss ts)
    show ?thesis
    proof (cases rule: internal_step [OF Internal wf(1) ok Cons.prems(3) ord(1), of below, case_names child none])
      case (child e1 agg1 us)
      let ?t = "ts ! se_index e1" and ?p = "pos_after cx D pos us"
      let ?e = "\<lparr>se_tree = ?t, se_index = 0, se_position = ?p\<rparr>"
      have t: "wf_node cx ?t" "tree_height (se_tree e) = Suc (tree_height ?t)"
        using wf(1) Internal child(2) by auto
      have room: "Suc (length below) < STACK_CAP" "length (e1 # below) + tree_height ?t < STACK_CAP"
        using wf(2) assms(2) t(2) by simp_all
      have ord': "seek_ordered cx D (target_in target b) ?p (tree_items ?t)"
        using ord(1) seek_ordered_append(1) [of cx D "target_in target b" ?p "tree_items ?t" "low_rest e1"]
          seek_ordered_append(2) [of cx D "target_in target b" pos us "tree_items ?t @ low_rest e1"]
        by (simp add: child(3))
      have "path root (?e # e1 # below)"
        using path_retop [OF Cons.prems(1) child(1)] child(1,2) Internal by simp
      from seek_loop_descends [OF t(1) _ _ room(2) this child(4) ord' child(6)]
      have "stops_at root target b pos passed (us @ tree_items ?t @ low_rest e1 @ below_rest below) []
          (seek_loop D target b A False (?e # e1 # below) ?p agg1)"
        using child(5,6) t(1) by (intro stops_at_skip stops_at_hit) (simp_all add: wf_node_nonempty)
      then show ?thesis
        using room child(3,7) by (simp add: stack_push_def)
    next
      case (none agg1)
      then show ?thesis using up [of agg1] by simp
    qed
  qed
qed

lemma seek_loop_cursor:
  assumes "wf_tree cx (cur_tree c)" "tree_height (cur_tree c) < STACK_CAP" "cursor_between cx D c us0 vs0"
    "rep agg []" "seek_ordered cx D (target_in target b) (cur_position c) vs0"
  shows "\<exists>st0. (if did_seek c then Some (cur_stack c)
             else stack_push \<lparr>se_tree = cur_tree c, se_index = 0, se_position = dim_zero D\<rparr> (cur_stack c)) = Some st0
     \<and> stops_at (cur_tree c) target b (cur_position c) [] vs0 [] (seek_loop D target b A False st0 (cur_position c) agg)"
proof (cases "did_seek c")
  case True
  then have c: "path (cur_tree c) (cur_stack c)" "settled (cur_stack c)" "stack_rest (cur_stack c) = vs0"
    using assms(3) by (auto simp: cursor_between_def cursor_at_def cursor_fresh_def)
  show ?thesis
  proof (cases "cur_stack c = []")
    case True
    with \<open>did_seek c\<close> c assms(4) show ?thesis
      by (simp add: seek_loop.simps [of _ _ _ _ _ "[]"] stops_at_def)
  next
    case False
    then obtain e below s xs where st: "cur_stack c = e # below"
      "se_tree e = Leaf s xs (map (item_summary cx) xs)" "se_index e < length xs" "wf_node cx (cur_tree c)"
      using settled_leaf [OF assms(1) c(1,2)] by metis
    have "entry_ok False e" using st by (simp add: entry_ok_def)
    with seek_loop_ok [OF st(4) assms(2) c(1) _ assms(4), of False target b "cur_position c"] st True c(3) assms(5)
    show ?thesis by (simp add: entry_rest_def)
  qed
next
  case False
  then have c: "cur_stack c = []" "vs0 = tree_items (cur_tree c)"
    using assms(3) by (auto simp: cursor_between_def cursor_at_def cursor_fresh_def)
  let ?e = "\<lparr>se_tree = cur_tree c, se_index = 0, se_position = dim_zero D\<rparr>"
  have push: "stack_push ?e [] = Some [?e]" by (simp add: stack_push_def STACK_CAP_def)
  have top: "top_rest ?e = vs0" by (cases "cur_tree c") (simp_all add: top_rest_def c)
  show ?thesis
  proof (cases "wf_node cx (cur_tree c)")
    case True
    have "entry_ok False ?e" by (cases "cur_tree c") (simp_all add: entry_ok_def)
    with seek_loop_ok [OF True assms(2), of "[?e]" False agg "[]" target b "cur_position c"] assms(4,5) False c push top
    show ?thesis by (simp add: entry_rest_def)
  next
    case empty: False
    then obtain s where t: "cur_tree c = Leaf s [] []" using assms(1) by (auto simp: wf_tree_def)
    obtain a0 a1 a2 where "begin_leaf A agg = Some a0" "push_all cx A a0 [] = Some a1" "end_leaf A a1 = Some a2"
      "rep a2 ([] @ [])" using leaf_run [OF assms(4), of "[]"] by auto
    then show ?thesis
      using False c push t
      by (auto simp: seek_loop.simps [of _ _ _ _ _ "_ # _"] seek_loop.simps [of _ _ _ _ _ "[]"] stops_at_def settled_def)
  qed
qed

lemma seek_internal_ok:
  assumes "wf_tree cx (cur_tree c)" "tree_height (cur_tree c) < STACK_CAP" "cursor_between cx D c us0 vs0"
    "rep agg []" "target (cur_position c) \<noteq> Less"
    "seek_ordered cx D (target_in target b) (cur_position c) vs0"
    "seek_split cx D (target_in target b) (cur_position c) vs0 = (us, vs)"
  shows "\<exists>c1 agg1. seek_internal D target b A c agg = Some (c1, agg1,
        target (if b = Left then pos_after cx D (cur_position c1) (take 1 vs) else cur_position c1) = Equal)
     \<and> cursor_at cx D c1 (us0 @ us) vs \<and> cur_tree c1 = cur_tree c \<and> rep agg1 us"
proof -
  obtain st0 where st0: "(if did_seek c then Some (cur_stack c)
             else stack_push \<lparr>se_tree = cur_tree c, se_index = 0, se_position = dim_zero D\<rparr> (cur_stack c)) = Some st0"
    "stops_at (cur_tree c) target b (cur_position c) [] vs0 [] (seek_loop D target b A False st0 (cur_position c) agg)"
    using seek_loop_cursor [OF assms(1-4,6)] by blast
  then obtain st agg1 where l: "seek_loop D target b A False st0 (cur_position c) agg = Some (st, pos_after cx D (cur_position c) us, agg1)"
    "rep agg1 us" "path (cur_tree c) st" "settled st" "stack_rest st = vs"
    using assms(7) by (auto simp: stops_at_def)
  let ?c1 = "c\<lparr>did_seek := True, cur_stack := st, cur_position := pos_after cx D (cur_position c) us, at_end := (st = [])\<rparr>"
  have at: "cursor_at cx D ?c1 (us0 @ us) vs"
    using l seek_split_append [OF assms(7)] cursor_between_items [OF assms(3)] cursor_between_position [OF assms(3)]
    by (simp add: cursor_at_def)
  have "cursor_item_summary ?c1 = Some (case vs of [] \<Rightarrow> None | v # _ \<Rightarrow> Some (item_summary cx v))"
    using cursor_at_item [OF at] assms(1) by simp
  then have "seek_internal D target b A c agg = Some (?c1, agg1,
        target (if b = Left then pos_after cx D (cur_position ?c1) (take 1 vs) else cur_position ?c1) = Equal)"
    using st0(1) l(1) assms(5)
    by (simp add: seek_internal_def rust_assert_def Let_def split: list.split)
  with at l(2) show ?thesis by auto
qed

end

subsection \<open>The three aggregates\<close>

sublocale seek_laws \<subseteq> unit_agg: seek_aggregate cx D unit_aggregate "\<lambda>_ _. True"
proof
  have "push_all cx unit_aggregate a xs = Some a" for a and xs :: "'t list"
    by (induction xs) (simp_all add: unit_aggregate_def)
  then show "\<exists>a0 a1 a2. begin_leaf unit_aggregate a = Some a0 \<and> push_all cx unit_aggregate a0 xs = Some a1
      \<and> end_leaf unit_aggregate a1 = Some a2 \<and> True" for a and xs :: "'t list"
    by (simp add: unit_aggregate_def)
qed (simp_all add: unit_aggregate_def)

definition slice_rep :: "('t, 's) sops \<Rightarrow> ('t, 's) slice_state \<Rightarrow> 't list \<Rightarrow> bool" where
  "slice_rep cx a us \<longleftrightarrow> wf_tree cx (slice_tree a) \<and> tree_items (slice_tree a) = us
     \<and> leaf_items a = [] \<and> leaf_item_summaries a = [] \<and> leaf_summary a = zero_summary cx"

lemma slice_rep_init [simp]: "slice_rep cx (slice_init cx) []"
  by (simp add: slice_rep_def slice_init_def)

lemma push_all_slice:
  "length (leaf_items a @ xs) \<le> 2 * TREE_BASE \<Longrightarrow> leaf_item_summaries a = map (item_summary cx) (leaf_items a) \<Longrightarrow>
   push_all cx (slice_aggregate cx) a xs = Some (a\<lparr>leaf_items := leaf_items a @ xs,
      leaf_item_summaries := map (item_summary cx) (leaf_items a @ xs),
      leaf_summary := foldl (add_summary cx) (leaf_summary a) (map (item_summary cx) xs)\<rparr>)"
proof (induction xs arbitrary: a)
  case (Cons x xs)
  let ?a = "a\<lparr>leaf_items := leaf_items a @ [x], leaf_item_summaries := map (item_summary cx) (leaf_items a @ [x]),
      leaf_summary := add_summary cx (leaf_summary a) (item_summary cx x)\<rparr>"
  have "push_item (slice_aggregate cx) a x (item_summary cx x) = Some ?a"
    using Cons.prems by (simp add: slice_aggregate_def)
  then show ?case using Cons.IH [of ?a] Cons.prems by simp
qed simp

sublocale seek_laws \<subseteq> slice_agg: seek_aggregate cx D "slice_aggregate cx" "slice_rep cx"
proof
  fix a :: "('t, 's) slice_state" and us xs :: "'t list"
  assume a: "slice_rep cx a us" and len: "length xs \<le> 2 * TREE_BASE"
  let ?leaf = "Leaf (sum_summaries cx (map (item_summary cx) xs)) xs (map (item_summary cx) xs)"
  have "wf_tree cx ?leaf" using len by (cases xs) (simp_all add: wf_tree_def)
  then obtain t where t: "tree_append cx (slice_tree a) ?leaf = Some t" "wf_tree cx t" "tree_items t = us @ xs"
    using tree_append_ok [of "slice_tree a" ?leaf] a by (auto simp: slice_rep_def)
  from push_all_slice [of a xs cx] a len t
  show "\<exists>a0 a1 a2. begin_leaf (slice_aggregate cx) a = Some a0 \<and> push_all cx (slice_aggregate cx) a0 xs = Some a1
      \<and> end_leaf (slice_aggregate cx) a1 = Some a2 \<and> slice_rep cx a2 (us @ xs)"
    by (simp add: slice_rep_def slice_aggregate_def sum_summaries_def)
next
  fix a :: "('t, 's) slice_state" and us :: "'t list" and t :: "('t, 's) sum_tree"
  assume a: "slice_rep cx a us" and "wf_node cx t"
  then show "\<exists>a1. push_tree (slice_aggregate cx) a t (tree_summary t) = Some a1 \<and> slice_rep cx a1 (us @ tree_items t)"
    using tree_append_ok [of "slice_tree a" t] by (auto simp: slice_rep_def slice_aggregate_def)
qed

locale seek_summary = seek_laws cx D + out: seek_laws cx O1
  for cx :: "('t, 's) sops" and D :: "('s, 'd) dim" and O1 :: "('s, 'o) dim"

sublocale seek_summary \<subseteq> sum_agg: seek_aggregate cx D "summary_aggregate O1" "\<lambda>a us. a = pos_after cx O1 (dim_zero O1) us"
proof
  have "push_all cx (summary_aggregate O1) a xs = Some (pos_after cx O1 a xs)" for a xs
    by (induction xs arbitrary: a) (simp_all add: summary_aggregate_def)
  then show "\<exists>a0 a1 a2. begin_leaf (summary_aggregate O1) a = Some a0 \<and> push_all cx (summary_aggregate O1) a0 xs = Some a1
      \<and> end_leaf (summary_aggregate O1) a1 = Some a2 \<and> a2 = pos_after cx O1 (dim_zero O1) (us @ xs)"
    if "a = pos_after cx O1 (dim_zero O1) us" for a us xs
    using that by (simp add: summary_aggregate_def)
qed (simp add: summary_aggregate_def out.dim_add_tree)

context seek_laws
begin

lemmas unit_seek_ok = unit_agg.seek_internal_ok
lemmas slice_seek_ok = slice_agg.seek_internal_ok

end

context seek_summary
begin

lemmas sum_seek_ok = sum_agg.seek_internal_ok

end

end
