(* ===== verification/Sum_Forward.thy ===== *)
theory Sum_Forward
  imports Sum_Seek
begin

text \<open>
  Stepping a cursor forward (\<open>search_forward\<close>, \<open>next\<close> and \<open>FilterCursor::next\<close> of
  \<^verbatim>\<open>src/crates/sum_tree/src/cursor.rs\<close>). The locale \<open>filter_laws\<close> states the contract of a filter on
  summaries: it accepts the summary of a node that holds an item it accepts. Under it the loop returns and
  stops at the next accepted item.
\<close>

locale filter_laws = seek_laws cx D
  for cx :: "('t, 's) sops" and D :: "('s, 'd) dim" +
  fixes f :: "'s \<Rightarrow> bool"
  assumes accept_node:
    "wf_node cx t \<Longrightarrow> x \<in> set (tree_items t) \<Longrightarrow> f (item_summary cx x) \<Longrightarrow> f (tree_summary t)"
begin

definition accepted :: "'t list \<Rightarrow> bool" where
  "accepted xs \<longleftrightarrow> (\<exists>x \<in> set xs. f (item_summary cx x))"

lemma accepted_simps [simp]:
  "\<not> accepted []" "accepted (x # xs) \<longleftrightarrow> f (item_summary cx x) \<or> accepted xs"
  "accepted (xs @ ys) \<longleftrightarrow> accepted xs \<or> accepted ys"
  by (auto simp: accepted_def)

fun split_rejected :: "'t list \<Rightarrow> 't list \<times> 't list" where
  "split_rejected xs = (takeWhile (\<lambda>x. \<not> f (item_summary cx x)) xs, dropWhile (\<lambda>x. \<not> f (item_summary cx x)) xs)"

lemma split_rejected_skip:
  "\<not> accepted xs \<Longrightarrow> split_rejected (xs @ ys) = apfst (\<lambda>us. xs @ us) (split_rejected ys)"
  by (induction xs) auto

lemma split_rejected_hit:
  "accepted xs \<Longrightarrow> split_rejected (xs @ ys) = apsnd (\<lambda>vs. vs @ ys) (split_rejected xs)"
  by (induction xs) auto

lemma split_rejected_hit_nonempty: "accepted xs \<Longrightarrow> snd (split_rejected xs) \<noteq> []"
  by (auto simp: accepted_def dropWhile_eq_Nil_conv)

lemma split_rejected_all: "\<not> accepted xs \<Longrightarrow> split_rejected xs = (xs, [])"
  using split_rejected_skip [of xs "[]"] by simp

declare split_rejected.simps [simp del]

text \<open>The loop stops at the first accepted item of \<open>xs\<close>, or goes on below with \<open>xs\<close> passed.\<close>

definition fwd_ok ::
  "('t, 's) sum_tree \<Rightarrow> 'd \<Rightarrow> 't list \<Rightarrow> ('t, 's, 'd) stack_entry list \<Rightarrow>
     (('t, 's, 'd) stack_entry list \<times> 'd \<times> bool) option \<Rightarrow> bool" where
  "fwd_ok root pos xs below r \<longleftrightarrow>
     (if accepted xs
      then let (us, vs) = split_rejected xs
           in \<exists>st. r = Some (st, pos_after cx D pos us, True) \<and> st \<noteq> [] \<and> path root st \<and> settled st
                \<and> stack_rest st = vs @ below_rest below
      else r = forward_loop D f False below (pos_after cx D pos xs))"

lemma fwd_ok_skip:
  "\<not> accepted us \<Longrightarrow> fwd_ok root (pos_after cx D pos us) vs below r \<Longrightarrow> fwd_ok root pos (us @ vs) below r"
  by (auto simp: fwd_ok_def split_rejected_skip apfst_def map_prod_def split: prod.splits if_splits)

lemma skip_rejected_split:
  "\<exists>k epos1. k \<le> length xs
     \<and> skip_rejected D f i epos pos (map (item_summary cx) xs) = (i + k, epos1, pos_after cx D pos (take k xs))
     \<and> split_rejected xs = (take k xs, drop k xs) \<and> (accepted xs \<longleftrightarrow> k < length xs)"
proof (induction xs arbitrary: i epos pos)
  case (Cons x xs)
  show ?case
  proof (cases "f (item_summary cx x)")
    case True
    then show ?thesis by (intro exI [of _ 0]) (simp add: split_rejected.simps)
  next
    case False
    obtain k epos1 where "k \<le> length xs"
      "skip_rejected D f (Suc i) (dim_add D epos (item_summary cx x)) (dim_add D pos (item_summary cx x))
         (map (item_summary cx) xs) = (Suc i + k, epos1, pos_after cx D (dim_add D pos (item_summary cx x)) (take k xs))"
      "split_rejected xs = (take k xs, drop k xs)" "accepted xs \<longleftrightarrow> k < length xs"
      using Cons.IH by blast
    with False show ?thesis by (intro exI [of _ "Suc k"]) (simp add: split_rejected.simps)
  qed
qed (simp add: split_rejected.simps)

lemma forward_leaf:
  assumes "se_tree e = Leaf s xs (map (item_summary cx) xs)" "se_index e \<le> length xs" "path root (e # below)"
  shows "fwd_ok root pos (top_rest e) below (forward_loop D f True (e # below) pos)"
proof -
  define ys where "ys = drop (se_index e) xs"
  have top: "top_rest e = ys" by (simp add: top_rest_def assms(1) ys_def)
  obtain k epos1 where k: "k \<le> length ys"
    "skip_rejected D f (se_index e) (se_position e) pos (map (item_summary cx) ys)
       = (se_index e + k, epos1, pos_after cx D pos (take k ys))"
    "split_rejected ys = (take k ys, drop k ys)" "accepted ys \<longleftrightarrow> k < length ys"
    using skip_rejected_split by blast
  let ?e = "e\<lparr>se_index := se_index e + k, se_position := epos1\<rparr>"
  have "drop (se_index e) (map (item_summary cx) xs) = map (item_summary cx) ys" by (simp add: ys_def drop_map)
  then have loop: "forward_loop D f True (e # below) pos =
      (if k < length ys then Some (?e # below, pos_after cx D pos (take k ys), True)
       else forward_loop D f False below (pos_after cx D pos (take k ys)))"
    using assms(1,2) k(1,2) by (subst forward_loop.simps) (simp add: ys_def less_diff_conv add.commute)
  have "k < length ys \<Longrightarrow> settled (?e # below)"
    using assms(1) by (simp add: settled_def ys_def)
  moreover have "stack_rest (?e # below) = drop k ys @ below_rest below"
    using assms(1) by (simp add: top_rest_def ys_def add.commute)
  ultimately show ?thesis
    using k loop path_retop [OF assms(3), of ?e] by (auto simp: fwd_ok_def top)
qed

text \<open>The rejected children of an internal node are passed with their summaries.\<close>

lemma skip_rejected_children:
  "\<forall>t \<in> set ts. wf_node cx t \<Longrightarrow>
   \<exists>k epos1. k \<le> length ts
     \<and> skip_rejected D f i epos pos (map tree_summary ts) =
         (i + k, epos1, pos_after cx D pos (concat (map tree_items (take k ts))))
     \<and> \<not> accepted (concat (map tree_items (take k ts)))"
proof (induction ts arbitrary: i epos pos)
  case (Cons t ts)
  show ?case
  proof (cases "f (tree_summary t)")
    case True
    then show ?thesis by (intro exI [of _ 0]) simp
  next
    case False
    have t: "wf_node cx t" using Cons.prems by simp
    obtain k epos1 where "k \<le> length ts"
      "skip_rejected D f (Suc i) (dim_add D epos (tree_summary t)) (pos_after cx D pos (tree_items t)) (map tree_summary ts) =
         (Suc i + k, epos1, pos_after cx D (pos_after cx D pos (tree_items t)) (concat (map tree_items (take k ts))))"
      "\<not> accepted (concat (map tree_items (take k ts)))"
      using Cons.IH Cons.prems by (metis list.set_intros(2))
    moreover have "\<not> accepted (tree_items t)" using accept_node [OF t] False by (auto simp: accepted_def)
    ultimately show ?thesis
      using False t by (intro exI [of _ "Suc k"]) (simp add: dim_add_tree)
  qed
qed simp

lemma forward_internal:
  assumes "se_tree e = Internal h s ss ts" "wf_node cx (se_tree e)" "entry_ok asc e"
  obtains (child) e1 us where "se_tree e1 = se_tree e" "se_index e1 < length ts" "\<not> accepted us"
      "(if asc then Suc (se_index e) else se_index e) \<le> se_index e1"
      "entry_rest asc e = us @ tree_items (ts ! se_index e1) @ low_rest e1"
      "forward_loop D f (\<not> asc) (e # below) pos =
         Option.bind (stack_push \<lparr>se_tree = ts ! se_index e1, se_index = 0, se_position = pos_after cx D pos us\<rparr>
             (e1 # below))
           (\<lambda>st1. forward_loop D f True st1 (pos_after cx D pos us))"
  | (none) "\<not> accepted (entry_rest asc e)"
      "forward_loop D f (\<not> asc) (e # below) pos =
         forward_loop D f False below (pos_after cx D pos (entry_rest asc e))"
proof -
  define e0 where "e0 = (if asc then e\<lparr>se_index := Suc (se_index e), se_position := pos\<rparr> else e)"
  define us where "us = drop (se_index e0) ts"
  have rest: "entry_rest asc e = concat (map tree_items us)"
    by (simp add: entry_rest_def low_rest_def top_rest_def assms us_def e0_def)
  have ss: "ss = map tree_summary ts" using assms by simp
  have i0: "se_index e0 \<le> length ts" using assms by (simp add: entry_ok_def e0_def split: if_splits)
  have "\<forall>t \<in> set us. wf_node cx t" using assms by (auto simp: us_def dest: in_set_dropD)
  then obtain k epos1 where k: "k \<le> length us"
    "skip_rejected D f (se_index e0) (se_position e0) pos (map tree_summary us) =
       (se_index e0 + k, epos1, pos_after cx D pos (concat (map tree_items (take k us))))"
    "\<not> accepted (concat (map tree_items (take k us)))"
    using skip_rejected_children by blast
  have z: "drop (se_index e0) ss = map tree_summary us" by (simp add: us_def ss drop_map)
  define e1 where "e1 = e0\<lparr>se_index := se_index e0 + k, se_position := epos1\<rparr>"
  have tree: "se_tree e1 = se_tree e" by (simp add: e1_def e0_def)
  have loop': "forward_loop D f (\<not> asc) (e # below) pos =
      (case vec_get ts (se_index e0 + k) of
         Some subtree \<Rightarrow>
           Option.bind
             (stack_push \<lparr>se_tree = subtree, se_index = 0,
                se_position = pos_after cx D pos (concat (map tree_items (take k us)))\<rparr> (e1 # below))
             (\<lambda>st1. forward_loop D f True st1 (pos_after cx D pos (concat (map tree_items (take k us)))))
       | None \<Rightarrow> forward_loop D f False below (pos_after cx D pos (concat (map tree_items (take k us)))))"
    using k(2) z by (subst forward_loop.simps, cases asc)
      (simp_all add: assms(1) e1_def e0_def cong: option.case_cong)
  show ?thesis
  proof (cases "k < length us")
    case True
    have idx: "ts ! (se_index e0 + k) = us ! k" "se_index e0 + k < length ts" using True i0 by (auto simp: us_def)
    have "us = take k us @ us ! k # drop (Suc k) us" using True by (simp add: id_take_nth_drop)
    then have "concat (map tree_items us) =
        concat (map tree_items (take k us)) @ tree_items (us ! k) @ concat (map tree_items (drop (Suc k) us))"
      by (metis concat.simps(2) concat_append list.simps(9) map_append)
    moreover have "low_rest e1 = concat (map tree_items (drop (Suc k) us))"
      by (simp add: low_rest_def tree assms(1) us_def add.commute) (simp add: e1_def add.commute)
    moreover have "(if asc then Suc (se_index e) else se_index e) \<le> se_index e1" by (simp add: e1_def e0_def)
    ultimately show ?thesis
      using True k idx i0 loop' tree
      by (intro child [of e1 "concat (map tree_items (take k us))"]) (simp_all add: rest vec_get_def, simp_all add: e1_def)
  next
    case False
    with k i0 loop' show ?thesis
      by (intro none) (simp_all add: rest us_def vec_get_def)
  qed
qed

lemma forward_node:
  assumes "wf_node cx t" "se_tree e = t" "entry_ok asc e" "length below + tree_height t < STACK_CAP"
    "path root (e # below)"
  shows "fwd_ok root pos (entry_rest asc e) below (forward_loop D f (\<not> asc) (e # below) pos)"
  using assms
proof (induction t arbitrary: e asc below pos)
  case (Leaf s xs ss)
  then have "\<not> asc" "se_tree e = Leaf s xs (map (item_summary cx) xs)" "se_index e \<le> length xs"
    by (simp_all add: entry_ok_def)
  with Leaf.prems(5) show ?case using forward_leaf [of e s xs root below pos] by (simp add: entry_rest_def)
next
  case (Internal h s ss ts)
  note node_IH = Internal.IH
  note wf = Internal.prems(1)
  from Internal.prems(2-5) show ?case
  proof (induction "length ts - (if asc then Suc (se_index e) else se_index e)" arbitrary: e asc pos rule: less_induct)
    case less
    have wfe: "wf_node cx (se_tree e)" using wf less.prems(1) by simp
    show ?case
    proof (cases rule: forward_internal [OF less.prems(1) wfe less.prems(2), of below pos, case_names child none])
      case (child e1 us)
      let ?t = "ts ! se_index e1" and ?p = "pos_after cx D pos us"
      let ?e = "\<lparr>se_tree = ?t, se_index = 0, se_position = ?p\<rparr>"
      have t: "?t \<in> set ts" "wf_node cx ?t" "h = Suc (tree_height ?t)" using wf child(2) by auto
      have room: "Suc (length below) < STACK_CAP" "length (e1 # below) + tree_height ?t < STACK_CAP"
        using less.prems(3) t(3) by simp_all
      have p1: "path root (e1 # below)" using path_retop [OF less.prems(4) child(1)] .
      then have "path root (?e # e1 # below)" using child(1,2) less.prems(1) by simp
      moreover have ok: "entry_ok False ?e" "entry_rest False ?e = tree_items ?t"
        by (cases ?t; simp add: entry_ok_def entry_rest_def top_rest_def)+
      ultimately have in_child: "fwd_ok root ?p (tree_items ?t) (e1 # below) (forward_loop D f True (?e # e1 # below) ?p)"
        using node_IH [OF t(1,2), of ?e False "e1 # below" ?p] room by simp
      have ok1: "entry_ok True e1" using child(1,2) less.prems(1) by (simp add: entry_ok_def)
      have "fwd_ok root ?p (tree_items ?t @ low_rest e1) below (forward_loop D f True (?e # e1 # below) ?p)"
      proof (cases "accepted (tree_items ?t)")
        case True
        with in_child show ?thesis
          by (auto simp: fwd_ok_def split_rejected_hit apsnd_def map_prod_def split: prod.splits)
      next
        case False
        have "fwd_ok root (pos_after cx D ?p (tree_items ?t)) (entry_rest True e1) below
            (forward_loop D f (\<not> True) (e1 # below) (pos_after cx D ?p (tree_items ?t)))"
          using child(1,2,4) less.prems(1,3) ok1 p1 by (intro less.hyps) (auto split: if_splits)
        with False in_child show ?thesis
          by (intro fwd_ok_skip) (simp_all add: fwd_ok_def entry_rest_def)
      qed
      then have "fwd_ok root pos (us @ tree_items ?t @ low_rest e1) below (forward_loop D f True (?e # e1 # below) ?p)"
        by (rule fwd_ok_skip [OF child(3)])
      then show ?thesis using child(5,6) room by (simp add: stack_push_def)
    next
      case none
      then show ?thesis by (simp add: fwd_ok_def)
    qed
  qed
qed

lemma forward_stack:
  assumes "wf_node cx root" "tree_height root < STACK_CAP" "path root st"
    "\<And>e below. st = e # below \<Longrightarrow> entry_ok asc e" "st = [] \<Longrightarrow> asc"
  defines "rest \<equiv> (case st of [] \<Rightarrow> [] | e # below \<Rightarrow> entry_rest asc e @ below_rest below)"
  shows "\<exists>st1. forward_loop D f (\<not> asc) st pos =
      Some (st1, pos_after cx D pos (fst (split_rejected rest)), st1 \<noteq> [])
    \<and> path root st1 \<and> settled st1 \<and> stack_rest st1 = snd (split_rejected rest)"
  using assms(3-5) unfolding rest_def
proof (induction st arbitrary: asc pos)
  case Nil
  then show ?case by (subst forward_loop.simps) (simp add: split_rejected.simps settled_def)
next
  case (Cons e below)
  have wf: "wf_node cx (se_tree e)" "length below + tree_height (se_tree e) = tree_height root"
    using path_wf [OF assms(1) Cons.prems(1)] by simp_all
  have node: "fwd_ok root pos (entry_rest asc e) below (forward_loop D f (\<not> asc) (e # below) pos)"
    using forward_node [OF wf(1), of e asc below root pos] wf(2) assms(2) Cons.prems by simp
  show ?case
  proof (cases "accepted (entry_rest asc e)")
    case True
    with node show ?thesis
      by (auto simp: fwd_ok_def split_rejected_hit apsnd_def map_prod_def split: prod.splits)
  next
    case False
    have "(case below of [] \<Rightarrow> [] | e # below \<Rightarrow> entry_rest True e @ below_rest below) = below_rest below"
      by (cases below) (simp_all add: entry_rest_def)
    moreover have "below = e' # st \<Longrightarrow> entry_ok True e'" for e' st
      using path_entry_ok Cons.prems(1) by blast
    ultimately show ?thesis
      using Cons.IH [of True "pos_after cx D pos (entry_rest asc e)"] path_tl [OF Cons.prems(1)] node False
      by (simp add: fwd_ok_def split_rejected_skip)
  qed
qed

text \<open>A settled leaf steps past its current item first.\<close>

lemma forward_settled:
  assumes "se_tree e = Leaf s xs (map (item_summary cx) xs)" "se_index e < length xs"
  shows "\<exists>e1. se_tree e1 = se_tree e \<and> se_index e1 = Suc (se_index e)
    \<and> forward_loop D f False (e # below) pos =
        forward_loop D f True (e1 # below) (dim_add D pos (item_summary cx (xs ! se_index e)))"
  using assms
  by (intro exI [of _ "e\<lparr>se_index := Suc (se_index e),
        se_position := dim_add D (se_position e) (item_summary cx (xs ! se_index e))\<rparr>"])
    (simp add: forward_loop.simps [of _ _ _ "e # below"] forward_loop.simps [of _ _ _ "_\<lparr>se_index := _, se_position := _\<rparr> # below"] vec_get_def)

text \<open>\<open>search_forward\<close>: a new cursor goes to the first accepted item, one that stands on an item to the
  first accepted item after it, and one at the end stays there.\<close>

lemma search_forward_ok:
  assumes "wf_tree cx (cur_tree c)" "tree_height (cur_tree c) < STACK_CAP"
    "cursor_fresh D c \<and> us0 = [] \<and> vs0 = tree_items (cur_tree c)
     \<or> cursor_at cx D c us1 vs1 \<and> us0 = us1 @ take 1 vs1 \<and> vs0 = drop 1 vs1"
    "split_rejected vs0 = (us, vs)"
  shows "\<exists>c1. search_forward D f c = Some c1 \<and> cur_tree c1 = cur_tree c \<and> cursor_at cx D c1 (us0 @ us) vs"
proof -
  have fin: ?thesis
    if "forward_loop D f d st0 (cur_position c) = Some (st1, pos_after cx D (dim_zero D) (us0 @ us), st1 \<noteq> [])"
      "path (cur_tree c) st1" "settled st1" "stack_rest st1 = vs"
      "(if cur_stack c = [] \<and> \<not> at_end c then
          map_option (\<lambda>st. (st, True)) (stack_push \<lparr>se_tree = cur_tree c, se_index = 0, se_position = dim_zero D\<rparr> [])
        else Some (cur_stack c, False)) = Some (st0, d)"
      "st1 \<noteq> [] \<Longrightarrow> \<not> at_end c" for st0 d st1
  proof -
    have "tree_items (cur_tree c) = us0 @ vs0" using assms(3) by (cases vs1) (auto simp: cursor_at_def)
    moreover have "vs0 = us @ vs" using assms(4) by (auto simp: split_rejected.simps)
    moreover have "did_seek c \<or> cur_stack c = []" using assms(3) by (auto simp: cursor_at_def cursor_fresh_def)
    ultimately show ?thesis
      using that by (auto simp: search_forward_def cursor_at_def)
  qed
  consider (over) "cur_stack c = []" "at_end c" | (fresh) "cur_stack c = []" "\<not> at_end c" | (item) "cur_stack c \<noteq> []"
    by blast
  then show ?thesis
  proof cases
    case over
    then have "vs0 = []" "cur_position c = pos_after cx D (dim_zero D) us0"
      using assms(3) wf_tree_is_empty [OF assms(1)] by (auto simp: cursor_at_def cursor_fresh_def)
    with over assms(4) show ?thesis
      by (intro fin [of False "[]" "[]"])
        (auto simp: settled_def split_rejected.simps forward_loop.simps [of _ _ _ "[]"])
  next
    case fresh
    let ?e = "\<lparr>se_tree = cur_tree c, se_index = 0, se_position = dim_zero D\<rparr>"
    have c: "us0 = []" "vs0 = tree_items (cur_tree c)" "cur_position c = dim_zero D" "\<not> tree_is_empty (cur_tree c)"
      using assms(3) fresh by (auto simp: cursor_at_def cursor_fresh_def)
    have wf: "wf_node cx (cur_tree c)" using c(4) assms(1) by (auto simp: wf_tree_def)
    have e: "entry_ok False ?e" "entry_rest False ?e = vs0"
      by (cases "cur_tree c"; simp add: entry_ok_def entry_rest_def top_rest_def c(2))+
    obtain st1 where "forward_loop D f True [?e] (cur_position c) =
        Some (st1, pos_after cx D (cur_position c) us, st1 \<noteq> [])"
      "path (cur_tree c) st1" "settled st1" "stack_rest st1 = vs"
      using forward_stack [OF wf assms(2), of "[?e]" False "cur_position c"] e assms(4) by auto
    with c fresh show ?thesis
      by (intro fin [of True "[?e]" st1]) (auto simp: stack_push_def STACK_CAP_def)
  next
    case item
    then have c: "path (cur_tree c) (cur_stack c)" "settled (cur_stack c)" "stack_rest (cur_stack c) = vs1"
      "us0 = us1 @ take 1 vs1" "vs0 = drop 1 vs1" "\<not> at_end c" "cur_position c = pos_after cx D (dim_zero D) us1"
      using assms(3) by (auto simp: cursor_at_def cursor_fresh_def)
    obtain e below s xs where st: "cur_stack c = e # below"
      "se_tree e = Leaf s xs (map (item_summary cx) xs)" "se_index e < length xs" "wf_node cx (cur_tree c)"
      using settled_leaf [OF assms(1) c(1,2) item] by metis
    have vs1: "vs1 = xs ! se_index e # drop (Suc (se_index e)) xs @ below_rest below"
      using c(3) st by (simp add: top_rest_def Cons_nth_drop_Suc [symmetric])
    obtain e1 where e1: "se_tree e1 = se_tree e" "se_index e1 = Suc (se_index e)"
      "forward_loop D f False (e # below) (cur_position c) =
         forward_loop D f True (e1 # below) (dim_add D (cur_position c) (item_summary cx (xs ! se_index e)))"
      using forward_settled [OF st(2,3)] by blast
    have ok: "entry_ok False e1" "entry_rest False e1 @ below_rest below = vs0"
      using e1 st vs1 c(5) by (simp_all add: entry_ok_def entry_rest_def top_rest_def)
    have "path (cur_tree c) (e1 # below)" using path_retop [of _ e] c(1) e1(1) st(1) by simp
    then obtain st1 where "forward_loop D f False (e # below) (cur_position c) =
        Some (st1, pos_after cx D (dim_add D (cur_position c) (item_summary cx (xs ! se_index e))) us, st1 \<noteq> [])"
      "path (cur_tree c) st1" "settled st1" "stack_rest st1 = vs"
      using forward_stack [OF st(4) assms(2), of "e1 # below" False] ok assms(4) e1(3) by auto
    with c st(1) vs1 show ?thesis
      by (intro fin [of False "e # below" st1]) auto
  qed
qed

end

text \<open>\<open>next\<close> steps with the filter that accepts everything.\<close>

sublocale seek_laws \<subseteq> every: filter_laws cx D "\<lambda>_. True"
  by unfold_locales simp

context seek_laws
begin

lemma split_rejected_every: "every.split_rejected xs = ([], xs)"
  by (cases xs) (simp_all add: every.split_rejected.simps)

lemma cursor_next_ok:
  assumes "wf_tree cx (cur_tree c)" "tree_height (cur_tree c) < STACK_CAP"
  shows "cursor_fresh D c \<Longrightarrow>
      \<exists>c1. cursor_next D c = Some c1 \<and> cur_tree c1 = cur_tree c \<and> cursor_at cx D c1 [] (tree_items (cur_tree c))"
    and "cursor_at cx D c us vs \<Longrightarrow>
      \<exists>c1. cursor_next D c = Some c1 \<and> cur_tree c1 = cur_tree c \<and> cursor_at cx D c1 (us @ take 1 vs) (drop 1 vs)"
  using every.search_forward_ok [OF assms, of "[]" "tree_items (cur_tree c)" _ _ "[]" "tree_items (cur_tree c)"]
    every.search_forward_ok [OF assms, of "us @ take 1 vs" "drop 1 vs" us vs "[]" "drop 1 vs"]
  by (simp_all add: cursor_next_def split_rejected_every)

end

subsection \<open>Properties of cursors\<close>

text \<open>(C16) Slicing with a cursor: from any position, \<open>slice\<close> returns (it neither panics nor loops) a
  well-formed tree of exactly the items passed, those up to where a linear scan for the target stops, and
  leaves the cursor before the remaining items; \<open>suffix\<close> returns all the remaining items and leaves the
  cursor at the end; \<open>summary\<close> moves the cursor as \<open>slice\<close> does and returns the sum over the items passed.\<close>

theorem cursor_slice_splits:
  assumes "seek_laws cx D" "seek_laws cx O1" "wf_tree cx (cur_tree c)" "tree_height (cur_tree c) < STACK_CAP"
    "cursor_between cx D c us0 vs0" "target (cur_position c) \<noteq> Less"
    "seek_ordered cx D (target_in target b) (cur_position c) vs0"
    "seek_split cx D (target_in target b) (cur_position c) vs0 = (us, vs)"
  shows "(\<exists>c1 t. cursor_slice cx D target b c = Some (c1, t) \<and> wf_tree cx t \<and> tree_items t = us
        \<and> cursor_at cx D c1 (us0 @ us) vs \<and> cur_tree c1 = cur_tree c)
    \<and> (\<exists>c1 t. cursor_suffix cx D c = Some (c1, t) \<and> wf_tree cx t \<and> tree_items t = vs0
        \<and> cursor_at cx D c1 (us0 @ vs0) [] \<and> cur_tree c1 = cur_tree c)
    \<and> (\<exists>c1. cursor_summary D O1 target b c = Some (c1, pos_after cx O1 (dim_zero O1) us)
        \<and> cursor_at cx D c1 (us0 @ us) vs \<and> cur_tree c1 = cur_tree c)"
proof (intro conjI)
  have slice: "\<exists>c1 t. cursor_slice cx D g b' c = Some (c1, t) \<and> wf_tree cx t \<and> tree_items t = us'
        \<and> cursor_at cx D c1 (us0 @ us') vs' \<and> cur_tree c1 = cur_tree c"
    if "g (cur_position c) \<noteq> Less" "seek_ordered cx D (target_in g b') (cur_position c) vs0"
      "seek_split cx D (target_in g b') (cur_position c) vs0 = (us', vs')" for g b' us' vs'
    using seek_laws.slice_seek_ok [OF assms(1,3-5) slice_rep_init that]
    by (auto simp: cursor_slice_def slice_rep_def)
  from slice [OF assms(6-8)]
  show "\<exists>c1 t. cursor_slice cx D target b c = Some (c1, t) \<and> wf_tree cx t \<and> tree_items t = us
        \<and> cursor_at cx D c1 (us0 @ us) vs \<and> cur_tree c1 = cur_tree c" .
  show "\<exists>c1 t. cursor_suffix cx D c = Some (c1, t) \<and> wf_tree cx t \<and> tree_items t = vs0
        \<and> cursor_at cx D c1 (us0 @ vs0) [] \<and> cur_tree c1 = cur_tree c"
    unfolding cursor_suffix_def
    by (rule slice) (simp_all add: target_in_def end_target_def seek_ordered_def sorted_wrt_true seek_split_all)
  have "seek_summary cx D O1" using assms(1,2) by (simp add: seek_summary_def)
  from seek_summary.sum_seek_ok [OF this assms(3-5) _ assms(6-8)]
  show "\<exists>c1. cursor_summary D O1 target b c = Some (c1, pos_after cx O1 (dim_zero O1) us)
        \<and> cursor_at cx D c1 (us0 @ us) vs \<and> cur_tree c1 = cur_tree c"
    by (auto simp: cursor_summary_def)
qed

theorem cursor_slice_splits_witness:
  "\<exists>c1 t. cursor_slice count_sops count_dim (cmp 2) Right (cursor_new count_dim (Leaf 3 [7, 8, 9] [1, 1, 1])) = Some (c1, t)
     \<and> tree_items t = [7, 8] \<and> cursor_at count_sops count_dim c1 [7, 8] [9]"
  using cursor_slice_splits [OF count_seek.seek_laws_axioms count_seek.seek_laws_axioms,
      of "cursor_new count_dim (Leaf 3 [7, 8, 9] [1, 1, 1])" "[]" "[7, 8, 9]" "cmp 2" Right "[7, 8]" "[9]"]
  by (auto simp: count_sops_def count_dim_def seek_ordered_def target_in_def cmp_def sum_summaries_def TREE_BASE_def
      STACK_CAP_def cursor_between_def cursor_new_def cursor_fresh_def wf_tree_def)

text \<open>(C18) Seeking and stepping: a seek from the start of a tree returns, stands before the first item at
  whose end the target has been reached (so that \<open>item\<close> is that item, or nothing at the end), reports
  whether the position compared equal to the target, and every \<open>next\<close> from there moves past exactly one
  item, staying put at the end; on a new cursor, \<open>next\<close> goes to the first item.\<close>

theorem seek_then_next_visits:
  assumes "seek_laws cx D" "wf_tree cx t" "tree_height t < STACK_CAP" "target (dim_zero D) \<noteq> Less"
    "seek_ordered cx D (target_in target b) (dim_zero D) (tree_items t)"
    "seek_split cx D (target_in target b) (dim_zero D) (tree_items t) = (us, vs)"
  shows "(\<exists>c1 c2. seek D target b (cursor_new D t) = Some (c1,
        target (if b = Left then pos_after cx D (cur_position c1) (take 1 vs) else cur_position c1) = Equal)
      \<and> cursor_at cx D c1 us vs
      \<and> cursor_item c1 = Some (case vs of [] \<Rightarrow> None | v # _ \<Rightarrow> Some v)
      \<and> cursor_next D c1 = Some c2 \<and> cursor_at cx D c2 (us @ take 1 vs) (drop 1 vs))
    \<and> (\<exists>c1. cursor_next D (cursor_new D t) = Some c1 \<and> cursor_at cx D c1 [] (tree_items t))"
proof
  have reset: "cursor_reset D (cursor_new D t) = cursor_new D t" by (simp add: cursor_reset_def cursor_new_def)
  have tree: "cur_tree (cursor_new D t) = t" "cur_position (cursor_new D t) = dim_zero D"
    by (simp_all add: cursor_new_def)
  obtain c1 a1 where c1: "seek_internal D target b unit_aggregate (cursor_new D t) () = Some (c1, a1,
        target (if b = Left then pos_after cx D (cur_position c1) (take 1 vs) else cur_position c1) = Equal)"
    "cursor_at cx D c1 us vs" "cur_tree c1 = t"
    using seek_laws.unit_seek_ok [OF assms(1), of "cursor_new D t" "[]" "tree_items t" target b us vs "()"]
      assms(2-6) by (auto simp: tree cursor_between_def)
  obtain c2 where "cursor_next D c1 = Some c2" "cursor_at cx D c2 (us @ take 1 vs) (drop 1 vs)"
    using seek_laws.cursor_next_ok(2) [OF assms(1), of c1 us vs] c1 assms(2,3) by auto
  with c1 cursor_at_item(1) [OF c1(2)] assms(2)
  show "\<exists>c1 c2. seek D target b (cursor_new D t) = Some (c1,
        target (if b = Left then pos_after cx D (cur_position c1) (take 1 vs) else cur_position c1) = Equal)
      \<and> cursor_at cx D c1 us vs
      \<and> cursor_item c1 = Some (case vs of [] \<Rightarrow> None | v # _ \<Rightarrow> Some v)
      \<and> cursor_next D c1 = Some c2 \<and> cursor_at cx D c2 (us @ take 1 vs) (drop 1 vs)"
    by (intro exI [of _ c1] exI [of _ c2]) (simp add: seek_def reset)
  show "\<exists>c1. cursor_next D (cursor_new D t) = Some c1 \<and> cursor_at cx D c1 [] (tree_items t)"
    using seek_laws.cursor_next_ok(1) [OF assms(1), of "cursor_new D t"] assms(2,3) by (auto simp: tree)
qed

theorem seek_then_next_visits_witness:
  "\<exists>c1 c2. seek count_dim (cmp 2) Right (cursor_new count_dim (Leaf 3 [7, 8, 9] [1, 1, 1])) = Some (c1, True)
     \<and> cursor_item c1 = Some (Some 9) \<and> cursor_next count_dim c1 = Some c2
     \<and> cursor_at count_sops count_dim c2 [7, 8, 9] []"
  using seek_then_next_visits [OF count_seek.seek_laws_axioms,
      of "Leaf 3 [7, 8, 9] [1, 1, 1]" "cmp 2" Right "[7, 8]" "[9]"]
  by (auto simp: count_sops_def count_dim_def seek_ordered_def target_in_def cmp_def sum_summaries_def TREE_BASE_def
      STACK_CAP_def wf_tree_def cursor_at_def)

end
