(* ===== verification/Keyed_Tree.thy ===== *)
theory Keyed_Tree
  imports Sum_Forward "HOL-Library.Multiset"
begin

text \<open>
  Keyed trees: \<open>insert_or_replace\<close>, \<open>remove\<close>, \<open>edit\<close> and \<open>get\<close> of \<^verbatim>\<open>impl<T: KeyedItem> SumTree<T>\<close>
  (\<^verbatim>\<open>src/crates/sum_tree/src/sum_tree.rs\<close>). The trait \<^verbatim>\<open>KeyedItem\<close> is the locale \<open>keyed_laws\<close>: keys are
  the dimension along which the tree is searched, and the position after an item is its key. The
  abstraction of a tree is the list of its items, strictly sorted by key; \<open>lookup\<close> reads it as a map.
\<close>

datatype ('t, 'k) tree_edit = Insert 't | Remove 'k

fun edit_key :: "('t \<Rightarrow> 'k) \<Rightarrow> ('t, 'k) tree_edit \<Rightarrow> 'k" where
  "edit_key key (Insert item) = key item"
| "edit_key key (Remove k) = k"

text \<open>\<open>if let Some(item) = cursor.item() && item.key() == key { .. cursor.next() }\<close>\<close>

definition take_equal ::
  "('s, 'd) dim \<Rightarrow> ('t \<Rightarrow> 'd) \<Rightarrow> 'd \<Rightarrow> ('t, 's, 'd) cursor \<Rightarrow> ('t option \<times> ('t, 's, 'd) cursor) run" where
  "take_equal D key k c = do {
     it \<leftarrow> cursor_item c;
     (case it of
        Some item \<Rightarrow>
          if key item = k then map_option (\<lambda>c1. (Some item, c1)) (cursor_next D c) else Some (None, c)
      | None \<Rightarrow> Some (None, c))
   }"

definition insert_or_replace ::
  "('t, 's) sops \<Rightarrow> ('s, 'd :: linorder) dim \<Rightarrow> ('t \<Rightarrow> 'd) \<Rightarrow> 't \<Rightarrow> ('t, 's) sum_tree \<Rightarrow>
     (('t, 's) sum_tree \<times> 't option) run" where
  "insert_or_replace cx D key item t = do {
     (c1, new_tree) \<leftarrow> cursor_slice cx D (cmp (key item)) Left (cursor_new D t);
     (replaced, c2) \<leftarrow> take_equal D key (key item) c1;
     t1 \<leftarrow> tree_push cx new_tree item;
     (_, rest) \<leftarrow> cursor_suffix cx D c2;
     t2 \<leftarrow> tree_append cx t1 rest;
     Some (t2, replaced)
   }"

definition keyed_remove ::
  "('t, 's) sops \<Rightarrow> ('s, 'd :: linorder) dim \<Rightarrow> ('t \<Rightarrow> 'd) \<Rightarrow> 'd \<Rightarrow> ('t, 's) sum_tree \<Rightarrow>
     (('t, 's) sum_tree \<times> 't option) run" where
  "keyed_remove cx D key k t = do {
     (c1, new_tree) \<leftarrow> cursor_slice cx D (cmp k) Left (cursor_new D t);
     (removed, c2) \<leftarrow> take_equal D key k c1;
     (_, rest) \<leftarrow> cursor_suffix cx D c2;
     t1 \<leftarrow> tree_append cx new_tree rest;
     Some (t1, removed)
   }"

text \<open>The loop of \<open>edit\<close> over the sorted edits: the cursor, the new tree, the items still to be appended
  to it, and the items removed.\<close>

fun edit_loop ::
  "('t, 's) sops \<Rightarrow> ('s, 'd :: linorder) dim \<Rightarrow> ('t \<Rightarrow> 'd) \<Rightarrow> ('t, 'd) tree_edit list \<Rightarrow>
     ('t, 's, 'd) cursor \<Rightarrow> ('t, 's) sum_tree \<Rightarrow> 't list \<Rightarrow> 't list \<Rightarrow>
     (('t, 's, 'd) cursor \<times> ('t, 's) sum_tree \<times> 't list \<times> 't list) run" where
  "edit_loop cx D key [] c new_tree buffered removed = Some (c, new_tree, buffered, removed)"
| "edit_loop cx D key (e # es) c new_tree buffered removed = do {
     old_item \<leftarrow> cursor_item c;
     (c1, new_tree1, buffered1) \<leftarrow>
       (if (case old_item of Some x \<Rightarrow> key x < edit_key key e | None \<Rightarrow> False) then do {
          t1 \<leftarrow> tree_extend cx new_tree buffered;
          (c1, slice) \<leftarrow> cursor_slice cx D (cmp (edit_key key e)) Left c;
          t2 \<leftarrow> tree_append cx t1 slice;
          Some (c1, t2, [])
        } else Some (c, new_tree, buffered));
     (taken, c2) \<leftarrow> take_equal D key (edit_key key e) c1;
     edit_loop cx D key es c2 new_tree1
       (case e of Insert item \<Rightarrow> buffered1 @ [item] | Remove _ \<Rightarrow> buffered1)
       (case taken of Some x \<Rightarrow> removed @ [x] | None \<Rightarrow> removed)
   }"

text \<open>\<open>sort_unstable_by_key\<close> leaves the order of edits of equal keys open: the sort is a parameter.\<close>

definition tree_edit_all ::
  "(('t, 'd) tree_edit list \<Rightarrow> ('t, 'd) tree_edit list) \<Rightarrow> ('t, 's) sops \<Rightarrow> ('s, 'd :: linorder) dim \<Rightarrow>
     ('t \<Rightarrow> 'd) \<Rightarrow> ('t, 'd) tree_edit list \<Rightarrow> ('t, 's) sum_tree \<Rightarrow> (('t, 's) sum_tree \<times> 't list) run" where
  "tree_edit_all sort_unstable cx D key edits t =
     (if edits = [] then Some (t, [])
      else do {
        (c, _) \<leftarrow> seek D (cmp (dim_zero D)) Left (cursor_new D t);
        (c1, new_tree, buffered, removed) \<leftarrow> edit_loop cx D key (sort_unstable edits) c (tree_new cx) [] [];
        t1 \<leftarrow> tree_extend cx new_tree buffered;
        (_, rest) \<leftarrow> cursor_suffix cx D c1;
        t2 \<leftarrow> tree_append cx t1 rest;
        Some (t2, removed)
      })"

definition keyed_get :: "('s, 'd :: linorder) dim \<Rightarrow> 'd \<Rightarrow> ('t, 's) sum_tree \<Rightarrow> 't option" where
  "keyed_get D k t = (case find_exact D (cmp k) Left t of (_, _, r) \<Rightarrow> r)"

subsection \<open>The specification: strictly sorted lists of items\<close>

definition sorted_keys :: "('t \<Rightarrow> 'k :: linorder) \<Rightarrow> 't list \<Rightarrow> bool" where
  "sorted_keys key xs \<longleftrightarrow> sorted_wrt (\<lambda>x y. key x < key y) xs"

definition lookup :: "('t \<Rightarrow> 'k) \<Rightarrow> 't list \<Rightarrow> 'k \<Rightarrow> 't option" where
  "lookup key xs k = List.find (\<lambda>x. key x = k) xs"

abbreviation below_key :: "('t \<Rightarrow> 'k :: linorder) \<Rightarrow> 'k \<Rightarrow> 't list \<Rightarrow> 't list" where
  "below_key key k xs \<equiv> takeWhile (\<lambda>x. key x < k) xs"

abbreviation from_key :: "('t \<Rightarrow> 'k :: linorder) \<Rightarrow> 'k \<Rightarrow> 't list \<Rightarrow> 't list" where
  "from_key key k xs \<equiv> dropWhile (\<lambda>x. key x < k) xs"

definition above_key :: "('t \<Rightarrow> 'k :: linorder) \<Rightarrow> 'k \<Rightarrow> 't list \<Rightarrow> 't list" where
  "above_key key k xs = (case from_key key k xs of [] \<Rightarrow> [] | y # ys \<Rightarrow> if key y = k then ys else y # ys)"

lemma lookup_simps [simp]:
  "lookup key [] k = None" "lookup key (x # xs) k = (if key x = k then Some x else lookup key xs k)"
  by (simp_all add: lookup_def)

lemma lookup_append: "lookup key (xs @ ys) k = (case lookup key xs k of Some x \<Rightarrow> Some x | None \<Rightarrow> lookup key ys k)"
  by (induction xs) simp_all

lemma lookup_None: "lookup key xs k = None \<longleftrightarrow> k \<notin> key ` set xs"
  by (induction xs) auto

lemma lookup_Some: "lookup key xs k = Some x \<Longrightarrow> x \<in> set xs \<and> key x = k"
  by (induction xs) (auto split: if_splits)

lemma sorted_keys_simps [simp]:
  "sorted_keys key []" "sorted_keys key (x # xs) \<longleftrightarrow> (\<forall>y \<in> set xs. key x < key y) \<and> sorted_keys key xs"
  "sorted_keys key (xs @ ys) \<longleftrightarrow> sorted_keys key xs \<and> sorted_keys key ys \<and> (\<forall>x \<in> set xs. \<forall>y \<in> set ys. key x < key y)"
  by (simp_all add: sorted_keys_def sorted_wrt_append)

lemma lookup_mem: "sorted_keys key xs \<Longrightarrow> x \<in> set xs \<Longrightarrow> lookup key xs (key x) = Some x"
  by (induction xs) auto

lemma below_keys: "x \<in> set (below_key key k xs) \<Longrightarrow> key x < k"
  by (auto dest: set_takeWhileD)

lemma from_keys: "sorted_keys key xs \<Longrightarrow> x \<in> set (from_key key k xs) \<Longrightarrow> k \<le> key x"
  by (induction xs) (auto split: if_splits)

lemma above_keys: "sorted_keys key xs \<Longrightarrow> x \<in> set (above_key key k xs) \<Longrightarrow> k < key x"
proof (induction xs)
  case (Cons y xs)
  then show ?case by (cases "key y < k") (auto simp: above_key_def split: if_splits)
qed (simp add: above_key_def)

lemma sorted_parts:
  assumes "sorted_keys key xs"
  shows "sorted_keys key (below_key key k xs)" "sorted_keys key (from_key key k xs)" "sorted_keys key (above_key key k xs)"
proof -
  have "sorted_keys key (below_key key k xs @ from_key key k xs)" using assms by simp
  then show s: "sorted_keys key (below_key key k xs)" "sorted_keys key (from_key key k xs)"
    by (simp_all only: sorted_keys_simps)
  then show "sorted_keys key (above_key key k xs)"
    by (auto simp: above_key_def split: list.split)
qed

text \<open>What remains of a map when the entry of one key is taken out.\<close>

lemma lookup_parts:
  assumes "sorted_keys key xs"
  shows "lookup key (below_key key k xs) j = (if j < k then lookup key xs j else None)"
    and "lookup key (above_key key k xs) j = (if k < j then lookup key xs j else None)"
    and "lookup key xs k = (case from_key key k xs of [] \<Rightarrow> None | y # _ \<Rightarrow> if key y = k then Some y else None)"
proof -
  have "lookup key (below_key key k xs) j = (if j < k then lookup key xs j else None)
    \<and> lookup key (above_key key k xs) j = (if k < j then lookup key xs j else None)
    \<and> lookup key xs k = (case from_key key k xs of [] \<Rightarrow> None | y # _ \<Rightarrow> if key y = k then Some y else None)"
    using assms
  proof (induction xs)
    case (Cons x xs)
    have out: "lookup key xs i = None" if "i \<le> key x" for i
      using that Cons.prems by (auto simp: lookup_None)
    show ?case
    proof (cases "key x < k")
      case True
      then show ?thesis using Cons by (auto simp: above_key_def)
    next
      case False
      then show ?thesis using out by (auto simp: above_key_def)
    qed
  qed (simp add: above_key_def)
  then show "lookup key (below_key key k xs) j = (if j < k then lookup key xs j else None)"
    and "lookup key (above_key key k xs) j = (if k < j then lookup key xs j else None)"
    and "lookup key xs k = (case from_key key k xs of [] \<Rightarrow> None | y # _ \<Rightarrow> if key y = k then Some y else None)"
    by simp_all
qed

text \<open>Applying sorted edits to a sorted list in one pass.\<close>

fun edit_items :: "('t \<Rightarrow> 'k :: linorder) \<Rightarrow> 't list \<Rightarrow> ('t, 'k) tree_edit list \<Rightarrow> 't list" where
  "edit_items key xs [] = xs"
| "edit_items key xs (e # es) =
     below_key key (edit_key key e) xs @ (case e of Insert item \<Rightarrow> [item] | Remove _ \<Rightarrow> [])
       @ edit_items key (above_key key (edit_key key e) xs) es"

fun edit_removed :: "('t \<Rightarrow> 'k :: linorder) \<Rightarrow> 't list \<Rightarrow> ('t, 'k) tree_edit list \<Rightarrow> 't list" where
  "edit_removed key xs [] = []"
| "edit_removed key xs (e # es) =
     (case lookup key xs (edit_key key e) of Some x \<Rightarrow> [x] | None \<Rightarrow> [])
       @ edit_removed key (above_key key (edit_key key e) xs) es"

fun edited :: "('t \<Rightarrow> 'k) \<Rightarrow> ('t, 'k) tree_edit list \<Rightarrow> ('k \<Rightarrow> 't option) \<Rightarrow> 'k \<Rightarrow> 't option" where
  "edited key [] m = m"
| "edited key (Insert item # es) m = edited key es (m(key item := Some item))"
| "edited key (Remove k # es) m = edited key es (m(k := None))"

lemma edited_other: "k \<notin> edit_key key ` set es \<Longrightarrow> edited key es m k = m k"
  by (induction key es m rule: edited.induct) auto

lemma edited_cong: "m k = m' k \<Longrightarrow> edited key es m k = edited key es m' k"
proof (induction es arbitrary: m m')
  case (Cons e es)
  show ?case
  proof (cases e)
    case (Insert x)
    have "(m(key x := Some x)) k = (m'(key x := Some x)) k" using Cons.prems by simp
    then show ?thesis unfolding Insert edited.simps by (rule Cons.IH)
  next
    case (Remove j)
    have "(m(j := None)) k = (m'(j := None)) k" using Cons.prems by simp
    then show ?thesis unfolding Remove edited.simps by (rule Cons.IH)
  qed
qed simp

lemma edited_inserts:
  "Insert x \<in> set es \<Longrightarrow> distinct (map (edit_key key) es) \<Longrightarrow> edited key es m (key x) = Some x"
proof (induction key es m rule: edited.induct)
  case (2 key item es m)
  show ?case
  proof (cases "item = x")
    case True
    then have "key x \<notin> edit_key key ` set es" using 2 by auto
    with True show ?thesis by (simp add: edited_other)
  qed (use 2 in \<open>auto simp: fun_upd_def\<close>)
qed auto

lemma edit_items_keys:
  "x \<in> set (edit_items key xs es) \<Longrightarrow> x \<in> set xs \<or> key x \<in> edit_key key ` set es"
proof (induction key xs es rule: edit_items.induct)
  case (2 key xs e es)
  have "set (above_key key (edit_key key e) xs) \<subseteq> set xs"
    by (auto simp: above_key_def dest!: set_dropWhileD [rotated] split: list.splits if_splits)
      (metis list.set_intros set_dropWhileD)+
  with 2 show ?case by (auto dest: set_takeWhileD split: tree_edit.splits)
qed simp

lemma sorted_keys_join:
  assumes "sorted_keys key lo" "sorted_keys key hi" "\<And>x. x \<in> set lo \<Longrightarrow> key x < k" "\<And>y. y \<in> set hi \<Longrightarrow> k < key y"
    "\<And>z. z \<in> set mid \<Longrightarrow> key z = k" "length mid \<le> 1"
  shows "sorted_keys key (lo @ mid @ hi)"
proof -
  have "key x < key y" if "x \<in> set lo" "y \<in> set hi" for x y
    using assms(3) [OF that(1)] assms(4) [OF that(2)] by (rule less_trans)
  moreover have "sorted_keys key mid" using assms(6) by (cases mid) auto
  ultimately show ?thesis using assms(1-5) by (auto simp: sorted_keys_def sorted_wrt_append)
qed

lemma edit_items_ok:
  assumes "sorted_keys key xs" "sorted_wrt (\<lambda>d e. edit_key key d < edit_key key e) es"
  shows "sorted_keys key (edit_items key xs es) \<and> lookup key (edit_items key xs es) = edited key es (lookup key xs)"
  using assms
proof (induction key xs es rule: edit_items.induct)
  case (2 key xs e es)
  let ?k = "edit_key key e" and ?ab = "above_key key (edit_key key e) xs"
  have IH: "sorted_keys key (edit_items key ?ab es)" "lookup key (edit_items key ?ab es) = edited key es (lookup key ?ab)"
    using 2 sorted_parts(3) by auto
  have hi: "?k < key y" if "y \<in> set (edit_items key ?ab es)" for y
    using edit_items_keys [OF that] above_keys [OF 2(2)] 2(3) by auto
  have lo: "key y < ?k" if "y \<in> set (below_key key ?k xs)" for y using below_keys [OF that] .
  have "sorted_keys key (edit_items key xs (e # es))"
    unfolding edit_items.simps
    by (rule sorted_keys_join [OF sorted_parts(1) [OF 2(2)] IH(1) lo hi]) (auto split: tree_edit.splits)
  moreover have "lookup key (edit_items key xs (e # es)) j = edited key (e # es) (lookup key xs) j" for j
  proof (cases "j \<le> ?k")
    case True
    then have "lookup key (edit_items key ?ab es) j = None" using hi by (force simp: lookup_None)
    moreover have "edited key es m j = m j" for m
      using True 2(3) by (intro edited_other) auto
    ultimately show ?thesis
      using True by (cases e) (auto simp: lookup_append lookup_parts(1) [OF 2(2)] split: option.split)
  next
    case False
    have upd: "edited key es (lookup key ?ab) j = edited key es m j" if "m j = lookup key xs j" for m
      using that False by (intro edited_cong) (simp add: lookup_parts(2) [OF 2(2)] not_le)
    show ?thesis
    proof (cases e)
      case (Insert x)
      then have "j \<noteq> key x" "\<not> j < key x" using False by auto
      with upd [of "(lookup key xs)(key x := Some x)"] Insert False IH(2) show ?thesis
        by (simp add: lookup_append lookup_parts(1) [OF 2(2)])
    next
      case (Remove i)
      then have "j \<noteq> i" "\<not> j < i" using False by auto
      with upd [of "(lookup key xs)(i := None)"] Remove False IH(2) show ?thesis
        by (simp add: lookup_append lookup_parts(1) [OF 2(2)])
    qed
  qed
  ultimately show ?case by (simp only: fun_eq_iff simp_thms)
qed simp

text \<open>Insertions with repeated keys: only the items of the list are replaced, the inserted ones are all kept.\<close>

lemma sorted_keys_filter: "sorted_keys key xs \<Longrightarrow> sorted_keys key (filter P xs)"
  by (simp add: sorted_keys_def sorted_wrt_filter)

lemma sorted_filters:
  assumes "sorted_keys key xs"
  shows "below_key key k xs = filter (\<lambda>x. key x < k) xs \<and> above_key key k xs = filter (\<lambda>x. k < key x) xs"
  using assms
proof (induction xs)
  case (Cons x xs)
  then have later: "key x < key y" if "y \<in> set xs" for y using that by simp
  consider "key x < k" | "key x = k" | "k < key x" by fastforce
  then show ?case
  proof cases
    case 1
    with Cons show ?thesis by (simp add: above_key_def)
  next
    case 2
    with later have "\<And>y. y \<in> set xs \<Longrightarrow> k < key y" by simp
    then have "filter (\<lambda>y. key y < k) xs = []" "filter (\<lambda>y. k < key y) xs = xs"
      by (auto simp: filter_empty_conv filter_id_conv dest: less_asym)
    with 2 show ?thesis by (simp add: above_key_def)
  next
    case 3
    then have "k < key y" if "y \<in> set xs" for y using later [OF that] by (rule less_trans)
    then have "filter (\<lambda>y. key y < k) xs = []" "filter (\<lambda>y. k < key y) xs = xs"
      by (auto simp: filter_empty_conv filter_id_conv dest: less_asym)
    moreover have "\<not> key x < k" "key x \<noteq> k" using 3 by auto
    ultimately show ?thesis using Cons 3 by (simp add: above_key_def)
  qed
qed (simp add: above_key_def)

lemma sorted_keys_sorted: "sorted_keys key xs \<Longrightarrow> sorted (map key xs)"
  by (induction xs) (auto simp: less_imp_le)

lemma edit_items_extended:
  assumes "sorted_keys key xs" "sorted (map key items)"
  shows "mset (edit_items key xs (map Insert items)) =
      filter_mset (\<lambda>x. key x \<notin> key ` set items) (mset xs) + mset items
    \<and> sorted (map key (edit_items key xs (map Insert items)))"
  using assms
proof (induction items arbitrary: xs)
  case Nil
  then show ?case by (simp add: sorted_keys_sorted)
next
  case (Cons x items)
  let ?k = "key x" and ?ab = "filter (\<lambda>y. key x < key y) xs"
  have below: "filter (\<lambda>y. key y \<notin> key ` set (x # items)) (filter (\<lambda>y. key y < ?k) xs) = filter (\<lambda>y. key y < ?k) xs"
    using Cons.prems(2) unfolding filter_filter by (intro filter_cong) (auto simp: not_le [symmetric])
  have above: "filter (\<lambda>y. key y \<notin> key ` set (x # items)) ?ab = filter (\<lambda>y. key y \<notin> key ` set items) ?ab"
    by (rule filter_cong) auto
  have ab: "sorted_keys key ?ab" using Cons.prems(1) by (simp add: sorted_keys_filter)
  from Cons.IH [OF this] Cons.prems(2)
  have IH: "mset (edit_items key ?ab (map Insert items)) = filter_mset (\<lambda>y. key y \<notin> key ` set items) (mset ?ab) + mset items"
    "sorted (map key (edit_items key ?ab (map Insert items)))" by simp_all
  have "filter_mset (\<lambda>y. key y \<notin> key ` set (x # items)) (mset xs) =
      filter_mset (\<lambda>y. key y \<notin> key ` set (x # items)) (mset (filter (\<lambda>y. key y < ?k) xs))
      + filter_mset (\<lambda>y. key y \<notin> key ` set (x # items)) (mset ?ab)"
    by (induction xs) auto
  then have "mset (edit_items key xs (map Insert (x # items))) =
      filter_mset (\<lambda>y. key y \<notin> key ` set (x # items)) (mset xs) + mset (x # items)"
    using IH(1) unfolding mset_filter [symmetric] below above
    by (simp add: sorted_filters [OF Cons.prems(1)])
  moreover have "key x \<le> key y" if "y \<in> set (edit_items key ?ab (map Insert items))" for y
    using edit_items_keys [OF that] Cons.prems(2) by auto
  moreover have "sorted (map key (filter (\<lambda>y. key y < ?k) xs))"
    using Cons.prems(1) by (simp add: sorted_keys_sorted sorted_keys_filter)
  ultimately show ?case using IH(2)
    by (auto simp: sorted_filters [OF Cons.prems(1)] sorted_append intro: order_trans less_imp_le)
qed

lemma sorted_inserts:
  assumes "mset (srt (map Insert items)) = mset (map Insert items)" "sorted (map (edit_key key) (srt (map Insert items)))"
  obtains ss where "srt (map Insert items) = map Insert ss" "mset ss = mset items" "sorted (map key ss)"
proof -
  have "set (srt (map Insert items)) = set (map Insert items)" using assms(1) by (metis set_mset_mset)
  then have "\<forall>e \<in> set (srt (map Insert items)). \<exists>x. e = Insert x" by auto
  then obtain ss where ss: "srt (map Insert items) = map Insert ss" by (metis ex_map_conv)
  have "mset ss = mset items"
    using arg_cong [OF assms(1), of "image_mset (case_tree_edit (\<lambda>x. x) undefined)"] unfolding ss
    by (simp add: multiset.map_comp comp_def)
  moreover have "sorted (map key ss)" using assms(2) ss by (simp add: comp_def)
  ultimately show ?thesis using ss that by blast
qed

lemma sorted_keys_distinct: "sorted_keys key xs \<longleftrightarrow> sorted (map key xs) \<and> distinct (map key xs)"
  by (induction xs) (auto simp: less_le)

subsection \<open>The trees implement it\<close>

locale keyed_laws = seek_laws cx D
  for cx :: "('t, 's) sops" and D :: "('s, 'd :: linorder) dim" +
  fixes key :: "'t \<Rightarrow> 'd"
  assumes end_key: "d \<le> key x \<Longrightarrow> dim_add D d (item_summary cx x) = key x"
    and zero_least: "dim_zero D \<le> key x"
begin

text \<open>A tree that holds the sorted items \<open>xs\<close>, and is not higher than a cursor can descend.\<close>

definition holds :: "('t, 's) sum_tree \<Rightarrow> 't list \<Rightarrow> bool" where
  "holds t xs \<longleftrightarrow> wf_tree cx t \<and> tree_height t < STACK_CAP \<and> tree_items t = xs \<and> sorted_keys key xs"

text \<open>A position that is not beyond the items \<open>xs\<close>.\<close>

definition before :: "'d \<Rightarrow> 't list \<Rightarrow> bool" where
  "before pos xs \<longleftrightarrow> (\<forall>x \<in> set xs. pos \<le> key x)"

lemma before_simps [simp]: "before pos []" "before pos (x # xs) \<longleftrightarrow> pos \<le> key x \<and> before pos xs" "before (dim_zero D) xs"
  by (simp_all add: before_def zero_least)

lemma before_key: "\<forall>y \<in> set xs. key x < key y \<Longrightarrow> before (key x) xs"
  by (auto simp: before_def less_imp_le)

lemma ends_keys: "sorted_keys key xs \<Longrightarrow> before pos xs \<Longrightarrow> ends cx D pos xs = map key xs"
  by (induction xs arbitrary: pos) (simp_all add: Let_def end_key before_key)

lemma pos_after_keys:
  "sorted_keys key (us @ vs) \<Longrightarrow> before pos (us @ vs) \<Longrightarrow>
   pos_after cx D pos us = (if us = [] then pos else key (last us)) \<and> before (pos_after cx D pos us) vs"
proof (induction us arbitrary: pos)
  case (Cons x us)
  have "dim_add D pos (item_summary cx x) = key x" using Cons.prems(2) by (simp add: end_key)
  moreover have "sorted_keys key (us @ vs)" "before (key x) (us @ vs)"
    using Cons.prems(1) by (auto simp: before_def less_imp_le)
  ultimately show ?case using Cons.IH [of "key x"] by auto
qed simp

lemma target_in_key: "target_in (cmp k) Left d \<longleftrightarrow> k \<le> d"
  by (auto simp: target_in_def)

lemma ordered_keys: "sorted_keys key xs \<Longrightarrow> before pos xs \<Longrightarrow> seek_ordered cx D (target_in (cmp k) Left) pos xs"
  unfolding seek_ordered_def target_in_key
  by (simp only: ends_keys sorted_wrt_map sorted_keys_def) (rule sorted_wrt_mono_rel, auto)

lemma seek_split_keys:
  "sorted_keys key xs \<Longrightarrow> before pos xs \<Longrightarrow>
   seek_split cx D (target_in (cmp k) Left) pos xs = (below_key key k xs, from_key key k xs)"
  by (induction xs arbitrary: pos) (auto simp: Let_def end_key target_in_key not_le before_key)

lemma cursor_before:
  assumes "sorted_keys key (tree_items (cur_tree c))" "cursor_between cx D c us vs"
  shows "before (cur_position c) vs" "sorted_keys key vs"
    "cur_position c = (if us = [] then dim_zero D else key (last us))"
proof -
  have s: "sorted_keys key (us @ vs)" using assms(1) cursor_between_items [OF assms(2)] by (simp only:)
  then show "sorted_keys key vs" by simp
  show "before (cur_position c) vs" "cur_position c = (if us = [] then dim_zero D else key (last us))"
    unfolding cursor_between_position [OF assms(2)] using pos_after_keys [OF s before_simps(3)] by blast+
qed

lemma position_keys:
  assumes "sorted_keys key (tree_items (cur_tree c))" "cursor_at cx D c us vs" "\<forall>x \<in> set us. key x \<le> k" "dim_zero D \<le> k"
  shows "cur_position c \<le> k"
  using cursor_before(3) [OF assms(1), of us vs] assms(2-) by (auto simp: cursor_between_def)

lemma take_equal_ok:
  assumes "wf_tree cx (cur_tree c)" "tree_height (cur_tree c) < STACK_CAP" "cursor_at cx D c us (from_key key k xs)"
    "sorted_keys key xs"
  shows "\<exists>c1 us1. take_equal D key k c = Some (lookup key xs k, c1) \<and> cur_tree c1 = cur_tree c
    \<and> cursor_at cx D c1 us1 (above_key key k xs) \<and> (\<forall>x \<in> set us1. x \<in> set us \<or> key x = k)"
proof (cases "from_key key k xs")
  case Nil
  have "lookup key xs k = None" "above_key key k xs = []"
    by (simp_all only: above_key_def lookup_parts(3) [OF assms(4), of k] Nil list.case)
  with assms(3) cursor_at_item(1) [OF assms(3,1)] Nil show ?thesis
    by (intro exI [of _ c] exI [of _ us]) (simp add: take_equal_def del: dropWhile_eq_Nil_conv)
next
  case (Cons y ys)
  obtain c1 where "cursor_next D c = Some c1" "cur_tree c1 = cur_tree c" "cursor_at cx D c1 (us @ [y]) ys"
    using cursor_next_ok(2) [OF assms(1,2), of us "y # ys"] assms(3) Cons by auto
  with assms cursor_at_item(1) [OF assms(3,1)] Cons show ?thesis
    by (cases "key y = k")
      (auto simp: take_equal_def above_key_def lookup_parts(3) [OF assms(4), of k]
        intro: exI [of _ c1] exI [of _ c] exI [of _ us] exI [of _ "us @ [y]"])
qed

lemma slice_key_ok:
  assumes "wf_tree cx (cur_tree c)" "tree_height (cur_tree c) < STACK_CAP" "cursor_between cx D c us vs"
    "sorted_keys key (tree_items (cur_tree c))" "cur_position c \<le> k"
  shows "\<exists>c1 t. cursor_slice cx D (cmp k) Left c = Some (c1, t) \<and> wf_tree cx t \<and> tree_items t = below_key key k vs
    \<and> cur_tree c1 = cur_tree c \<and> cursor_at cx D c1 (us @ below_key key k vs) (from_key key k vs)"
proof -
  note b = cursor_before [OF assms(4,3)]
  from slice_seek_ok [OF assms(1-3) slice_rep_init _ ordered_keys [OF b(2,1)] seek_split_keys [OF b(2,1)]] assms(5)
  show ?thesis by (fastforce simp: cursor_slice_def slice_rep_def not_less)
qed

lemma suffix_ok:
  assumes "wf_tree cx (cur_tree c)" "tree_height (cur_tree c) < STACK_CAP" "cursor_between cx D c us vs"
  shows "\<exists>c1 t. cursor_suffix cx D c = Some (c1, t) \<and> wf_tree cx t \<and> tree_items t = vs"
proof -
  have "seek_ordered cx D (target_in end_target Right) (cur_position c) vs"
    "seek_split cx D (target_in end_target Right) (cur_position c) vs = (vs, [])" "end_target (cur_position c) \<noteq> Less"
    by (simp_all add: target_in_def end_target_def seek_ordered_def sorted_wrt_true seek_split_all)
  from slice_seek_ok [OF assms slice_rep_init this(3,1,2)] show ?thesis
    by (auto simp: cursor_suffix_def cursor_slice_def slice_rep_def)
qed

lemmas suffix_at_ok = suffix_ok [OF _ _ cursor_between_def [THEN iffD2, OF disjI1]]

lemma seek_key_ok:
  assumes "holds t xs" "dim_zero D \<le> k"
  shows "\<exists>c found. seek D (cmp k) Left (cursor_new D t) = Some (c, found) \<and> cur_tree c = t
    \<and> cursor_at cx D c (below_key key k xs) (from_key key k xs)"
proof -
  have t: "wf_tree cx t" "tree_height t < STACK_CAP" "tree_items t = xs" "sorted_keys key xs"
    using assms by (simp_all add: holds_def)
  have new: "cur_tree (cursor_new D t) = t" "cur_position (cursor_new D t) = dim_zero D"
    "cursor_reset D (cursor_new D t) = cursor_new D t"
    by (simp_all add: cursor_new_def cursor_reset_def)
  have "cursor_between cx D (cursor_new D t) [] xs" by (simp add: cursor_between_def new t)
  from unit_seek_ok [OF _ _ this _ _ ordered_keys [OF t(4)] seek_split_keys [OF t(4)], of k "()"] t(1,2) new assms(2)
  show ?thesis by (auto simp: seek_def not_less)
qed

lemma insert_or_replace_ok:
  assumes "holds t xs"
  shows "\<exists>t1. insert_or_replace cx D key item t = Some (t1, lookup key xs (key item)) \<and> wf_tree cx t1
    \<and> tree_items t1 = edit_items key xs [Insert item]"
proof -
  have t: "wf_tree cx t" "tree_height t < STACK_CAP" "tree_items t = xs" "sorted_keys key xs"
    using assms by (simp_all add: holds_def)
  have "cursor_between cx D (cursor_new D t) [] xs" by (simp add: cursor_between_def t)
  moreover have "cur_position (cursor_new D t) \<le> key item" by (simp add: cursor_new_def zero_least)
  ultimately obtain c1 t1 where c1: "cursor_slice cx D (cmp (key item)) Left (cursor_new D t) = Some (c1, t1)"
    "wf_tree cx t1" "tree_items t1 = below_key key (key item) xs" "cur_tree c1 = t"
    "cursor_at cx D c1 (below_key key (key item) xs) (from_key key (key item) xs)"
    using slice_key_ok [of "cursor_new D t" "[]" xs "key item"] t by auto
  obtain c2 us2 where c2: "take_equal D key (key item) c1 = Some (lookup key xs (key item), c2)" "cur_tree c2 = t"
    "cursor_at cx D c2 us2 (above_key key (key item) xs)"
    using take_equal_ok [OF _ _ c1(5) t(4)] c1(4) t(1,2) by auto
  obtain t2 where t2: "tree_push cx t1 item = Some t2" "wf_tree cx t2" "tree_items t2 = below_key key (key item) xs @ [item]"
    using tree_push_ok [OF c1(2), of item] c1(3) by auto
  obtain c3 t3 where t3: "cursor_suffix cx D c2 = Some (c3, t3)" "wf_tree cx t3" "tree_items t3 = above_key key (key item) xs"
    using suffix_at_ok [OF _ _ c2(3)] c2(2) t(1,2) by auto
  show ?thesis
    using tree_append_ok [OF t2(2) t3(2)] c1(1) c2(1) t2 t3 by (auto simp: insert_or_replace_def)
qed

lemma keyed_remove_ok:
  assumes "holds t xs" "dim_zero D \<le> k"
  shows "\<exists>t1. keyed_remove cx D key k t = Some (t1, lookup key xs k) \<and> wf_tree cx t1
    \<and> tree_items t1 = edit_items key xs [Remove k]"
proof -
  have t: "wf_tree cx t" "tree_height t < STACK_CAP" "tree_items t = xs" "sorted_keys key xs"
    using assms by (simp_all add: holds_def)
  have "cursor_between cx D (cursor_new D t) [] xs" by (simp add: cursor_between_def t)
  moreover have "cur_position (cursor_new D t) \<le> k" by (simp add: cursor_new_def assms(2))
  ultimately obtain c1 t1 where c1: "cursor_slice cx D (cmp k) Left (cursor_new D t) = Some (c1, t1)"
    "wf_tree cx t1" "tree_items t1 = below_key key k xs" "cur_tree c1 = t"
    "cursor_at cx D c1 (below_key key k xs) (from_key key k xs)"
    using slice_key_ok [of "cursor_new D t" "[]" xs k] t by auto
  obtain c2 us2 where c2: "take_equal D key k c1 = Some (lookup key xs k, c2)" "cur_tree c2 = t"
    "cursor_at cx D c2 us2 (above_key key k xs)"
    using take_equal_ok [OF _ _ c1(5) t(4)] c1(4) t(1,2) by auto
  obtain c3 t3 where t3: "cursor_suffix cx D c2 = Some (c3, t3)" "wf_tree cx t3" "tree_items t3 = above_key key k xs"
    using suffix_at_ok [OF _ _ c2(3)] c2(2) t(1,2) by auto
  show ?thesis
    using tree_append_ok [OF c1(2) t3(2)] c1 c2(1) t3 by (auto simp: keyed_remove_def)
qed

text \<open>Up to the key of the next edit: what the loop body of \<open>edit\<close> does before it looks at the edit.\<close>

lemma edit_advance:
  assumes "wf_tree cx (cur_tree c)" "tree_height (cur_tree c) < STACK_CAP" "cursor_at cx D c us vs"
    "sorted_keys key (tree_items (cur_tree c))" "cur_position c \<le> k" "wf_tree cx nt"
  shows "\<exists>c1 nt1 bf1. (if (case vs of x # _ \<Rightarrow> key x < k | [] \<Rightarrow> False) then do {
          t1 \<leftarrow> tree_extend cx nt bf;
          (c1, slice) \<leftarrow> cursor_slice cx D (cmp k) Left c;
          t2 \<leftarrow> tree_append cx t1 slice;
          Some (c1, t2, [])
        } else Some (c, nt, bf)) = Some (c1, nt1, bf1)
     \<and> wf_tree cx nt1 \<and> cur_tree c1 = cur_tree c \<and> tree_items nt1 @ bf1 = tree_items nt @ bf @ below_key key k vs
     \<and> cursor_at cx D c1 (us @ below_key key k vs) (from_key key k vs)"
proof (cases "case vs of x # _ \<Rightarrow> key x < k | [] \<Rightarrow> False")
  case True
  obtain t1 where t1: "tree_extend cx nt bf = Some t1" "wf_tree cx t1" "tree_items t1 = tree_items nt @ bf"
    using tree_extend_ok [OF assms(6), of bf] by blast
  obtain c1 t where c1: "cursor_slice cx D (cmp k) Left c = Some (c1, t)" "wf_tree cx t" "tree_items t = below_key key k vs"
    "cur_tree c1 = cur_tree c" "cursor_at cx D c1 (us @ below_key key k vs) (from_key key k vs)"
    using slice_key_ok [OF assms(1,2) _ assms(4,5), of us vs] assms(3) by (auto simp: cursor_between_def)
  obtain t2 where "tree_append cx t1 t = Some t2" "wf_tree cx t2" "tree_items t2 = tree_items t1 @ tree_items t"
    using tree_append_ok [OF t1(2) c1(2)] by blast
  with True t1 c1 show ?thesis by (intro exI [of _ c1] exI [of _ t2] exI [of _ "[]"]) simp
next
  case False
  then have "below_key key k vs = []" "from_key key k vs = vs" by (cases vs; simp)+
  with False assms show ?thesis by (intro exI [of _ c] exI [of _ nt] exI [of _ bf]) simp
qed

lemma edit_loop_ok:
  assumes "wf_tree cx (cur_tree c)" "tree_height (cur_tree c) < STACK_CAP" "cursor_at cx D c us vs"
    "sorted_keys key (tree_items (cur_tree c))" "wf_tree cx nt" "sorted (map (edit_key key) es)"
    "\<forall>e \<in> set es. dim_zero D \<le> edit_key key e \<and> (\<forall>x \<in> set us. key x \<le> edit_key key e)"
  shows "\<exists>c1 nt1 bf1 us1 vs1. edit_loop cx D key es c nt bf rm = Some (c1, nt1, bf1, rm @ edit_removed key vs es)
    \<and> wf_tree cx nt1 \<and> cur_tree c1 = cur_tree c \<and> cursor_at cx D c1 us1 vs1
    \<and> tree_items nt1 @ bf1 @ vs1 = tree_items nt @ bf @ edit_items key vs es"
  using assms
proof (induction es arbitrary: c nt bf rm us vs)
  case Nil
  then show ?case by (intro exI [of _ c] exI [of _ nt] exI [of _ bf] exI [of _ us] exI [of _ vs]) simp
next
  case (Cons e es)
  let ?k = "edit_key key e"
  have pos: "cur_position c \<le> ?k" using position_keys [OF Cons.prems(4,3), of ?k] Cons.prems(7) by simp
  have vs: "sorted_keys key vs" using cursor_before(2) [OF Cons.prems(4)] Cons.prems(3) by (auto simp: cursor_between_def)
  obtain c1 nt1 bf1 where step: "(if (case vs of x # _ \<Rightarrow> key x < ?k | [] \<Rightarrow> False) then do {
          t1 \<leftarrow> tree_extend cx nt bf;
          (c1, slice) \<leftarrow> cursor_slice cx D (cmp ?k) Left c;
          t2 \<leftarrow> tree_append cx t1 slice;
          Some (c1, t2, [])
        } else Some (c, nt, bf)) = Some (c1, nt1, bf1)"
    and c1: "wf_tree cx nt1" "cur_tree c1 = cur_tree c"
      "tree_items nt1 @ bf1 = tree_items nt @ bf @ below_key key ?k vs"
      "cursor_at cx D c1 (us @ below_key key ?k vs) (from_key key ?k vs)"
    using edit_advance [OF Cons.prems(1-4) pos Cons.prems(5), of bf] by blast
  have step': "(if (case case vs of [] \<Rightarrow> None | v # _ \<Rightarrow> Some v of Some x \<Rightarrow> key x < ?k | None \<Rightarrow> False) then do {
          t1 \<leftarrow> tree_extend cx nt bf;
          (c1, slice) \<leftarrow> cursor_slice cx D (cmp ?k) Left c;
          t2 \<leftarrow> tree_append cx t1 slice;
          Some (c1, t2, [])
        } else Some (c, nt, bf)) = Some (c1, nt1, bf1)"
    using step by (cases vs) simp_all
  obtain c2 us2 where c2: "take_equal D key ?k c1 = Some (lookup key vs ?k, c2)" "cur_tree c2 = cur_tree c"
    "cursor_at cx D c2 us2 (above_key key ?k vs)"
    "\<forall>x \<in> set us2. x \<in> set (us @ below_key key ?k vs) \<or> key x = ?k"
    using take_equal_ok [OF _ _ c1(4) vs] c1(2) Cons.prems(1,2) by auto
  have le: "?k \<le> edit_key key d" if "d \<in> set es" for d using Cons.prems(6) that by simp
  have "key x \<le> edit_key key d" if "d \<in> set es" "x \<in> set us2" for d x
    using c2(4) that le [OF that(1)] Cons.prems(7) below_keys [of x key ?k vs] by (auto intro: order_trans less_imp_le)
  then have side: "\<forall>d \<in> set es. dim_zero D \<le> edit_key key d \<and> (\<forall>x \<in> set us2. key x \<le> edit_key key d)"
    using Cons.prems(7) by simp
  let ?bf = "case e of Insert item \<Rightarrow> bf1 @ [item] | Remove _ \<Rightarrow> bf1"
  let ?rm = "case lookup key vs ?k of Some x \<Rightarrow> rm @ [x] | None \<Rightarrow> rm"
  obtain c3 nt3 bf3 us3 vs3 where "edit_loop cx D key es c2 nt1 ?bf ?rm =
      Some (c3, nt3, bf3, ?rm @ edit_removed key (above_key key ?k vs) es)"
    "wf_tree cx nt3" "cur_tree c3 = cur_tree c2" "cursor_at cx D c3 us3 vs3"
    "tree_items nt3 @ bf3 @ vs3 = tree_items nt1 @ ?bf @ edit_items key (above_key key ?k vs) es"
    using Cons.IH [OF _ _ c2(3) _ c1(1) _ side, of ?bf ?rm] Cons.prems c2(2) by auto
  moreover have "tree_items nt1 @ ?bf @ edit_items key (above_key key ?k vs) es = tree_items nt @ bf @ edit_items key vs (e # es)"
    using c1(3) by (cases e) (simp_all flip: append_assoc)
  moreover have "edit_loop cx D key (e # es) c nt bf rm = edit_loop cx D key es c2 nt1 ?bf ?rm"
    using cursor_at_item(1) [OF Cons.prems(3,1)] step' c2(1) by simp
  moreover have "?rm @ edit_removed key (above_key key ?k vs) es = rm @ edit_removed key vs (e # es)"
    by (cases "lookup key vs ?k") simp_all
  ultimately show ?case using c2(2) by (intro exI [of _ c3] exI [of _ nt3] exI [of _ bf3] exI [of _ us3] exI [of _ vs3]) simp
qed

lemma tree_edit_all_ok:
  assumes "holds t xs" "sorted (map (edit_key key) (srt edits))" "\<forall>e \<in> set (srt edits). dim_zero D \<le> edit_key key e"
    "edits \<noteq> []"
  shows "\<exists>t1. tree_edit_all srt cx D key edits t = Some (t1, edit_removed key xs (srt edits)) \<and> wf_tree cx t1
    \<and> tree_items t1 = edit_items key xs (srt edits)"
proof -
  have t: "wf_tree cx t" "tree_height t < STACK_CAP" "tree_items t = xs" "sorted_keys key xs"
    using assms by (simp_all add: holds_def)
  have all: "below_key key (dim_zero D) xs = []" "from_key key (dim_zero D) xs = xs"
    using zero_least by (cases xs; force simp: not_less)+
  obtain c found where c: "seek D (cmp (dim_zero D)) Left (cursor_new D t) = Some (c, found)"
    "cursor_at cx D c [] xs" "cur_tree c = t"
    using seek_key_ok [OF assms(1), of "dim_zero D"] all by auto
  obtain c1 nt1 bf1 us1 vs1 where loop: "edit_loop cx D key (srt edits) c (tree_new cx) [] [] =
      Some (c1, nt1, bf1, edit_removed key xs (srt edits))"
    "wf_tree cx nt1" "cur_tree c1 = t" "cursor_at cx D c1 us1 vs1" "tree_items nt1 @ bf1 @ vs1 = edit_items key xs (srt edits)"
    using edit_loop_ok [OF _ _ c(2) _ _ assms(2), of "tree_new cx" "[]" "[]"] c(3) t assms(3) by auto
  obtain t1 where t1: "tree_extend cx nt1 bf1 = Some t1" "wf_tree cx t1" "tree_items t1 = tree_items nt1 @ bf1"
    using tree_extend_ok [OF loop(2), of bf1] by blast
  obtain c2 t2 where t2: "cursor_suffix cx D c1 = Some (c2, t2)" "wf_tree cx t2" "tree_items t2 = vs1"
    using suffix_at_ok [OF _ _ loop(4)] loop(3) t(1,2) by auto
  with tree_append_ok [OF t1(2) t2(2)] c(1) loop(1,5) t1 assms(4) show ?thesis
    by (auto simp: tree_edit_all_def)
qed

text \<open>\<open>get\<close>: the exact search descends to the leaf where the key has to be.\<close>

lemma find_in_leaf_exact:
  "sorted_keys key xs \<Longrightarrow> before pos xs \<Longrightarrow>
   map_option fst (snd (find_in_leaf D True (cmp k) Left pos (zip xs (map (item_summary cx) xs)))) = lookup key xs k"
  by (induction xs arbitrary: pos) (auto simp: Let_def end_key entry_found_def before_key)

lemma node_end:
  assumes "wf_node cx t" "sorted_keys key (tree_items t)" "before pos (tree_items t)"
  shows "dim_add D pos (tree_summary t) = key (last (tree_items t))" "y \<in> set (tree_items t) \<Longrightarrow> key y \<le> key (last (tree_items t))"
proof -
  obtain ys x where tx: "tree_items t = ys @ [x]" using wf_node_nonempty [OF assms(1)] by (metis rev_exhaust)
  show "dim_add D pos (tree_summary t) = key (last (tree_items t))"
    using pos_after_keys [of "tree_items t" "[]" pos] assms tx by (simp add: dim_add_tree)
  show "key y \<le> key (last (tree_items t))" if "y \<in> set (tree_items t)"
    using that assms(2) tx by (auto simp: less_imp_le)
qed

lemma find_iterate_exact:
  "wf_node cx t \<Longrightarrow> sorted_keys key (tree_items t) \<Longrightarrow> before pos (tree_items t) \<Longrightarrow>
   map_option fst (snd (find_iterate D True (cmp k) Left pos t)) = lookup key (tree_items t) k"
proof (induction t arbitrary: pos)
  case (Leaf s xs ss)
  then show ?case by (simp add: find_in_leaf_exact)
next
  case (Internal h s ss ts)
  have "map_option fst (snd (case find_child D (cmp k) Left pos (zip us (map tree_summary us)) of
      (pos', Some child) \<Rightarrow> find_iterate D True (cmp k) Left pos' child
    | (pos', None) \<Rightarrow> (pos', None))) = lookup key (concat (map tree_items us)) k"
    if "set us \<subseteq> set ts" "sorted_keys key (concat (map tree_items us))" "before pos (concat (map tree_items us))" for us pos
    using that
  proof (induction us arbitrary: pos)
    case (Cons t us)
    then have t: "t \<in> set ts" "wf_node cx t" "sorted_keys key (tree_items t)" "before pos (tree_items t)"
      using Internal.prems(1) by (auto simp: before_def)
    define l where "l = key (last (tree_items t))"
    note e = node_end(1) [OF t(2-4), folded l_def] and top = node_end(2) [OF t(2-4), folded l_def]
    have next_pos: "l < key y" if "y \<in> set (concat (map tree_items us))" for y
      using Cons.prems(2) that wf_node_nonempty [OF t(2)] by (auto simp: l_def)
    show ?case
    proof (cases "k \<le> l")
      case True
      then have "lookup key (concat (map tree_items us)) k = None"
        using next_pos by (force simp: lookup_None)
      with True t Internal.IH [OF t] show ?thesis
        by (simp add: Let_def e target_in_key lookup_append split: option.split)
    next
      case False
      then have "lookup key (tree_items t) k = None" using top by (auto simp: lookup_None)
      moreover have "before l (concat (map tree_items us))" using next_pos by (auto simp: before_def less_imp_le)
      ultimately show ?thesis using False Cons by (simp add: Let_def e target_in_key lookup_append)
    qed
  qed simp
  from this [of ts pos] Internal.prems show ?case by simp
qed

lemma keyed_get_ok:
  assumes "holds t xs"
  shows "keyed_get D k t = lookup key xs k"
proof (cases "tree_items t = []")
  case True
  then obtain s where "t = Leaf s [] []" using assms wf_tree_cases [of cx t] wf_node_nonempty by (auto simp: holds_def wf_tree_def)
  with assms True show ?thesis
    by (auto simp: holds_def keyed_get_def find_exact_def tree_find_gen_def Let_def)
next
  case False
  then have wf: "wf_node cx t" "sorted_keys key xs" "xs = tree_items t" using assms by (auto simp: holds_def wf_tree_def)
  obtain ys x where tx: "tree_items t = ys @ [x]" using False by (metis rev_exhaust)
  have e: "dim_add D (dim_zero D) (tree_summary t) = key x"
    using node_end(1) [OF wf(1), of "dim_zero D"] wf tx by simp
  have "lookup key xs k = None" if "key x < k" using that wf tx by (auto simp: lookup_None)
  with find_iterate_exact [of t "dim_zero D" k] wf e show ?thesis
    by (auto simp: keyed_get_def find_exact_def tree_find_gen_def Let_def split: prod.splits option.splits)
qed

text \<open>A batch of insertions with distinct keys, whatever order the unstable sort leaves.\<close>

lemma edit_inserts_ok:
  assumes "holds t xs" "distinct (map key items)"
    "sorted (map (edit_key key) (srt (map Insert items))) \<and> mset (srt (map Insert items)) = mset (map Insert items)"
  shows "\<exists>t1 rm. tree_edit_all srt cx D key (map Insert items) t = Some (t1, rm) \<and> wf_tree cx t1
    \<and> sorted_keys key (tree_items t1)
    \<and> (\<forall>k. lookup key (tree_items t1) k = (case lookup key items k of Some x \<Rightarrow> Some x | None \<Rightarrow> lookup key xs k))"
proof (cases "items = []")
  case True
  with assms(1) show ?thesis by (auto simp: tree_edit_all_def holds_def)
next
  case False
  let ?es = "map Insert items :: ('t, 'd) tree_edit list"
  let ?ss = "srt ?es"
  have set: "set ?ss = set ?es" using assms(3) by (metis set_mset_mset)
  have "map (edit_key key) ?es = map key items" by simp
  moreover have "mset (map (edit_key key) ?ss) = mset (map (edit_key key) ?es)"
    unfolding mset_map [of "edit_key key"] using assms(3) by (simp only:)
  ultimately have dist: "distinct (map (edit_key key) ?ss)" using assms(2) mset_eq_imp_distinct_iff by metis
  have srt: "sorted (map (edit_key key) ?ss)" using assms(3) by blast
  with dist have strict: "sorted_wrt (\<lambda>d e. edit_key key d < edit_key key e) ?ss"
    using strict_sorted_iff [of "map (edit_key key) ?ss"] by (simp add: sorted_wrt_map)
  have "dim_zero D \<le> edit_key key e" if "e \<in> set ?ss" for e using that zero_least unfolding set by auto
  then obtain t1 rm where t1: "tree_edit_all srt cx D key ?es t = Some (t1, rm)" "wf_tree cx t1"
    "tree_items t1 = edit_items key xs ?ss"
    using tree_edit_all_ok [of t xs srt ?es, OF assms(1) srt] False by auto
  have items: "sorted_keys key (tree_items t1)" "lookup key (tree_items t1) = edited key ?ss (lookup key xs)"
    using edit_items_ok [OF _ strict, of xs] assms(1) t1(3) by (simp_all add: holds_def)
  have "edited key ?ss m k = (case lookup key items k of Some x \<Rightarrow> Some x | None \<Rightarrow> m k)" for m k
  proof (cases "lookup key items k")
    case None
    then have "k \<notin> edit_key key ` set ?ss" unfolding set by (auto simp: lookup_None)
    with None show ?thesis by (simp add: edited_other)
  next
    case (Some x)
    then have "Insert x \<in> set ?ss" "key x = k" unfolding set by (auto dest: lookup_Some)
    with edited_inserts [OF this(1) dist, of m] Some show ?thesis by auto
  qed
  with t1 items show ?thesis by auto
qed

end

end
