(* ===== verification/Tree_Map.thy ===== *)
theory Tree_Map
  imports Keyed_Tree "HOL-Library.Option_ord" "HOL-Library.Multiset"
begin

text \<open>
  The ordered map and set of \<^verbatim>\<open>src/crates/sum_tree/src/tree_map.rs\<close>: a sum tree of entries whose summary is
  the last key (\<open>MapKey\<close>, nothing for an empty sequence). Every operation is the code's composition of
  cursor operations; the map it represents is \<open>tm_abs\<close>.
\<close>

record ('k, 'v) map_entry =
  me_key :: 'k
  me_value :: 'v

type_synonym ('k, 'v) tree_map = "(('k, 'v) map_entry, 'k option) sum_tree"

definition map_sops :: "(('k, 'v) map_entry, 'k option) sops" where
  "map_sops = \<lparr>item_summary = (\<lambda>e. Some (me_key e)), zero_summary = None, add_summary = (\<lambda>_ s. s)\<rparr>"

definition map_dim :: "('k option, 'k option) dim" where
  "map_dim = \<lparr>dim_zero = None, dim_add = (\<lambda>_ s. s)\<rparr>"

definition entry_key :: "('k, 'v) map_entry \<Rightarrow> 'k option" where
  "entry_key e = Some (me_key e)"

definition from_ordered_entries :: "('k \<times> 'v) list \<Rightarrow> ('k, 'v) tree_map run" where
  "from_ordered_entries entries = from_iter map_sops (map (\<lambda>(k, v). \<lparr>me_key = k, me_value = v\<rparr>) entries)"

definition tm_get :: "'k :: linorder \<Rightarrow> ('k, 'v) tree_map \<Rightarrow> 'v option" where
  "tm_get k m =
     (case tree_find map_dim (cmp (Some k)) Left m of
        (_, _, Some item) \<Rightarrow> if Some k = entry_key item then Some (me_value item) else None
      | (_, _, None) \<Rightarrow> None)"

definition tm_contains_key :: "'k :: linorder \<Rightarrow> ('k, 'v) tree_map \<Rightarrow> bool" where
  "tm_contains_key k m = (tm_get k m \<noteq> None)"

definition tm_insert :: "'k :: linorder \<Rightarrow> 'v \<Rightarrow> ('k, 'v) tree_map \<Rightarrow> ('k, 'v) tree_map run" where
  "tm_insert k v m = map_option fst (insert_or_replace map_sops map_dim entry_key \<lparr>me_key = k, me_value = v\<rparr> m)"

definition tm_insert_or_replace ::
  "'k :: linorder \<Rightarrow> 'v \<Rightarrow> ('k, 'v) tree_map \<Rightarrow> (('k, 'v) tree_map \<times> 'v option) run" where
  "tm_insert_or_replace k v m = map_option (\<lambda>(t, r). (t, map_option me_value r))
     (insert_or_replace map_sops map_dim entry_key \<lparr>me_key = k, me_value = v\<rparr> m)"

text \<open>\<open>extend\<close> and \<open>insert_tree\<close> turn the entries into edits; the unstable sort of \<open>edit\<close> is a parameter.\<close>

definition tm_extend ::
  "((('k, 'v) map_entry, 'k option) tree_edit list \<Rightarrow> (('k, 'v) map_entry, 'k option) tree_edit list) \<Rightarrow>
     ('k :: linorder \<times> 'v) list \<Rightarrow> ('k, 'v) tree_map \<Rightarrow> ('k, 'v) tree_map run" where
  "tm_extend srt entries m = map_option fst
     (tree_edit_all srt map_sops map_dim entry_key (map (\<lambda>(k, v). Insert \<lparr>me_key = k, me_value = v\<rparr>) entries) m)"

definition tm_clear :: "('k, 'v) tree_map" where
  "tm_clear = tree_new map_sops"

definition tm_remove :: "'k :: linorder \<Rightarrow> ('k, 'v) tree_map \<Rightarrow> (('k, 'v) tree_map \<times> 'v option) run" where
  "tm_remove k m = do {
     (c1, new_tree) \<leftarrow> cursor_slice map_sops map_dim (cmp (Some k)) Left (cursor_new map_dim m);
     e \<leftarrow> cursor_end map_dim c1;
     (removed, c2) \<leftarrow>
       (if cmp (Some k) e = Equal then do {
          it \<leftarrow> cursor_item c1;
          item \<leftarrow> it;
          c2 \<leftarrow> cursor_next map_dim c1;
          Some (Some (me_value item), c2)
        } else Some (None, c1));
     (_, rest) \<leftarrow> cursor_suffix map_sops map_dim c2;
     t \<leftarrow> tree_append map_sops new_tree rest;
     Some (t, removed)
   }"

text \<open>A \<open>MapSeekTarget\<close> compares itself with a key; the adaptor lies beyond the position before all keys.\<close>

definition map_seek_adaptor :: "('k \<Rightarrow> ordering) \<Rightarrow> 'k option target" where
  "map_seek_adaptor cmp_cursor loc = (case loc of Some k \<Rightarrow> cmp_cursor k | None \<Rightarrow> Greater)"

definition tm_remove_range ::
  "('k \<Rightarrow> ordering) \<Rightarrow> ('k \<Rightarrow> ordering) \<Rightarrow> ('k, 'v) tree_map \<Rightarrow> ('k, 'v) tree_map run" where
  "tm_remove_range start finish m = do {
     (c1, new_tree) \<leftarrow> cursor_slice map_sops map_dim (map_seek_adaptor start) Left (cursor_new map_dim m);
     (c2, _) \<leftarrow> seek map_dim (map_seek_adaptor finish) Left c1;
     (_, rest) \<leftarrow> cursor_suffix map_sops map_dim c2;
     tree_append map_sops new_tree rest
   }"

definition tm_update ::
  "'k :: linorder \<Rightarrow> ('v \<Rightarrow> 'v \<times> 'r) \<Rightarrow> ('k, 'v) tree_map \<Rightarrow> (('k, 'v) tree_map \<times> 'r option) run" where
  "tm_update k f m = do {
     (c1, new_tree) \<leftarrow> cursor_slice map_sops map_dim (cmp (Some k)) Left (cursor_new map_dim m);
     e \<leftarrow> cursor_end map_dim c1;
     (result, new_tree1, c2) \<leftarrow>
       (if cmp (Some k) e = Equal then do {
          it \<leftarrow> cursor_item c1;
          item \<leftarrow> it;
          let (v, r) = f (me_value item);
          t1 \<leftarrow> tree_push map_sops new_tree (item\<lparr>me_value := v\<rparr>);
          c2 \<leftarrow> cursor_next map_dim c1;
          Some (Some r, t1, c2)
        } else Some (None, new_tree, c1));
     (_, rest) \<leftarrow> cursor_suffix map_sops map_dim c2;
     t \<leftarrow> tree_append map_sops new_tree1 rest;
     Some (t, result)
   }"

text \<open>The loop \<open>while let Some(item) = cursor.item()\<close> of \<open>retain\<close>.\<close>

partial_function (option) retain_loop ::
  "('k \<Rightarrow> 'v \<Rightarrow> bool) \<Rightarrow> (('k, 'v) map_entry, 'k option, 'k option) cursor \<Rightarrow> ('k, 'v) tree_map \<Rightarrow>
     ('k, 'v) tree_map option" where
  "retain_loop p c new_map =
     Option.bind (cursor_item c) (\<lambda>it.
       case it of
         None \<Rightarrow> Some new_map
       | Some item \<Rightarrow>
           Option.bind (if p (me_key item) (me_value item) then tree_push map_sops new_map item else Some new_map)
             (\<lambda>new_map1. Option.bind (cursor_next map_dim c) (\<lambda>c1. retain_loop p c1 new_map1)))"

declare retain_loop.simps [code]

definition tm_retain :: "('k \<Rightarrow> 'v \<Rightarrow> bool) \<Rightarrow> ('k, 'v) tree_map \<Rightarrow> ('k, 'v) tree_map run" where
  "tm_retain p m = do {
     c \<leftarrow> cursor_next map_dim (cursor_new map_dim m);
     retain_loop p c (tree_new map_sops)
   }"

text \<open>Iterating a cursor to its end (\<^verbatim>\<open>impl Iterator for Cursor\<close>).\<close>

partial_function (option) cursor_collect ::
  "('s, 'd) dim \<Rightarrow> ('t, 's, 'd) cursor \<Rightarrow> 't list option" where
  "cursor_collect D c =
     Option.bind (if did_seek c then Some c else cursor_next D c) (\<lambda>c0.
       Option.bind (cursor_item c0) (\<lambda>it.
         case it of
           None \<Rightarrow> Some []
         | Some x \<Rightarrow> Option.bind (cursor_next D c0) (\<lambda>c1. Option.bind (cursor_collect D c1) (\<lambda>xs. Some (x # xs)))))"

declare cursor_collect.simps [code]

definition tm_iter_from :: "'k :: linorder \<Rightarrow> ('k, 'v) tree_map \<Rightarrow> ('k \<times> 'v) list run" where
  "tm_iter_from start m = do {
     (c, _) \<leftarrow> seek map_dim (cmp (Some start)) Left (cursor_new map_dim m);
     es \<leftarrow> cursor_collect map_dim c;
     Some (map (\<lambda>e. (me_key e, me_value e)) es)
   }"

definition tm_first :: "('k, 'v) tree_map \<Rightarrow> ('k \<times> 'v) option run" where
  "tm_first m = map_option (map_option (\<lambda>e. (me_key e, me_value e))) (tree_first m)"

definition tm_last :: "('k, 'v) tree_map \<Rightarrow> ('k \<times> 'v) option run" where
  "tm_last m = map_option (map_option (\<lambda>e. (me_key e, me_value e))) (tree_last m)"

text \<open>A set is a map to the unit type.\<close>

type_synonym 'k tree_set = "('k, unit) tree_map"

definition ts_insert :: "'k :: linorder \<Rightarrow> 'k tree_set \<Rightarrow> 'k tree_set run" where
  "ts_insert k s = tm_insert k () s"

definition ts_remove :: "'k :: linorder \<Rightarrow> 'k tree_set \<Rightarrow> ('k tree_set \<times> bool) run" where
  "ts_remove k s = map_option (\<lambda>(t, r). (t, r \<noteq> None)) (tm_remove k s)"

definition ts_contains :: "'k :: linorder \<Rightarrow> 'k tree_set \<Rightarrow> bool" where
  "ts_contains k s = (tm_get k s \<noteq> None)"

subsection \<open>The map a tree represents\<close>

interpretation tm: keyed_laws map_sops map_dim "entry_key :: ('k :: linorder, 'v) map_entry \<Rightarrow> 'k option"
  by unfold_locales (simp_all add: map_sops_def map_dim_def entry_key_def)

definition tm_ok :: "('k :: linorder, 'v) tree_map \<Rightarrow> bool" where
  "tm_ok m \<longleftrightarrow> wf_tree map_sops m \<and> sorted_keys entry_key (tree_items m)"

definition tm_abs :: "('k, 'v) tree_map \<Rightarrow> 'k \<Rightarrow> 'v option" where
  "tm_abs m k = map_option me_value (lookup entry_key (tree_items m) (Some k))"

lemma tm_ok_clear [simp]: "tm_ok tm_clear" "tm_abs tm_clear = (\<lambda>_. None)" "tree_height tm_clear = 0"
  by (simp_all add: tm_ok_def tm_abs_def tm_clear_def fun_eq_iff, simp add: tree_new_def)

lemma tm_holds: "tm.holds m (tree_items m) \<longleftrightarrow> tm_ok m \<and> tree_height m < STACK_CAP"
  by (auto simp: tm.holds_def tm_ok_def)

declare dropWhile_eq_Nil_conv [simp del]

lemma map_end_key: "dim_add map_dim d (item_summary map_sops x) = entry_key x"
  by (simp add: map_dim_def map_sops_def entry_key_def)

lemma scan_key:
  "scan map_sops map_dim (target_in (cmp k) Left) pos xs =
     (case from_key entry_key k xs of
        [] \<Rightarrow> (pos_after map_sops map_dim pos xs, None)
      | x # _ \<Rightarrow> (pos_after map_sops map_dim pos (below_key entry_key k xs), Some (x, entry_key x)))"
  by (induction xs arbitrary: pos)
    (auto simp: Let_def map_end_key tm.target_in_key not_le split: list.splits)

lemma tm_get_abs: "tm_ok m \<Longrightarrow> tm_get k m = tm_abs m k"
proof (cases "wf_node map_sops m")
  case True
  assume m: "tm_ok m"
  then have s: "sorted_keys entry_key (tree_items m)" by (simp add: tm_ok_def)
  from tm.tree_find_scan [OF True tm.ordered_keys [OF s tm.before_simps(3)], of "Some k"] show ?thesis
    by (auto simp: tm_get_def scan_key tm_abs_def lookup_parts(3) [OF s, of "Some k"] split: list.split)
next
  case False
  assume "tm_ok m"
  with False obtain s where "m = Leaf s [] []" by (auto simp: tm_ok_def wf_tree_def)
  then show ?thesis
    by (auto simp: tm_get_def tm_abs_def tree_find_def tree_find_gen_def Let_def)
qed

text \<open>What the edits of one key do to the map.\<close>

lemma tm_edited:
  assumes "tm_ok m" "wf_tree map_sops t" "tree_items t = edit_items entry_key (tree_items m) es"
    "sorted_wrt (\<lambda>d e. edit_key entry_key d < edit_key entry_key e) es"
  shows "tm_ok t" "tm_abs t k = map_option me_value (edited entry_key es (lookup entry_key (tree_items m)) (Some k))"
  using edit_items_ok [of entry_key "tree_items m" es] assms by (simp_all add: tm_ok_def tm_abs_def)

lemma slice_new:
  assumes "tm_ok m" "tree_height m < STACK_CAP"
  obtains c1 t where "cursor_slice map_sops map_dim (cmp (Some k)) Left (cursor_new map_dim m) = Some (c1, t)"
    "wf_tree map_sops t" "tree_items t = below_key entry_key (Some k) (tree_items m)" "cur_tree c1 = m"
    "cursor_at map_sops map_dim c1 (below_key entry_key (Some k) (tree_items m)) (from_key entry_key (Some k) (tree_items m))"
proof -
  have "cursor_between map_sops map_dim (cursor_new map_dim m) [] (tree_items m)" by (simp add: cursor_between_def)
  moreover have "cur_position (cursor_new map_dim m) \<le> Some k" by (simp add: cursor_new_def map_dim_def)
  ultimately show ?thesis
    using tm.slice_key_ok [of "cursor_new map_dim m" "[]" "tree_items m" "Some k"] assms that by (auto simp: tm_ok_def)
qed

text \<open>Comparing the key with the cursor's end tells whether the cursor stands on the key's entry.\<close>

lemma end_is_key:
  assumes "tm_ok m" "cur_tree c = m"
    "cursor_at map_sops map_dim c (below_key entry_key (Some k) (tree_items m)) (from_key entry_key (Some k) (tree_items m))"
  shows "\<exists>e. cursor_end map_dim c = Some e
    \<and> (cmp (Some k) e = Equal \<longleftrightarrow> lookup entry_key (tree_items m) (Some k) \<noteq> None)"
    and "lookup entry_key (tree_items m) (Some k) = Some x \<Longrightarrow> cursor_item c = Some (Some x)"
proof -
  let ?xs = "tree_items m"
  have s: "sorted_keys entry_key ?xs" "wf_tree map_sops m" using assms(1) by (simp_all add: tm_ok_def)
  note item = cursor_at_item [OF assms(3)]
  show "lookup entry_key ?xs (Some k) = Some x \<Longrightarrow> cursor_item c = Some (Some x)"
    using item(1) s(2) assms(2)
    by (auto simp: lookup_parts(3) [OF s(1), of "Some k"] split: list.splits if_splits)
  have pos: "cur_position c \<noteq> Some k"
    using assms(3) below_keys [of _ entry_key "Some k" ?xs]
    by (cases "below_key entry_key (Some k) ?xs" rule: rev_cases)
      (auto simp: cursor_at_def map_dim_def map_sops_def entry_key_def)
  show "\<exists>e. cursor_end map_dim c = Some e
    \<and> (cmp (Some k) e = Equal \<longleftrightarrow> lookup entry_key ?xs (Some k) \<noteq> None)"
  proof (cases "from_key entry_key (Some k) ?xs")
    case Nil
    then have "lookup entry_key ?xs (Some k) = None" unfolding lookup_parts(3) [OF s(1), of "Some k"] by simp
    with Nil item(2) s(2) assms(2) pos show ?thesis by (auto simp: cursor_end_def)
  next
    case (Cons y ys)
    then have "lookup entry_key ?xs (Some k) = (if entry_key y = Some k then Some y else None)"
      unfolding lookup_parts(3) [OF s(1), of "Some k"] by simp
    with Cons item(2) s(2) assms(2) show ?thesis
      by (auto simp: cursor_end_def map_end_key)
  qed
qed

lemma tm_remove_ok:
  assumes "tm_ok m" "tree_height m < STACK_CAP"
  shows "\<exists>t. tm_remove k m = Some (t, tm_abs m k) \<and> wf_tree map_sops t
    \<and> tree_items t = edit_items entry_key (tree_items m) [Remove (Some k)]"
proof -
  let ?xs = "tree_items m"
  have s: "sorted_keys entry_key ?xs" "wf_tree map_sops m" using assms(1) by (simp_all add: tm_ok_def)
  obtain c1 t1 where c1: "cursor_slice map_sops map_dim (cmp (Some k)) Left (cursor_new map_dim m) = Some (c1, t1)"
    "wf_tree map_sops t1" "tree_items t1 = below_key entry_key (Some k) ?xs" "cur_tree c1 = m"
    "cursor_at map_sops map_dim c1 (below_key entry_key (Some k) ?xs) (from_key entry_key (Some k) ?xs)"
    using slice_new [OF assms] by metis
  obtain e where e: "cursor_end map_dim c1 = Some e" "cmp (Some k) e = Equal \<longleftrightarrow> lookup entry_key ?xs (Some k) \<noteq> None"
    using end_is_key(1) [OF assms(1) c1(4,5)] by blast
  obtain c2 us2 where c2: "take_equal map_dim entry_key (Some k) c1 = Some (lookup entry_key ?xs (Some k), c2)"
    "cur_tree c2 = m" "cursor_at map_sops map_dim c2 us2 (above_key entry_key (Some k) ?xs)"
    using tm.take_equal_ok [OF _ _ c1(5) s(1)] c1(4) s(2) assms(2) by auto
  have take: "(if cmp (Some k) e = Equal then do {
          it \<leftarrow> cursor_item c1;
          item \<leftarrow> it;
          c2 \<leftarrow> cursor_next map_dim c1;
          Some (Some (me_value item), c2)
        } else Some (None, c1)) = Some (map_option me_value (lookup entry_key ?xs (Some k)), c2)"
  proof (cases "lookup entry_key ?xs (Some k)")
    case None
    with c2(1) e(2) show ?thesis
      by (auto simp: take_equal_def bind_eq_Some_conv split: option.splits if_splits)
  next
    case (Some x)
    with end_is_key(2) [OF assms(1) c1(4,5) Some] e(2) c2(1) show ?thesis
      by (auto simp: take_equal_def split: if_splits)
  qed
  obtain c3 t3 where t3: "cursor_suffix map_sops map_dim c2 = Some (c3, t3)" "wf_tree map_sops t3"
    "tree_items t3 = above_key entry_key (Some k) ?xs"
    using tm.suffix_at_ok [OF _ _ c2(3)] c2(2) s(2) assms(2) by auto
  obtain t where "tree_append map_sops t1 t3 = Some t" "wf_tree map_sops t" "tree_items t = tree_items t1 @ tree_items t3"
    using tm.tree_append_ok [OF c1(2) t3(2)] by blast
  with c1 e(1) take t3 show ?thesis
    by (simp add: tm_remove_def tm_abs_def)
qed

lemma tm_insert_ok:
  assumes "tm_ok m" "tree_height m < STACK_CAP"
  shows "\<exists>t. tm_insert_or_replace k v m = Some (t, tm_abs m k) \<and> tm_insert k v m = Some t \<and> wf_tree map_sops t
    \<and> tree_items t = edit_items entry_key (tree_items m) [Insert \<lparr>me_key = k, me_value = v\<rparr>]"
proof -
  have "tm.holds m (tree_items m)" using assms by (simp add: tm_holds)
  from tm.insert_or_replace_ok [OF this, of "\<lparr>me_key = k, me_value = v\<rparr>"] show ?thesis
    by (auto simp: tm_insert_or_replace_def tm_insert_def tm_abs_def entry_key_def)
qed

lemma tm_single_edit:
  assumes "tm_ok m" "wf_tree map_sops t"
  shows "tree_items t = edit_items entry_key (tree_items m) [Insert \<lparr>me_key = k, me_value = v\<rparr>] \<Longrightarrow>
      tm_ok t \<and> tm_abs t = (tm_abs m)(k \<mapsto> v)"
    and "tree_items t = edit_items entry_key (tree_items m) [Remove (Some k)] \<Longrightarrow> tm_ok t \<and> tm_abs t = (tm_abs m)(k := None)"
proof -
  show "tm_ok t \<and> tm_abs t = (tm_abs m)(k \<mapsto> v)"
    if i: "tree_items t = edit_items entry_key (tree_items m) [Insert \<lparr>me_key = k, me_value = v\<rparr>]"
    using tm_edited [OF assms i] by (simp add: fun_eq_iff tm_abs_def [of m] entry_key_def [of "\<lparr>me_key = k, me_value = v\<rparr>"])
  show "tm_ok t \<and> tm_abs t = (tm_abs m)(k := None)"
    if i: "tree_items t = edit_items entry_key (tree_items m) [Remove (Some k)]"
    using tm_edited [OF assms i] by (simp add: fun_eq_iff tm_abs_def [of m])
qed

lemma retain_loop_ok:
  fixes p :: "'k :: linorder \<Rightarrow> 'v \<Rightarrow> bool"
  assumes "wf_tree map_sops (cur_tree c)" "tree_height (cur_tree c) < STACK_CAP" "cursor_at map_sops map_dim c us vs"
    "wf_tree map_sops nm"
  shows "\<exists>t. retain_loop p c nm = Some t \<and> wf_tree map_sops t
    \<and> tree_items t = tree_items nm @ filter (\<lambda>e. p (me_key e) (me_value e)) vs"
  using assms
proof (induction vs arbitrary: c us nm)
  case Nil
  with cursor_at_item(1) [OF Nil(3,1)] show ?case by (subst retain_loop.simps) simp
next
  case (Cons x vs)
  obtain c1 where c1: "cursor_next map_dim c = Some c1" "cur_tree c1 = cur_tree c"
    "cursor_at map_sops map_dim c1 (us @ [x]) vs"
    using tm.cursor_next_ok(2) [OF Cons.prems(1-3)] by auto
  obtain nm1 where nm1: "(if p (me_key x) (me_value x) then tree_push map_sops nm x else Some nm) = Some nm1"
    "wf_tree map_sops nm1" "tree_items nm1 = tree_items nm @ (if p (me_key x) (me_value x) then [x] else [])"
    using tm.tree_push_ok [OF Cons.prems(4), of x] Cons.prems(4) by (cases "p (me_key x) (me_value x)") auto
  from cursor_at_item(1) [OF Cons.prems(3,1)] c1(1) nm1(1)
  have "retain_loop p c nm = retain_loop p c1 nm1" by (subst retain_loop.simps) simp
  with Cons.IH [OF _ _ c1(3) nm1(2)] c1(2) Cons.prems(1,2) nm1(3) show ?case
    by (cases "p (me_key x) (me_value x)") simp_all
qed

lemma lookup_filter:
  "sorted_keys entry_key xs \<Longrightarrow> lookup entry_key (filter P xs) k =
     (case lookup entry_key xs k of Some x \<Rightarrow> if P x then Some x else None | None \<Rightarrow> None)"
proof (induction xs)
  case (Cons x xs)
  then have "entry_key x = k \<Longrightarrow> lookup entry_key xs k = None" by (auto simp: lookup_None)
  with Cons show ?case by auto
qed simp

context seek_laws
begin

lemma cursor_collect_ok:
  assumes "wf_tree cx (cur_tree c)" "tree_height (cur_tree c) < STACK_CAP" "cursor_at cx D c us vs"
  shows "cursor_collect D c = Some vs"
  using assms
proof (induction vs arbitrary: c us)
  case Nil
  with cursor_at_item(1) [OF Nil(3,1)] show ?case by (subst cursor_collect.simps) (simp add: cursor_at_def)
next
  case (Cons x vs)
  obtain c1 where c1: "cursor_next D c = Some c1" "cur_tree c1 = cur_tree c" "cursor_at cx D c1 (us @ [x]) vs"
    using cursor_next_ok(2) [OF Cons.prems] by auto
  with Cons.IH [OF _ _ c1(3)] Cons.prems cursor_at_item(1) [OF Cons.prems(3,1)] show ?case
    by (subst cursor_collect.simps) (simp add: cursor_at_def)
qed

end

subsection \<open>Properties\<close>

text \<open>(C23) \<open>TreeMap\<close> is a map: on an ordered tree, \<open>get\<close> reads the map the tree represents; \<open>insert\<close> and
  \<open>insert_or_replace\<close> return (no panic) an ordered tree that represents the map updated at the key, with
  the previous value; \<open>remove\<close> returns one that represents the map without the key, and the removed value;
  no other key is affected.\<close>

theorem tree_map_refines_map:
  assumes "tm_ok m" "tree_height m < STACK_CAP"
  shows "tm_get j m = tm_abs m j
    \<and> (\<exists>t. tm_insert_or_replace k v m = Some (t, tm_abs m k) \<and> tm_insert k v m = Some t \<and> tm_ok t
         \<and> tm_abs t = (tm_abs m)(k \<mapsto> v) \<and> tm_get j t = (if j = k then Some v else tm_get j m))
    \<and> (\<exists>t. tm_remove k m = Some (t, tm_abs m k) \<and> tm_ok t \<and> tm_abs t = (tm_abs m)(k := None)
         \<and> tm_get j t = (if j = k then None else tm_get j m))"
proof (intro conjI)
  show "tm_get j m = tm_abs m j" by (rule tm_get_abs [OF assms(1)])
  obtain t where t: "tm_insert_or_replace k v m = Some (t, tm_abs m k)" "tm_insert k v m = Some t" "wf_tree map_sops t"
    "tree_items t = edit_items entry_key (tree_items m) [Insert \<lparr>me_key = k, me_value = v\<rparr>]"
    using tm_insert_ok [OF assms] by blast
  from tm_single_edit(1) [OF assms(1) t(3,4)] t(1,2) tm_get_abs [of t j] tm_get_abs [OF assms(1), of j]
  show "\<exists>t. tm_insert_or_replace k v m = Some (t, tm_abs m k) \<and> tm_insert k v m = Some t \<and> tm_ok t
         \<and> tm_abs t = (tm_abs m)(k \<mapsto> v) \<and> tm_get j t = (if j = k then Some v else tm_get j m)" by auto
  obtain t' where t': "tm_remove k m = Some (t', tm_abs m k)" "wf_tree map_sops t'"
    "tree_items t' = edit_items entry_key (tree_items m) [Remove (Some k)]"
    using tm_remove_ok [OF assms] by blast
  from tm_single_edit(2) [OF assms(1) t'(2,3)] t'(1) tm_get_abs [of t' j] tm_get_abs [OF assms(1), of j]
  show "\<exists>t. tm_remove k m = Some (t, tm_abs m k) \<and> tm_ok t \<and> tm_abs t = (tm_abs m)(k := None)
         \<and> tm_get j t = (if j = k then None else tm_get j m)" by auto
qed

theorem tree_map_refines_map_witness:
  "\<exists>t. tm_insert 3 ''c'' (tm_clear :: (nat, string) tree_map) = Some t \<and> tm_ok t \<and> tm_get 3 t = Some ''c''"
  using tree_map_refines_map [of "tm_clear :: (nat, string) tree_map" 3 3 "''c''"]
  by (auto simp: STACK_CAP_def)

text \<open>(C24) \<open>retain\<close> keeps exactly the entries its predicate accepts, and \<open>iter_from\<close> yields the entries
  from the given key on, in order: both loops end.\<close>

theorem tree_map_retain_iter_from:
  assumes "tm_ok m" "tree_height m < STACK_CAP"
  shows "(\<exists>t. tm_retain p m = Some t \<and> tm_ok t
        \<and> tm_abs t k = (case tm_abs m k of Some v \<Rightarrow> if p k v then Some v else None | None \<Rightarrow> None))
    \<and> tm_iter_from k m = Some (map (\<lambda>e. (me_key e, me_value e)) (filter (\<lambda>e. k \<le> me_key e) (tree_items m)))"
proof
  have wf: "wf_tree map_sops m" "sorted_keys entry_key (tree_items m)" using assms by (simp_all add: tm_ok_def)
  obtain c where c: "cursor_next map_dim (cursor_new map_dim m) = Some c" "cur_tree c = m"
    "cursor_at map_sops map_dim c [] (tree_items m)"
    using tm.cursor_next_ok(1) [of "cursor_new map_dim m"] wf(1) assms(2) by auto
  obtain t where t: "retain_loop p c (tree_new map_sops) = Some t" "wf_tree map_sops t"
    "tree_items t = filter (\<lambda>e. p (me_key e) (me_value e)) (tree_items m)"
    using retain_loop_ok [OF _ _ c(3), of "tree_new map_sops" p] c(2) wf(1) assms(2) by auto
  have "tm_abs t k = (case tm_abs m k of Some v \<Rightarrow> if p k v then Some v else None | None \<Rightarrow> None)"
    by (auto simp: tm_abs_def t(3) lookup_filter [OF wf(2)] entry_key_def dest: lookup_Some split: option.splits)
  with c(1) t wf(2) show "\<exists>t. tm_retain p m = Some t \<and> tm_ok t
        \<and> tm_abs t k = (case tm_abs m k of Some v \<Rightarrow> if p k v then Some v else None | None \<Rightarrow> None)"
    by (auto simp: tm_retain_def tm_ok_def sorted_keys_filter)
  have holds: "tm.holds m (tree_items m)" using assms by (simp add: tm_holds)
  obtain c1 found where c1: "seek map_dim (cmp (Some k)) Left (cursor_new map_dim m) = Some (c1, found)" "cur_tree c1 = m"
    "cursor_at map_sops map_dim c1 (below_key entry_key (Some k) (tree_items m)) (from_key entry_key (Some k) (tree_items m))"
    using tm.seek_key_ok [OF holds, of "Some k"] by (auto simp: map_dim_def)
  have "from_key entry_key (Some k) xs = filter (\<lambda>e. k \<le> me_key e) xs" if "sorted_keys entry_key xs" for xs :: "('a, 'b) map_entry list"
    using that by (induction xs) (auto simp: entry_key_def not_less not_le intro!: filter_True [symmetric] dest: order_trans less_imp_le)
  with c1 tm.cursor_collect_ok [OF _ _ c1(3)] wf assms(2)
  show "tm_iter_from k m = Some (map (\<lambda>e. (me_key e, me_value e)) (filter (\<lambda>e. k \<le> me_key e) (tree_items m)))"
    by (simp add: tm_iter_from_def)
qed

theorem tree_map_retain_iter_from_witness:
  "let m = Leaf (Some 3) [\<lparr>me_key = 1, me_value = ''a''\<rparr>, \<lparr>me_key = 3 :: nat, me_value = ''c''\<rparr>] [Some 1, Some 3]
   in (\<exists>t. tm_retain (\<lambda>k v. k < 2) m = Some t \<and> tm_abs t 3 = None) \<and> tm_iter_from 3 m = Some [(3, ''c'')]"
  using tree_map_retain_iter_from [of "Leaf (Some 3) [\<lparr>me_key = 1, me_value = ''a''\<rparr>, \<lparr>me_key = 3 :: nat, me_value = ''c''\<rparr>]
      [Some 1, Some 3]" "\<lambda>k v. k < 2" 3]
  by (auto simp: tm_ok_def wf_tree_def map_sops_def sum_summaries_def TREE_BASE_def STACK_CAP_def entry_key_def
      split: option.splits)

text \<open>\<open>extend\<close> with distinct keys overrides the map with the new entries, whatever order the unstable
  sort leaves, as long as it sorts.\<close>

theorem tree_map_extend_distinct:
  assumes "tm_ok m" "tree_height m < STACK_CAP" "distinct (map fst kvs)"
    "\<And>es. sorted (map (edit_key entry_key) (srt es)) \<and> mset (srt es) = mset es"
  shows "\<exists>t. tm_extend srt kvs m = Some t \<and> tm_ok t \<and> tm_abs t = tm_abs m ++ map_of kvs"
proof -
  let ?items = "map (\<lambda>(k, v). \<lparr>me_key = k, me_value = v\<rparr>) kvs"
  have es: "map (\<lambda>(k, v). Insert \<lparr>me_key = k, me_value = v\<rparr>) kvs = map Insert ?items" by auto
  have "map entry_key ?items = map Some (map fst kvs)" by (auto simp: entry_key_def)
  then have "distinct (map entry_key ?items)" using assms(3) by (simp only: distinct_map) (simp add: inj_on_def)
  with tm.edit_inserts_ok [of m "tree_items m" ?items srt] assms(1,2,4)
  obtain t rm where t: "tree_edit_all srt map_sops map_dim entry_key (map Insert ?items) m = Some (t, rm)" "tm_ok t"
    "\<And>k. lookup entry_key (tree_items t) k =
      (case lookup entry_key ?items k of Some x \<Rightarrow> Some x | None \<Rightarrow> lookup entry_key (tree_items m) k)"
    unfolding tm_holds tm_ok_def by blast
  have "lookup entry_key ?items (Some k) = map_option (\<lambda>v. \<lparr>me_key = k, me_value = v\<rparr>) (map_of kvs k)" for k
    by (induction kvs) (auto simp: entry_key_def)
  then have "tm_abs t k = (tm_abs m ++ map_of kvs) k" for k
    by (auto simp: tm_abs_def t(3) map_add_def split: option.splits)
  with t(1,2) show ?thesis by (auto simp: tm_extend_def es)
qed

lemma insert_pair_sorts:
  "sorted (map (edit_key entry_key) (sort_key (edit_key entry_key) es)) \<and> mset (sort_key (edit_key entry_key) es) = mset es"
  by simp

theorem tree_map_extend_distinct_witness:
  "\<exists>t. tm_extend (sort_key (edit_key entry_key)) [(2, ''b''), (1, ''a'')] (tm_clear :: (nat, string) tree_map) = Some t
     \<and> tm_ok t \<and> tm_abs t = [1 \<mapsto> ''a'', 2 \<mapsto> ''b'']"
  using tree_map_extend_distinct [of "tm_clear :: (nat, string) tree_map" "[(2, ''b''), (1, ''a'')]"
      "sort_key (edit_key entry_key)", OF _ _ _ insert_pair_sorts]
  by (simp add: STACK_CAP_def fun_upd_twist)

text \<open>The entry of a key and a value.\<close>

definition entry_of :: "'k \<times> 'v \<Rightarrow> ('k, 'v) map_entry" where
  "entry_of = (\<lambda>(k, v). \<lparr>me_key = k, me_value = v\<rparr>)"

lemma entry_of_sel [simp]: "me_key (entry_of p) = fst p" "me_value (entry_of p) = snd p"
  by (simp_all add: entry_of_def split: prod.split)

text \<open>(C25) \<open>extend\<close> replaces the entries of the map that have a key of the extension, and keeps every other one; but
  it does not replace an entry of the extension by a later one with the same key. For every map and every list of
  entries, whatever order the unstable sort leaves equal keys in: the resulting tree holds exactly the old
  entries whose keys are not in the list and all entries of the list, values included and with multiplicity, in
  the order of the keys; it is a map (strictly ordered) exactly if the keys of the list are distinct.\<close>

theorem tree_map_extend_duplicates:
  assumes "tm_ok m" "tree_height m < STACK_CAP"
    "\<And>es. sorted (map (edit_key entry_key) (srt es)) \<and> mset (srt es) = mset es"
  shows "\<exists>t. tm_extend srt kvs m = Some t
    \<and> mset (tree_items t) = mset (filter (\<lambda>x. me_key x \<notin> fst ` set kvs) (tree_items m)) + mset (map entry_of kvs)
    \<and> sorted (map me_key (tree_items t)) \<and> (tm_ok t \<longleftrightarrow> distinct (map fst kvs))"
proof -
  let ?items = "map entry_of kvs"
  let ?old = "filter (\<lambda>x. me_key x \<notin> fst ` set kvs) (tree_items m)"
  have es: "map (\<lambda>(k, v). Insert \<lparr>me_key = k, me_value = v\<rparr>) kvs = map Insert ?items" by (simp add: entry_of_def split_beta)
  have m: "tm.holds m (tree_items m)" "sorted_keys entry_key (tree_items m)" using assms(1,2) by (simp_all add: tm_holds tm_ok_def)
  obtain ss where ss: "srt (map Insert ?items) = map Insert ss" "mset ss = mset ?items" "sorted (map entry_key ss)"
    using sorted_inserts [of srt ?items entry_key] assms(3) by metis
  have keys: "entry_key ` set ss = Some ` fst ` set kvs"
    using ss(2) by (metis (no_types, lifting) ext entry_key_def entry_of_sel(1) image_image set_map set_mset_mset)
  obtain t rm where t: "tree_edit_all srt map_sops map_dim entry_key (map Insert ?items) m = Some (t, rm)" "wf_tree map_sops t"
    "tree_items t = edit_items entry_key (tree_items m) (map Insert ss)"
  proof (cases "kvs = []")
    case True
    then show ?thesis using that ss assms(1) by (simp add: tree_edit_all_def tm_ok_def)
  next
    case False
    with tm.tree_edit_all_ok [OF m(1), of srt "map Insert ?items"] assms(3) ss(1) that show ?thesis
      by (auto simp: map_dim_def entry_key_def)
  qed
  have mem: "entry_key x \<notin> entry_key ` set ss \<longleftrightarrow> me_key x \<notin> fst ` set kvs" for x :: "('a, 'b) map_entry"
    unfolding keys by (auto simp: entry_key_def)
  from edit_items_extended [OF m(2) ss(3)]
  have items: "mset (tree_items t) = mset ?old + mset ?items" "sorted (map entry_key (tree_items t))"
    unfolding t(3) [symmetric] ss(2) mem mset_filter by simp_all
  have sorted: "sorted (map me_key (tree_items t))" using items(2) by (simp add: sorted_map entry_key_def)
  have "distinct (map entry_key ?old)" using m(2) by (simp add: sorted_keys_distinct distinct_map_filter)
  then have old: "distinct (map me_key ?old)" by (simp add: distinct_map inj_on_def entry_key_def)
  have "mset (map me_key (tree_items t)) = mset (map me_key (?old @ ?items))"
    by (simp only: mset_map mset_append items(1))
  then have "distinct (map me_key (tree_items t)) \<longleftrightarrow> distinct (map me_key (?old @ ?items))" by (rule mset_eq_imp_distinct_iff)
  also have "\<dots> \<longleftrightarrow> distinct (map fst kvs)"
    using old by (auto simp: comp_def)
  finally have "distinct (map entry_key (tree_items t)) \<longleftrightarrow> distinct (map fst kvs)"
    by (simp add: distinct_map inj_on_def entry_key_def)
  then have "tm_ok t \<longleftrightarrow> distinct (map fst kvs)" using t(2) items(2) by (simp add: tm_ok_def sorted_keys_distinct)
  with t(1) items(1) sorted show ?thesis by (simp add: tm_extend_def es)
qed

theorem tree_map_extend_duplicates_witness:
  "let m = Leaf (Some 3) [\<lparr>me_key = 1, me_value = ''a''\<rparr>, \<lparr>me_key = 3 :: nat, me_value = ''c''\<rparr>] [Some 1, Some 3]
   in \<exists>t. tm_extend (sort_key (edit_key entry_key)) [(1, ''x''), (1, ''y'')] m = Some t
     \<and> mset (tree_items t) = {#\<lparr>me_key = 3, me_value = ''c''\<rparr>, \<lparr>me_key = 1, me_value = ''x''\<rparr>, \<lparr>me_key = 1, me_value = ''y''\<rparr>#}
     \<and> \<not> tm_ok t"
  using tree_map_extend_duplicates [of "Leaf (Some 3) [\<lparr>me_key = 1, me_value = ''a''\<rparr>, \<lparr>me_key = 3 :: nat, me_value = ''c''\<rparr>]
      [Some 1, Some 3]" "sort_key (edit_key entry_key)" "[(1, ''x''), (1, ''y'')]", OF _ _ insert_pair_sorts]
  by (auto simp: tm_ok_def wf_tree_def map_sops_def sum_summaries_def TREE_BASE_def STACK_CAP_def entry_key_def entry_of_def
      split: option.splits)

end
