(* ===== verification/Undo_Map.thy ===== *)
theory Undo_Map
  imports Clock Tree_Map "HOL-Library.Product_Lexorder"
begin

text \<open>
  The undo map (\<^verbatim>\<open>src/crates/text/src/undo_map.rs\<close>): a keyed tree of undo counts, ordered by edit and, for
  one edit, by undo operation. The key of a sequence of entries is the greatest one. What a replica knows
  of undo operations is the map \<open>um_abs\<close>; \<open>undo_count\<close> and \<open>was_undone\<close> depend on it alone.
\<close>

record undo_map_entry =
  um_key :: "lamport \<times> lamport"
  um_count :: u32

record undo_operation =
  undo_timestamp :: lamport
  undo_version :: global
  undo_counts :: "(lamport \<times> u32) list"

type_synonym undo_map = "(undo_map_entry, lamport \<times> lamport) sum_tree"

type_synonym undo_cursor = "(undo_map_entry, lamport \<times> lamport, lamport \<times> lamport) cursor"

definition um_sops :: "(undo_map_entry, lamport \<times> lamport) sops" where
  "um_sops = \<lparr>item_summary = um_key, zero_summary = (lamport_MIN, lamport_MIN), add_summary = max\<rparr>"

definition um_dim :: "(lamport \<times> lamport, lamport \<times> lamport) dim" where
  "um_dim = \<lparr>dim_zero = (lamport_MIN, lamport_MIN), dim_add = max\<rparr>"

definition um_new :: undo_map where
  "um_new = tree_new um_sops"

definition undo_entries :: "undo_operation \<Rightarrow> undo_map_entry list" where
  "undo_entries undo = map (\<lambda>(edit_id, count). \<lparr>um_key = (edit_id, undo_timestamp undo), um_count = count\<rparr>) (undo_counts undo)"

text \<open>\<open>sort_unstable_by_key\<close> of \<open>SumTree::edit\<close> is a parameter.\<close>

definition um_insert ::
  "((undo_map_entry, lamport \<times> lamport) tree_edit list \<Rightarrow> (undo_map_entry, lamport \<times> lamport) tree_edit list) \<Rightarrow>
     undo_operation \<Rightarrow> undo_map \<Rightarrow> undo_map run" where
  "um_insert srt undo m = map_option fst (tree_edit_all srt um_sops um_dim um_key (map Insert (undo_entries undo)) m)"

text \<open>The loop over the entries of one edit; \<open>counted\<close> selects the undo operations that count.\<close>

partial_function (option) undo_count_loop ::
  "(lamport \<Rightarrow> bool) \<Rightarrow> lamport \<Rightarrow> undo_cursor \<Rightarrow> u32 \<Rightarrow> u32 option" where
  "undo_count_loop counted edit_id c acc =
     Option.bind (if did_seek c then Some c else cursor_next um_dim c) (\<lambda>c0.
       Option.bind (cursor_item c0) (\<lambda>it.
         case it of
           None \<Rightarrow> Some acc
         | Some entry \<Rightarrow>
             Option.bind (cursor_next um_dim c0) (\<lambda>c1.
               if fst (um_key entry) \<noteq> edit_id then Some acc
               else undo_count_loop counted edit_id c1
                      (if counted (snd (um_key entry)) then max acc (um_count entry) else acc))))"

declare undo_count_loop.simps [code]

definition undo_count :: "lamport \<Rightarrow> undo_map \<Rightarrow> u32 run" where
  "undo_count edit_id m = do {
     (c, _) \<leftarrow> seek um_dim (cmp (edit_id, lamport_MIN)) Left (cursor_new um_dim m);
     undo_count_loop (\<lambda>_. True) edit_id c 0
   }"

definition is_undone :: "lamport \<Rightarrow> undo_map \<Rightarrow> bool run" where
  "is_undone edit_id m = map_option (\<lambda>n. n mod 2 = 1) (undo_count edit_id m)"

definition was_undone :: "lamport \<Rightarrow> global \<Rightarrow> undo_map \<Rightarrow> bool run" where
  "was_undone edit_id version m = do {
     (c, _) \<leftarrow> seek um_dim (cmp (edit_id, lamport_MIN)) Left (cursor_new um_dim m);
     n \<leftarrow> undo_count_loop (global_observed version) edit_id c 0;
     Some (n mod 2 = 1)
   }"

subsection \<open>What a replica knows of undo operations\<close>

lemma lamport_MIN_least: "lamport_MIN \<le> l"
  by (auto simp: less_eq_lamport_iff lamport_MIN_def word_gt_0)

lemma MIN_not_above [simp]: "lamport_MIN \<le> l" "\<not> l < lamport_MIN"
  using lamport_MIN_least by (simp_all add: not_less)

lemma MIN_least: "(lamport_MIN, lamport_MIN) \<le> (k :: lamport \<times> lamport)"
  by (cases k) (auto simp: less_eq_prod_def)

interpretation um: keyed_laws um_sops um_dim um_key
  by unfold_locales (simp_all add: um_sops_def um_dim_def MIN_least max_absorb2 max.assoc)

definition um_ok :: "undo_map \<Rightarrow> bool" where
  "um_ok m \<longleftrightarrow> wf_tree um_sops m \<and> sorted_keys um_key (tree_items m)"

definition um_abs :: "undo_map \<Rightarrow> lamport \<times> lamport \<Rightarrow> u32 option" where
  "um_abs m k = map_option um_count (lookup um_key (tree_items m) k)"

text \<open>The greatest count among the undo operations that count, 0 if there is none.\<close>

definition max_count :: "(lamport \<Rightarrow> bool) \<Rightarrow> (lamport \<times> lamport \<Rightarrow> u32 option) \<Rightarrow> lamport \<Rightarrow> u32" where
  "max_count counted a edit_id = Max (insert 0 {n. \<exists>u. counted u \<and> a (edit_id, u) = Some n})"

lemma undo_count_loop_ok:
  assumes "wf_tree um_sops (cur_tree c)" "tree_height (cur_tree c) < STACK_CAP" "cursor_at um_sops um_dim c us vs"
  shows "undo_count_loop counted e c acc = Some
    (fold (\<lambda>x a. if counted (snd (um_key x)) then max a (um_count x) else a) (takeWhile (\<lambda>x. fst (um_key x) = e) vs) acc)"
  using assms
proof (induction vs arbitrary: c us acc)
  case Nil
  with cursor_at_item(1) [OF Nil(3,1)] show ?case by (subst undo_count_loop.simps) (simp add: cursor_at_def)
next
  case (Cons x vs)
  obtain c1 where c1: "cursor_next um_dim c = Some c1" "cur_tree c1 = cur_tree c" "cursor_at um_sops um_dim c1 (us @ [x]) vs"
    using um.cursor_next_ok(2) [OF Cons.prems] by auto
  with Cons.IH [OF _ _ c1(3)] Cons.prems cursor_at_item(1) [OF Cons.prems(3,1)] show ?case
    by (subst undo_count_loop.simps) (simp add: cursor_at_def)
qed

lemma fold_max_count:
  fixes f :: "'a \<Rightarrow> 'b :: linorder"
  shows "fold (\<lambda>x a. if P x then max a (f x) else a) xs acc = Max (insert acc (f ` {x \<in> set xs. P x}))"
proof (induction xs arbitrary: acc)
  case (Cons x xs)
  let ?S = "f ` {y \<in> set xs. P y}"
  have fin: "finite ?S" by simp
  have set: "f ` {y \<in> set (x # xs). P y} = (if P x then insert (f x) ?S else ?S)" by auto
  have "Max (insert (max acc (f x)) ?S) = Max (insert acc (insert (f x) ?S))"
    using fin by (cases "?S = {}") (simp_all add: max.assoc del: image_is_empty)
  with Cons.IH show ?case unfolding set by simp
qed simp

text \<open>In a list sorted by pairs, the entries of one first component are those from its least pair on.\<close>

lemma take_first_component:
  fixes key :: "'t \<Rightarrow> 'a :: linorder \<times> 'b :: linorder"
  shows "sorted_keys key xs \<Longrightarrow> \<forall>x \<in> set xs. e \<le> fst (key x) \<Longrightarrow>
    takeWhile (\<lambda>x. fst (key x) = e) xs = filter (\<lambda>x. fst (key x) = e) xs"
proof (induction xs)
  case (Cons x xs)
  show ?case
  proof (cases "fst (key x) = e")
    case True
    with Cons show ?thesis by simp
  next
    case False
    then have "e < fst (key x)" using Cons.prems(2) by (auto simp: order_less_le)
    moreover have "fst (key x) \<le> fst (key y)" if "y \<in> set xs" for y
      using Cons.prems(1) that by (auto simp: less_prod_def)
    ultimately have "fst (key y) \<noteq> e" if "y \<in> set xs" for y using that by (metis leD)
    with False show ?thesis by simp
  qed
qed simp

lemma entries_of_first_component:
  fixes key :: "'t \<Rightarrow> 'a :: linorder \<times> 'b :: linorder"
  assumes "sorted_keys key xs" "\<And>b. least \<le> b"
  shows "takeWhile (\<lambda>x. fst (key x) = e) (from_key key (e, least) xs) = filter (\<lambda>x. fst (key x) = e) xs"
proof -
  have below: "filter (\<lambda>x. fst (key x) = e) (below_key key (e, least) xs) = []"
    using assms(2) by (force simp: filter_empty_conv less_prod_def not_less [symmetric] dest!: below_keys)
  have "filter (\<lambda>x. fst (key x) = e) xs =
      filter (\<lambda>x. fst (key x) = e) (below_key key (e, least) xs @ from_key key (e, least) xs)"
    by (simp only: takeWhile_dropWhile_id)
  also have "\<dots> = filter (\<lambda>x. fst (key x) = e) (from_key key (e, least) xs)"
    by (simp only: filter_append below append_Nil)
  also have "\<dots> = takeWhile (\<lambda>x. fst (key x) = e) (from_key key (e, least) xs)"
    using from_keys [OF assms(1)] sorted_parts(2) [OF assms(1)]
    by (intro take_first_component [symmetric]) (force simp: less_eq_prod_def)+
  finally show ?thesis by simp
qed

lemma counted_entries:
  assumes "um_ok m" "tree_height m < STACK_CAP"
  shows "\<exists>c found. seek um_dim (cmp (e, lamport_MIN)) Left (cursor_new um_dim m) = Some (c, found)
    \<and> undo_count_loop counted e c 0 = Some (max_count counted (um_abs m) e)"
proof -
  let ?xs = "tree_items m"
  have m: "um.holds m ?xs" "sorted_keys um_key ?xs" using assms by (auto simp: um.holds_def um_ok_def)
  obtain c found where c: "seek um_dim (cmp (e, lamport_MIN)) Left (cursor_new um_dim m) = Some (c, found)" "cur_tree c = m"
    "cursor_at um_sops um_dim c (below_key um_key (e, lamport_MIN) ?xs) (from_key um_key (e, lamport_MIN) ?xs)"
    using um.seek_key_ok [OF m(1), of "(e, lamport_MIN)"] MIN_least by (auto simp: um_dim_def)
  have "um_count ` {x \<in> set (filter (\<lambda>x. fst (um_key x) = e) ?xs). counted (snd (um_key x))} =
      {n. \<exists>u. counted u \<and> um_abs m (e, u) = Some n}"
    using lookup_mem [OF m(2)] lookup_Some [of um_key ?xs]
    by (fastforce simp: um_abs_def image_iff)
  with undo_count_loop_ok [OF _ _ c(3), of counted e 0] c(1,2) assms show ?thesis
    by (simp add: um_ok_def entries_of_first_component [OF m(2) lamport_MIN_least] fold_max_count max_count_def)
qed

lemma um_insert_ok:
  assumes "um_ok m" "tree_height m < STACK_CAP" "distinct (map fst (undo_counts undo))"
    "\<And>es. sorted (map (edit_key um_key) (srt es)) \<and> mset (srt es) = mset es"
  shows "\<exists>m1. um_insert srt undo m = Some m1 \<and> um_ok m1
    \<and> (\<forall>e u. um_abs m1 (e, u) = (if u = undo_timestamp undo \<and> e \<in> fst ` set (undo_counts undo)
                                  then map_of (undo_counts undo) e else um_abs m (e, u)))"
proof -
  let ?items = "undo_entries undo"
  have "map um_key ?items = map (\<lambda>e. (e, undo_timestamp undo)) (map fst (undo_counts undo))"
    by (auto simp: undo_entries_def)
  then have "distinct (map um_key ?items)" using assms(3) by (simp only: distinct_map) (simp add: inj_on_def)
  moreover have "um.holds m (tree_items m)" using assms(1,2) by (simp add: um.holds_def um_ok_def)
  ultimately obtain t rm where t: "tree_edit_all srt um_sops um_dim um_key (map Insert ?items) m = Some (t, rm)" "um_ok t"
    "\<And>k. lookup um_key (tree_items t) k =
      (case lookup um_key ?items k of Some x \<Rightarrow> Some x | None \<Rightarrow> lookup um_key (tree_items m) k)"
    using um.edit_inserts_ok [of m "tree_items m" ?items srt] assms(4) unfolding um_ok_def by blast
  have "lookup um_key (map (\<lambda>(edit_id, count). \<lparr>um_key = (edit_id, ts), um_count = count\<rparr>) cs) (e, u) =
      (if u = ts then map_option (\<lambda>n. \<lparr>um_key = (e, u), um_count = n\<rparr>) (map_of cs e) else None)" for e u ts cs
    by (induction cs) auto
  then have "um_abs t (e, u) = (if u = undo_timestamp undo \<and> e \<in> fst ` set (undo_counts undo)
                                  then map_of (undo_counts undo) e else um_abs m (e, u))" for e u
    using map_of_eq_None_iff [of "undo_counts undo" e]
    by (cases "map_of (undo_counts undo) e") (simp_all add: um_abs_def t(3) undo_entries_def)
  with t(1,2) show ?thesis by (auto simp: um_insert_def)
qed

subsection \<open>Properties\<close>

text \<open>(C26) Undo counts are determined by the set of undo operations known: \<open>undo_count\<close> returns the greatest
  count any known undo operation gives the edit (0 if none does), an edit is undone when that is odd, and
  \<open>was_undone\<close> does the same over the operations a version has observed.\<close>

theorem undo_count_is_greatest_known:
  assumes "um_ok m" "tree_height m < STACK_CAP"
  shows "undo_count e m = Some (max_count (\<lambda>_. True) (um_abs m) e)
    \<and> is_undone e m = Some (max_count (\<lambda>_. True) (um_abs m) e mod 2 = 1)
    \<and> was_undone e version m = Some (max_count (global_observed version) (um_abs m) e mod 2 = 1)"
  using counted_entries [OF assms, of e "\<lambda>_. True"] counted_entries [OF assms, of e "global_observed version"]
  by (auto simp: undo_count_def is_undone_def was_undone_def)

theorem undo_count_is_greatest_known_witness:
  "undo_count (Lamport 4 1) (Leaf (Lamport 4 1, Lamport 6 2)
      [\<lparr>um_key = (Lamport 4 1, Lamport 6 2), um_count = 1\<rparr>] [(Lamport 4 1, Lamport 6 2)]) = Some 1"
  using undo_count_is_greatest_known [of "Leaf (Lamport 4 1, Lamport 6 2)
      [\<lparr>um_key = (Lamport 4 1, Lamport 6 2), um_count = 1\<rparr>] [(Lamport 4 1, Lamport 6 2)]" "Lamport 4 1" global_new]
  by (simp add: um_ok_def wf_tree_def um_sops_def sum_summaries_def TREE_BASE_def STACK_CAP_def max_count_def um_abs_def
      MIN_least max_absorb2)

text \<open>Learning an undo operation records its counts under its timestamp and forgets nothing: the map
  known afterwards is the map known before, overridden at the operation's own keys, whatever order the
  hash map of counts and the unstable sort leave. Hence two undo operations of different timestamps may
  arrive in either order.\<close>

theorem undo_map_insert_records:
  assumes "um_ok m" "tree_height m < STACK_CAP" "distinct (map fst (undo_counts undo))"
    "\<And>es. sorted (map (edit_key um_key) (srt es)) \<and> mset (srt es) = mset es"
  shows "\<exists>m1. um_insert srt undo m = Some m1 \<and> um_ok m1
    \<and> (\<forall>e u. um_abs m1 (e, u) = (if u = undo_timestamp undo \<and> e \<in> fst ` set (undo_counts undo)
                                  then map_of (undo_counts undo) e else um_abs m (e, u)))"
  using um_insert_ok [OF assms] .

theorem undo_map_insert_records_witness:
  "\<exists>m1. um_insert (sort_key (edit_key um_key)) \<lparr>undo_timestamp = Lamport 6 2, undo_version = [], undo_counts = [(Lamport 4 1, 1)]\<rparr>
      um_new = Some m1 \<and> um_ok m1 \<and> um_abs m1 (Lamport 4 1, Lamport 6 2) = Some 1"
proof -
  have "um_ok um_new" "tree_height um_new < STACK_CAP"
    by (simp_all add: um_ok_def um_new_def) (simp add: tree_new_def STACK_CAP_def)
  from undo_map_insert_records [OF this, of "\<lparr>undo_timestamp = Lamport 6 2, undo_version = [], undo_counts = [(Lamport 4 1, 1)]\<rparr>"
      "sort_key (edit_key um_key)"]
  show ?thesis by auto
qed

end
