(* ===== verification/History.thy ===== *)
theory History
  imports Undo_Map
begin

text \<open>
  The undo history of a buffer (\<^verbatim>\<open>struct History\<close>, \<^verbatim>\<open>Transaction\<close> and \<^verbatim>\<open>HistoryEntry\<close> of
  \<^verbatim>\<open>src/crates/text/src/text.rs\<close>): nested transactions, grouping of trailing transactions, the undo and redo
  stacks (vectors whose last element is the top). A failing \<open>assert\<close> or \<open>unwrap\<close> is \<open>None\<close>. The map of
  operations is taken at its abstraction (\<open>tm_abs\<close> of the tree map it is). Instants are natural numbers and
  their difference saturates at zero, as that of \<^verbatim>\<open>std::time::Instant\<close> does.
\<close>

text \<open>Offsets into the text that includes deletions.\<close>

type_synonym full_offset = nat

record 'text edit_operation =
  edit_timestamp :: lamport
  edit_version :: global
  edit_ranges :: "(full_offset \<times> full_offset) list"
  edit_new_text :: "'text list"

datatype 'text operation = Edit "'text edit_operation" | Undo undo_operation

fun op_timestamp :: "'text operation \<Rightarrow> lamport" where
  "op_timestamp (Edit e) = edit_timestamp e"
| "op_timestamp (Undo u) = undo_timestamp u"

fun is_edit :: "'text operation \<Rightarrow> bool" where
  "is_edit (Edit _) = True"
| "is_edit (Undo _) = False"

type_synonym transaction_id = lamport
type_synonym instant = nat
type_synonym duration = nat

record transaction =
  tr_id :: transaction_id
  tr_edit_ids :: "lamport list"
  tr_start :: global

record history_entry =
  he_transaction :: transaction
  first_edit_at :: instant
  last_edit_at :: instant
  suppress_grouping :: bool

record ('base, 'text) history =
  base_text :: 'base
  operations :: "lamport \<rightharpoonup> 'text operation"
  undo_stack :: "history_entry list"
  redo_stack :: "history_entry list"
  transaction_depth :: nat
  group_interval :: duration

definition transaction_id_of :: "history_entry \<Rightarrow> transaction_id" where
  "transaction_id_of e = tr_id (he_transaction e)"

definition merge_in :: "transaction \<Rightarrow> transaction \<Rightarrow> transaction" where
  "merge_in self other = self\<lparr>tr_edit_ids := tr_edit_ids self @ tr_edit_ids other\<rparr>"

text \<open>The grouping interval outside of tests: 300 milliseconds.\<close>

definition history_new :: "'base \<Rightarrow> ('base, 'text) history" where
  "history_new base = \<lparr>base_text = base, operations = Map.empty, undo_stack = [], redo_stack = [],
     transaction_depth = 0, group_interval = 300\<rparr>"

definition history_push :: "'text operation \<Rightarrow> ('base, 'text) history \<Rightarrow> ('base, 'text) history" where
  "history_push op h = h\<lparr>operations := (operations h)(op_timestamp op \<mapsto> op)\<rparr>"

definition new_entry :: "transaction \<Rightarrow> instant \<Rightarrow> history_entry" where
  "new_entry t now = \<lparr>he_transaction = t, first_edit_at = now, last_edit_at = now, suppress_grouping = False\<rparr>"

definition start_transaction ::
  "global \<Rightarrow> instant \<Rightarrow> lamport \<Rightarrow> ('base, 'text) history \<Rightarrow> ('base, 'text) history \<times> lamport \<times> transaction_id option" where
  "start_transaction start now clock h =
     (let h1 = h\<lparr>transaction_depth := transaction_depth h + 1\<rparr>
      in if transaction_depth h1 = 1 then
           (let (tid, clock1) = tick clock
            in (h1\<lparr>undo_stack := undo_stack h1 @ [new_entry \<lparr>tr_id = tid, tr_edit_ids = [], tr_start = start\<rparr> now]\<rparr>,
                clock1, Some tid))
         else (h1, clock, None))"

definition end_transaction ::
  "instant \<Rightarrow> ('base, 'text) history \<Rightarrow> (('base, 'text) history \<times> history_entry option) run" where
  "end_transaction now h = do {
     rust_assert (transaction_depth h \<noteq> 0);
     let h1 = h\<lparr>transaction_depth := transaction_depth h - 1\<rparr>;
     if transaction_depth h1 = 0 then do {
       e \<leftarrow> vec_last (undo_stack h1);
       if tr_edit_ids (he_transaction e) = [] then
         Some (h1\<lparr>undo_stack := butlast (undo_stack h1)\<rparr>, None)
       else
         (let e1 = e\<lparr>last_edit_at := now\<rparr>
          in Some (h1\<lparr>redo_stack := [], undo_stack := butlast (undo_stack h1) @ [e1]\<rparr>, Some e1))
     } else Some (h1, None)
   }"

text \<open>\<open>group_trailing(n)\<close> merges the last \<open>n\<close> entries into the one before them.\<close>

definition group_trailing ::
  "nat \<Rightarrow> ('base, 'text) history \<Rightarrow> (('base, 'text) history \<times> transaction_id option) run" where
  "group_trailing n h =
     (if n > length (undo_stack h) then None
      else
        let new_len = length (undo_stack h) - n;
            entries_to_keep = take new_len (undo_stack h);
            entries_to_merge = drop new_len (undo_stack h);
            kept = (case vec_last entries_to_keep of
                      None \<Rightarrow> entries_to_keep
                    | Some e \<Rightarrow>
                        butlast entries_to_keep @
                          [e\<lparr>he_transaction := (he_transaction e)\<lparr>tr_edit_ids := tr_edit_ids (he_transaction e)
                                @ concat (map (\<lambda>m. tr_edit_ids (he_transaction m)) entries_to_merge)\<rparr>,
                             last_edit_at := (case vec_last entries_to_merge of
                                                Some m \<Rightarrow> last_edit_at m | None \<Rightarrow> last_edit_at e)\<rparr>])
        in Some (h\<lparr>undo_stack := kept\<rparr>, map_option transaction_id_of (vec_last kept)))"

text \<open>How many entries before the last were edited shortly before their successors; the list is reversed.\<close>

fun group_count :: "duration \<Rightarrow> history_entry \<Rightarrow> history_entry list \<Rightarrow> nat" where
  "group_count interval entry [] = 0"
| "group_count interval entry (prev # rest) =
     (if \<not> suppress_grouping prev \<and> first_edit_at entry - last_edit_at prev < interval
      then Suc (group_count interval prev rest) else 0)"

definition group :: "('base, 'text) history \<Rightarrow> (('base, 'text) history \<times> transaction_id option) run" where
  "group h =
     (let n = (case rev (undo_stack h) of [] \<Rightarrow> 0 | e # rest \<Rightarrow> group_count (group_interval h) e rest)
      in group_trailing n h)"

text \<open>The loop of \<open>group_until\<close> over the reversed stack: how many entries to merge, if any.\<close>

fun group_until_count :: "transaction_id \<Rightarrow> nat \<Rightarrow> history_entry list \<Rightarrow> nat option" where
  "group_until_count tid n [] = None"
| "group_until_count tid n (e # rest) =
     (if transaction_id_of e = tid then Some n
      else if suppress_grouping e then None
      else group_until_count tid (Suc n) rest)"

definition group_until :: "transaction_id \<Rightarrow> ('base, 'text) history \<Rightarrow> ('base, 'text) history run" where
  "group_until tid h =
     (case group_until_count tid 0 (rev (undo_stack h)) of
        Some n \<Rightarrow> map_option fst (group_trailing n h)
      | None \<Rightarrow> Some h)"

definition finalize_last_transaction :: "('base, 'text) history \<Rightarrow> ('base, 'text) history \<times> transaction option" where
  "finalize_last_transaction h =
     (case vec_last (undo_stack h) of
        None \<Rightarrow> (h, None)
      | Some e \<Rightarrow> (h\<lparr>undo_stack := butlast (undo_stack h) @ [e\<lparr>suppress_grouping := True\<rparr>]\<rparr>, Some (he_transaction e)))"

definition push_transaction :: "transaction \<Rightarrow> instant \<Rightarrow> ('base, 'text) history \<Rightarrow> ('base, 'text) history run" where
  "push_transaction t now h = do {
     rust_assert (transaction_depth h = 0);
     Some (h\<lparr>undo_stack := undo_stack h @ [new_entry t now]\<rparr>)
   }"

definition push_empty_transaction ::
  "global \<Rightarrow> instant \<Rightarrow> lamport \<Rightarrow> ('base, 'text) history \<Rightarrow> (('base, 'text) history \<times> lamport \<times> transaction_id) run" where
  "push_empty_transaction start now clock h = do {
     rust_assert (transaction_depth h = 0);
     let (tid, clock1) = tick clock;
     Some (h\<lparr>undo_stack := undo_stack h @ [new_entry \<lparr>tr_id = tid, tr_edit_ids = [], tr_start = start\<rparr> now]\<rparr>, clock1, tid)
   }"

definition push_undo :: "lamport \<Rightarrow> ('base, 'text) history \<Rightarrow> ('base, 'text) history run" where
  "push_undo op_id h = do {
     rust_assert (transaction_depth h \<noteq> 0);
     (case operations h op_id of
        Some (Edit _) \<Rightarrow> do {
          e \<leftarrow> vec_last (undo_stack h);
          let t = he_transaction e;
          Some (h\<lparr>undo_stack := butlast (undo_stack h)
                   @ [e\<lparr>he_transaction := t\<lparr>tr_edit_ids := tr_edit_ids t @ [op_id]\<rparr>\<rparr>]\<rparr>)
        }
      | _ \<Rightarrow> Some h)
   }"

definition pop_undo :: "('base, 'text) history \<Rightarrow> (('base, 'text) history \<times> history_entry option) run" where
  "pop_undo h = do {
     rust_assert (transaction_depth h = 0);
     Some (case vec_last (undo_stack h) of
             Some e \<Rightarrow> (h\<lparr>undo_stack := butlast (undo_stack h), redo_stack := redo_stack h @ [e]\<rparr>, Some e)
           | None \<Rightarrow> (h, None))
   }"

definition remove_from_undo ::
  "transaction_id \<Rightarrow> ('base, 'text) history \<Rightarrow> (('base, 'text) history \<times> history_entry option) run" where
  "remove_from_undo tid h = do {
     rust_assert (transaction_depth h = 0);
     Some (case rposition (\<lambda>e. transaction_id_of e = tid) (undo_stack h) of
             Some ix \<Rightarrow>
               (h\<lparr>undo_stack := vec_remove ix (undo_stack h), redo_stack := redo_stack h @ [undo_stack h ! ix]\<rparr>,
                Some (undo_stack h ! ix))
           | None \<Rightarrow> (h, None))
   }"

text \<open>\<open>remove_from_undo_until\<close> and \<open>remove_from_redo\<close> also return the entries moved.\<close>

definition remove_from_undo_until ::
  "transaction_id \<Rightarrow> ('base, 'text) history \<Rightarrow> (('base, 'text) history \<times> history_entry list) run" where
  "remove_from_undo_until tid h = do {
     rust_assert (transaction_depth h = 0);
     let start_len = length (redo_stack h);
     let h1 = (case rposition (\<lambda>e. transaction_id_of e = tid) (undo_stack h) of
                 Some ix \<Rightarrow> h\<lparr>undo_stack := take ix (undo_stack h),
                             redo_stack := redo_stack h @ rev (drop ix (undo_stack h))\<rparr>
               | None \<Rightarrow> h);
     Some (h1, drop start_len (redo_stack h1))
   }"

definition forget ::
  "transaction_id \<Rightarrow> ('base, 'text) history \<Rightarrow> (('base, 'text) history \<times> transaction option) run" where
  "forget tid h = do {
     rust_assert (transaction_depth h = 0);
     Some (case rposition (\<lambda>e. transaction_id_of e = tid) (undo_stack h) of
             Some ix \<Rightarrow> (h\<lparr>undo_stack := vec_remove ix (undo_stack h)\<rparr>, Some (he_transaction (undo_stack h ! ix)))
           | None \<Rightarrow>
               (case rposition (\<lambda>e. transaction_id_of e = tid) (redo_stack h) of
                  Some ix \<Rightarrow> (h\<lparr>redo_stack := vec_remove ix (redo_stack h)\<rparr>, Some (he_transaction (redo_stack h ! ix)))
                | None \<Rightarrow> (h, None)))
   }"

definition history_transaction :: "transaction_id \<Rightarrow> ('base, 'text) history \<Rightarrow> transaction option" where
  "history_transaction tid h =
     (case rposition (\<lambda>e. transaction_id_of e = tid) (undo_stack h) of
        Some ix \<Rightarrow> Some (he_transaction (undo_stack h ! ix))
      | None \<Rightarrow> map_option (\<lambda>ix. he_transaction (redo_stack h ! ix)) (rposition (\<lambda>e. transaction_id_of e = tid) (redo_stack h)))"

definition map_transaction :: "(transaction \<Rightarrow> transaction) \<Rightarrow> nat \<Rightarrow> history_entry list \<Rightarrow> history_entry list" where
  "map_transaction f ix st = st[ix := (st ! ix)\<lparr>he_transaction := f (he_transaction (st ! ix))\<rparr>]"

text \<open>\<open>transaction_mut\<close> with the update its caller makes.\<close>

definition transaction_mut ::
  "transaction_id \<Rightarrow> (transaction \<Rightarrow> transaction) \<Rightarrow> ('base, 'text) history \<Rightarrow> ('base, 'text) history" where
  "transaction_mut tid f h =
     (case rposition (\<lambda>e. transaction_id_of e = tid) (undo_stack h) of
        Some ix \<Rightarrow> h\<lparr>undo_stack := map_transaction f ix (undo_stack h)\<rparr>
      | None \<Rightarrow>
          (case rposition (\<lambda>e. transaction_id_of e = tid) (redo_stack h) of
             Some ix \<Rightarrow> h\<lparr>redo_stack := map_transaction f ix (redo_stack h)\<rparr>
           | None \<Rightarrow> h))"

definition merge_transactions ::
  "transaction_id \<Rightarrow> transaction_id \<Rightarrow> ('base, 'text) history \<Rightarrow> ('base, 'text) history run" where
  "merge_transactions tid destination h = do {
     (h1, t) \<leftarrow> forget tid h;
     Some (case t of
             Some t \<Rightarrow> transaction_mut destination (\<lambda>d. d\<lparr>tr_edit_ids := tr_edit_ids d @ tr_edit_ids t\<rparr>) h1
           | None \<Rightarrow> h1)
   }"

definition pop_redo :: "('base, 'text) history \<Rightarrow> (('base, 'text) history \<times> history_entry option) run" where
  "pop_redo h = do {
     rust_assert (transaction_depth h = 0);
     Some (case vec_last (redo_stack h) of
             Some e \<Rightarrow> (h\<lparr>redo_stack := butlast (redo_stack h), undo_stack := undo_stack h @ [e]\<rparr>, Some e)
           | None \<Rightarrow> (h, None))
   }"

definition remove_from_redo ::
  "transaction_id \<Rightarrow> ('base, 'text) history \<Rightarrow> (('base, 'text) history \<times> history_entry list) run" where
  "remove_from_redo tid h = do {
     rust_assert (transaction_depth h = 0);
     let start_len = length (undo_stack h);
     let h1 = (case rposition (\<lambda>e. transaction_id_of e = tid) (redo_stack h) of
                 Some ix \<Rightarrow> h\<lparr>redo_stack := take ix (redo_stack h),
                             undo_stack := undo_stack h @ rev (drop ix (redo_stack h))\<rparr>
               | None \<Rightarrow> h);
     Some (h1, drop start_len (undo_stack h1))
   }"

subsection \<open>The invariant\<close>

text \<open>While a transaction is open there is an entry for it, and every transaction consists of edits that the
  history knows.\<close>

definition known_edits :: "(lamport \<rightharpoonup> 'text operation) \<Rightarrow> lamport list \<Rightarrow> bool" where
  "known_edits ops ids \<longleftrightarrow> (\<forall>i \<in> set ids. \<exists>e. ops i = Some (Edit e))"

definition known_entries :: "(lamport \<rightharpoonup> 'text operation) \<Rightarrow> history_entry list \<Rightarrow> bool" where
  "known_entries ops es \<longleftrightarrow> (\<forall>e \<in> set es. known_edits ops (tr_edit_ids (he_transaction e)))"

definition history_ok :: "('base, 'text) history \<Rightarrow> bool" where
  "history_ok h \<longleftrightarrow> (transaction_depth h \<noteq> 0 \<longrightarrow> undo_stack h \<noteq> [])
     \<and> known_entries (operations h) (undo_stack h) \<and> known_entries (operations h) (redo_stack h)"

text \<open>All edits of the undo stack, in order.\<close>

definition undo_edits :: "history_entry list \<Rightarrow> lamport list" where
  "undo_edits es = concat (map (\<lambda>e. tr_edit_ids (he_transaction e)) es)"

lemma known_edits_simps [simp]:
  "known_edits ops []" "known_edits ops (i # ids) \<longleftrightarrow> (\<exists>e. ops i = Some (Edit e)) \<and> known_edits ops ids"
  "known_edits ops (ids @ js) \<longleftrightarrow> known_edits ops ids \<and> known_edits ops js"
  by (auto simp: known_edits_def)

lemma known_entries_simps [simp]:
  "known_entries ops []" "known_entries ops (e # es) \<longleftrightarrow> known_edits ops (tr_edit_ids (he_transaction e)) \<and> known_entries ops es"
  "known_entries ops (es @ fs) \<longleftrightarrow> known_entries ops es \<and> known_entries ops fs"
  "known_entries ops (rev es) \<longleftrightarrow> known_entries ops es"
  by (auto simp: known_entries_def)

lemma known_entries_subset: "known_entries ops es \<Longrightarrow> set fs \<subseteq> set es \<Longrightarrow> known_entries ops fs"
  by (auto simp: known_entries_def)

lemmas known_entries_parts =
  known_entries_subset [OF _ set_take_subset] known_entries_subset [OF _ set_drop_subset]
  known_entries_subset [OF _ set_vec_remove_subset]

lemma known_edits_concat: "known_edits ops (undo_edits es) \<longleftrightarrow> known_entries ops es"
  by (induction es) (simp_all add: undo_edits_def)

lemma known_entries_nth: "known_entries ops es \<Longrightarrow> ix < length es \<Longrightarrow> known_edits ops (tr_edit_ids (he_transaction (es ! ix)))"
  by (simp add: known_entries_def)

lemma known_map_transaction:
  "known_entries ops es \<Longrightarrow> ix < length es \<Longrightarrow>
   known_edits ops (tr_edit_ids (f (he_transaction (es ! ix)))) \<Longrightarrow> known_entries ops (map_transaction f ix es)"
  by (auto simp: known_entries_def map_transaction_def dest!: set_update_subset_insert [THEN subsetD])

lemma undo_edits_simps [simp]:
  "undo_edits [] = []" "undo_edits (e # es) = tr_edit_ids (he_transaction e) @ undo_edits es"
  "undo_edits (es @ fs) = undo_edits es @ undo_edits fs"
  by (simp_all add: undo_edits_def)

text \<open>Merging trailing entries loses no edit and reorders none.\<close>

lemma group_trailing_ok:
  assumes "n < length (undo_stack h)"
  obtains keep e merged e1 where "undo_stack h = keep @ e # merged" "length merged = n"
    "group_trailing n h = Some (h\<lparr>undo_stack := keep @ [e1]\<rparr>, Some (transaction_id_of e))"
    "transaction_id_of e1 = transaction_id_of e" "tr_start (he_transaction e1) = tr_start (he_transaction e)"
    "tr_edit_ids (he_transaction e1) = undo_edits (e # merged)"
proof -
  define m where "m = length (undo_stack h) - n - 1"
  define keep where "keep = take m (undo_stack h)"
  define e where "e = undo_stack h ! m"
  define merged where "merged = drop (Suc m) (undo_stack h)"
  have m: "m < length (undo_stack h)" "Suc m = length (undo_stack h) - n" using assms by (simp_all add: m_def)
  have st: "undo_stack h = keep @ e # merged" using m(1) by (simp add: keep_def e_def merged_def id_take_nth_drop)
  have "length merged = n" using m assms by (simp add: merged_def)
  moreover from this have "take (length (undo_stack h) - n) (undo_stack h) = keep @ [e]"
    "drop (length (undo_stack h) - n) (undo_stack h) = merged"
    by (simp_all add: st)
  ultimately show ?thesis
    using assms st
    by (intro that [of keep e merged "e\<lparr>he_transaction := (he_transaction e)\<lparr>tr_edit_ids := undo_edits (e # merged)\<rparr>,
        last_edit_at := (case vec_last merged of Some m \<Rightarrow> last_edit_at m | None \<Rightarrow> last_edit_at e)\<rparr>"])
      (simp_all add: group_trailing_def Let_def transaction_id_of_def undo_edits_def)
qed

lemma group_count_less: "group_count interval e rest \<le> length rest"
  by (induction interval e rest rule: group_count.induct) auto

lemma group_until_count_less: "group_until_count tid n es = Some k \<Longrightarrow> n \<le> k \<and> k < n + length es"
  by (induction tid n es rule: group_until_count.induct) (force split: if_splits)+

lemma group_trailing_edits:
  assumes "n < length (undo_stack h) \<or> n = 0"
  shows "\<exists>es tid. group_trailing n h = Some (h\<lparr>undo_stack := es\<rparr>, tid) \<and> undo_edits es = undo_edits (undo_stack h)
    \<and> (es = [] \<longleftrightarrow> undo_stack h = []) \<and> tid = map_option transaction_id_of (vec_last es)"
proof (cases "undo_stack h = []")
  case True
  with assms show ?thesis by (auto simp: group_trailing_def Let_def)
next
  case False
  with assms have "n < length (undo_stack h)" by auto
  then show ?thesis by (rule group_trailing_ok) (auto simp: undo_edits_def)
qed

lemma group_edits:
  "\<exists>es tid. group h = Some (h\<lparr>undo_stack := es\<rparr>, tid) \<and> undo_edits es = undo_edits (undo_stack h)
    \<and> (es = [] \<longleftrightarrow> undo_stack h = []) \<and> tid = map_option transaction_id_of (vec_last es)"
proof -
  have "(case rev (undo_stack h) of [] \<Rightarrow> 0 | e # rest \<Rightarrow> group_count (group_interval h) e rest) < length (undo_stack h)
      \<or> (case rev (undo_stack h) of [] \<Rightarrow> 0 | e # rest \<Rightarrow> group_count (group_interval h) e rest) = 0"
    by (cases "undo_stack h" rule: rev_cases)
      (auto simp: less_Suc_eq_le intro: order_trans [OF group_count_less])
  from group_trailing_edits [OF this] show ?thesis by (auto simp: group_def Let_def)
qed

lemma group_until_edits:
  "\<exists>es. group_until tid h = Some (h\<lparr>undo_stack := es\<rparr>) \<and> undo_edits es = undo_edits (undo_stack h)
    \<and> (es = [] \<longleftrightarrow> undo_stack h = [])"
proof (cases "group_until_count tid 0 (rev (undo_stack h))")
  case None
  then show ?thesis by (intro exI [of _ "undo_stack h"]) (simp add: group_until_def)
next
  case (Some n)
  then have "n < length (undo_stack h)" using group_until_count_less by fastforce
  with group_trailing_edits [of n h] Some show ?thesis by (auto simp: group_until_def)
qed

subsection \<open>Every operation keeps the invariant\<close>

text \<open>One call of an operation of the history, with its new state. A transaction pushed from outside
  consists of known edits; the operations recorded under a timestamp stay edits or undos.\<close>

inductive history_step :: "('base, 'text) history \<Rightarrow> ('base, 'text) history \<Rightarrow> bool" where
  push: "operations h (op_timestamp op) = None \<Longrightarrow> history_step h (history_push op h)"
| start: "start_transaction v now clock h = (h1, clock1, tid) \<Longrightarrow> history_step h h1"
| finish: "end_transaction now h = Some (h1, e) \<Longrightarrow> history_step h h1"
| group: "group h = Some (h1, tid) \<Longrightarrow> history_step h h1"
| group_until: "group_until tid h = Some h1 \<Longrightarrow> history_step h h1"
| finalize: "finalize_last_transaction h = (h1, t) \<Longrightarrow> history_step h h1"
| push_transaction: "push_transaction t now h = Some h1 \<Longrightarrow> known_edits (operations h) (tr_edit_ids t) \<Longrightarrow> history_step h h1"
| push_empty: "push_empty_transaction v now clock h = Some (h1, clock1, tid) \<Longrightarrow> history_step h h1"
| push_undo: "push_undo i h = Some h1 \<Longrightarrow> history_step h h1"
| pop_undo: "pop_undo h = Some (h1, e) \<Longrightarrow> history_step h h1"
| remove_undo: "remove_from_undo tid h = Some (h1, e) \<Longrightarrow> history_step h h1"
| remove_undo_until: "remove_from_undo_until tid h = Some (h1, es) \<Longrightarrow> history_step h h1"
| forget: "forget tid h = Some (h1, t) \<Longrightarrow> history_step h h1"
| merge: "merge_transactions tid dest h = Some h1 \<Longrightarrow> history_step h h1"
| pop_redo: "pop_redo h = Some (h1, e) \<Longrightarrow> history_step h h1"
| remove_redo: "remove_from_redo tid h = Some (h1, es) \<Longrightarrow> history_step h h1"

lemmas history_defs = start_transaction_def end_transaction_def finalize_last_transaction_def
  push_transaction_def push_empty_transaction_def push_undo_def pop_undo_def remove_from_undo_def
  remove_from_undo_until_def pop_redo_def remove_from_redo_def new_entry_def rust_assert_def Let_def

lemma history_ok_push: "history_ok h \<Longrightarrow> operations h (op_timestamp op) = None \<Longrightarrow> history_ok (history_push op h)"
  by (auto simp: history_ok_def history_push_def known_entries_def known_edits_def) (metis option.distinct(1))+

lemma history_ok_group: "undo_edits es = undo_edits (undo_stack h) \<Longrightarrow> (es = [] \<longleftrightarrow> undo_stack h = []) \<Longrightarrow>
   history_ok h \<Longrightarrow> history_ok (h\<lparr>undo_stack := es\<rparr>)"
  by (simp add: history_ok_def flip: known_edits_concat)

lemma history_ok_forget:
  assumes "forget tid h = Some (h1, t)" "history_ok h"
  shows "history_ok h1 \<and> operations h1 = operations h
    \<and> (case t of Some t \<Rightarrow> known_edits (operations h) (tr_edit_ids t) | None \<Rightarrow> True)"
  using assms
  by (auto simp: forget_def history_ok_def rust_assert_def bind_eq_Some_conv known_entries_nth
      dest!: rposition_SomeD intro: known_entries_parts split: option.splits if_splits)

lemma history_ok_transaction_mut:
  assumes "history_ok h" "\<And>t. known_edits (operations h) (tr_edit_ids t) \<Longrightarrow> known_edits (operations h) (tr_edit_ids (f t))"
  shows "history_ok (transaction_mut tid f h)"
  using assms
  by (auto simp: transaction_mut_def history_ok_def map_transaction_def [of _ _ "[]"] split: option.splits
      dest!: rposition_SomeD intro!: known_map_transaction known_entries_nth) (simp_all add: map_transaction_def)

lemma vec_last_split: "vec_last xs = Some x \<Longrightarrow> xs = butlast xs @ [x]"
  by (auto simp: vec_last_Some_iff)

lemma known_butlast: "known_entries ops es \<Longrightarrow> known_entries ops (butlast es)"
  by (auto simp: known_entries_def dest: in_set_butlastD)

lemma known_last: "known_entries ops es \<Longrightarrow> vec_last es = Some e \<Longrightarrow> known_edits ops (tr_edit_ids (he_transaction e))"
  by (auto simp: known_entries_def vec_last_Some_iff)

lemma history_step_ok: "history_step h h1 \<Longrightarrow> history_ok h \<Longrightarrow> history_ok h1"
proof (induction rule: history_step.induct)
  case (push h op)
  then show ?case by (simp add: history_ok_push)
next
  case (forget tid h h1 t)
  then show ?case using history_ok_forget by blast
next
  case (group h h1 tid)
  with group_edits [of h] history_ok_group show ?case by force
next
  case (group_until tid h h1)
  with group_until_edits [of tid h] history_ok_group show ?case by force
next
  case (merge tid dest h h1)
  then obtain h2 t where f: "forget tid h = Some (h2, t)"
    "h1 = (case t of Some t \<Rightarrow> transaction_mut dest (\<lambda>d. d\<lparr>tr_edit_ids := tr_edit_ids d @ tr_edit_ids t\<rparr>) h2 | None \<Rightarrow> h2)"
    by (auto simp: merge_transactions_def bind_eq_Some_conv)
  with history_ok_forget [OF f(1) merge.prems] show ?case
    by (auto intro!: history_ok_transaction_mut split: option.splits)
qed (auto simp: history_defs history_ok_def bind_eq_Some_conv
    intro: known_entries_parts known_butlast known_last known_entries_nth
    dest: known_last dest!: rposition_SomeD split: if_splits option.splits operation.splits prod.splits)

inductive history_reachable :: "('base, 'text) history \<Rightarrow> bool" where
  new: "history_reachable (history_new base)"
| step: "history_reachable h \<Longrightarrow> history_step h h1 \<Longrightarrow> history_reachable h1"

lemma reachable_ok: "history_reachable h \<Longrightarrow> history_ok h"
  by (induction rule: history_reachable.induct) (simp_all add: history_step_ok, simp add: history_ok_def history_new_def)

subsection \<open>Properties\<close>

text \<open>(C27) In every state the history can reach, the unwraps on the undo stack are safe: \<open>end_transaction\<close>
  and \<open>push_undo\<close> fail exactly when no transaction is open (their assertion), \<open>group\<close> and \<open>group_until\<close>
  never fail, and every entry of both stacks consists of edits that the history knows.\<close>

theorem history_invariant:
  assumes "history_reachable h"
  shows "(end_transaction now h = None \<longleftrightarrow> transaction_depth h = 0)
    \<and> (push_undo i h = None \<longleftrightarrow> transaction_depth h = 0)
    \<and> group h \<noteq> None \<and> group_until tid h \<noteq> None
    \<and> known_entries (operations h) (undo_stack h) \<and> known_entries (operations h) (redo_stack h)"
proof -
  have ok: "history_ok h" by (rule reachable_ok [OF assms])
  then have "transaction_depth h \<noteq> 0 \<Longrightarrow> vec_last (undo_stack h) \<noteq> None"
    by (cases "undo_stack h" rule: rev_cases) (auto simp: history_ok_def)
  then have "(end_transaction now h = None \<longleftrightarrow> transaction_depth h = 0) \<and> (push_undo i h = None \<longleftrightarrow> transaction_depth h = 0)"
    by (auto simp: end_transaction_def push_undo_def rust_assert_def Let_def split: option.splits operation.splits)
  with ok group_edits [of h] group_until_edits [of tid h] show ?thesis
    by (auto simp: history_ok_def)
qed

theorem history_invariant_witness:
  "end_transaction 5 (history_new () :: (unit, string) history) = None \<and> group (history_new () :: (unit, string) history) \<noteq> None"
proof -
  have r: "history_reachable (history_new () :: (unit, string) history)" by (rule history_reachable.new)
  have "transaction_depth (history_new () :: (unit, string) history) = 0" by (simp add: history_new_def)
  with history_invariant [OF r, of 5 "Lamport 1 1" "Lamport 1 1"] show ?thesis by blast
qed

text \<open>Grouping merges trailing transactions without losing, adding or reordering an edit, and leaves the
  redo stack and everything else of the history alone.\<close>

theorem grouping_keeps_edits:
  "\<exists>es fs t. group h = Some (h\<lparr>undo_stack := es\<rparr>, t) \<and> undo_edits es = undo_edits (undo_stack h)
     \<and> group_until tid h = Some (h\<lparr>undo_stack := fs\<rparr>) \<and> undo_edits fs = undo_edits (undo_stack h)"
  using group_edits [of h] group_until_edits [of tid h] by blast

fun push_undos :: "lamport list \<Rightarrow> ('base, 'text) history \<Rightarrow> ('base, 'text) history run" where
  "push_undos [] h = Some h"
| "push_undos (i # ids) h = Option.bind (push_undo i h) (push_undos ids)"

lemma push_undos_ok:
  assumes "transaction_depth h \<noteq> 0" "undo_stack h = es @ [e]" "known_edits (operations h) ids"
  shows "push_undos ids h = Some (h\<lparr>undo_stack := es @
    [e\<lparr>he_transaction := (he_transaction e)\<lparr>tr_edit_ids := tr_edit_ids (he_transaction e) @ ids\<rparr>\<rparr>]\<rparr>)"
  using assms
proof (induction ids arbitrary: h e)
  case (Cons i ids)
  let ?e = "e\<lparr>he_transaction := (he_transaction e)\<lparr>tr_edit_ids := tr_edit_ids (he_transaction e) @ [i]\<rparr>\<rparr>"
  have "push_undo i h = Some (h\<lparr>undo_stack := es @ [?e]\<rparr>)"
    using Cons.prems by (auto simp: push_undo_def rust_assert_def Let_def)
  with Cons.IH [of "h\<lparr>undo_stack := es @ [?e]\<rparr>" ?e] Cons.prems show ?case by simp
qed simp

text \<open>(C28) An outermost transaction is atomic: if it records no edit, ending it restores the history exactly,
  redo stack included, and reports nothing; otherwise the undo stack grows by one entry that holds the
  transaction's identifier and exactly its edits in order, and the redo stack is cleared.\<close>

theorem transaction_is_atomic:
  assumes "transaction_depth h = 0" "known_edits (operations h) ids"
    "start_transaction v now clock h = (h1, clock1, tid)"
  shows "tid = Some (fst (tick clock)) \<and>
    (\<exists>h2 e. push_undos ids h1 = Some h2
       \<and> e = \<lparr>he_transaction = \<lparr>tr_id = fst (tick clock), tr_edit_ids = ids, tr_start = v\<rparr>,
              first_edit_at = now, last_edit_at = later, suppress_grouping = False\<rparr>
       \<and> end_transaction later h2 =
           Some (if ids = [] then (h, None) else (h\<lparr>undo_stack := undo_stack h @ [e], redo_stack := []\<rparr>, Some e)))"
proof -
  obtain t c where tc: "tick clock = (t, c)" by fastforce
  let ?e = "new_entry \<lparr>tr_id = t, tr_edit_ids = [], tr_start = v\<rparr> now"
  have h1: "h1 = h\<lparr>transaction_depth := 1, undo_stack := undo_stack h @ [?e]\<rparr>" "tid = Some t"
    using assms(1,3) by (auto simp: start_transaction_def Let_def tc)
  then have "push_undos ids h1 = Some (h1\<lparr>undo_stack := undo_stack h @
      [?e\<lparr>he_transaction := (he_transaction ?e)\<lparr>tr_edit_ids := ids\<rparr>\<rparr>]\<rparr>)"
    using push_undos_ok [of h1 "undo_stack h" ?e ids] assms(2) by (simp add: new_entry_def)
  then show ?thesis
    using assms(1) by (simp add: h1 tc end_transaction_def rust_assert_def Let_def new_entry_def)
qed

theorem transaction_is_atomic_witness:
  "let h = history_new () :: (unit, string) history; (h1, c1, tid) = start_transaction [] 5 (Lamport 1 1) h
   in tid = Some (Lamport 1 1) \<and> (\<exists>h2. push_undos [] h1 = Some h2 \<and> end_transaction 9 h2 = Some (h, None))"
proof -
  obtain h1 c1 tid where s: "start_transaction [] 5 (Lamport 1 1) (history_new () :: (unit, string) history) = (h1, c1, tid)"
    by (metis prod_cases3)
  have "transaction_depth (history_new () :: (unit, string) history) = 0" by (simp add: history_new_def)
  from transaction_is_atomic [OF this _ s, of "[]" 9] show ?thesis
    unfolding Let_def s prod.case by (simp add: tick_def)
qed

text \<open>(C29) Undo and redo are inverse on the stacks: redoing what was just undone restores the history, and
  undoing down to a transaction and redoing up to the latest one undone restores it too when transaction
  identifiers are unique.\<close>

theorem undo_redo_roundtrip:
  assumes "transaction_depth h = 0" "undo_stack h = es @ e # fs"
    "distinct (map transaction_id_of (undo_stack h @ redo_stack h))"
  shows "(\<exists>h1 l. pop_undo h = Some (h1, Some l) \<and> pop_redo h1 = Some (h, Some l))
    \<and> (\<exists>h1. remove_from_undo_until (transaction_id_of e) h = Some (h1, rev (e # fs))
         \<and> undo_stack h1 = es
         \<and> remove_from_redo (transaction_id_of (last (e # fs))) h1 = Some (h, e # fs))"
proof
  have "undo_stack h \<noteq> []" using assms(2) by simp
  then obtain xs x where x: "undo_stack h = xs @ [x]" by (metis rev_exhaust)
  with assms(1) show "\<exists>h1 l. pop_undo h = Some (h1, Some l) \<and> pop_redo h1 = Some (h, Some l)"
    by (simp add: pop_undo_def pop_redo_def rust_assert_def)
  have unique: "rposition (\<lambda>y. transaction_id_of y = transaction_id_of z) (ys @ z # zs) = Some (length ys)"
    if "distinct (map transaction_id_of (ys @ z # zs))" for ys z zs
  proof -
    have "rposition (\<lambda>y. transaction_id_of y = transaction_id_of z) zs = None"
      unfolding rposition_None_iff using that by (simp add: image_iff) metis
    then have "rposition (\<lambda>y. transaction_id_of y = transaction_id_of z) (z # zs) = Some 0" by simp
    then show ?thesis by (induction ys) simp_all
  qed
  let ?u = "h\<lparr>undo_stack := es, redo_stack := redo_stack h @ rev (e # fs)\<rparr>"
  have "rposition (\<lambda>y. transaction_id_of y = transaction_id_of e) (undo_stack h) = Some (length es)"
    unfolding assms(2) using assms(2,3) by (intro unique) auto
  then have u: "remove_from_undo_until (transaction_id_of e) h = Some (?u, rev (e # fs))"
    using assms(1,2) by (simp add: remove_from_undo_until_def rust_assert_def Let_def)
  let ?l = "last (e # fs)"
  have rev: "redo_stack h @ rev (e # fs) = redo_stack h @ ?l # rev (butlast (e # fs))"
    by (metis append_butlast_last_id list.distinct(1) rev.simps(2) rev_rev_ident rev_append append.simps)
  have "rposition (\<lambda>y. transaction_id_of y = transaction_id_of ?l) (redo_stack h @ ?l # rev (butlast (e # fs)))
      = Some (length (redo_stack h))"
  proof (rule unique)
    have "distinct (map transaction_id_of (redo_stack h @ rev (e # fs)))"
      using assms(2,3) by (auto simp flip: rev_map)
    then show "distinct (map transaction_id_of (redo_stack h @ ?l # rev (butlast (e # fs))))" by (simp only: rev)
  qed
  then have "remove_from_redo (transaction_id_of ?l) ?u = Some (h, e # fs)"
    using assms(1,2) by (simp add: remove_from_redo_def rust_assert_def Let_def rev [simplified])
  with u show "\<exists>h1. remove_from_undo_until (transaction_id_of e) h = Some (h1, rev (e # fs))
      \<and> undo_stack h1 = es \<and> remove_from_redo (transaction_id_of ?l) h1 = Some (h, e # fs)" by auto
qed

theorem undo_redo_roundtrip_witness:
  "let e = new_entry \<lparr>tr_id = Lamport 1 1, tr_edit_ids = [Lamport 2 1], tr_start = []\<rparr> 5;
       h = (history_new () :: (unit, string) history)\<lparr>undo_stack := [e]\<rparr>
   in \<exists>h1. pop_undo h = Some (h1, Some e) \<and> pop_redo h1 = Some (h, Some e)"
proof -
  define e where "e = new_entry \<lparr>tr_id = Lamport 1 1, tr_edit_ids = [Lamport 2 1], tr_start = []\<rparr> 5"
  define h where "h = (history_new () :: (unit, string) history)\<lparr>undo_stack := [e]\<rparr>"
  have "\<exists>h1 l. pop_undo h = Some (h1, Some l) \<and> pop_redo h1 = Some (h, Some l)"
    using undo_redo_roundtrip [of h "[]" e "[]"] by (simp add: h_def history_new_def)
  moreover have "pop_undo h = Some (h1, Some l) \<Longrightarrow> l = e" for h1 l
    by (auto simp: h_def pop_undo_def rust_assert_def history_new_def vec_last_def)
  ultimately show ?thesis unfolding Let_def e_def [symmetric] h_def [symmetric] by blast
qed

text \<open>Pushing a finished transaction from outside keeps the redo stack, exactly as pushing an empty one
  does: the two differ only in the edits of the entry.\<close>

theorem push_transaction_keeps_redo:
  assumes "push_transaction t now h = Some h1"
  shows "redo_stack h1 = redo_stack h
    \<and> (\<exists>h2 clock1 tid. push_empty_transaction v now clock h = Some (h2, clock1, tid) \<and> redo_stack h2 = redo_stack h
         \<and> butlast (undo_stack h1) = butlast (undo_stack h2))"
proof -
  have "transaction_depth h = 0" using assms by (simp add: push_transaction_def rust_assert_def split: if_splits)
  then show ?thesis
    using assms by (cases "tick clock") (auto simp: push_transaction_def push_empty_transaction_def rust_assert_def)
qed

theorem push_transaction_keeps_redo_witness:
  "let t = \<lparr>tr_id = Lamport 1 1, tr_edit_ids = [], tr_start = []\<rparr>;
       h = (history_new () :: (unit, string) history)\<lparr>redo_stack := [new_entry t 3]\<rparr>
   in \<exists>h1. push_transaction t 5 h = Some h1 \<and> redo_stack h1 = [new_entry t 3]"
proof -
  define t :: transaction where "t = \<lparr>tr_id = Lamport 1 1, tr_edit_ids = [], tr_start = []\<rparr>"
  define h where "h = (history_new () :: (unit, string) history)\<lparr>redo_stack := [new_entry t 3]\<rparr>"
  have "\<exists>h1. push_transaction t 5 h = Some h1" by (simp add: push_transaction_def rust_assert_def h_def history_new_def)
  with push_transaction_keeps_redo [of t 5 h] have "\<exists>h1. push_transaction t 5 h = Some h1 \<and> redo_stack h1 = redo_stack h"
    by blast
  then show ?thesis unfolding Let_def t_def [symmetric] h_def [symmetric] by (simp add: h_def)
qed

end
