(* ===== verification/Points.thy ===== *)
theory Points
  imports Prelude
begin

unbundle bit_operations_syntax

text \<open>
  Points (row and column) and UTF-16 offsets of \<^verbatim>\<open>src/crates/rope/src/point.rs\<close>, \<^verbatim>\<open>point_utf16.rs\<close> and
  \<^verbatim>\<open>offset_utf16.rs\<close>. The operations are generic in the number type: machine words for the types as the
  code has them (additions and subtractions wrap), natural numbers where a summary of a text is meant.
  \<open>Point\<close> and \<open>PointUtf16\<close> have the same operations and share the record.
\<close>

record 'a point =
  row :: 'a
  column :: 'a

definition point_new :: "'a \<Rightarrow> 'a \<Rightarrow> 'a point" where
  "point_new r c = \<lparr>row = r, column = c\<rparr>"

definition point_zero :: "'a :: zero point" where
  "point_zero = point_new 0 0"

definition point_MAX :: "u32 point" where
  "point_MAX = point_new (- 1) (- 1)"

definition point_is_zero :: "'a :: zero point \<Rightarrow> bool" where
  "point_is_zero p \<longleftrightarrow> row p = 0 \<and> column p = 0"

definition row_range :: "'a \<Rightarrow> 'a \<Rightarrow> 'a :: zero point \<times> 'a point" where
  "row_range s e = (point_new s 0, point_new e 0)"

definition point_add :: "'a :: {zero, plus} point \<Rightarrow> 'a point \<Rightarrow> 'a point" where
  "point_add p other =
     (if row other = 0 then point_new (row p) (column p + column other)
      else point_new (row p + row other) (column other))"

definition point_sub :: "'a :: {zero, minus} point \<Rightarrow> 'a point \<Rightarrow> 'a point" where
  "point_sub p other =
     (if row p = row other then point_new 0 (column p - column other)
      else point_new (row p - row other) (column p))"

text \<open>The comparison packs both coordinates into one 64-bit number.\<close>

definition point_pack :: "u32 point \<Rightarrow> u64" where
  "point_pack p = push_bit 32 (ucast (row p)) OR ucast (column p)"

definition point_cmp :: "u32 point \<Rightarrow> u32 point \<Rightarrow> ordering" where
  "point_cmp p q = cmp (point_pack p) (point_pack q)"

definition point_saturating_sub :: "u32 point \<Rightarrow> u32 point \<Rightarrow> u32 point" where
  "point_saturating_sub p other = (if point_cmp p other = Less then point_zero else point_sub p other)"

text \<open>\<open>Point::parse_str\<close>: the row and the length of the last line, over a list of bytes.\<close>

fun split_lines :: "nat list \<Rightarrow> nat list list" where
  "split_lines [] = [[]]"
| "split_lines (c # cs) =
     (if c = 10 then [] # split_lines cs
      else case split_lines cs of [] \<Rightarrow> [[c]] | l # ls \<Rightarrow> (c # l) # ls)"

definition parse_str :: "nat list \<Rightarrow> u32 point" where
  "parse_str s = foldl (\<lambda>p (r, line). \<lparr>row = of_nat r, column = of_nat (length line)\<rparr>) point_zero
     (zip [0..<length (split_lines s)] (split_lines s))"

text \<open>UTF-16 offsets: a wrapped number.\<close>

datatype offset_utf16 = OffsetUtf16 u64

fun offset_add :: "offset_utf16 \<Rightarrow> offset_utf16 \<Rightarrow> offset_utf16" where
  "offset_add (OffsetUtf16 a) (OffsetUtf16 b) = OffsetUtf16 (a + b)"

fun offset_sub :: "offset_utf16 \<Rightarrow> offset_utf16 \<Rightarrow> offset_utf16" where
  "offset_sub (OffsetUtf16 a) (OffsetUtf16 b) = OffsetUtf16 (a - b)"

lemma point_sel [simp]: "row (point_new r c) = r" "column (point_new r c) = c"
  by (simp_all add: point_new_def)

lemma point_add_zero [simp]:
  "point_add p point_zero = p" "point_add point_zero p = p" for p :: "'a :: monoid_add point"
  by (simp_all add: point_add_def point_zero_def point_new_def)

lemma unat_point_pack: "unat (point_pack p) = unat (row p) * 2 ^ 32 + unat (column p)"
proof -
  let ?r = "push_bit 32 (ucast (row p)) :: u64" and ?c = "ucast (column p) :: u64"
  have b: "unat (row p) < 2 ^ 32" "unat (column p) < 2 ^ 32"
    using unsigned_less [of "row p"] unsigned_less [of "column p"] by simp_all
  have disj: "?r AND ?c = 0"
    by (rule bit_word_eqI) (auto simp: bit_simps dest: bit_imp_le_length)
  have "unat ?r = unat (row p) * 2 ^ 32"
    using b by (simp add: push_bit_eq_mult unat_word_ariths unsigned_ucast_eq
        take_bit_nat_eq_self_iff take_bit_nat_eq_self)
  moreover have "unat ?c = unat (column p)"
    using b by (simp add: unsigned_ucast_eq take_bit_nat_eq_self_iff)
  moreover have "?r OR ?c = ?r + ?c"
    using disj by (simp add: disjunctive_add_eq_or)
  ultimately show ?thesis
    using b by (simp add: point_pack_def unat_word_ariths)
qed

lemma point_pack_less: "point_pack p < point_pack q \<longleftrightarrow> row p < row q \<or> (row p = row q \<and> column p < column q)"
proof -
  have "unat (column x) < 2 ^ 32" for x :: "u32 point"
    using unsigned_less [of "column x", where ?'a = nat] by simp
  then show ?thesis
    by (simp add: word_less_nat_alt unat_point_pack pair_order_encoding word_unat_eq_iff)
qed

lemma point_pack_inj: "point_pack p = point_pack q \<longleftrightarrow> row p = row q \<and> column p = column q"
  using point_pack_less [of p q] point_pack_less [of q p] by (metis linorder_neq_iff point_pack_def)

subsection \<open>Properties\<close>

text \<open>Points are ordered lexicographically: comparing the packed 64-bit numbers compares the rows and,
  on equal rows, the columns; and advancing a point by its distance to another one arrives there, for all
  values, wrap-around included.\<close>

theorem point_order_and_distance:
  "point_cmp p q = then_with (cmp (row p) (row q)) (cmp (column p) (column q))
   \<and> point_add p (point_sub q p) = q
   \<and> point_add p (point_saturating_sub q p) = (if point_cmp q p = Less then p else q)"
proof -
  have "point_cmp p q = then_with (cmp (row p) (row q)) (cmp (column p) (column q))"
    by (auto simp: point_cmp_def cmp_def then_with_def point_pack_less point_pack_inj)
  moreover have "point_add p (point_sub q p) = q"
    by (auto simp: point_add_def point_sub_def point_new_def)
  ultimately show ?thesis by (simp add: point_saturating_sub_def)
qed

end
