(* ===== verification/Text_Summary.thy ===== *)
theory Text_Summary
  imports Points Sum_Forward
begin

text \<open>
  Summaries of text (\<^verbatim>\<open>struct TextSummary\<close> of \<^verbatim>\<open>src/crates/rope/src/rope.rs\<close>): what the rope caches in every
  node. A text is its list of Unicode scalar values. As for points, the operations are generic in the number type
  of the 32-bit fields: \<open>u32 text_summary\<close> is the code's type, whose additions wrap, and \<open>nat text_summary\<close> the
  unbounded one. On natural numbers adding summaries is concatenation of texts, which makes the summaries of texts
  an instance of \<open>summary_laws\<close> and the text dimensions instances of \<open>seek_laws\<close>. All counters are bounded by the
  length of the text in bytes (\<open>text_summary_bounds\<close>), and as long as they fit the two types agree
  (\<open>narrow_step\<close>, \<open>narrow_add\<close>): for texts below 4 GiB the statements carry over to the code's type.
\<close>

type_synonym rtext = "nat list"

definition newline_char :: nat where
  "newline_char = 10"

text \<open>\<^verbatim>\<open>char::len_utf8\<close> and \<^verbatim>\<open>char::len_utf16\<close>\<close>

definition len_utf8 :: "nat \<Rightarrow> nat" where
  "len_utf8 c = (if c < 128 then 1 else if c < 2048 then 2 else if c < 65536 then 3 else 4)"

definition len_utf16_char :: "nat \<Rightarrow> nat" where
  "len_utf16_char c = (if c < 65536 then 1 else 2)"

definition text_len :: "rtext \<Rightarrow> nat" where
  "text_len t = sum_list (map len_utf8 t)"

text \<open>The fields of type \<^verbatim>\<open>usize\<close> are natural numbers, those of type \<^verbatim>\<open>u32\<close> have the type \<open>'w\<close>.\<close>

record 'w text_summary =
  ts_len :: nat
  ts_chars :: nat
  ts_len_utf16 :: nat
  ts_lines :: "'w point"
  first_line_chars :: 'w
  last_line_chars :: 'w
  last_line_len_utf16 :: 'w
  longest_row :: 'w
  longest_row_chars :: 'w

definition text_summary_zero :: "'w :: zero text_summary" where
  "text_summary_zero = \<lparr>ts_len = 0, ts_chars = 0, ts_len_utf16 = 0, ts_lines = point_zero, first_line_chars = 0,
     last_line_chars = 0, last_line_len_utf16 = 0, longest_row = 0, longest_row_chars = 0\<rparr>"

definition lines_utf16 :: "'w text_summary \<Rightarrow> 'w point" where
  "lines_utf16 s = point_new (row (ts_lines s)) (last_line_len_utf16 s)"

definition newline_summary :: "'w :: {zero, one} text_summary" where
  "newline_summary = \<lparr>ts_len = 1, ts_chars = 1, ts_len_utf16 = 1, ts_lines = point_new 1 0, first_line_chars = 0,
     last_line_chars = 0, last_line_len_utf16 = 0, longest_row = 0, longest_row_chars = 0\<rparr>"

definition add_newline :: "'w :: semiring_1 text_summary \<Rightarrow> 'w text_summary" where
  "add_newline s = s\<lparr>ts_len := ts_len s + 1, ts_len_utf16 := ts_len_utf16 s + (ts_len_utf16 s + 1),
     last_line_chars := 0, last_line_len_utf16 := 0, ts_lines := point_add (ts_lines s) (point_new 1 0)\<rparr>"

text \<open>One character of the loop of \<^verbatim>\<open>impl From<&str> for TextSummary\<close>, in the order of its assignments; the
  length in bytes is taken from the text at the end.\<close>

definition summary_count :: "'w :: semiring_1 text_summary \<Rightarrow> nat \<Rightarrow> 'w text_summary" where
  "summary_count s c = s\<lparr>ts_chars := ts_chars s + 1, ts_len_utf16 := ts_len_utf16 s + len_utf16_char c\<rparr>"

definition summary_line :: "'w :: semiring_1 text_summary \<Rightarrow> nat \<Rightarrow> 'w text_summary" where
  "summary_line s c =
     (if c = newline_char then
        s\<lparr>ts_lines := point_add (ts_lines s) (point_new 1 0), last_line_len_utf16 := 0, last_line_chars := 0\<rparr>
      else
        s\<lparr>ts_lines := (ts_lines s)\<lparr>column := column (ts_lines s) + of_nat (len_utf8 c)\<rparr>,
          last_line_len_utf16 := last_line_len_utf16 s + of_nat (len_utf16_char c),
          last_line_chars := last_line_chars s + 1\<rparr>)"

definition summary_first :: "'w :: zero text_summary \<Rightarrow> 'w text_summary" where
  "summary_first s = (if row (ts_lines s) = 0 then s\<lparr>first_line_chars := last_line_chars s\<rparr> else s)"

definition summary_longest :: "'w :: linorder text_summary \<Rightarrow> 'w text_summary" where
  "summary_longest s =
     (if last_line_chars s > longest_row_chars s
      then s\<lparr>longest_row := row (ts_lines s), longest_row_chars := last_line_chars s\<rparr> else s)"

definition summary_step :: "'w :: {semiring_1, linorder} text_summary \<Rightarrow> nat \<Rightarrow> 'w text_summary" where
  "summary_step s c = summary_longest (summary_first (summary_line (summary_count s c) c))"

definition text_summary_of :: "rtext \<Rightarrow> 'w :: {semiring_1, linorder} text_summary" where
  "text_summary_of t = (foldl summary_step text_summary_zero t)\<lparr>ts_len := text_len t\<rparr>"

text \<open>\<^verbatim>\<open>impl AddAssign for TextSummary\<close>, in the order of its assignments.\<close>

definition join_longest :: "'w :: {semiring_1, linorder} text_summary \<Rightarrow> 'w text_summary \<Rightarrow> 'w text_summary" where
  "join_longest s other =
     (let joined_chars = last_line_chars s + first_line_chars other;
          s1 = (if joined_chars > longest_row_chars s
                then s\<lparr>longest_row := row (ts_lines s), longest_row_chars := joined_chars\<rparr> else s)
      in if longest_row_chars other > longest_row_chars s1
         then s1\<lparr>longest_row := row (ts_lines s1) + longest_row other, longest_row_chars := longest_row_chars other\<rparr>
         else s1)"

definition join_lines :: "'w :: {semiring_1, linorder} text_summary \<Rightarrow> 'w text_summary \<Rightarrow> 'w text_summary" where
  "join_lines s other =
     (let s1 = (if row (ts_lines s) = 0
                then s\<lparr>first_line_chars := first_line_chars s + first_line_chars other\<rparr> else s)
      in if row (ts_lines other) = 0
         then s1\<lparr>last_line_chars := last_line_chars s1 + first_line_chars other,
                 last_line_len_utf16 := last_line_len_utf16 s1 + last_line_len_utf16 other\<rparr>
         else s1\<lparr>last_line_chars := last_line_chars other, last_line_len_utf16 := last_line_len_utf16 other\<rparr>)"

definition text_summary_add :: "'w :: {semiring_1, linorder} text_summary \<Rightarrow> 'w text_summary \<Rightarrow> 'w text_summary" where
  "text_summary_add s other =
     (let s1 = join_lines (join_longest s other) other
      in s1\<lparr>ts_chars := ts_chars s1 + ts_chars other, ts_len := ts_len s1 + ts_len other,
            ts_len_utf16 := ts_len_utf16 s1 + ts_len_utf16 other,
            ts_lines := point_add (ts_lines s1) (ts_lines other)\<rparr>)"

subsection \<open>Adding summaries is concatenating texts\<close>

definition summary_inv :: "nat text_summary \<Rightarrow> bool" where
  "summary_inv s \<longleftrightarrow> last_line_chars s \<le> longest_row_chars s \<and> first_line_chars s \<le> longest_row_chars s
     \<and> (row (ts_lines s) = 0 \<longrightarrow> first_line_chars s = last_line_chars s \<and> longest_row_chars s = last_line_chars s
          \<and> longest_row s = 0)"

lemmas step_defs = summary_step_def summary_longest_def summary_first_def summary_line_def summary_count_def
  point_add_def point_new_def

lemmas join_defs = text_summary_add_def join_lines_def join_longest_def Let_def point_add_def point_new_def

lemma summary_inv_zero [simp]: "summary_inv text_summary_zero"
  by (simp add: summary_inv_def text_summary_zero_def point_zero_def)

lemma summary_inv_step: "summary_inv s \<Longrightarrow> summary_inv (summary_step s c)"
  by (auto simp: summary_inv_def step_defs)

lemma summary_inv_len [simp]: "summary_inv (s\<lparr>ts_len := n\<rparr>) = summary_inv s"
  by (simp add: summary_inv_def)

lemma summary_inv_foldl: "summary_inv s \<Longrightarrow> summary_inv (foldl summary_step s t)"
  by (induction t arbitrary: s) (simp_all add: summary_inv_step)

lemma add_zero: "summary_inv s \<Longrightarrow> text_summary_add s text_summary_zero = s"
  by (auto simp: join_defs text_summary_zero_def point_zero_def summary_inv_def)

lemma step_len [simp]: "ts_len (summary_step s c) = ts_len s"
  by (simp add: step_defs)

text \<open>The fields of a sum and of a step.\<close>

lemma add_fields:
  "ts_len (text_summary_add s t) = ts_len s + ts_len t"
  "ts_chars (text_summary_add s t) = ts_chars s + ts_chars t"
  "ts_len_utf16 (text_summary_add s t) = ts_len_utf16 s + ts_len_utf16 t"
  "ts_lines (text_summary_add s t) = point_add (ts_lines s) (ts_lines t)"
  "first_line_chars (text_summary_add s t) =
     (if row (ts_lines s) = 0 then first_line_chars s + first_line_chars t else first_line_chars s)"
  "last_line_chars (text_summary_add s t) =
     (if row (ts_lines t) = 0 then last_line_chars s + first_line_chars t else last_line_chars t)"
  "last_line_len_utf16 (text_summary_add s t) =
     (if row (ts_lines t) = 0 then last_line_len_utf16 s + last_line_len_utf16 t else last_line_len_utf16 t)"
  by (simp_all add: text_summary_add_def join_lines_def join_longest_def Let_def)

lemma add_longest:
  "longest_row_chars (text_summary_add s t) =
     max (max (longest_row_chars s) (last_line_chars s + first_line_chars t)) (longest_row_chars t)"
  "longest_row (text_summary_add s t) =
     (if longest_row_chars t > max (longest_row_chars s) (last_line_chars s + first_line_chars t)
      then row (ts_lines s) + longest_row t
      else if last_line_chars s + first_line_chars t > longest_row_chars s then row (ts_lines s) else longest_row s)"
  by (auto simp: text_summary_add_def join_lines_def join_longest_def Let_def)

lemma step_fields:
  "ts_chars (summary_step s c) = ts_chars s + 1"
  "ts_len_utf16 (summary_step s c) = ts_len_utf16 s + len_utf16_char c"
  "row (ts_lines (summary_step s c)) = (if c = newline_char then row (ts_lines s) + 1 else row (ts_lines s))"
  "column (ts_lines (summary_step s c)) = (if c = newline_char then 0 else column (ts_lines s) + of_nat (len_utf8 c))"
  "last_line_chars (summary_step s c) = (if c = newline_char then 0 else last_line_chars s + 1)"
  "last_line_len_utf16 (summary_step s c) = (if c = newline_char then 0 else last_line_len_utf16 s + of_nat (len_utf16_char c))"
  by (simp_all add: step_defs)

lemma step_longest:
  fixes s :: "nat text_summary"
  shows "first_line_chars (summary_step s c) =
     (if c \<noteq> newline_char \<and> row (ts_lines s) = 0 then last_line_chars s + 1 else first_line_chars s)" and
  "longest_row_chars (summary_step s c) =
     (if c = newline_char then longest_row_chars s else max (longest_row_chars s) (last_line_chars s + 1))"
  "longest_row (summary_step s c) =
     (if c \<noteq> newline_char \<and> last_line_chars s + 1 > longest_row_chars s then row (ts_lines s) else longest_row s)"
  by (auto simp: step_defs)

lemma add_step:
  assumes "summary_inv s" "summary_inv t"
  shows "text_summary_add s (summary_step t c) = summary_step (text_summary_add s t) c"
proof (rule text_summary.equality)
  have inv: "last_line_chars t \<le> longest_row_chars t" "first_line_chars t \<le> longest_row_chars t"
    "row (ts_lines t) = 0 \<longrightarrow> first_line_chars t = last_line_chars t \<and> longest_row_chars t = last_line_chars t
       \<and> longest_row t = 0"
    using assms(2) by (simp_all add: summary_inv_def)
  show "ts_lines (text_summary_add s (summary_step t c)) = ts_lines (summary_step (text_summary_add s t) c)"
    by (intro point.equality) (simp_all add: add_fields step_fields point_add_def)
  show "longest_row_chars (text_summary_add s (summary_step t c)) = longest_row_chars (summary_step (text_summary_add s t) c)"
    using inv by (cases "row (ts_lines t) = 0") (auto simp: add_fields add_longest step_fields step_longest)
  show "longest_row (text_summary_add s (summary_step t c)) = longest_row (summary_step (text_summary_add s t) c)"
    using inv by (cases "row (ts_lines t) = 0")
      (auto simp: add_fields add_longest step_fields step_longest point_add_def max_def)
qed (use assms in \<open>auto simp: add_fields step_fields step_longest summary_inv_def point_add_def\<close>)

lemma add_foldl:
  "text_summary_add (foldl summary_step text_summary_zero s) (foldl summary_step text_summary_zero t) =
   (foldl summary_step text_summary_zero (s @ t) :: nat text_summary)"
proof (induction t rule: rev_induct)
  case Nil
  then show ?case by (simp add: add_zero summary_inv_foldl)
next
  case (snoc c t)
  then show ?case by (simp add: add_step summary_inv_foldl)
qed

lemma add_len_update:
  "text_summary_add (s\<lparr>ts_len := m\<rparr>) (t\<lparr>ts_len := n\<rparr>) = (text_summary_add s t)\<lparr>ts_len := m + n\<rparr>"
  by (simp add: text_summary_add_def join_lines_def join_longest_def Let_def)

lemma text_len_append [simp]: "text_len (s @ t) = text_len s + text_len t"
  by (simp add: text_len_def)

lemma text_summary_append:
  "text_summary_of (s @ t) = (text_summary_add (text_summary_of s) (text_summary_of t) :: nat text_summary)"
  by (simp add: text_summary_of_def add_len_update add_foldl del: foldl_append)

lemma len_utf8_bounds: "1 \<le> len_utf8 c" "len_utf16_char c \<le> len_utf8 c"
  by (simp_all add: len_utf8_def len_utf16_char_def)

lemma text_summary_snoc:
  "text_summary_of (t @ [c]) = (summary_step (text_summary_of t) c)\<lparr>ts_len := text_len t + len_utf8 c\<rparr>"
  by (simp add: text_summary_of_def step_defs text_len_def)

lemma text_summary_row: "row (ts_lines (text_summary_of t :: nat text_summary)) = count_list t newline_char"
proof (induction t rule: rev_induct)
  case Nil
  show ?case by (simp add: text_summary_of_def text_summary_zero_def point_zero_def)
next
  case (snoc c t)
  then show ?case by (simp add: text_summary_snoc step_fields)
qed

definition summary_bounded :: "nat \<Rightarrow> nat text_summary \<Rightarrow> bool" where
  "summary_bounded n s \<longleftrightarrow> ts_chars s \<le> n \<and> ts_len_utf16 s \<le> n \<and> row (ts_lines s) \<le> n \<and> column (ts_lines s) \<le> n
     \<and> first_line_chars s \<le> n \<and> last_line_chars s \<le> n \<and> last_line_len_utf16 s \<le> n
     \<and> longest_row s \<le> row (ts_lines s) \<and> longest_row_chars s \<le> n"

lemma text_summary_bounded: "summary_bounded (text_len t) (text_summary_of t)"
proof (induction t rule: rev_induct)
  case Nil
  then show ?case by (simp add: summary_bounded_def text_summary_of_def text_summary_zero_def point_zero_def)
next
  case (snoc c t)
  have l: "text_len (t @ [c]) = text_len t + len_utf8 c" by (simp add: text_len_def)
  from snoc len_utf8_bounds [of c] show ?case
    unfolding text_summary_snoc l summary_bounded_def
    by (auto simp: step_fields step_longest)
qed

text \<open>The unbounded summaries of texts: on them, addition is associative and has a zero.\<close>

typedef rope_summary = "range text_summary_of :: nat text_summary set"
  by auto

setup_lifting type_definition_rope_summary

lift_definition rope_summary_of :: "rtext \<Rightarrow> rope_summary" is text_summary_of by simp

lift_definition rope_summary_add :: "rope_summary \<Rightarrow> rope_summary \<Rightarrow> rope_summary" is text_summary_add
  by (auto simp flip: text_summary_append)

lift_definition rope_fields :: "rope_summary \<Rightarrow> nat text_summary" is "\<lambda>s. s" .

definition rope_sops :: "(rtext, rope_summary) sops" where
  "rope_sops = \<lparr>item_summary = rope_summary_of, zero_summary = rope_summary_of [], add_summary = rope_summary_add\<rparr>"

lemma rope_summary_append: "rope_summary_add (rope_summary_of s) (rope_summary_of t) = rope_summary_of (s @ t)"
  by transfer (simp add: text_summary_append)

lemma rope_summary_cases: obtains t where "s = rope_summary_of t"
  by transfer auto

interpretation rope: summary_laws rope_sops
proof
  fix a b c :: rope_summary
  obtain s t u where "a = rope_summary_of s" "b = rope_summary_of t" "c = rope_summary_of u"
    using rope_summary_cases by metis
  then show "add_summary rope_sops (add_summary rope_sops a b) c = add_summary rope_sops a (add_summary rope_sops b c)"
    and "add_summary rope_sops (zero_summary rope_sops) a = a"
    by (simp_all add: rope_sops_def rope_summary_append)
qed

text \<open>The text dimensions: bytes, UTF-16 units, points in bytes and in UTF-16 units.\<close>

definition len_dim :: "(rope_summary, nat) dim" where
  "len_dim = \<lparr>dim_zero = 0, dim_add = (\<lambda>d s. d + ts_len (rope_fields s))\<rparr>"

definition len_utf16_dim :: "(rope_summary, nat) dim" where
  "len_utf16_dim = \<lparr>dim_zero = 0, dim_add = (\<lambda>d s. d + ts_len_utf16 (rope_fields s))\<rparr>"

definition point_dim :: "(rope_summary, nat point) dim" where
  "point_dim = \<lparr>dim_zero = point_zero, dim_add = (\<lambda>d s. point_add d (ts_lines (rope_fields s)))\<rparr>"

definition point_utf16_dim :: "(rope_summary, nat point) dim" where
  "point_utf16_dim = \<lparr>dim_zero = point_zero, dim_add = (\<lambda>d s. point_add d (lines_utf16 (rope_fields s)))\<rparr>"

lemma rope_fields_add: "rope_fields (rope_summary_add a b) = text_summary_add (rope_fields a) (rope_fields b)"
  by transfer simp

lemma point_add_assoc: "point_add (point_add p q) r = point_add p (point_add q r)" for p :: "nat point"
  by (simp add: point_add_def)

interpretation rope_len: seek_laws rope_sops len_dim
  by unfold_locales (simp add: rope_sops_def len_dim_def rope_fields_add add_fields)

interpretation rope_utf16: seek_laws rope_sops len_utf16_dim
  by unfold_locales (simp add: rope_sops_def len_utf16_dim_def rope_fields_add add_fields)

interpretation rope_point: seek_laws rope_sops point_dim
  by unfold_locales (simp add: rope_sops_def point_dim_def rope_fields_add add_fields point_add_assoc)

interpretation rope_point_utf16: seek_laws rope_sops point_utf16_dim
  by unfold_locales
    (simp add: rope_sops_def point_utf16_dim_def rope_fields_add add_fields lines_utf16_def point_add_def)

interpretation rope_len_point: seek_summary rope_sops len_dim point_dim
  by unfold_locales

subsection \<open>The 32-bit fields\<close>

text \<open>The summary as the code holds it, and the summaries whose counters fit into its fields.\<close>

definition narrow :: "nat text_summary \<Rightarrow> u32 text_summary" where
  "narrow s = \<lparr>ts_len = ts_len s, ts_chars = ts_chars s, ts_len_utf16 = ts_len_utf16 s,
     ts_lines = point_new (of_nat (row (ts_lines s))) (of_nat (column (ts_lines s))),
     first_line_chars = of_nat (first_line_chars s), last_line_chars = of_nat (last_line_chars s),
     last_line_len_utf16 = of_nat (last_line_len_utf16 s), longest_row = of_nat (longest_row s),
     longest_row_chars = of_nat (longest_row_chars s)\<rparr>"

definition summary_fits :: "nat text_summary \<Rightarrow> bool" where
  "summary_fits s \<longleftrightarrow> row (ts_lines s) < 2 ^ 32 \<and> last_line_chars s < 2 ^ 32 \<and> longest_row_chars s < 2 ^ 32"

lemma of_nat_u32:
  assumes "a < 2 ^ 32" "b < 2 ^ 32"
  shows "(of_nat a :: u32) < of_nat b \<longleftrightarrow> a < b" "(of_nat a :: u32) = of_nat b \<longleftrightarrow> a = b"
  using assms by (simp_all add: word_less_nat_alt unat_of_nat word_unat_eq_iff)

lemma of_nat_u32_zero: "a < 2 ^ 32 \<Longrightarrow> (of_nat a :: u32) = 0 \<longleftrightarrow> a = 0"
  using of_nat_u32(2) [of a 0] by simp

lemma narrow_zero [simp]: "narrow text_summary_zero = text_summary_zero"
  by (simp add: narrow_def text_summary_zero_def point_zero_def)

lemma narrow_len [simp]: "narrow (s\<lparr>ts_len := n\<rparr>) = (narrow s)\<lparr>ts_len := n\<rparr>"
  by (simp add: narrow_def)

lemma narrow_step:
  assumes "summary_fits s" "summary_fits (summary_step s c)"
  shows "narrow (summary_step s c) = summary_step (narrow s) c"
proof (cases "c = newline_char")
  case True
  then have "(of_nat (row (ts_lines s) + 1) :: u32) = 0 \<longleftrightarrow> False"
    using assms(2) of_nat_u32_zero [of "row (ts_lines s) + 1"] by (simp add: summary_fits_def step_fields)
  then have "(of_nat (row (ts_lines s)) :: u32) + 1 \<noteq> 0" by (simp add: add.commute)
  with True show ?thesis by (simp add: narrow_def step_defs)
next
  case False
  then have "longest_row_chars s < 2 ^ 32" "last_line_chars s + 1 < 2 ^ 32"
    using assms by (simp_all add: summary_fits_def step_fields)
  from of_nat_u32(1) [OF this]
  have less: "(of_nat (longest_row_chars s) :: u32) < of_nat (last_line_chars s) + 1 \<longleftrightarrow> longest_row_chars s < last_line_chars s + 1"
    by (simp add: add.commute)
  have zero: "(of_nat (row (ts_lines s)) :: u32) = 0 \<longleftrightarrow> row (ts_lines s) = 0"
    using assms(1) by (intro of_nat_u32_zero) (simp add: summary_fits_def)
  show ?thesis using False less zero by (simp add: narrow_def step_defs add.commute [of 1])
qed

lemma narrow_add:
  assumes "summary_fits s" "summary_fits t" "summary_fits (text_summary_add s t)"
  shows "narrow (text_summary_add s t) = text_summary_add (narrow s) (narrow t)"
proof -
  have fit: "longest_row_chars s < 2 ^ 32" "last_line_chars s + first_line_chars t < 2 ^ 32" "longest_row_chars t < 2 ^ 32"
    "row (ts_lines s) < 2 ^ 32" "row (ts_lines t) < 2 ^ 32"
    using assms by (auto simp: summary_fits_def add_longest)
  have zero: "(of_nat (row (ts_lines s)) :: u32) = 0 \<longleftrightarrow> row (ts_lines s) = 0"
    "(of_nat (row (ts_lines t)) :: u32) = 0 \<longleftrightarrow> row (ts_lines t) = 0"
    by (rule of_nat_u32_zero, rule fit)+
  have longest: "narrow (join_longest s t) = join_longest (narrow s) (narrow t)"
    using of_nat_u32(1) [OF fit(1,2)] of_nat_u32(1) [OF fit(1,3)] of_nat_u32(1) [OF fit(2,3)]
    by (simp add: narrow_def join_longest_def Let_def)
  have "row (ts_lines (join_longest s t)) = row (ts_lines s)" by (simp add: join_longest_def Let_def)
  then have lines: "narrow (join_lines (join_longest s t) t) = join_lines (narrow (join_longest s t)) (narrow t)"
    using zero by (simp add: narrow_def join_lines_def Let_def)
  show ?thesis
    unfolding text_summary_add_def longest [symmetric] lines [symmetric] Let_def
    using zero(2) by (simp add: narrow_def point_add_def point_new_def)
qed

lemma text_summary_fits: "text_len t < 2 ^ 32 \<Longrightarrow> summary_fits (text_summary_of t)"
  using text_summary_bounded [of t] by (auto simp: summary_fits_def summary_bounded_def)

lemma text_summary_narrow: "text_len t < 2 ^ 32 \<Longrightarrow> text_summary_of t = narrow (text_summary_of t)"
proof (induction t rule: rev_induct)
  case Nil
  show ?case by (simp add: text_summary_of_def)
next
  case (snoc c t)
  have len: "text_len t < 2 ^ 32" using snoc.prems by simp
  have "summary_fits (summary_step (text_summary_of t) c)"
    using text_summary_fits [OF snoc.prems] by (simp add: text_summary_snoc summary_fits_def)
  from narrow_step [OF text_summary_fits [OF len] this] snoc.IH [OF len] show ?case by (simp add: text_summary_snoc)
qed

subsection \<open>Properties\<close>

text \<open>(C30) Summaries compose: for texts of less than 4 GiB together, the summary with the code's 32-bit fields that is
  computed over the concatenation of two texts is the sum of their summaries, in every field, the longest row
  (the first of the longest ones) included; the row counts the line feeds of the text, without wrap-around.\<close>

theorem text_summary_homomorphism:
  assumes "text_len (s @ t) < 2 ^ 32"
  shows "(text_summary_of (s @ t) :: u32 text_summary) = text_summary_add (text_summary_of s) (text_summary_of t)
   \<and> (text_summary_of [newline_char] :: u32 text_summary) = newline_summary
   \<and> unat (row (ts_lines (text_summary_of (s @ t) :: u32 text_summary))) = count_list (s @ t) newline_char"
proof (intro conjI)
  have len: "text_len s < 2 ^ 32" "text_len t < 2 ^ 32" using assms by simp_all
  have "summary_fits (text_summary_add (text_summary_of s) (text_summary_of t))"
    using text_summary_fits [OF assms] by (simp add: text_summary_append)
  from narrow_add [OF text_summary_fits [OF len(1)] text_summary_fits [OF len(2)] this]
  show "(text_summary_of (s @ t) :: u32 text_summary) = text_summary_add (text_summary_of s) (text_summary_of t)"
    unfolding text_summary_narrow [OF assms] text_summary_narrow [OF len(1)] text_summary_narrow [OF len(2)]
    by (simp add: text_summary_append)
  show "(text_summary_of [newline_char] :: u32 text_summary) = newline_summary"
    by (simp add: text_summary_of_def text_summary_zero_def newline_summary_def newline_char_def step_defs point_zero_def
      text_len_def len_utf8_def len_utf16_char_def)
  show "unat (row (ts_lines (text_summary_of (s @ t) :: u32 text_summary))) = count_list (s @ t) newline_char"
    using text_summary_fits [OF assms] unfolding text_summary_narrow [OF assms]
    by (simp add: narrow_def text_summary_row summary_fits_def unat_of_nat del: of_nat_add count_list_append)
qed

theorem text_summary_homomorphism_witness:
  "(text_summary_of [97, 10, 955, 98, 10, 99] :: u32 text_summary) =
     text_summary_add (text_summary_of [97, 10, 955]) (text_summary_of [98, 10, 99])
   \<and> longest_row (text_summary_of [97, 10, 955, 98, 10, 99] :: u32 text_summary) = 1"
proof
  have "text_len ([97, 10, 955] @ [98, 10, 99]) < 2 ^ 32" by (simp add: text_len_def len_utf8_def)
  from text_summary_homomorphism [OF this]
  show "(text_summary_of [97, 10, 955, 98, 10, 99] :: u32 text_summary) =
     text_summary_add (text_summary_of [97, 10, 955]) (text_summary_of [98, 10, 99])" by simp
  show "longest_row (text_summary_of [97, 10, 955, 98, 10, 99] :: u32 text_summary) = 1"
    by (simp add: text_summary_of_def text_summary_zero_def step_defs point_zero_def newline_char_def)
qed

text \<open>Every counter of a summary is bounded by the length of the text in bytes, and the longest row is a
  row of the text: for texts below 4 GiB no 32-bit counter wraps.\<close>

theorem text_summary_bounds:
  "summary_bounded (text_len t) (text_summary_of t) \<and> ts_len (text_summary_of t) = text_len t"
  using text_summary_bounded [of t] by (simp add: text_summary_of_def)

text \<open>\<open>TextSummary::add_newline\<close> is not the summary of the text with a newline appended: it does not
  count the character, and counts the UTF-16 units of the text twice.\<close>

theorem add_newline_is_not_appending:
  fixes t :: rtext
  defines "s \<equiv> text_summary_of t :: u32 text_summary" and "s' \<equiv> text_summary_of (t @ [newline_char]) :: u32 text_summary"
  shows "add_newline s \<noteq> s' \<and> ts_len_utf16 (add_newline s) = 2 * ts_len_utf16 s + 1 \<and> ts_len_utf16 s' = ts_len_utf16 s + 1"
proof -
  have "ts_chars (add_newline s) = ts_chars s" "ts_chars s' = ts_chars s + 1"
    by (simp_all add: s_def s'_def add_newline_def text_summary_snoc step_fields)
  then have "add_newline s \<noteq> s'" by auto
  then show ?thesis
    by (simp add: s_def s'_def add_newline_def text_summary_snoc step_fields len_utf16_char_def newline_char_def)
qed

end
