(* ===== verification/Patch.thy ===== *)
theory Patch
  imports Prelude
begin

text \<open>
  Patches (\<^verbatim>\<open>src/crates/text/src/patch.rs\<close>) and the topics that publish them (\<^verbatim>\<open>src/crates/text/src/subscription.rs\<close>). A
  patch is a list of edits, each of which replaces a range of an old text by a range of a new one. Positions
  are integers; on the patches the lemmas are about, every difference the code takes is non-negative, so the
  unsigned arithmetic of the code computes the same numbers.
\<close>

subsection \<open>Edits and patches\<close>

record text_edit =
  old_start :: int
  old_end :: int
  new_start :: int
  new_end :: int

type_synonym patch = "text_edit list"

definition edit_of :: "int \<Rightarrow> int \<Rightarrow> int \<Rightarrow> int \<Rightarrow> text_edit" where
  "edit_of os oe ns ne = \<lparr>old_start = os, old_end = oe, new_start = ns, new_end = ne\<rparr>"

definition edit_is_empty :: "text_edit \<Rightarrow> bool" where
  "edit_is_empty e \<longleftrightarrow> old_start e = old_end e \<and> new_start e = new_end e"

definition old_len :: "text_edit \<Rightarrow> int" where
  "old_len e = old_end e - old_start e"

definition new_len :: "text_edit \<Rightarrow> int" where
  "new_len e = new_end e - new_start e"

definition patch_empty :: patch where
  "patch_empty = []"

definition patch_invert :: "patch \<Rightarrow> patch" where
  "patch_invert p = map (\<lambda>e. edit_of (new_start e) (new_end e) (old_start e) (old_end e)) p"

definition push_maybe_empty :: "patch \<Rightarrow> text_edit \<Rightarrow> patch" where
  "push_maybe_empty p e =
     (if p \<noteq> [] then
        (if old_end (last p) \<ge> old_start e
         then butlast p @ [(last p)\<lparr>old_end := old_end e, new_end := new_end e\<rparr>]
         else p @ [e])
      else p @ [e])"

definition patch_push :: "patch \<Rightarrow> text_edit \<Rightarrow> patch" where
  "patch_push p e = (if edit_is_empty e then p else push_maybe_empty p e)"

subsection \<open>Composition\<close>

text \<open>The first half of the branch for intersecting edits: catch up with the edit that starts first and consume
  what lies before the other one. The result is the composed patch, the two positions and the two edits.\<close>

definition compose_overlap ::
  "text_edit \<Rightarrow> text_edit \<Rightarrow> patch \<Rightarrow> int \<Rightarrow> int \<Rightarrow> patch \<times> int \<times> int \<times> text_edit \<times> text_edit" where
  "compose_overlap old_edit new_edit composed os ns =
     (if new_start old_edit < old_start new_edit then
        let catchup = old_start old_edit - os;
            os1 = os + catchup; ns1 = ns + catchup;
            overshoot = old_start new_edit - new_start old_edit;
            oe = min (os1 + overshoot) (old_end old_edit);
            ne = ns1 + overshoot
        in (patch_push composed (edit_of os1 oe ns1 ne), oe, ne,
            old_edit\<lparr>old_start := oe, new_start := new_start old_edit + overshoot\<rparr>, new_edit)
      else
        let catchup = new_start new_edit - ns;
            os1 = os + catchup; ns1 = ns + catchup;
            overshoot = new_start old_edit - old_start new_edit;
            oe = os1 + overshoot;
            ne = min (ns1 + overshoot) (new_end new_edit)
        in (patch_push composed (edit_of os1 oe ns1 ne), oe, ne,
            old_edit, new_edit\<lparr>old_start := old_start new_edit + overshoot, new_start := ne\<rparr>))"

definition compose_old ::
  "text_edit \<Rightarrow> patch \<Rightarrow> int \<Rightarrow> int \<Rightarrow> patch \<times> int \<times> int" where
  "compose_old old_edit composed os ns =
     (let catchup = old_start old_edit - os;
          os1 = os + catchup; ns1 = ns + catchup;
          oe = os1 + old_len old_edit; ne = ns1 + new_len old_edit
      in (patch_push composed (edit_of os1 oe ns1 ne), oe, ne))"

definition compose_new ::
  "text_edit \<Rightarrow> patch \<Rightarrow> int \<Rightarrow> int \<Rightarrow> patch \<times> int \<times> int" where
  "compose_new new_edit composed os ns =
     (let catchup = new_start new_edit - ns;
          os1 = os + catchup; ns1 = ns + catchup;
          oe = os1 + old_len new_edit; ne = ns1 + new_len new_edit
      in (patch_push composed (edit_of os1 oe ns1 ne), oe, ne))"

fun compose_loop :: "patch \<Rightarrow> patch \<Rightarrow> patch \<Rightarrow> int \<Rightarrow> int \<Rightarrow> patch" where
  "compose_loop [] [] composed os ns = composed"
| "compose_loop (o1 # olds) [] composed os ns =
     (let (composed', oe, ne) = compose_old o1 composed os ns in compose_loop olds [] composed' oe ne)"
| "compose_loop [] (n1 # news) composed os ns =
     (let (composed', oe, ne) = compose_new n1 composed os ns in compose_loop [] news composed' oe ne)"
| "compose_loop (o1 # olds) (n1 # news) composed os ns =
     (if new_end o1 < old_start n1 then
        let (composed', oe, ne) = compose_old o1 composed os ns in compose_loop olds (n1 # news) composed' oe ne
      else if old_end n1 < new_start o1 then
        let (composed', oe, ne) = compose_new n1 composed os ns in compose_loop (o1 # olds) news composed' oe ne
      else
        let (composed1, os1, ns1, o2, n2) = compose_overlap o1 n1 composed os ns
        in if new_end o2 > old_end n2 then
             let oe = os1 + min (old_len o2) (old_len n2);
                 ne = ns1 + new_len n2
             in compose_loop (o2\<lparr>old_start := oe, new_start := old_end n2\<rparr> # olds) news
                  (patch_push composed1 (edit_of os1 oe ns1 ne)) oe ne
           else
             let oe = os1 + old_len o2;
                 ne = ns1 + min (new_len o2) (new_len n2)
             in compose_loop olds (n2\<lparr>old_start := new_end o2, new_start := ne\<rparr> # news)
                  (patch_push composed1 (edit_of os1 oe ns1 ne)) oe ne)"

definition compose :: "patch \<Rightarrow> patch \<Rightarrow> patch" where
  "compose p q = compose_loop p q [] 0 0"

subsection \<open>Positions\<close>

text \<open>\<^verbatim>\<open>binary_search_by\<close> on the starts of the edits, which are strictly ascending: \<open>Inr\<close> the index of the edit that
  starts at the position, \<open>Inl\<close> the number of edits that start before it.\<close>

definition search_old_start :: "patch \<Rightarrow> int \<Rightarrow> nat + nat" where
  "search_old_start p old =
     (let ix = length (takeWhile (\<lambda>e. old_start e < old) p)
      in if ix < length p \<and> old_start (p ! ix) = old then Inr ix else Inl ix)"

definition old_to_new :: "patch \<Rightarrow> int \<Rightarrow> int" where
  "old_to_new p old =
     (let found = (\<lambda>ix. if ix < length p then
                      (let edit = p ! ix
                       in if old \<ge> old_end edit then new_end edit + (old - old_end edit) else new_start edit)
                    else old)
      in case search_old_start p old of
           Inr ix \<Rightarrow> found ix
         | Inl ix \<Rightarrow> if ix = 0 then old else found (ix - 1))"

definition edit_for_old_position :: "patch \<Rightarrow> int \<Rightarrow> text_edit" where
  "edit_for_old_position p old =
     (let found = (\<lambda>ix. if ix < length p then
                      (let edit = p ! ix
                       in if old > old_end edit
                          then (let translated = new_end edit + (old - old_end edit)
                                in edit_of old old translated translated)
                          else edit)
                    else edit_of old old old old)
      in case search_old_start p old of
           Inr ix \<Rightarrow> found ix
         | Inl ix \<Rightarrow> if ix = 0 then edit_of old old old old else found (ix - 1))"

subsection \<open>Topics and subscriptions\<close>

text \<open>The patches behind the shared pointers are a store; a topic holds the addresses, and an address is dead once its
  subscription has been dropped.\<close>

record topic_store =
  patches :: "(nat \<times> patch) list"
  subscribers :: "nat list"
  next_address :: nat

definition read_patch :: "topic_store \<Rightarrow> nat \<Rightarrow> patch option" where
  "read_patch st a = map_of (patches st) a"

definition subscribe :: "topic_store \<Rightarrow> topic_store \<times> nat" where
  "subscribe st =
     (let a = next_address st
      in (st\<lparr>patches := (a, patch_empty) # patches st, subscribers := subscribers st @ [a], next_address := a + 1\<rparr>, a))"

definition drop_subscription :: "nat \<Rightarrow> topic_store \<Rightarrow> topic_store" where
  "drop_subscription a st = st\<lparr>patches := filter (\<lambda>(b, _). b \<noteq> a) (patches st)\<rparr>"

definition publish :: "patch \<Rightarrow> topic_store \<Rightarrow> topic_store" where
  "publish edits st =
     (let live = filter (\<lambda>a. read_patch st a \<noteq> None) (subscribers st)
      in st\<lparr>patches := map (\<lambda>(a, p). (a, if a \<in> set live then compose p edits else p)) (patches st),
            subscribers := live\<rparr>)"

definition consume :: "nat \<Rightarrow> topic_store \<Rightarrow> topic_store \<times> patch option" where
  "consume a st =
     (st\<lparr>patches := map (\<lambda>(b, p). (b, if b = a then patch_empty else p)) (patches st)\<rparr>, read_patch st a)"

subsection \<open>What a patch means\<close>

text \<open>\<open>describes_from A B o n p o' n'\<close>: from the positions \<open>o\<close> and \<open>n\<close> up to \<open>o'\<close> and \<open>n'\<close>, the text \<open>B\<close> is the text \<open>A\<close> with the old
  ranges of \<open>p\<close> replaced by whatever \<open>B\<close> has in the new ranges.\<close>

definition agree :: "'a list \<Rightarrow> 'a list \<Rightarrow> int \<Rightarrow> int \<Rightarrow> int \<Rightarrow> bool" where
  "agree A B i j k \<longleftrightarrow> (\<forall>d \<in> {0..<k}. A ! nat (i + d) = B ! nat (j + d))"

fun describes_from :: "'a list \<Rightarrow> 'a list \<Rightarrow> int \<Rightarrow> int \<Rightarrow> patch \<Rightarrow> int \<Rightarrow> int \<Rightarrow> bool" where
  "describes_from A B i j [] i' j' \<longleftrightarrow> i \<le> i' \<and> j' - j = i' - i \<and> agree A B i j (i' - i)"
| "describes_from A B i j (e # es) i' j' \<longleftrightarrow>
     i \<le> old_start e \<and> new_start e - j = old_start e - i \<and> agree A B i j (old_start e - i)
     \<and> old_start e \<le> old_end e \<and> new_start e \<le> new_end e \<and> describes_from A B (old_end e) (new_end e) es i' j'"

definition describes :: "patch \<Rightarrow> 'a list \<Rightarrow> 'a list \<Rightarrow> bool" where
  "describes p A B \<longleftrightarrow> describes_from A B 0 0 p (int (length A)) (int (length B))"

text \<open>The text a patch produces from the old text and the new one's ranges.\<close>

fun patched_from :: "'a list \<Rightarrow> 'a list \<Rightarrow> int \<Rightarrow> patch \<Rightarrow> 'a list" where
  "patched_from A B i [] = drop (nat i) A"
| "patched_from A B i (e # es) =
     take (nat (old_start e - i)) (drop (nat i) A) @ take (nat (new_len e)) (drop (nat (new_start e)) B)
     @ patched_from A B (old_end e) es"

lemma edit_of_sel [simp]:
  "old_start (edit_of a b c d) = a" "old_end (edit_of a b c d) = b" "new_start (edit_of a b c d) = c" "new_end (edit_of a b c d) = d"
  by (simp_all add: edit_of_def)

lemma agree_empty [simp]: "k \<le> 0 \<Longrightarrow> agree A B i j k"
  by (simp add: agree_def)

lemma agree_trans: "agree A B i m k \<Longrightarrow> agree B C m j k \<Longrightarrow> agree A C i j k"
  by (simp add: agree_def)

lemma agree_sym: "agree A B i j k \<Longrightarrow> agree B A j i k"
  by (simp add: agree_def)

lemma agree_split:
  assumes "0 \<le> k" "k \<le> l"
  shows "agree A B i j l \<longleftrightarrow> agree A B i j k \<and> agree A B (i + k) (j + k) (l - k)"
proof
  assume *: "agree A B i j l"
  have "A ! nat (i + k + d) = B ! nat (j + k + d)" if "0 \<le> d" "d < l - k" for d
    using bspec [OF * [unfolded agree_def], of "k + d"] that assms(1) by (simp add: algebra_simps)
  with * assms show "agree A B i j k \<and> agree A B (i + k) (j + k) (l - k)" by (auto simp: agree_def)
next
  assume *: "agree A B i j k \<and> agree A B (i + k) (j + k) (l - k)"
  have "A ! nat (i + d) = B ! nat (j + d)" if "0 \<le> d" "d < l" for d
  proof (cases "d < k")
    case False
    then show ?thesis using bspec [OF conjunct2 [OF *, unfolded agree_def], of "d - k"] that by simp
  qed (use * that in \<open>auto simp: agree_def\<close>)
  then show "agree A B i j l" by (simp add: agree_def)
qed

lemma describes_from_mono: "describes_from A B i j p i' j' \<Longrightarrow> i \<le> i' \<and> j \<le> j'"
  by (induction p arbitrary: i j) force+

lemma describes_from_snoc:
  "describes_from A B i j (p @ [e]) i' j' \<longleftrightarrow>
     describes_from A B i j p (old_start e) (new_start e) \<and> old_start e \<le> old_end e \<and> new_start e \<le> new_end e
     \<and> describes_from A B (old_end e) (new_end e) [] i' j'"
  by (induction p arbitrary: i j) auto

lemma describes_from_extend:
  assumes "describes_from A B i j p i' j'" "0 \<le> k" "agree A B i' j' k"
  shows "describes_from A B i j p (i' + k) (j' + k)"
  using assms(1)
proof (induction p arbitrary: i j)
  case Nil
  then have le: "i \<le> i'" and a: "agree A B i j (i' - i)" and j': "j' = j + (i' - i)" by auto
  from assms(3) have "agree A B (i + (i' - i)) (j + (i' - i)) (i' + k - i - (i' - i))" by (simp add: j')
  then show ?case using le a agree_split [of "i' - i" "i' + k - i" A B i j] assms(2) by (simp add: j')
qed simp

lemma describes_from_skip:
  assumes "describes_from A B i j p i' j'" "0 \<le> k" "p = [] \<Longrightarrow> k \<le> i' - i" "p \<noteq> [] \<Longrightarrow> k \<le> old_start (hd p) - i"
  shows "agree A B i j k \<and> describes_from A B (i + k) (j + k) p i' j'"
proof (cases p)
  case Nil
  then show ?thesis using assms agree_split [of k "i' - i" A B i j] by (auto simp: algebra_simps)
next
  case (Cons e es)
  then show ?thesis using assms agree_split [of k "old_start e - i" A B i j] by (auto simp: algebra_simps)
qed

lemma patch_push_cases:
  "edit_is_empty e \<and> patch_push p e = p \<or> (p = [] \<or> old_end (last p) < old_start e) \<and> patch_push p e = p @ [e]
   \<or> (\<exists>c l. p = c @ [l] \<and> old_start e \<le> old_end l \<and> patch_push p e = c @ [l\<lparr>old_end := old_end e, new_end := new_end e\<rparr>])"
proof (cases p rule: rev_cases)
  case (snoc c l)
  then show ?thesis by (cases "edit_is_empty e"; cases "old_start e \<le> old_end l") (simp_all add: patch_push_def push_maybe_empty_def)
qed (simp add: patch_push_def push_maybe_empty_def)

lemma describes_from_push:
  assumes "describes_from A B i j p os ns" "os \<le> oe" "ns \<le> ne"
  shows "describes_from A B i j (patch_push p (edit_of os oe ns ne)) oe ne"
proof -
  let ?e = "edit_of os oe ns ne"
  from patch_push_cases [of ?e p]
  consider (empty) "edit_is_empty ?e" "patch_push p ?e = p" | (new) "patch_push p ?e = p @ [?e]"
    | (merge) c l where "p = c @ [l]" "os \<le> old_end l" "patch_push p ?e = c @ [l\<lparr>old_end := oe, new_end := ne\<rparr>]"
    by auto
  then show ?thesis
  proof cases
    case merge
    with assms show ?thesis by (auto simp: describes_from_snoc)
  qed (use assms in \<open>auto simp: describes_from_snoc edit_is_empty_def\<close>)
qed

lemma describes_from_append:
  "describes_from A B i j p i' j' \<Longrightarrow> 0 \<le> j \<Longrightarrow> j' \<le> int (length B) \<Longrightarrow> describes_from A (B @ X) i j p i' j'"
proof (induction p arbitrary: i j)
  case Nil
  then show ?case by (auto simp: agree_def nth_append)
next
  case (Cons e es)
  then have "new_end e \<le> j'" using describes_from_mono [of A B "old_end e" "new_end e" es i' j'] by auto
  with Cons show ?case by (auto simp: agree_def nth_append)
qed

subsection \<open>Composition is sound\<close>

text \<open>The invariant of the loop, with the position \<open>m\<close> in the middle text that corresponds to the two positions.\<close>

text \<open>The edits of a patch are separated when \<^verbatim>\<open>Patch::new\<close> accepts them.\<close>

definition separated :: "patch \<Rightarrow> bool" where
  "separated p \<longleftrightarrow> successively (\<lambda>e f. old_end e < old_start f \<and> new_end e < new_start f) p"

definition normal :: "patch \<Rightarrow> bool" where
  "normal p \<longleftrightarrow> separated p \<and> (\<forall>e \<in> set p. \<not> edit_is_empty e)"

definition composed_to :: "'a list \<Rightarrow> 'a list \<Rightarrow> patch \<Rightarrow> int \<Rightarrow> int \<Rightarrow> bool" where
  "composed_to A C p os ns \<longleftrightarrow> describes_from A C 0 0 p os ns \<and> normal p"

lemma composed_to_extend: "composed_to A C p i j \<Longrightarrow> 0 \<le> k \<Longrightarrow> agree A C i j k \<Longrightarrow> composed_to A C p (i + k) (j + k)"
  by (simp add: composed_to_def describes_from_extend)

lemma composed_to_push:
  assumes "composed_to A C p os ns" "os \<le> oe" "ns \<le> ne"
  shows "composed_to A C (patch_push p (edit_of os oe ns ne)) oe ne"
proof -
  have d: "describes_from A C 0 0 p os ns" and n: "normal p" using assms(1) by (auto simp: composed_to_def)
  have "normal (patch_push p (edit_of os oe ns ne))"
  proof (cases p rule: rev_cases)
    case (snoc c l)
    with d n assms(2,3) patch_push_cases [of "edit_of os oe ns ne" p] show ?thesis
      by (auto simp: normal_def separated_def successively_append_iff edit_is_empty_def describes_from_snoc patch_push_def push_maybe_empty_def)
  qed (auto simp: normal_def separated_def patch_push_def push_maybe_empty_def)
  then show ?thesis using describes_from_push [OF d assms(2,3)] by (simp add: composed_to_def)
qed

definition composing ::
  "'a list \<Rightarrow> 'a list \<Rightarrow> 'a list \<Rightarrow> patch \<Rightarrow> patch \<Rightarrow> patch \<Rightarrow> int \<Rightarrow> int \<Rightarrow> int \<Rightarrow> bool" where
  "composing A B C olds news composed os m ns \<longleftrightarrow>
     composed_to A C composed os ns
     \<and> describes_from A B os m olds (int (length A)) (int (length B))
     \<and> describes_from B C m ns news (int (length B)) (int (length C))"

lemma composing_catchup:
  assumes "composing A B C olds news composed os m ns" "0 \<le> k"
    and "olds \<noteq> [] \<Longrightarrow> k \<le> old_start (hd olds) - os" "olds = [] \<Longrightarrow> k \<le> int (length A) - os"
    and "news \<noteq> [] \<Longrightarrow> k \<le> old_start (hd news) - m" "news = [] \<Longrightarrow> k \<le> int (length B) - m"
  shows "composing A B C olds news composed (os + k) (m + k) (ns + k)"
proof -
  have "agree A B os m k \<and> describes_from A B (os + k) (m + k) olds (int (length A)) (int (length B))"
    using assms by (intro describes_from_skip) (auto simp: composing_def)
  moreover have "agree B C m ns k \<and> describes_from B C (m + k) (ns + k) news (int (length B)) (int (length C))"
    using assms by (intro describes_from_skip) (auto simp: composing_def)
  moreover have "composed_to A C composed (os + k) (ns + k)"
    using assms calculation agree_trans by (intro composed_to_extend) (auto simp: composing_def)
  ultimately show ?thesis by (simp add: composing_def)
qed

lemma composing_old:
  assumes "composing A B C (e # olds) news composed os m ns" "news \<noteq> [] \<Longrightarrow> new_end e \<le> old_start (hd news)"
    and "compose_old e composed os ns = (composed', oe, ne)"
  shows "composing A B C olds news composed' oe (new_end e) ne"
proof -
  let ?k = "old_start e - os"
  have e: "os \<le> old_start e" "new_start e = m + ?k" "old_start e \<le> old_end e" "new_start e \<le> new_end e"
    and rest: "describes_from A B (old_end e) (new_end e) olds (int (length A)) (int (length B))"
    using assms(1) by (auto simp: composing_def)
  have bound: "new_end e \<le> int (length B)" using describes_from_mono [OF rest] by simp
  have "composing A B C (e # olds) news composed (os + ?k) (m + ?k) (ns + ?k)"
    using assms(1,2) e bound by (intro composing_catchup) auto
  then have c: "composed_to A C composed (os + ?k) (ns + ?k)"
    and n: "describes_from B C (m + ?k) (ns + ?k) news (int (length B)) (int (length C))" by (auto simp: composing_def)
  have "describes_from B C (m + ?k + new_len e) (ns + ?k + new_len e) news (int (length B)) (int (length C))"
    using describes_from_skip [OF n, of "new_len e"] assms(2) e bound by (auto simp: new_len_def)
  moreover have "m + ?k + new_len e = new_end e" using e by (simp add: new_len_def)
  moreover have "composed_to A C composed' oe ne" "oe = old_end e" "ne = ns + ?k + new_len e"
    using assms(3) composed_to_push [OF c] e by (auto simp: compose_old_def Let_def old_len_def new_len_def)
  ultimately show ?thesis using rest by (simp add: composing_def)
qed

lemma composing_new:
  assumes "composing A B C olds (e # news) composed os m ns" "olds \<noteq> [] \<Longrightarrow> old_end e \<le> new_start (hd olds)"
    and "compose_new e composed os ns = (composed', oe, ne)"
  shows "composing A B C olds news composed' oe (old_end e) ne"
proof -
  let ?k = "old_start e - m"
  have e: "m \<le> old_start e" "new_start e = ns + ?k" "old_start e \<le> old_end e" "new_start e \<le> new_end e"
    and rest: "describes_from B C (old_end e) (new_end e) news (int (length B)) (int (length C))"
    using assms(1) by (auto simp: composing_def)
  have gap: "olds \<noteq> [] \<Longrightarrow> old_end e - m \<le> old_start (hd olds) - os" "olds = [] \<Longrightarrow> old_end e - m \<le> int (length A) - os"
    using assms(1,2) describes_from_mono [OF rest] by (cases olds; auto simp: composing_def)+
  have "composing A B C olds (e # news) composed (os + ?k) (m + ?k) (ns + ?k)"
    using assms(1) e gap by (intro composing_catchup) auto
  then have c: "composed_to A C composed (os + ?k) (ns + ?k)"
    and o: "describes_from A B (os + ?k) (m + ?k) olds (int (length A)) (int (length B))" by (auto simp: composing_def)
  have "describes_from A B (os + ?k + old_len e) (m + ?k + old_len e) olds (int (length A)) (int (length B))"
    using describes_from_skip [OF o, of "old_len e"] gap e by (cases "olds = []") (auto simp: old_len_def)
  moreover have "m + ?k + old_len e = old_end e" using e by (simp add: old_len_def)
  moreover have "composed_to A C composed' oe ne" "ne = new_end e" "oe = os + ?k + old_len e"
    using assms(3) composed_to_push [OF c] e by (auto simp: compose_new_def Let_def old_len_def new_len_def)
  ultimately show ?thesis using rest by (simp add: composing_def)
qed

text \<open>After the first half, both edits start at the three positions.\<close>

lemma composing_overlap:
  assumes "composing A B C (o1 # olds) (n1 # news) composed os m ns" "old_start n1 \<le> new_end o1" "new_start o1 \<le> old_end n1"
    and "compose_overlap o1 n1 composed os ns = (composed1, os1, ns1, o2, n2)"
  shows "\<exists>m1. composing A B C (o2 # olds) (n2 # news) composed1 os1 m1 ns1
    \<and> old_start o2 = os1 \<and> new_start o2 = m1 \<and> old_start n2 = m1 \<and> new_start n2 = ns1
    \<and> old_end o2 = old_end o1 \<and> new_end o2 = new_end o1 \<and> old_end n2 = old_end n1 \<and> new_end n2 = new_end n1"
proof -
  have o1: "os \<le> old_start o1" "new_start o1 = m + (old_start o1 - os)" "old_start o1 \<le> old_end o1" "new_start o1 \<le> new_end o1"
    and n1: "m \<le> old_start n1" "new_start n1 = ns + (old_start n1 - m)" "old_start n1 \<le> old_end n1" "new_start n1 \<le> new_end n1"
    using assms(1) by (auto simp: composing_def)
  show ?thesis
  proof (cases "new_start o1 < old_start n1")
    case True
    let ?k = "old_start o1 - os"
    have "composing A B C (o1 # olds) (n1 # news) composed (os + ?k) (m + ?k) (ns + ?k)"
      using assms(1) o1 n1 True by (intro composing_catchup) auto
    with True assms o1 n1 show ?thesis
      by (auto simp: compose_overlap_def Let_def composing_def intro!: composed_to_push exI [of _ "old_start n1"])
  next
    case False
    let ?k = "old_start n1 - m"
    have "composing A B C (o1 # olds) (n1 # news) composed (os + ?k) (m + ?k) (ns + ?k)"
      using assms(1) o1 n1 False by (intro composing_catchup) auto
    with False assms o1 n1 show ?thesis
      by (auto simp: compose_overlap_def Let_def composing_def intro!: composed_to_push exI [of _ "new_start o1"])
  qed
qed

lemma composing_overlap_old_left:
  assumes "composing A B C (o2 # olds) (n2 # news) composed os m ns" "old_end n2 < new_end o2"
    and "old_start o2 = os" "new_start o2 = m" "old_start n2 = m" "new_start n2 = ns"
    and "oe = os + min (old_len o2) (old_len n2)" "ne = ns + new_len n2"
  shows "composing A B C (o2\<lparr>old_start := oe, new_start := old_end n2\<rparr> # olds) news
    (patch_push composed (edit_of os oe ns ne)) oe (old_end n2) ne"
  using assms by (auto simp: composing_def old_len_def new_len_def intro!: composed_to_push)

lemma composing_overlap_new_left:
  assumes "composing A B C (o2 # olds) (n2 # news) composed os m ns" "new_end o2 \<le> old_end n2"
    and "old_start o2 = os" "new_start o2 = m" "old_start n2 = m" "new_start n2 = ns"
    and "oe = os + old_len o2" "ne = ns + min (new_len o2) (new_len n2)"
  shows "composing A B C olds (n2\<lparr>old_start := new_end o2, new_start := ne\<rparr> # news)
    (patch_push composed (edit_of os oe ns ne)) oe (new_end o2) ne"
  using assms by (auto simp: composing_def old_len_def new_len_def intro!: composed_to_push)

lemma compose_loop_describes:
  "composing A B C olds news composed os m ns \<Longrightarrow>
    describes (compose_loop olds news composed os ns) A C \<and> normal (compose_loop olds news composed os ns)"
proof (induction olds news composed os ns arbitrary: m rule: compose_loop.induct)
  case (1 composed os ns)
  let ?k = "int (length A) - os"
  have "composing A B C [] [] composed (os + ?k) (m + ?k) (ns + ?k)"
    using 1 by (intro composing_catchup) (auto simp: composing_def)
  moreover have "ns + ?k = int (length C)" using 1 by (auto simp: composing_def)
  ultimately show ?case by (simp add: composing_def composed_to_def describes_def)
next
  case (2 o1 olds composed os ns)
  obtain composed' oe ne where c: "compose_old o1 composed os ns = (composed', oe, ne)" by (metis surj_pair)
  from 2(1) [OF c [symmetric] refl refl composing_old [OF 2(2) _ c]] c show ?case by simp
next
  case (3 n1 news composed os ns)
  obtain composed' oe ne where c: "compose_new n1 composed os ns = (composed', oe, ne)" by (metis surj_pair)
  from 3(1) [OF c [symmetric] refl refl composing_new [OF 3(2) _ c]] c show ?case by simp
next
  case (4 o1 olds n1 news composed os ns)
  consider (old) "new_end o1 < old_start n1" | (new) "\<not> new_end o1 < old_start n1" "old_end n1 < new_start o1"
    | (both) "\<not> new_end o1 < old_start n1" "\<not> old_end n1 < new_start o1" by blast
  then show ?case
  proof cases
    case old
    obtain composed' oe ne where c: "compose_old o1 composed os ns = (composed', oe, ne)" by (metis surj_pair)
    have "composing A B C olds (n1 # news) composed' oe (new_end o1) ne" using composing_old [OF 4(5) _ c] old by simp
    from 4(1) [OF old c [symmetric] refl refl this] old c show ?thesis by simp
  next
    case new
    obtain composed' oe ne where c: "compose_new n1 composed os ns = (composed', oe, ne)" by (metis surj_pair)
    have "composing A B C (o1 # olds) news composed' oe (old_end n1) ne" using composing_new [OF 4(5) _ c] new by simp
    from 4(2) [OF new c [symmetric] refl refl this] new c show ?thesis by simp
  next
    case both
    obtain composed1 os1 ns1 o2 n2 where c: "compose_overlap o1 n1 composed os ns = (composed1, os1, ns1, o2, n2)"
      by (metis surj_pair)
    from composing_overlap [OF 4(5) _ _ c] both obtain m1
      where i: "composing A B C (o2 # olds) (n2 # news) composed1 os1 m1 ns1"
        "old_start o2 = os1" "new_start o2 = m1" "old_start n2 = m1" "new_start n2 = ns1" by auto
    show ?thesis
    proof (cases "new_end o2 > old_end n2")
      case True
      note 4(3) [OF both c [symmetric] refl refl refl refl True refl refl
          composing_overlap_old_left [OF i(1) True i(2-5) refl refl]]
      with both True c show ?thesis by (simp add: Let_def)
    next
      case False
      note 4(4) [OF both c [symmetric] refl refl refl refl False refl refl
          composing_overlap_new_left [OF i(1) _ i(2-5) refl refl]]
      with both False c show ?thesis by (simp add: Let_def)
    qed
  qed
qed

text \<open>What \<open>describes\<close> means for the texts: the patch turns one into the other.\<close>

lemma agree_slice:
  assumes "agree A B i j k" "0 \<le> i" "0 \<le> j" "i + k \<le> int (length A)" "j + k \<le> int (length B)"
  shows "take (nat k) (drop (nat i) A) = take (nat k) (drop (nat j) B)"
proof (cases "0 \<le> k")
  case True
  have "A ! (nat i + d) = B ! (nat j + d)" if "d < nat k" for d
    using bspec [OF assms(1) [unfolded agree_def], of "int d"] that assms(2,3) True by (simp add: nat_add_distrib)
  then show ?thesis using assms True by (intro nth_equalityI) auto
qed simp

lemma describes_from_patched:
  "describes_from A B i j p (int (length A)) (int (length B)) \<Longrightarrow> 0 \<le> i \<Longrightarrow> 0 \<le> j \<Longrightarrow> patched_from A B i p = drop (nat j) B"
proof (induction p arbitrary: i j)
  case Nil
  then have "take (nat (int (length A) - i)) (drop (nat i) A) = take (nat (int (length A) - i)) (drop (nat j) B)"
    by (intro agree_slice) auto
  moreover have "nat (int (length A) - i) = length (drop (nat i) A)" "nat (int (length A) - i) = length (drop (nat j) B)"
    using Nil by auto
  ultimately show ?case by simp
next
  case (Cons e es)
  let ?k = "nat (old_start e - i)" and ?l = "nat (new_len e)"
  have e: "i \<le> old_start e" "new_start e - j = old_start e - i" "agree A B i j (old_start e - i)" "old_start e \<le> old_end e"
    "new_start e \<le> new_end e" and rest: "describes_from A B (old_end e) (new_end e) es (int (length A)) (int (length B))"
    using Cons.prems by auto
  have b: "old_end e \<le> int (length A)" "new_end e \<le> int (length B)" using describes_from_mono [OF rest] by auto
  have "take ?k (drop (nat i) A) = take ?k (drop (nat j) B)" using e b Cons.prems by (intro agree_slice) auto
  moreover have "patched_from A B (old_end e) es = drop (nat (new_end e)) B"
    using rest e Cons.prems by (intro Cons.IH) auto
  moreover have "nat (new_start e) = nat j + ?k" "nat (new_end e) = nat j + ?k + ?l"
    using e Cons.prems by (auto simp: new_len_def)
  ultimately have "patched_from A B i (e # es)
      = take ?k (drop (nat j) B) @ take ?l (drop ?k (drop (nat j) B)) @ drop ?l (drop ?k (drop (nat j) B))"
    by (simp add: add.commute add.left_commute)
  then show ?case by (simp only: append_take_drop_id)
qed

text \<open>(C14) Composition is sound: if one patch turns a text \<open>A\<close> into \<open>B\<close> and another turns \<open>B\<close> into \<open>C\<close>, then \<open>compose\<close> returns a
  patch that turns \<open>A\<close> into \<open>C\<close>: unedited ranges correspond and applying its edits to \<open>A\<close> gives \<open>C\<close>. Its edits are
  not empty, and consecutive ones are separated in both texts.\<close>

theorem compose_is_sound:
  assumes "describes p A B" "describes q B C"
  shows "describes (compose p q) A C \<and> patched_from A C 0 (compose p q) = C \<and> normal (compose p q)"
proof -
  have "composing A B C p q [] 0 0 0" using assms by (simp add: composing_def composed_to_def normal_def separated_def describes_def)
  from compose_loop_describes [OF this] have "describes (compose p q) A C \<and> normal (compose p q)" by (simp add: compose_def)
  then show ?thesis using describes_from_patched [of A C 0 0 "compose p q"] by (simp add: describes_def)
qed

theorem compose_is_sound_witness:
  "patched_from ''abcd'' ''aYZd'' 0 (compose [edit_of 1 3 1 2] [edit_of 1 2 1 3]) = ''aYZd''"
proof -
  have "{0..<1::int} = {0}" by auto
  then have "describes [edit_of 1 3 1 2] ''abcd'' ''aXd''" "describes [edit_of 1 2 1 3] ''aXd'' ''aYZd''"
    by (simp_all add: describes_def agree_def)
  from compose_is_sound [OF this] show ?thesis by simp
qed

subsection \<open>Positions in the two texts\<close>

text \<open>The position of the new text, read off the edits from left to right.\<close>

fun position_from :: "int \<Rightarrow> int \<Rightarrow> patch \<Rightarrow> int \<Rightarrow> int" where
  "position_from i j [] old = j + (old - i)"
| "position_from i j (e # es) old =
     (if old < old_start e then j + (old - i)
      else if old < old_end e then new_start e else position_from (old_end e) (new_end e) es old)"

definition ordered :: "patch \<Rightarrow> bool" where
  "ordered p \<longleftrightarrow> sorted_wrt (\<lambda>e f. old_start e < old_start f) p \<and> successively (\<lambda>e f. old_end e < old_start f) p"

lemma ordered_Cons: "ordered (e # es) \<Longrightarrow> ordered es"
  by (auto simp: ordered_def successively_Cons)

lemma search_old_start_Cons:
  "search_old_start (e # es) old =
     (if old_start e < old then map_sum Suc Suc (search_old_start es old)
      else if old_start e = old then Inr 0 else Inl 0)"
  by (auto simp: search_old_start_def Let_def)

lemma search_old_start_take:
  "ordered p \<Longrightarrow> takeWhile (\<lambda>e. old_start e \<le> old) p = (case search_old_start p old of Inr ix \<Rightarrow> take (Suc ix) p | Inl ix \<Rightarrow> take ix p)
     \<and> (case search_old_start p old of Inr ix \<Rightarrow> ix < length p | Inl ix \<Rightarrow> ix \<le> length p)"
proof (induction p)
  case (Cons e es)
  have "takeWhile (\<lambda>e. old_start e \<le> old) es = []" if "old \<le> old_start e"
    using Cons.prems that by (cases es) (auto simp: ordered_def)
  with Cons show ?case
    by (cases "search_old_start es old") (auto simp: search_old_start_Cons dest: ordered_Cons)
qed (simp add: search_old_start_def)

text \<open>The edit the search selects: the last one that starts at or before the position.\<close>

definition last_edit :: "patch \<Rightarrow> int \<Rightarrow> text_edit option" where
  "last_edit p old =
     (let q = takeWhile (\<lambda>e. old_start e \<le> old) p in if q = [] then None else Some (last q))"

lemma searched_edit:
  assumes "ordered p"
  shows "(case search_old_start p old of Inr ix \<Rightarrow> (if ix < length p then f (p ! ix) else d)
            | Inl ix \<Rightarrow> if ix = 0 then d else (if ix - 1 < length p then f (p ! (ix - 1)) else d))
          = (case last_edit p old of None \<Rightarrow> d | Some e \<Rightarrow> f e)"
proof (cases "search_old_start p old")
  case (Inl ix)
  with search_old_start_take [OF assms, of old] have "last_edit p old = (if ix = 0 then None else Some (p ! (ix - 1)))" "ix \<le> length p"
    by (auto simp: last_edit_def Let_def last_conv_nth min_def)
  with Inl show ?thesis by auto
next
  case (Inr ix)
  with search_old_start_take [OF assms, of old] have t: "takeWhile (\<lambda>e. old_start e \<le> old) p = take (Suc ix) p" and "ix < length p"
    by simp_all
  then have "last_edit p old = Some (p ! ix)"
    by (simp add: last_edit_def Let_def take_Suc_conv_app_nth)
  with Inr \<open>ix < length p\<close> show ?thesis by simp
qed

lemma old_to_new_last_edit:
  "ordered p \<Longrightarrow> old_to_new p old =
     (case last_edit p old of None \<Rightarrow> old
      | Some e \<Rightarrow> if old \<ge> old_end e then new_end e + (old - old_end e) else new_start e)"
  unfolding old_to_new_def Let_def by (rule searched_edit)

lemma edit_for_old_position_last_edit:
  "ordered p \<Longrightarrow> edit_for_old_position p old =
     (case last_edit p old of None \<Rightarrow> edit_of old old old old
      | Some e \<Rightarrow> if old > old_end e
          then edit_of old old (new_end e + (old - old_end e)) (new_end e + (old - old_end e)) else e)"
  unfolding edit_for_old_position_def Let_def by (rule searched_edit)

lemma last_edit_Cons:
  "last_edit (e # es) old =
     (if old < old_start e then None else Some (case last_edit es old of None \<Rightarrow> e | Some f \<Rightarrow> f))"
  by (auto simp: last_edit_def Let_def)

lemma last_edit_position:
  "describes_from A B i j p i' j' \<Longrightarrow> i \<le> old \<Longrightarrow>
     (case last_edit p old of None \<Rightarrow> j + (old - i)
      | Some e \<Rightarrow> if old \<ge> old_end e then new_end e + (old - old_end e) else new_start e) = position_from i j p old"
proof (induction p arbitrary: i j)
  case (Cons e es)
  have "last_edit es old = None" if "old < old_end e"
    using Cons.prems that by (cases es) (auto simp: last_edit_def)
  with Cons show ?case by (auto simp: last_edit_Cons split: option.splits)
qed (simp add: last_edit_def)

lemma old_to_new_position:
  "describes p A B \<Longrightarrow> ordered p \<Longrightarrow> 0 \<le> old \<Longrightarrow> old_to_new p old = position_from 0 0 p old"
  using last_edit_position [of A B 0 0 p "int (length A)" "int (length B)" old]
  by (cases "last_edit p old") (simp_all add: old_to_new_last_edit describes_def)

text \<open>Positions that no edit covers.\<close>

definition untouched :: "patch \<Rightarrow> int \<Rightarrow> bool" where
  "untouched p old \<longleftrightarrow> (\<forall>e \<in> set p. \<not> (old_start e \<le> old \<and> old < old_end e))"

lemma describes_from_starts:
  "describes_from A B i j p i' j' \<Longrightarrow> e \<in> set p \<Longrightarrow> i \<le> old_start e \<and> j \<le> new_start e"
  by (induction p arbitrary: i j) force+

lemma describes_from_ends:
  "describes_from A B i j p i' j' \<Longrightarrow> e \<in> set p \<Longrightarrow> i \<le> old_end e \<and> old_start e \<le> old_end e"
  by (induction p arbitrary: i j) force+

lemma position_from_untouched:
  assumes "describes_from A B i j p i' j'" "untouched p old" "i \<le> old" "old < i'"
  shows "j \<le> position_from i j p old \<and> position_from i j p old < j' \<and> A ! nat old = B ! nat (position_from i j p old)
    \<and> untouched (patch_invert p) (position_from i j p old)
    \<and> position_from j i (patch_invert p) (position_from i j p old) = old"
  using assms
proof (induction p arbitrary: i j)
  case Nil
  from bspec [OF conjunct2 [OF conjunct2 [OF Nil(1) [unfolded describes_from.simps]], unfolded agree_def], of "old - i"] Nil
  show ?case by (auto simp: patch_invert_def untouched_def algebra_simps)
next
  case (Cons e es)
  have e: "i \<le> old_start e" "new_start e - j = old_start e - i" "agree A B i j (old_start e - i)" "old_start e \<le> old_end e"
    "new_start e \<le> new_end e" and rest: "describes_from A B (old_end e) (new_end e) es i' j'" using Cons.prems by auto
  show ?case
  proof (cases "old < old_start e")
    case True
    have "A ! nat old = B ! nat (j + (old - i))"
      using bspec [OF e(3) [unfolded agree_def], of "old - i"] True Cons.prems by (simp add: algebra_simps)
    moreover have "\<forall>f \<in> set es. new_end e \<le> new_start f" using describes_from_starts [OF rest] by blast
    ultimately show ?thesis using True e Cons.prems describes_from_mono [OF rest]
      by (auto simp: patch_invert_def untouched_def)
  next
    case False
    then have old: "old_end e \<le> old" using Cons.prems by (auto simp: untouched_def)
    from Cons.IH [OF rest _ old] Cons.prems have IH: "new_end e \<le> position_from (old_end e) (new_end e) es old"
      "position_from (old_end e) (new_end e) es old < j'" "A ! nat old = B ! nat (position_from (old_end e) (new_end e) es old)"
      "untouched (patch_invert es) (position_from (old_end e) (new_end e) es old)"
      "position_from (new_end e) (old_end e) (patch_invert es) (position_from (old_end e) (new_end e) es old) = old"
      by (auto simp: untouched_def)
    with False old e show ?thesis by (auto simp: patch_invert_def untouched_def)
  qed
qed

lemma describes_from_invert: "describes_from A B i j p i' j' \<Longrightarrow> describes_from B A j i (patch_invert p) j' i'"
  by (induction p arbitrary: i j) (auto simp: patch_invert_def intro: agree_sym)

lemma describes_invert: "describes p A B \<Longrightarrow> describes (patch_invert p) B A"
  by (simp add: describes_def describes_from_invert)

lemma separated_ordered: "describes_from A B i j p i' j' \<Longrightarrow> separated p \<Longrightarrow> ordered p"
proof (induction p arbitrary: i j)
  case (Cons e es)
  have rest: "describes_from A B (old_end e) (new_end e) es i' j'" and "separated es"
    using Cons.prems by (auto simp: separated_def successively_Cons)
  then have "ordered es" by (rule Cons.IH)
  moreover have "old_start e < old_start f" if "f \<in> set es" for f
  proof (cases es)
    case (Cons g gs)
    then have "old_start e < old_start g" using Cons.prems \<open>separated (e # es)\<close> Cons
      using Cons.prems(1) Cons.prems(2) by (auto simp: separated_def)
    moreover have "old_start g \<le> old_start f"
      using that Cons rest describes_from_starts [of A B "old_end g" "new_end g" gs i' j' f] by auto
    ultimately show ?thesis by simp
  qed (use that in simp)
  ultimately show ?case using Cons.prems by (auto simp: ordered_def separated_def successively_Cons)
qed (simp add: ordered_def)

lemma separated_invert: "separated p \<Longrightarrow> separated (patch_invert p)"
  by (induction p rule: induct_list012) (auto simp: separated_def patch_invert_def successively_Cons)

text \<open>(C38) A patch maps positions faithfully: a position of the old text that no edit covers is mapped to a
  position of the new text that holds the same character and that no edit covers either, and the inverted
  patch maps it back.\<close>

theorem old_to_new_roundtrip:
  assumes "describes p A B" "separated p" "untouched p old" "0 \<le> old" "old < int (length A)"
  shows "0 \<le> old_to_new p old \<and> old_to_new p old < int (length B) \<and> B ! nat (old_to_new p old) = A ! nat old
    \<and> untouched (patch_invert p) (old_to_new p old) \<and> old_to_new (patch_invert p) (old_to_new p old) = old"
proof -
  have d: "describes_from A B 0 0 p (int (length A)) (int (length B))" using assms(1) by (simp add: describes_def)
  have "old_to_new p old = position_from 0 0 p old"
    using assms separated_ordered [OF d] by (intro old_to_new_position) auto
  moreover have "ordered (patch_invert p)"
    using separated_ordered [OF describes_from_invert [OF d] separated_invert] assms(2) by simp
  then have "old_to_new (patch_invert p) x = position_from 0 0 (patch_invert p) x" if "0 \<le> x" for x
    using old_to_new_position [OF describes_invert [OF assms(1)]] that by simp
  ultimately show ?thesis using position_from_untouched [OF d assms(3-5)] by simp
qed

theorem old_to_new_roundtrip_witness:
  "''aYZd'' ! nat (old_to_new [edit_of 1 3 1 3] 3) = CHR ''d''"
proof -
  have "{0..<1::int} = {0}" by auto
  then have "describes [edit_of 1 3 1 3] ''abcd'' ''aYZd''" by (simp add: describes_def agree_def)
  from old_to_new_roundtrip [OF this, of 3] show ?thesis by (simp add: separated_def untouched_def)
qed

lemma last_edit_None: "ordered p \<Longrightarrow> last_edit p old = None \<Longrightarrow> e \<in> set p \<Longrightarrow> old < old_start e"
  by (cases p) (auto simp: last_edit_Cons ordered_def split: if_splits)

lemma last_edit_Some:
  "describes_from A B i j p i' j' \<Longrightarrow> last_edit p old = Some e \<Longrightarrow>
     e \<in> set p \<and> old_start e \<le> old \<and> (\<forall>f \<in> set p. old < old_start f \<or> old_end f \<le> old_end e)"
proof (induction p arbitrary: i j)
  case (Cons a es)
  have rest: "describes_from A B (old_end a) (new_end a) es i' j'" using Cons.prems by auto
  show ?case
  proof (cases "last_edit es old")
    case None
    then have "old < old_start f" if "f \<in> set es" for f
      using rest that by (cases es) (auto simp: last_edit_Cons split: if_splits dest: describes_from_starts)
    with None Cons.prems show ?thesis by (auto simp: last_edit_Cons split: if_splits)
  next
    case (Some f)
    then have "f = e" "old_start a \<le> old" using Cons.prems by (auto simp: last_edit_Cons split: if_splits)
    then have e: "e \<in> set es" "old_start e \<le> old" "\<forall>f \<in> set es. old < old_start f \<or> old_end f \<le> old_end e"
      using Some Cons.IH [OF rest] by auto
    moreover have "old_end a \<le> old_end e" using describes_from_ends [OF rest e(1)] by simp
    ultimately show ?thesis by auto
  qed
qed (simp add: last_edit_def)

text \<open>\<open>edit_for_old_position\<close> returns an edit that touches the position: one of the patch's edits if it returns
  one, and otherwise an empty edit at the position whose new range is where \<open>old_to_new\<close> maps it, in which case no
  edit of the patch touches the position.\<close>

theorem edit_for_old_position_touches:
  assumes "describes p A B" "separated p" "0 \<le> old"
  shows "old_start (edit_for_old_position p old) \<le> old \<and> old \<le> old_end (edit_for_old_position p old)
    \<and> (edit_for_old_position p old \<in> set p
       \<or> edit_for_old_position p old = edit_of old old (old_to_new p old) (old_to_new p old)
         \<and> \<not> (\<exists>e \<in> set p. old_start e \<le> old \<and> old \<le> old_end e))"
proof -
  have d: "describes_from A B 0 0 p (int (length A)) (int (length B))" using assms(1) by (simp add: describes_def)
  have o: "ordered p" using separated_ordered [OF d assms(2)] .
  show ?thesis
  proof (cases "last_edit p old")
    case None
    have "\<not> old_start e \<le> old" if "e \<in> set p" for e using last_edit_None [OF o None that] by simp
    with None o show ?thesis by (auto simp: edit_for_old_position_last_edit old_to_new_last_edit)
  next
    case (Some e)
    have "old < old_start f \<or> old_end f \<le> old_end e" "e \<in> set p" "old_start e \<le> old" if "f \<in> set p" for f
      using last_edit_Some [OF d Some] that by auto
    moreover have "e \<in> set p" "old_start e \<le> old" using last_edit_Some [OF d Some] by auto
    ultimately show ?thesis using Some o by (fastforce simp: edit_for_old_position_last_edit old_to_new_last_edit)
  qed
qed

theorem edit_for_old_position_touches_witness:
  "edit_for_old_position [edit_of 1 3 1 3] 2 \<in> set [edit_of 1 3 1 3]"
proof -
  have "{0..<1::int} = {0}" by auto
  then have "describes [edit_of 1 3 1 3] ''abcd'' ''aYZd''" by (simp add: describes_def agree_def)
  from edit_for_old_position_touches [OF this, of 2] show ?thesis by (auto simp: separated_def)
qed

subsection \<open>Subscriptions accumulate edits\<close>

text \<open>The texts a buffer goes through, each with the patch it publishes.\<close>

fun published :: "'a list \<Rightarrow> (patch \<times> 'a list) list \<Rightarrow> bool" where
  "published B [] \<longleftrightarrow> True"
| "published B ((q, C) # steps) \<longleftrightarrow> describes q B C \<and> published C steps"

definition final_text :: "'a list \<Rightarrow> (patch \<times> 'a list) list \<Rightarrow> 'a list" where
  "final_text B steps = (if steps = [] then B else snd (last steps))"

definition publish_all :: "(patch \<times> 'a list) list \<Rightarrow> topic_store \<Rightarrow> topic_store" where
  "publish_all steps st = fold (\<lambda>(q, _). publish q) steps st"

lemma describes_refl: "describes patch_empty A A"
  by (simp add: describes_def patch_empty_def agree_def)

lemma map_of_update: "map_of (map (\<lambda>(b, p). (b, g b p)) ps) a = map_option (g a) (map_of ps a)"
  by (induction ps) auto

lemma read_patch_publish:
  "read_patch st a = Some p \<Longrightarrow> a \<in> set (subscribers st) \<Longrightarrow>
     read_patch (publish q st) a = Some (compose p q) \<and> a \<in> set (subscribers (publish q st))"
  by (simp add: read_patch_def publish_def Let_def map_of_update)

lemma publish_all_describes:
  "published B steps \<Longrightarrow> read_patch st a = Some p \<Longrightarrow> a \<in> set (subscribers st) \<Longrightarrow> describes p A B \<Longrightarrow>
     \<exists>p'. read_patch (publish_all steps st) a = Some p' \<and> describes p' A (final_text B steps)"
proof (induction steps arbitrary: B st p)
  case (Cons step steps)
  obtain q C where s: "step = (q, C)" by fastforce
  have "describes (compose p q) A C" using compose_loop_describes [of A B C p q "[]" 0 0 0] Cons.prems s
    by (simp add: compose_def composing_def composed_to_def normal_def separated_def describes_def)
  from Cons.IH [OF _ _ _ this, of "publish q st"] Cons.prems s read_patch_publish [OF Cons.prems(2,3), of q]
  show ?case by (auto simp: publish_all_def final_text_def split: if_splits)
qed (simp add: publish_all_def final_text_def)

text \<open>(C39) A subscription misses nothing: whatever a buffer publishes between subscribing (or consuming) and the
  next time the patch is consumed, the patch consumed turns the text of that time into the current one, and
  afterwards the subscription starts again from the current text.\<close>

theorem subscription_misses_nothing:
  assumes "read_patch st a = Some patch_empty" "a \<in> set (subscribers st)" "published A steps"
    and "consume a (publish_all steps st) = (st', consumed)"
  shows "\<exists>p. consumed = Some p \<and> describes p A (final_text A steps) \<and> read_patch st' a = Some patch_empty"
proof -
  from publish_all_describes [OF assms(3,1,2) describes_refl] obtain p where
    p: "read_patch (publish_all steps st) a = Some p" "describes p A (final_text A steps)" by blast
  moreover have "consumed = read_patch (publish_all steps st) a" using assms(4) by (simp add: consume_def)
  moreover have "read_patch st' a = map_option (\<lambda>_. patch_empty) (read_patch (publish_all steps st) a)"
    using assms(4) by (auto simp: consume_def read_patch_def map_of_update)
  ultimately show ?thesis by simp
qed

definition empty_topic :: topic_store where
  "empty_topic = \<lparr>patches = [], subscribers = [], next_address = 0\<rparr>"

theorem subscription_misses_nothing_witness:
  "\<exists>p. snd (consume 0 (publish_all [([edit_of 1 3 1 2], ''aXd''), ([edit_of 1 2 1 3], ''aYZd'')] (fst (subscribe empty_topic)))) = Some p
     \<and> describes p ''abcd'' ''aYZd''"
proof -
  have i: "{0..<1::int} = {0}" by auto
  let ?steps = "[([edit_of 1 3 1 2], ''aXd''), ([edit_of 1 2 1 3], ''aYZd'')]" and ?st = "fst (subscribe empty_topic)"
  obtain st' c where c: "consume 0 (publish_all ?steps ?st) = (st', c)" by fastforce
  have "read_patch ?st 0 = Some patch_empty" "0 \<in> set (subscribers ?st)"
    by (simp_all add: subscribe_def empty_topic_def read_patch_def)
  moreover have "published ''abcd'' ?steps" by (simp add: describes_def agree_def i)
  ultimately show ?thesis using subscription_misses_nothing [OF _ _ _ c] c by (auto simp: final_text_def)
qed

end
