(* ===== verification/Line_Ending.thy ===== *)
theory Line_Ending
  imports Prelude
begin

text \<open>
  Line endings of \<^verbatim>\<open>src/crates/text/src/text.rs\<close>. Inside a buffer every line ends in a line feed; texts are normalised when
  they enter it and get the buffer's line ending when they leave it. Texts are lists of bytes.
\<close>

type_synonym bytes = "nat list"

datatype line_ending = Unix | Windows

definition CR :: nat where "CR = 13"
definition LF :: nat where "LF = 10"

definition line_ending_str :: "line_ending \<Rightarrow> bytes" where
  "line_ending_str le = (case le of Unix \<Rightarrow> [LF] | Windows \<Rightarrow> [CR, LF])"

text \<open>\<^verbatim>\<open>is_char_boundary\<close> and \<^verbatim>\<open>floor_char_boundary\<close> of a string in UTF-8: a byte of the form \<open>10xxxxxx\<close> continues a
  character.\<close>

definition is_char_boundary :: "bytes \<Rightarrow> nat \<Rightarrow> bool" where
  "is_char_boundary t i \<longleftrightarrow> i = 0 \<or> i = length t \<or> i < length t \<and> \<not> (128 \<le> t ! i \<and> t ! i < 192)"

fun floor_char_boundary :: "bytes \<Rightarrow> nat \<Rightarrow> nat" where
  "floor_char_boundary t 0 = 0"
| "floor_char_boundary t (Suc i) = (if is_char_boundary t (Suc i) then Suc i else floor_char_boundary t i)"

fun find_byte :: "nat \<Rightarrow> bytes \<Rightarrow> nat option" where
  "find_byte b [] = None"
| "find_byte b (x # xs) = (if x = b then Some 0 else map_option Suc (find_byte b xs))"

text \<open>\<^verbatim>\<open>LineEnding::detect\<close>; the default where no line feed is found is that of the platform.\<close>

definition detect :: "line_ending \<Rightarrow> bytes \<Rightarrow> line_ending" where
  "detect platform t =
     (let max_ix = floor_char_boundary t (min (length t) 1000)
      in case find_byte LF (take max_ix t) of
           Some ix \<Rightarrow> if ix > 0 \<and> t ! (ix - 1) = CR then Windows else Unix
         | None \<Rightarrow> platform)"

text \<open>\<^verbatim>\<open>LineEnding::normalize\<close>: replace every match of the regular expression \<^verbatim>\<open>\r\n|\r\<close> by a line feed, from left to right.\<close>

fun normalize_text :: "bytes \<Rightarrow> bytes" where
  "normalize_text [] = []"
| "normalize_text (b # bs) =
     (if b = CR then LF # (case bs of [] \<Rightarrow> [] | c # cs \<Rightarrow> if c = LF then normalize_text cs else normalize_text bs)
      else b # normalize_text bs)"

definition replace_newlines :: "bytes \<Rightarrow> bytes \<Rightarrow> bytes" where
  "replace_newlines ending t = concat (map (\<lambda>b. if b = LF then ending else [b]) t)"

definition apply_line_ending :: "line_ending \<Rightarrow> line_ending \<Rightarrow> bytes \<Rightarrow> bytes" where
  "apply_line_ending platform le t =
     (case (detect platform t, le) of
        (Unix, Unix) \<Rightarrow> t
      | (Windows, Windows) \<Rightarrow> t
      | (Unix, Windows) \<Rightarrow> replace_newlines [CR, LF] t
      | (Windows, Unix) \<Rightarrow> normalize_text t)"

text \<open>\<^verbatim>\<open>str::lines\<close> on bytes: the lines without their endings; no empty line after a final line feed.\<close>

fun split_lf :: "bytes \<Rightarrow> bytes list" where
  "split_lf [] = [[]]"
| "split_lf (c # cs) =
     (if c = LF then [] # split_lf cs else case split_lf cs of [] \<Rightarrow> [[c]] | l # ls \<Rightarrow> (c # l) # ls)"

definition strip_last_cr :: "bytes \<Rightarrow> bytes" where
  "strip_last_cr l = (if l \<noteq> [] \<and> last l = CR then butlast l else l)"

definition chunk_lines :: "bytes \<Rightarrow> bytes list" where
  "chunk_lines t =
     (let ls = split_lf t
      in map strip_last_cr (butlast ls) @ (if last ls = [] then [] else [last ls]))"

text \<open>One chunk of \<^verbatim>\<open>chunks_with_line_ending\<close>: the ending between lines, and once more after a final line feed.\<close>

definition chunk_with_line_ending :: "line_ending \<Rightarrow> bytes \<Rightarrow> bytes" where
  "chunk_with_line_ending le chunk =
     (let ls = chunk_lines chunk;
          joined = concat (map (\<lambda>(i, line). (if i > 0 then line_ending_str le else []) @ line) (enumerate 0 ls))
      in joined @ (if chunk \<noteq> [] \<and> last chunk = LF then line_ending_str le else []))"

definition chunks_with_line_ending :: "line_ending \<Rightarrow> bytes list \<Rightarrow> bytes" where
  "chunks_with_line_ending le chunks = concat (map (chunk_with_line_ending le) chunks)"

subsection \<open>Properties\<close>

lemma CR_LF [simp]: "CR \<noteq> LF" "LF \<noteq> CR"
  by (simp_all add: CR_def LF_def)

lemma normalize_no_CR: "CR \<notin> set (normalize_text t)"
  by (induction t rule: normalize_text.induct) (auto split: list.splits)

lemma normalize_id: "CR \<notin> set t \<Longrightarrow> normalize_text t = t"
  by (induction t rule: normalize_text.induct) auto

lemma normalize_replace: "CR \<notin> set t \<Longrightarrow> normalize_text (replace_newlines (line_ending_str le) t) = t"
proof (induction t)
  case (Cons b t)
  have "normalize_text (CR # LF # u) = LF # normalize_text u" for u by simp
  with Cons show ?case by (cases le) (auto simp: replace_newlines_def line_ending_str_def simp del: normalize_text.simps
      simp add: normalize_text.simps(2) [of LF] normalize_text.simps(2) [of b])
qed (simp add: replace_newlines_def)

lemma split_lf_not_Nil [simp]: "split_lf t \<noteq> []"
  by (cases t) (auto split: list.splits)

text \<open>The lines with an ending between any two and the last one without: this is the text.\<close>

fun join_lines_with :: "bytes \<Rightarrow> bytes list \<Rightarrow> bytes" where
  "join_lines_with sep [] = []"
| "join_lines_with sep [x] = x"
| "join_lines_with sep (x # y # zs) = x @ sep @ join_lines_with sep (y # zs)"

lemma join_split: "join_lines_with ending (split_lf t) = replace_newlines ending t"
proof (induction t)
  case (Cons c t)
  then show ?case
    by (cases "split_lf t" rule: list.exhaust [case_product list.exhaust])
      (auto simp: replace_newlines_def split: list.splits elim: join_lines_with.elims)
qed (simp add: replace_newlines_def)

lemma join_lines_with_Cons: "join_lines_with sep (x # xs) = x @ concat (map (\<lambda>l. sep @ l) xs)"
  by (induction xs arbitrary: x) simp_all

lemma join_lines_with_snoc_Nil: "xs \<noteq> [] \<Longrightarrow> join_lines_with sep (xs @ [[]]) = join_lines_with sep xs @ sep"
  by (cases xs) (simp_all add: join_lines_with_Cons)

lemma concat_enumerate:
  "concat (map (\<lambda>(i, line). (if i > 0 then sep else []) @ line) (enumerate 0 ls)) = join_lines_with sep ls"
proof (cases ls)
  case (Cons x xs)
  have "n > 0 \<Longrightarrow> concat (map (\<lambda>(i, line). (if i > 0 then sep else []) @ line) (enumerate n xs)) = concat (map (\<lambda>l. sep @ l) xs)" for n
    by (induction xs arbitrary: n) simp_all
  with Cons show ?thesis by (simp add: join_lines_with_Cons)
qed simp

lemma split_lf_lines: "CR \<notin> set t \<Longrightarrow> l \<in> set (split_lf t) \<Longrightarrow> CR \<notin> set l"
  by (induction t arbitrary: l) (auto split: if_splits list.splits)

lemma split_lf_single: "split_lf t = [[]] \<longleftrightarrow> t = []"
  by (cases t) (auto split: list.splits)

lemma split_lf_last: "last (split_lf t) = [] \<longleftrightarrow> t = [] \<or> last t = LF"
  by (induction t) (auto simp: split_lf_single split: list.splits)

lemma split_lf_butlast: "last (split_lf t) = [] \<Longrightarrow> t \<noteq> [] \<Longrightarrow> butlast (split_lf t) \<noteq> []"
  by (cases t) (auto split: list.splits if_splits)

lemma chunk_with_line_ending_eq:
  assumes "CR \<notin> set chunk"
  shows "chunk_with_line_ending le chunk = replace_newlines (line_ending_str le) chunk"
proof -
  let ?ls = "split_lf chunk" and ?s = "line_ending_str le"
  have "strip_last_cr l = l" if "l \<in> set ?ls" for l
    using split_lf_lines [OF assms that] last_in_set [of l] by (fastforce simp: strip_last_cr_def)
  then have strip: "map strip_last_cr (butlast ?ls) = butlast ?ls" by (simp add: map_idI in_set_butlastD)
  show ?thesis
  proof (cases "last ?ls = []")
    case True
    then have lines: "chunk_lines chunk = butlast ?ls" using strip by (simp add: chunk_lines_def Let_def)
    show ?thesis
    proof (cases "chunk = []")
      case False
      then have "replace_newlines ?s chunk = join_lines_with ?s (butlast ?ls) @ ?s"
        using True join_split [of ?s chunk] join_lines_with_snoc_Nil [OF split_lf_butlast [OF True False], of ?s]
          append_butlast_last_id [OF split_lf_not_Nil, of chunk] by simp
      then show ?thesis using False True split_lf_last [of chunk]
        by (simp add: chunk_with_line_ending_def lines concat_enumerate Let_def)
    qed (simp add: chunk_with_line_ending_def chunk_lines_def replace_newlines_def)
  next
    case False
    then have "chunk_lines chunk = ?ls" using strip append_butlast_last_id [OF split_lf_not_Nil, of chunk]
      by (simp add: chunk_lines_def Let_def)
    then show ?thesis using False split_lf_last [of chunk]
      by (auto simp: chunk_with_line_ending_def concat_enumerate join_split Let_def)
  qed
qed

text \<open>(C40) Saving and reloading a text gives it back: whatever chunks hold a text without carriage returns, writing it
  with a line ending and normalising what is read restores the text; and normalising leaves no carriage return.\<close>

theorem line_ending_roundtrip:
  assumes "CR \<notin> set (concat chunks)"
  shows "normalize_text (chunks_with_line_ending le chunks) = concat chunks
    \<and> chunks_with_line_ending le chunks = replace_newlines (line_ending_str le) (concat chunks)
    \<and> CR \<notin> set (normalize_text t)"
proof -
  have "chunks_with_line_ending le chunks = replace_newlines (line_ending_str le) (concat chunks)"
    using assms by (induction chunks) (auto simp: chunks_with_line_ending_def chunk_with_line_ending_eq replace_newlines_def)
  then show ?thesis using normalize_replace [OF assms] normalize_no_CR by simp
qed

theorem line_ending_roundtrip_witness:
  "normalize_text (chunks_with_line_ending Windows [[104, 105, LF], [LF, 33]]) = [104, 105, LF, LF, 33]"
proof -
  have "CR \<notin> set (concat [[104, 105, LF], [LF, 33]])" by (simp add: CR_def LF_def)
  from conjunct1 [OF line_ending_roundtrip [OF this, of Windows "[]"]] show ?thesis
    by (simp only: concat.simps append.simps append_Nil2)
qed

end
