(* ===== verification/Fragments.thy ===== *)
theory Fragments
  imports Clock Locator Patch Line_Ending Undo_Map
begin

text \<open>
  The data of a buffer snapshot in \<^verbatim>\<open>src/crates/text/src/text.rs\<close>: fragments and their summaries, the insertion
  fragments and slices that index them, and the builders with which an edit or an undo makes a new snapshot.

  The sum trees of the snapshot are represented by their lists of items, the ropes by their lists of bytes. A
  cursor over the fragments is its start in visible and deleted bytes and the items from it on; \<open>slice\<close>, \<open>next\<close>
  and \<open>suffix\<close> are what \<open>Sum_Forward\<close> shows of the cursor: a linear scan of the items. Lengths and offsets of one
  insertion are natural numbers; the code keeps them in 32 bits, which holds texts up to 4 GiB.
\<close>

subsection \<open>Fragments\<close>

record fragment =
  frag_id :: locator
  frag_timestamp :: lamport
  frag_offset :: nat
  frag_len :: nat
  frag_visible :: bool
  frag_deletions :: "lamport list"
  frag_max_undos :: global

record fragment_text_summary =
  sum_visible :: nat
  sum_deleted :: nat

record fragment_summary =
  fs_text :: fragment_text_summary
  fs_max_id :: locator
  fs_max_version :: global
  fs_min_insertion_version :: global
  fs_max_insertion_version :: global

definition vis_len :: "fragment \<Rightarrow> nat" where
  "vis_len f = (if frag_visible f then frag_len f else 0)"

definition del_len :: "fragment \<Rightarrow> nat" where
  "del_len f = (if frag_visible f then 0 else frag_len f)"

definition fragment_summary_of :: "fragment \<Rightarrow> fragment_summary" where
  "fragment_summary_of f =
     (let max_version = global_join (foldl global_observe (global_observe global_new (frag_timestamp f)) (frag_deletions f))
                          (frag_max_undos f);
          min_insertion_version = global_observe global_new (frag_timestamp f)
      in \<lparr>fs_text = \<lparr>sum_visible = vis_len f, sum_deleted = del_len f\<rparr>, fs_max_id = frag_id f,
          fs_max_version = max_version, fs_min_insertion_version = min_insertion_version,
          fs_max_insertion_version = min_insertion_version\<rparr>)"

definition fragment_summary_zero :: fragment_summary where
  "fragment_summary_zero = \<lparr>fs_text = \<lparr>sum_visible = 0, sum_deleted = 0\<rparr>, fs_max_id = locator_min,
     fs_max_version = global_new, fs_min_insertion_version = global_new, fs_max_insertion_version = global_new\<rparr>"

definition fragment_summary_add :: "fragment_summary \<Rightarrow> fragment_summary \<Rightarrow> fragment_summary" where
  "fragment_summary_add s other =
     \<lparr>fs_text = \<lparr>sum_visible = sum_visible (fs_text s) + sum_visible (fs_text other),
                 sum_deleted = sum_deleted (fs_text s) + sum_deleted (fs_text other)\<rparr>,
      fs_max_id = locator_assign (fs_max_id s) (fs_max_id other),
      fs_max_version = global_join (fs_max_version s) (fs_max_version other),
      fs_min_insertion_version = global_meet (fs_min_insertion_version s) (fs_min_insertion_version other),
      fs_max_insertion_version = global_join (fs_max_insertion_version s) (fs_max_insertion_version other)\<rparr>"

text \<open>The summary of a fragment builder: that of everything pushed or appended so far.\<close>

definition builder_summary :: "fragment list \<Rightarrow> fragment_summary" where
  "builder_summary fs = foldl fragment_summary_add fragment_summary_zero (map fragment_summary_of fs)"

definition frag_is_visible :: "undo_map \<Rightarrow> fragment \<Rightarrow> bool run" where
  "frag_is_visible undos f = do {
     undone \<leftarrow> is_undone (frag_timestamp f) undos;
     if undone then Some False
     else do {
       ds \<leftarrow> those (map (\<lambda>d. is_undone d undos) (frag_deletions f));
       Some (list_all (\<lambda>b. b) ds)
     }
   }"

definition frag_was_visible :: "global \<Rightarrow> undo_map \<Rightarrow> fragment \<Rightarrow> bool run" where
  "frag_was_visible version undos f =
     (if \<not> global_observed version (frag_timestamp f) then Some False
      else do {
        undone \<leftarrow> was_undone (frag_timestamp f) version undos;
        if undone then Some False
        else do {
          ds \<leftarrow> those (map (\<lambda>d. if \<not> global_observed version d then Some True else was_undone d version undos) (frag_deletions f));
          Some (list_all (\<lambda>b. b) ds)
        }
      })"

subsection \<open>Insertion fragments and slices\<close>

record insertion_fragment =
  if_timestamp :: lamport
  if_split_offset :: nat
  if_fragment_id :: locator

definition insertion_fragment_new :: "fragment \<Rightarrow> insertion_fragment" where
  "insertion_fragment_new f = \<lparr>if_timestamp = frag_timestamp f, if_split_offset = frag_offset f, if_fragment_id = frag_id f\<rparr>"

definition if_key :: "insertion_fragment \<Rightarrow> lamport \<times> nat" where
  "if_key x = (if_timestamp x, if_split_offset x)"

record insertion_slice =
  is_edit_id :: lamport
  is_insertion_id :: lamport
  is_start :: nat
  is_end :: nat

definition insertion_slice_from_fragment :: "lamport \<Rightarrow> fragment \<Rightarrow> insertion_slice" where
  "insertion_slice_from_fragment edit_id f =
     \<lparr>is_edit_id = edit_id, is_insertion_id = frag_timestamp f, is_start = frag_offset f, is_end = frag_offset f + frag_len f\<rparr>"

definition insertion_slice_cmp :: "insertion_slice \<Rightarrow> insertion_slice \<Rightarrow> ordering" where
  "insertion_slice_cmp a b =
     then_with (then_with (then_with (cmp (is_edit_id a) (is_edit_id b)) (cmp (is_insertion_id a) (is_insertion_id b)))
       (cmp (is_start a) (is_start b))) (cmp (is_end a) (is_end b))"

definition slice_key :: "insertion_slice \<Rightarrow> lamport \<times> lamport \<times> nat \<times> nat" where
  "slice_key s = (is_edit_id s, is_insertion_id s, is_start s, is_end s)"

subsection \<open>Cursors over fragments\<close>

record frag_cursor =
  cur_visible :: nat
  cur_deleted :: nat
  cur_rest :: "fragment list"

definition frag_cursor_new :: "fragment list \<Rightarrow> frag_cursor" where
  "frag_cursor_new fs = \<lparr>cur_visible = 0, cur_deleted = 0, cur_rest = fs\<rparr>"

definition frag_item :: "frag_cursor \<Rightarrow> fragment option" where
  "frag_item c = (case cur_rest c of [] \<Rightarrow> None | f # _ \<Rightarrow> Some f)"

definition frag_end :: "frag_cursor \<Rightarrow> nat" where
  "frag_end c = cur_visible c + (case cur_rest c of [] \<Rightarrow> 0 | f # _ \<Rightarrow> vis_len f)"

definition frag_next :: "frag_cursor \<Rightarrow> frag_cursor" where
  "frag_next c =
     (case cur_rest c of
        [] \<Rightarrow> c
      | f # fs \<Rightarrow> \<lparr>cur_visible = cur_visible c + vis_len f, cur_deleted = cur_deleted c + del_len f, cur_rest = fs\<rparr>)"

text \<open>\<^verbatim>\<open>slice(&offset, Bias::Right)\<close> along the visible text: everything that ends at or before the offset.\<close>

fun slice_right :: "nat \<Rightarrow> nat \<Rightarrow> nat \<Rightarrow> fragment list \<Rightarrow> fragment list \<times> frag_cursor" where
  "slice_right target v d [] = ([], \<lparr>cur_visible = v, cur_deleted = d, cur_rest = []\<rparr>)"
| "slice_right target v d (f # fs) =
     (if v + vis_len f \<le> target
      then (let (us, c) = slice_right target (v + vis_len f) (d + del_len f) fs in (f # us, c))
      else ([], \<lparr>cur_visible = v, cur_deleted = d, cur_rest = f # fs\<rparr>))"

definition frag_slice :: "nat \<Rightarrow> frag_cursor \<Rightarrow> fragment list \<times> frag_cursor" where
  "frag_slice target c = slice_right target (cur_visible c) (cur_deleted c) (cur_rest c)"

subsection \<open>The rope builder\<close>

record rope_builder =
  old_visible :: bytes
  old_deleted :: bytes
  new_visible :: bytes
  new_deleted :: bytes

definition rope_builder_new :: "bytes \<Rightarrow> bytes \<Rightarrow> rope_builder" where
  "rope_builder_new v d = \<lparr>old_visible = v, old_deleted = d, new_visible = [], new_deleted = []\<rparr>"

definition rb_push :: "nat \<Rightarrow> bool \<Rightarrow> bool \<Rightarrow> rope_builder \<Rightarrow> rope_builder" where
  "rb_push len was_visible is_visible rb =
     (let (txt, rb1) = (if was_visible then (take len (old_visible rb), rb\<lparr>old_visible := drop len (old_visible rb)\<rparr>)
                        else (take len (old_deleted rb), rb\<lparr>old_deleted := drop len (old_deleted rb)\<rparr>))
      in if is_visible then rb1\<lparr>new_visible := new_visible rb1 @ txt\<rparr> else rb1\<lparr>new_deleted := new_deleted rb1 @ txt\<rparr>)"

definition rb_append :: "fragment_text_summary \<Rightarrow> rope_builder \<Rightarrow> rope_builder" where
  "rb_append len rb = rb_push (sum_deleted len) False False (rb_push (sum_visible len) True True rb)"

definition rb_push_fragment :: "fragment \<Rightarrow> bool \<Rightarrow> rope_builder \<Rightarrow> rope_builder" where
  "rb_push_fragment f was_visible rb = rb_push (frag_len f) was_visible (frag_visible f) rb"

definition rb_push_str :: "bytes \<Rightarrow> rope_builder \<Rightarrow> rope_builder" where
  "rb_push_str t rb = rb\<lparr>new_visible := new_visible rb @ t\<rparr>"

definition rb_finish :: "rope_builder \<Rightarrow> bytes \<times> bytes" where
  "rb_finish rb = (new_visible rb @ old_visible rb, new_deleted rb @ old_deleted rb)"

subsection \<open>Snapshots\<close>

record snapshot =
  visible_text :: bytes
  deleted_text :: bytes
  fragments :: "fragment list"
  insertions :: "insertion_fragment list"
  insertion_slices :: "insertion_slice list"
  snap_undo_map :: undo_map
  snap_version :: global

lemma builder_summary_simps [simp]:
  "builder_summary [] = fragment_summary_zero"
  "sum_visible (fs_text (builder_summary fs)) = sum_list (map vis_len fs)"
  "sum_deleted (fs_text (builder_summary fs)) = sum_list (map del_len fs)"
  "fs_max_id (builder_summary fs) = (if fs = [] then locator_min else frag_id (last fs))"
proof -
  have snoc: "builder_summary (fs @ [f]) = fragment_summary_add (builder_summary fs) (fragment_summary_of f)" for fs f
    by (simp add: builder_summary_def)
  show "builder_summary [] = fragment_summary_zero" by (simp add: builder_summary_def)
  then show "sum_visible (fs_text (builder_summary fs)) = sum_list (map vis_len fs)"
      "sum_deleted (fs_text (builder_summary fs)) = sum_list (map del_len fs)"
      "fs_max_id (builder_summary fs) = (if fs = [] then locator_min else frag_id (last fs))"
    by (induction fs rule: rev_induct)
      (auto simp: snoc fragment_summary_zero_def fragment_summary_add_def fragment_summary_of_def Let_def locator_assign_def)
qed

end
