(* ===== verification/Local_Edit.thy ===== *)
theory Local_Edit
  imports Fragments History
begin

text \<open>
  Local edits: \<^verbatim>\<open>BufferSnapshot::apply_edit_internal\<close> of \<^verbatim>\<open>src/crates/text/src/text.rs\<close>, which rebuilds the fragments and the two
  texts of a snapshot for a list of edits and records the operation to send and the patch to publish.
\<close>

definition MAX_INSERTION_LEN :: nat where
  "MAX_INSERTION_LEN = 2 ^ 32 - 1"

text \<open>The furthest end of a chunk of a text; it is computed without the large number where the text is short.\<close>

definition chunk_target :: "bytes \<Rightarrow> nat \<Rightarrow> nat" where
  "chunk_target t offset = min (length t) (offset + MAX_INSERTION_LEN)"

lemma chunk_target_code [code]:
  "chunk_target t offset = (if int (length t) - int offset < 2 ^ 32 then length t else offset + MAX_INSERTION_LEN)"
  by (auto simp: chunk_target_def MAX_INSERTION_LEN_def)

text \<open>The local variables of the function.\<close>

record edit_state =
  st_cursor :: frag_cursor
  st_start :: nat
  st_fragments :: "fragment list"
  st_insertions :: "insertion_fragment list"
  st_slices :: "insertion_slice list"
  st_ropes :: rope_builder
  st_patch :: patch
  st_offset :: nat
  st_ranges :: "(full_offset \<times> full_offset) list"
  st_texts :: "bytes list"

text \<open>The three calls with which a rewritten fragment enters the new snapshot.\<close>

definition push_rewritten :: "fragment \<Rightarrow> bool \<Rightarrow> edit_state \<Rightarrow> edit_state" where
  "push_rewritten f was_visible st =
     st\<lparr>st_insertions := st_insertions st @ [insertion_fragment_new f],
        st_ropes := rb_push_fragment f was_visible (st_ropes st),
        st_fragments := st_fragments st @ [f]\<rparr>"

text \<open>Consume the rest of a partially consumed fragment and advance.\<close>

definition push_suffix :: "edit_state \<Rightarrow> edit_state run" where
  "push_suffix st =
     (let c = st_cursor st; fragment_end = frag_end c
      in if st_start st > cur_visible c then do {
           st1 \<leftarrow> (if fragment_end > st_start st then do {
                     f \<leftarrow> frag_item c;
                     let suffix = f\<lparr>frag_len := fragment_end - st_start st,
                                    frag_offset := frag_offset f + (st_start st - cur_visible c)\<rparr>;
                     Some (push_rewritten suffix (frag_visible suffix) st)
                   } else Some st);
           Some (st1\<lparr>st_cursor := frag_next c\<rparr>)
         } else Some st)"

text \<open>Jump to the first fragment that extends past the start of the range, reusing the fragments between.\<close>

definition skip_to :: "nat \<Rightarrow> edit_state \<Rightarrow> edit_state run" where
  "skip_to range_start st =
     (if frag_end (st_cursor st) < range_start then do {
        st1 \<leftarrow> push_suffix st;
        let (us, c) = frag_slice range_start (st_cursor st1);
        Some (st1\<lparr>st_ropes := rb_append (fs_text (builder_summary us)) (st_ropes st1),
                  st_fragments := st_fragments st1 @ us, st_cursor := c, st_start := cur_visible c\<rparr>)
      } else Some st)"

text \<open>Preserve the part of the current fragment that precedes the range.\<close>

definition push_prefix :: "nat \<Rightarrow> edit_state \<Rightarrow> edit_state run" where
  "push_prefix range_start st =
     (if st_start st < range_start then do {
        f \<leftarrow> frag_item (st_cursor st);
        let prefix = f\<lparr>frag_len := range_start - st_start st,
                       frag_offset := frag_offset f + (st_start st - cur_visible (st_cursor st)),
                       frag_id := between (fs_max_id (builder_summary (st_fragments st))) (frag_id f)\<rparr>;
        Some ((push_rewritten prefix (frag_visible prefix) st)\<lparr>st_start := range_start\<rparr>)
      } else Some st)"

definition next_fragment_id :: "frag_cursor \<Rightarrow> locator" where
  "next_fragment_id c = (case frag_item c of None \<Rightarrow> locator_max | Some f \<Rightarrow> frag_id f)"

partial_function (option) insertion_loop ::
  "bytes \<Rightarrow> lamport \<Rightarrow> locator \<Rightarrow> nat \<Rightarrow> edit_state \<Rightarrow> edit_state option" where
  "insertion_loop new_text timestamp next_id text_offset st =
     (if text_offset < length new_text then
        let target_end = chunk_target new_text text_offset;
            chunk_end = (if target_end = length new_text then target_end else floor_char_boundary new_text target_end)
        in if chunk_end = text_offset then Some st
           else
             let chunk_len = chunk_end - text_offset;
                 f = \<lparr>frag_id = between (fs_max_id (builder_summary (st_fragments st))) next_id, frag_timestamp = timestamp,
                      frag_offset = st_offset st, frag_len = chunk_len, frag_visible = True, frag_deletions = [],
                      frag_max_undos = global_new\<rparr>;
                 st1 = st\<lparr>st_slices := st_slices st @ [insertion_slice_from_fragment timestamp f],
                          st_insertions := st_insertions st @ [insertion_fragment_new f],
                          st_fragments := st_fragments st @ [f], st_offset := st_offset st + chunk_len\<rparr>
             in insertion_loop new_text timestamp next_id chunk_end st1
      else Some st)"

declare insertion_loop.simps [code]

definition push_fragments_for_insertion :: "bytes \<Rightarrow> lamport \<Rightarrow> locator \<Rightarrow> edit_state \<Rightarrow> edit_state run" where
  "push_fragments_for_insertion new_text timestamp next_id st = do {
     st1 \<leftarrow> insertion_loop new_text timestamp next_id 0 st;
     Some (st1\<lparr>st_ropes := rb_push_str new_text (st_ropes st1)\<rparr>)
   }"

definition push_insertion :: "bytes \<Rightarrow> lamport \<Rightarrow> edit_state \<Rightarrow> edit_state run" where
  "push_insertion new_text timestamp st =
     (if new_text \<noteq> [] then do {
        let new_st = sum_visible (fs_text (builder_summary (st_fragments st)));
        st1 \<leftarrow> push_fragments_for_insertion new_text timestamp (next_fragment_id (st_cursor st)) st;
        Some (st1\<lparr>st_patch := patch_push (st_patch st1)
                (edit_of (int (st_start st)) (int (st_start st)) (int new_st) (int (new_st + length new_text)))\<rparr>)
      } else Some st)"

text \<open>One round of the loop that marks what intersects the range as deleted.\<close>

definition delete_step :: "lamport \<Rightarrow> nat \<Rightarrow> fragment \<Rightarrow> edit_state \<Rightarrow> edit_state" where
  "delete_step timestamp range_end f st =
     (let c = st_cursor st;
          fragment_end = frag_end c;
          intersection_end = min range_end fragment_end;
          intersection =
            (if frag_visible f then
               f\<lparr>frag_len := intersection_end - st_start st,
                 frag_offset := frag_offset f + (st_start st - cur_visible c),
                 frag_id := between (fs_max_id (builder_summary (st_fragments st))) (frag_id f),
                 frag_deletions := frag_deletions f @ [timestamp], frag_visible := False\<rparr>
             else f);
          st1 =
            (if frag_len intersection > 0 then
               let st0 =
                 (if frag_visible f \<and> \<not> frag_visible intersection then
                    let new_st = int (sum_visible (fs_text (builder_summary (st_fragments st))))
                    in st\<lparr>st_patch := patch_push (st_patch st) (edit_of (int (st_start st)) (int intersection_end) new_st new_st),
                          st_slices := st_slices st @ [insertion_slice_from_fragment timestamp intersection]\<rparr>
                  else st)
               in (push_rewritten intersection (frag_visible f) st0)\<lparr>st_start := intersection_end\<rparr>
             else st)
      in if fragment_end \<le> range_end then st1\<lparr>st_cursor := frag_next c\<rparr> else st1)"

partial_function (option) delete_loop :: "lamport \<Rightarrow> nat \<Rightarrow> edit_state \<Rightarrow> edit_state option" where
  "delete_loop timestamp range_end st =
     (if st_start st < range_end then
        Option.bind (frag_item (st_cursor st)) (\<lambda>f. delete_loop timestamp range_end (delete_step timestamp range_end f st))
      else Some st)"

declare delete_loop.simps [code]

type_synonym text_edits = "((nat \<times> nat) \<times> bytes) list"

definition apply_one_edit :: "lamport \<Rightarrow> (nat \<times> nat) \<times> bytes \<Rightarrow> edit_state \<Rightarrow> edit_state run" where
  "apply_one_edit timestamp edit st =
     (let ((range_start, range_end), raw_text) = edit; new_text = normalize_text raw_text
      in do {
        st1 \<leftarrow> skip_to range_start st;
        let full_range_start = range_start + cur_deleted (st_cursor st1);
        st2 \<leftarrow> push_prefix range_start st1;
        st3 \<leftarrow> push_insertion new_text timestamp st2;
        st4 \<leftarrow> delete_loop timestamp range_end st3;
        let full_range_end = range_end + cur_deleted (st_cursor st4);
        Some (st4\<lparr>st_ranges := st_ranges st4 @ [(full_range_start, full_range_end)], st_texts := st_texts st4 @ [new_text]\<rparr>)
      })"

fun apply_edits :: "lamport \<Rightarrow> text_edits \<Rightarrow> edit_state \<Rightarrow> edit_state run" where
  "apply_edits timestamp [] st = Some st"
| "apply_edits timestamp (e # es) st = Option.bind (apply_one_edit timestamp e st) (apply_edits timestamp es)"

definition edit_start :: "nat \<Rightarrow> snapshot \<Rightarrow> edit_state" where
  "edit_start range_start snap =
     (let (us, c) = frag_slice range_start (frag_cursor_new (fragments snap))
      in \<lparr>st_cursor = c, st_start = cur_visible c, st_fragments = us, st_insertions = [], st_slices = [],
          st_ropes = rb_append (fs_text (builder_summary us)) (rope_builder_new (visible_text snap) (deleted_text snap)),
          st_patch = [], st_offset = 0, st_ranges = [], st_texts = []\<rparr>)"

definition edit_finish :: "edit_state \<Rightarrow> snapshot \<Rightarrow> snapshot run" where
  "edit_finish st snap = do {
     st1 \<leftarrow> push_suffix st;
     let rest = cur_rest (st_cursor st1);
     let (v, d) = rb_finish (rb_append (fs_text (builder_summary rest)) (st_ropes st1));
     Some (snap\<lparr>fragments := st_fragments st1 @ rest,
       insertions := edit_items if_key (insertions snap) (map Insert (sort_key if_key (st_insertions st1))),
       visible_text := v, deleted_text := d,
       insertion_slices := edit_items slice_key (insertion_slices snap) (map Insert (sort_key slice_key (st_slices st1)))\<rparr>)
   }"

definition apply_edit_internal ::
  "text_edits \<Rightarrow> lamport \<Rightarrow> snapshot \<Rightarrow> (snapshot \<times> bytes edit_operation \<times> patch) run" where
  "apply_edit_internal edits timestamp snap =
     (case edits of
        [] \<Rightarrow> Some (snap, \<lparr>edit_timestamp = timestamp, edit_version = snap_version snap, edit_ranges = [], edit_new_text = []\<rparr>, [])
      | e # _ \<Rightarrow> do {
          st \<leftarrow> apply_edits timestamp edits (edit_start (fst (fst e)) snap);
          snap1 \<leftarrow> edit_finish st snap;
          Some (snap1, \<lparr>edit_timestamp = timestamp, edit_version = snap_version snap, edit_ranges = st_ranges st,
                        edit_new_text = st_texts st\<rparr>, st_patch st)
        })"

end
