(* ===== verification/Apply_Undo.thy ===== *)
theory Apply_Undo
  imports Local_Edit
begin

text \<open>
  Undo operations on a snapshot: \<^verbatim>\<open>Buffer::apply_undo\<close> and \<^verbatim>\<open>Buffer::fragment_ids_for_edits\<close> of
  \<^verbatim>\<open>src/crates/text/src/text.rs\<close>. The slices of the undone edits lead through the index of insertions to the
  fragments they inserted or deleted; the visibility of these is computed again from the undo map, and the two
  texts and the patch follow.
\<close>

subsection \<open>The fragments an edit has touched\<close>

text \<open>\<^verbatim>\<open>iter_from\<close> the least slice of the edit, while the slices are the edit's.\<close>

definition slices_for_edit :: "insertion_slice list \<Rightarrow> lamport \<Rightarrow> insertion_slice list" where
  "slices_for_edit slices edit_id =
     takeWhile (\<lambda>s. is_edit_id s = edit_id) (from_key slice_key (edit_id, lamport_MIN, 0, 0) slices)"

text \<open>The key of the sort: ascending starts, and for one start the longest slice first. Slices of one key differ at
  most in their edit, which is not used any more, so that the order an unstable sort leaves among them is
  immaterial.\<close>

definition slice_order :: "insertion_slice \<Rightarrow> lamport \<times> nat \<times> int" where
  "slice_order s = (is_insertion_id s, is_start s, - int (is_end s))"

text \<open>A cursor over the insertion fragments: its start is the key of the item before it.\<close>

record insertion_cursor =
  ic_start :: "lamport \<times> nat"
  ic_rest :: "insertion_fragment list"
  ic_did_seek :: bool

definition insertion_cursor_new :: "insertion_fragment list \<Rightarrow> insertion_cursor" where
  "insertion_cursor_new xs = \<lparr>ic_start = (lamport_MIN, 0), ic_rest = xs, ic_did_seek = False\<rparr>"

fun ic_advance :: "lamport \<times> nat \<Rightarrow> lamport \<times> nat \<Rightarrow> insertion_fragment list \<Rightarrow> insertion_cursor" where
  "ic_advance target start [] = \<lparr>ic_start = start, ic_rest = [], ic_did_seek = True\<rparr>"
| "ic_advance target start (x # xs) =
     (if if_key x < target then ic_advance target (if_key x) xs
      else \<lparr>ic_start = start, ic_rest = x # xs, ic_did_seek = True\<rparr>)"

definition ic_seek_forward :: "lamport \<times> nat \<Rightarrow> insertion_cursor \<Rightarrow> insertion_cursor" where
  "ic_seek_forward target c = ic_advance target (ic_start c) (ic_rest c)"

text \<open>The inner loop: the fragments of the insertion that start before the end of the slice.\<close>

fun collect_fragments ::
  "lamport \<Rightarrow> nat \<Rightarrow> lamport \<times> nat \<Rightarrow> insertion_fragment list \<Rightarrow> locator list \<times> insertion_cursor" where
  "collect_fragments insertion_id range_end start [] = ([], \<lparr>ic_start = start, ic_rest = [], ic_did_seek = True\<rparr>)"
| "collect_fragments insertion_id range_end start (x # xs) =
     (if if_timestamp x \<noteq> insertion_id \<or> if_split_offset x \<ge> range_end
      then ([], \<lparr>ic_start = start, ic_rest = x # xs, ic_did_seek = True\<rparr>)
      else (let (ids, c) = collect_fragments insertion_id range_end (if_key x) xs in (if_fragment_id x # ids, c)))"

definition collect_slice :: "insertion_slice \<Rightarrow> insertion_cursor \<Rightarrow> (locator list \<times> insertion_cursor) run" where
  "collect_slice s c =
     (let insertion_id = is_insertion_id s;
          c1 = (if insertion_id \<noteq> fst (ic_start c) \<or> is_start s > snd (ic_start c)
                then ic_seek_forward (insertion_id, is_start s) c else c)
      in do {
        rust_assert (ic_did_seek c1);
        Some (collect_fragments insertion_id (is_end s) (ic_start c1) (ic_rest c1))
      })"

fun collect_slices :: "insertion_slice list \<Rightarrow> insertion_cursor \<Rightarrow> locator list run" where
  "collect_slices [] c = Some []"
| "collect_slices (s # ss) c = do {
     (ids, c1) \<leftarrow> collect_slice s c;
     rest \<leftarrow> collect_slices ss c1;
     Some (ids @ rest)
   }"

definition fragment_ids_for_edits :: "lamport list \<Rightarrow> snapshot \<Rightarrow> locator list run" where
  "fragment_ids_for_edits edit_ids snap = do {
     let slices = concat (map (slices_for_edit (insertion_slices snap)) edit_ids);
     ids \<leftarrow> collect_slices (sort_key slice_order slices) (insertion_cursor_new (insertions snap));
     Some (sort ids)
   }"

subsection \<open>Recomputing visibility\<close>

text \<open>\<^verbatim>\<open>slice(&Some(fragment_id), Bias::Left)\<close> along the locators: everything before the locator.\<close>

fun slice_before :: "locator \<Rightarrow> nat \<Rightarrow> nat \<Rightarrow> fragment list \<Rightarrow> fragment list \<times> frag_cursor" where
  "slice_before target v d [] = ([], \<lparr>cur_visible = v, cur_deleted = d, cur_rest = []\<rparr>)"
| "slice_before target v d (f # fs) =
     (if frag_id f < target
      then (let (us, c) = slice_before target (v + vis_len f) (d + del_len f) fs in (f # us, c))
      else ([], \<lparr>cur_visible = v, cur_deleted = d, cur_rest = f # fs\<rparr>))"

record undo_state =
  us_cursor :: frag_cursor
  us_fragments :: "fragment list"
  us_ropes :: rope_builder
  us_patch :: patch

definition undo_skip :: "locator \<Rightarrow> undo_state \<Rightarrow> undo_state" where
  "undo_skip fragment_id st =
     (let (us, c) = slice_before fragment_id (cur_visible (us_cursor st)) (cur_deleted (us_cursor st)) (cur_rest (us_cursor st))
      in st\<lparr>us_cursor := c, us_fragments := us_fragments st @ us,
            us_ropes := rb_append (fs_text (builder_summary us)) (us_ropes st)\<rparr>)"

definition undo_fragment :: "undo_map \<Rightarrow> lamport \<Rightarrow> fragment \<Rightarrow> undo_state \<Rightarrow> undo_state run" where
  "undo_fragment undos timestamp old st = do {
     visible \<leftarrow> frag_is_visible undos old;
     let f = old\<lparr>frag_visible := visible, frag_max_undos := global_observe (frag_max_undos old) timestamp\<rparr>;
     let old_st = int (cur_visible (us_cursor st));
     let new_st = int (sum_visible (fs_text (builder_summary (us_fragments st))));
     let len = int (frag_len f);
     let p = (if frag_visible old \<and> \<not> frag_visible f then patch_push (us_patch st) (edit_of old_st (old_st + len) new_st new_st)
              else if \<not> frag_visible old \<and> frag_visible f then patch_push (us_patch st) (edit_of old_st old_st new_st (new_st + len))
              else us_patch st);
     Some (st\<lparr>us_patch := p, us_ropes := rb_push_fragment f (frag_visible old) (us_ropes st),
              us_fragments := us_fragments st @ [f], us_cursor := frag_next (us_cursor st)\<rparr>)
   }"

definition undo_step :: "undo_map \<Rightarrow> lamport \<Rightarrow> locator \<Rightarrow> undo_state \<Rightarrow> undo_state run" where
  "undo_step undos timestamp fragment_id st =
     (let st1 = undo_skip fragment_id st
      in case frag_item (us_cursor st1) of
           None \<Rightarrow> Some st1
         | Some f \<Rightarrow> undo_fragment undos timestamp f st1)"

fun undo_steps :: "undo_map \<Rightarrow> lamport \<Rightarrow> locator list \<Rightarrow> undo_state \<Rightarrow> undo_state run" where
  "undo_steps undos timestamp [] st = Some st"
| "undo_steps undos timestamp (i # is) st = Option.bind (undo_step undos timestamp i st) (undo_steps undos timestamp is)"

definition undo_start :: "snapshot \<Rightarrow> undo_state" where
  "undo_start snap = \<lparr>us_cursor = frag_cursor_new (fragments snap), us_fragments = [],
     us_ropes = rope_builder_new (visible_text snap) (deleted_text snap), us_patch = []\<rparr>"

text \<open>The result is the snapshot and the patch to publish. The order of the keys is that of the hash map of counts;
  \<open>srt\<close> is the unstable sort of \<^verbatim>\<open>SumTree::edit\<close>.\<close>

definition apply_undo ::
  "((undo_map_entry, lamport \<times> lamport) tree_edit list \<Rightarrow> (undo_map_entry, lamport \<times> lamport) tree_edit list) \<Rightarrow>
     undo_operation \<Rightarrow> snapshot \<Rightarrow> (snapshot \<times> patch) run" where
  "apply_undo srt undo snap = do {
     undos \<leftarrow> um_insert srt undo (snap_undo_map snap);
     let snap1 = snap\<lparr>snap_undo_map := undos\<rparr>;
     ids \<leftarrow> fragment_ids_for_edits (map fst (undo_counts undo)) snap1;
     st \<leftarrow> undo_steps undos (undo_timestamp undo) ids (undo_start snap1);
     let rest = cur_rest (us_cursor st);
     let (v, d) = rb_finish (rb_append (fs_text (builder_summary rest)) (us_ropes st));
     Some (snap1\<lparr>fragments := us_fragments st @ rest, visible_text := v, deleted_text := d\<rparr>, us_patch st)
   }"

end
