(* ===== verification/Anchor.thy ===== *)
theory Anchor
  imports Apply_Undo
begin

text \<open>
  Anchors, the positions of \<^verbatim>\<open>src/crates/text/src/anchor.rs\<close> that survive edits, and their resolution in
  \<^verbatim>\<open>src/crates/text/src/text.rs\<close>. An anchor names a byte of an insertion, not an offset: it stays attached to the byte before it
  (bias left) or after it (bias right). To resolve it, the index of insertions gives the fragment that holds the byte now, and the
  fragments before that one give its offset.

  The identity of the buffer, which anchors carry, is the argument \<open>remote_id\<close> of the operations that use it. Summaries of anchors are
  taken in bytes (\<open>usize\<close>).
\<close>

subsection \<open>Anchors\<close>

instantiation bias :: linorder
begin

definition less_eq_bias :: "bias \<Rightarrow> bias \<Rightarrow> bool" where
  "less_eq_bias a b \<longleftrightarrow> a = Left \<or> b = Right"

definition less_bias :: "bias \<Rightarrow> bias \<Rightarrow> bool" where
  "less_bias a b \<longleftrightarrow> a = Left \<and> b = Right"

instance
  by standard (auto simp: less_eq_bias_def less_bias_def intro: bias.exhaust)

end

record anchor =
  anchor_replica :: replica_id
  anchor_value :: seq
  anchor_offset :: u32
  anchor_bias :: bias
  anchor_buffer :: u64

definition anchor_new :: "lamport \<Rightarrow> u32 \<Rightarrow> bias \<Rightarrow> u64 \<Rightarrow> anchor" where
  "anchor_new ts off b buffer_id =
     \<lparr>anchor_replica = lam_replica ts, anchor_value = lam_value ts, anchor_offset = off, anchor_bias = b, anchor_buffer = buffer_id\<rparr>"

definition min_for_buffer :: "u64 \<Rightarrow> anchor" where
  "min_for_buffer buffer_id =
     \<lparr>anchor_replica = lam_replica lamport_MIN, anchor_value = lam_value lamport_MIN, anchor_offset = 0, anchor_bias = Left,
      anchor_buffer = buffer_id\<rparr>"

definition max_for_buffer :: "u64 \<Rightarrow> anchor" where
  "max_for_buffer buffer_id =
     \<lparr>anchor_replica = lam_replica lamport_MAX, anchor_value = lam_value lamport_MAX, anchor_offset = - 1, anchor_bias = Right,
      anchor_buffer = buffer_id\<rparr>"

definition min_max_range_for_buffer :: "u64 \<Rightarrow> anchor \<times> anchor" where
  "min_max_range_for_buffer buffer_id = (min_for_buffer buffer_id, max_for_buffer buffer_id)"

definition anchor_timestamp :: "anchor \<Rightarrow> lamport" where
  "anchor_timestamp a = Lamport (anchor_value a) (anchor_replica a)"

definition anchor_is_min :: "anchor \<Rightarrow> bool" where
  "anchor_is_min a \<longleftrightarrow> anchor_timestamp a = lamport_MIN \<and> anchor_offset a = 0 \<and> anchor_bias a = Left"

definition anchor_is_max :: "anchor \<Rightarrow> bool" where
  "anchor_is_max a \<longleftrightarrow> anchor_timestamp a = lamport_MAX \<and> anchor_offset a = - 1 \<and> anchor_bias a = Right"

subsection \<open>The fragment of an anchor\<close>

text \<open>\<^verbatim>\<open>SumTree::find_with_prev\<close> along the keys of the index: the first item whose key is past the target (or at it, for the bias left),
  and the item before it.\<close>

fun find_with_prev_key :: "bias \<Rightarrow> ('t \<Rightarrow> 'k :: linorder) \<Rightarrow> 'k \<Rightarrow> 't option \<Rightarrow> 't list \<Rightarrow> ('t option \<times> 't) option" where
  "find_with_prev_key b key target prev [] = None"
| "find_with_prev_key b key target prev (x # xs) =
     (if target < key x \<or> target = key x \<and> b = Left then Some (prev, x) else find_with_prev_key b key target (Some x) xs)"

definition try_find_fragment :: "snapshot \<Rightarrow> anchor \<Rightarrow> insertion_fragment option" where
  "try_find_fragment snap a =
     (let anchor_key = (anchor_timestamp a, unat (anchor_offset a))
      in case find_with_prev_key (anchor_bias a) if_key anchor_key None (insertions snap) of
           Some (prev, insertion) \<Rightarrow>
             (let comparison = cmp (if_key insertion) anchor_key
              in if comparison = Greater \<or> anchor_bias a = Left \<and> comparison = Equal \<and> anchor_offset a > 0 then prev else Some insertion)
         | None \<Rightarrow> vec_last (insertions snap))"

definition try_fragment_id_for_anchor :: "snapshot \<Rightarrow> anchor \<Rightarrow> locator option" where
  "try_fragment_id_for_anchor snap a =
     (if anchor_is_min a then Some locator_min
      else if anchor_is_max a then Some locator_max
      else map_option if_fragment_id (try_find_fragment snap a))"

definition fragment_id_for_anchor :: "snapshot \<Rightarrow> anchor \<Rightarrow> locator run" where
  "fragment_id_for_anchor snap a = try_fragment_id_for_anchor snap a"

text \<open>\<^verbatim>\<open>SumTree::find\<close> along the locators, with the bias left: the visible and the deleted bytes before the fragment, and the fragment.\<close>

definition find_by_id :: "fragment list \<Rightarrow> locator \<Rightarrow> frag_cursor" where
  "find_by_id fs fragment_id = snd (slice_before fragment_id 0 0 fs)"

text \<open>\<^verbatim>\<open>SumTree::find\<close> along the visible text.\<close>

fun find_at_offset :: "bias \<Rightarrow> nat \<Rightarrow> nat \<Rightarrow> fragment list \<Rightarrow> nat \<times> fragment option" where
  "find_at_offset b target start [] = (start, None)"
| "find_at_offset b target start (f # fs) =
     (if target < start + vis_len f \<or> target = start + vis_len f \<and> b = Left then (start, Some f)
      else find_at_offset b target (start + vis_len f) fs)"

subsection \<open>From anchors to offsets\<close>

text \<open>The offset within a fragment, in 32 bits.\<close>

definition anchor_overshoot :: "anchor \<Rightarrow> nat \<Rightarrow> nat" where
  "anchor_overshoot a split_offset = unat (anchor_offset a - of_nat split_offset)"

definition offset_for_anchor :: "snapshot \<Rightarrow> anchor \<Rightarrow> nat run" where
  "offset_for_anchor snap a =
     (if anchor_is_min a then Some 0
      else if anchor_is_max a then Some (length (visible_text snap))
      else do {
        insertion \<leftarrow> try_find_fragment snap a;
        rust_assert (if_timestamp insertion = anchor_timestamp a);
        let c = find_by_id (fragments snap) (if_fragment_id insertion);
        f \<leftarrow> frag_item c;
        Some (if frag_visible f then cur_visible c + anchor_overshoot a (if_split_offset insertion) else cur_visible c)
      })"

definition anchor_is_valid :: "u64 \<Rightarrow> snapshot \<Rightarrow> anchor \<Rightarrow> bool" where
  "anchor_is_valid remote_id snap a =
     (if anchor_buffer a \<noteq> remote_id then False
      else if anchor_is_min a \<or> anchor_is_max a then True
      else case try_fragment_id_for_anchor snap a of
        None \<Rightarrow> False
      | Some fragment_id \<Rightarrow> (case frag_item (find_by_id (fragments snap) fragment_id) of Some f \<Rightarrow> frag_visible f | None \<Rightarrow> False))"

definition can_resolve :: "u64 \<Rightarrow> snapshot \<Rightarrow> anchor \<Rightarrow> bool" where
  "can_resolve remote_id snap a \<longleftrightarrow>
     remote_id = anchor_buffer a \<and> (anchor_is_min a \<or> anchor_is_max a \<or> global_observed (snap_version snap) (anchor_timestamp a))"

subsection \<open>From offsets to anchors\<close>

text \<open>Character boundaries of the rope.\<close>

definition rope_floor_char_boundary :: "bytes \<Rightarrow> nat \<Rightarrow> nat" where
  "rope_floor_char_boundary t index = (if index \<ge> length t then length t else floor_char_boundary t index)"

fun next_char_boundary :: "bytes \<Rightarrow> nat \<Rightarrow> nat \<Rightarrow> nat" where
  "next_char_boundary t index 0 = index"
| "next_char_boundary t index (Suc n) = (if is_char_boundary t index then index else next_char_boundary t (Suc index) n)"

definition rope_ceil_char_boundary :: "bytes \<Rightarrow> nat \<Rightarrow> nat" where
  "rope_ceil_char_boundary t index = (if index > length t then length t else next_char_boundary t index (length t - index))"

definition usize_to_offset :: "snapshot \<Rightarrow> nat \<Rightarrow> nat" where
  "usize_to_offset snap i = (if is_char_boundary (visible_text snap) i then i else rope_floor_char_boundary (visible_text snap) i)"

definition anchor_at_offset :: "u64 \<Rightarrow> snapshot \<Rightarrow> nat \<Rightarrow> bias \<Rightarrow> anchor" where
  "anchor_at_offset remote_id snap off b =
     (if b = Left \<and> off = 0 then min_for_buffer remote_id
      else if b = Right \<and> off \<ge> length (visible_text snap) then max_for_buffer remote_id
      else
        let offset = (if is_char_boundary (visible_text snap) off then off
                      else case b of Left \<Rightarrow> rope_floor_char_boundary (visible_text snap) off
                                   | Right \<Rightarrow> rope_ceil_char_boundary (visible_text snap) off)
        in case find_at_offset b offset 0 (fragments snap) of
             (start, Some f) \<Rightarrow> anchor_new (frag_timestamp f) (of_nat (frag_offset f) + of_nat (offset - start)) b remote_id
           | (_, None) \<Rightarrow> max_for_buffer remote_id)"

definition anchor_at :: "u64 \<Rightarrow> snapshot \<Rightarrow> nat \<Rightarrow> bias \<Rightarrow> anchor" where
  "anchor_at remote_id snap position b = anchor_at_offset remote_id snap (usize_to_offset snap position) b"

definition anchor_before :: "u64 \<Rightarrow> snapshot \<Rightarrow> nat \<Rightarrow> anchor" where
  "anchor_before remote_id snap position = anchor_at remote_id snap position Left"

definition anchor_after :: "u64 \<Rightarrow> snapshot \<Rightarrow> nat \<Rightarrow> anchor" where
  "anchor_after remote_id snap position = anchor_at remote_id snap position Right"

definition anchor_range_inside :: "u64 \<Rightarrow> snapshot \<Rightarrow> nat \<times> nat \<Rightarrow> anchor \<times> anchor" where
  "anchor_range_inside remote_id snap r = (anchor_after remote_id snap (fst r), anchor_before remote_id snap (snd r))"

definition anchor_range_outside :: "u64 \<Rightarrow> snapshot \<Rightarrow> nat \<times> nat \<Rightarrow> anchor \<times> anchor" where
  "anchor_range_outside remote_id snap r = (anchor_before remote_id snap (fst r), anchor_after remote_id snap (snd r))"

text \<open>An anchor is a position too, so it can be turned to the other side of its byte.\<close>

definition bias_left :: "u64 \<Rightarrow> snapshot \<Rightarrow> anchor \<Rightarrow> anchor run" where
  "bias_left remote_id snap a =
     (case anchor_bias a of
        Left \<Rightarrow> Some a
      | Right \<Rightarrow> map_option (\<lambda>off. anchor_at_offset remote_id snap off Left) (offset_for_anchor snap a))"

definition bias_right :: "u64 \<Rightarrow> snapshot \<Rightarrow> anchor \<Rightarrow> anchor run" where
  "bias_right remote_id snap a =
     (case anchor_bias a of
        Left \<Rightarrow> map_option (\<lambda>off. anchor_at_offset remote_id snap off Right) (offset_for_anchor snap a)
      | Right \<Rightarrow> Some a)"

subsection \<open>The order of anchors\<close>

definition anchor_cmp :: "snapshot \<Rightarrow> anchor \<Rightarrow> anchor \<Rightarrow> ordering run" where
  "anchor_cmp snap a other = do {
     fragment_id_comparison \<leftarrow>
       (if anchor_timestamp a = anchor_timestamp other then Some Equal
        else do {
          i \<leftarrow> fragment_id_for_anchor snap a;
          j \<leftarrow> fragment_id_for_anchor snap other;
          Some (cmp i j)
        });
     Some (then_with (then_with fragment_id_comparison (cmp (anchor_offset a) (anchor_offset other)))
       (cmp (anchor_bias a) (anchor_bias other)))
   }"

definition anchor_min :: "snapshot \<Rightarrow> anchor \<Rightarrow> anchor \<Rightarrow> anchor run" where
  "anchor_min snap a other = map_option (\<lambda>ord. if ord \<noteq> Greater then a else other) (anchor_cmp snap a other)"

definition anchor_max :: "snapshot \<Rightarrow> anchor \<Rightarrow> anchor \<Rightarrow> anchor run" where
  "anchor_max snap a other = map_option (\<lambda>ord. if ord \<noteq> Less then a else other) (anchor_cmp snap a other)"

definition anchor_range_cmp :: "snapshot \<Rightarrow> anchor \<times> anchor \<Rightarrow> anchor \<times> anchor \<Rightarrow> ordering run" where
  "anchor_range_cmp snap r other = do {
     ord \<leftarrow> anchor_cmp snap (fst r) (fst other);
     if ord = Equal then anchor_cmp snap (snd other) (snd r) else Some ord
   }"

definition anchor_range_overlaps :: "snapshot \<Rightarrow> anchor \<times> anchor \<Rightarrow> anchor \<times> anchor \<Rightarrow> bool run" where
  "anchor_range_overlaps snap r other = do {
     o1 \<leftarrow> anchor_cmp snap (fst r) (snd other);
     if o1 = Less then map_option (\<lambda>o2. o2 = Less) (anchor_cmp snap (fst other) (snd r)) else Some False
   }"

definition contains_anchor :: "snapshot \<Rightarrow> anchor \<times> anchor \<Rightarrow> anchor \<Rightarrow> bool run" where
  "contains_anchor snap r other = do {
     o1 \<leftarrow> anchor_cmp snap (fst r) other;
     if o1 \<noteq> Greater then map_option (\<lambda>o2. o2 \<noteq> Less) (anchor_cmp snap (snd r) other) else Some False
   }"

subsection \<open>Many anchors at once\<close>

text \<open>The cursor over the fragments knows the locator of the fragment before it, the start of its position; \<open>seek_forward\<close> fails when that is past
  its target.\<close>

record anchors_state =
  as_start :: "locator option"
  as_cursor :: frag_cursor
  as_text :: nat
  as_position :: nat

definition anchors_init :: "snapshot \<Rightarrow> anchors_state" where
  "anchors_init snap = \<lparr>as_start = None, as_cursor = frag_cursor_new (fragments snap), as_text = 0, as_position = 0\<rparr>"

definition seek_id :: "locator \<Rightarrow> locator option \<times> frag_cursor \<Rightarrow> locator option \<times> frag_cursor" where
  "seek_id fragment_id sc =
     (let c = snd sc; (us, c1) = slice_before fragment_id (cur_visible c) (cur_deleted c) (cur_rest c)
      in (if us = [] then fst sc else Some (frag_id (last us)), c1))"

definition seek_id_forward :: "locator \<Rightarrow> locator option \<times> frag_cursor \<Rightarrow> (locator option \<times> frag_cursor) run" where
  "seek_id_forward fragment_id sc = do {
     rust_assert (pred_option (\<lambda>start. start \<le> fragment_id) (fst sc));
     Some (seek_id fragment_id sc)
   }"

text \<open>\<^verbatim>\<open>rope::Cursor::summary\<close> of the bytes up to an offset.\<close>

definition text_cursor_summary :: "snapshot \<Rightarrow> nat \<Rightarrow> nat \<Rightarrow> nat run" where
  "text_cursor_summary snap end_offset offset = do {
     rust_assert (end_offset \<ge> offset);
     rust_assert (end_offset \<le> length (visible_text snap));
     Some (end_offset - offset)
   }"

definition anchor_summary_step :: "bool \<Rightarrow> snapshot \<Rightarrow> anchor \<Rightarrow> anchors_state \<Rightarrow> (nat \<times> anchors_state) run" where
  "anchor_summary_step allow_backwards snap a st =
     (if anchor_is_min a then Some (0, st)
      else if anchor_is_max a then Some (length (visible_text snap), st)
      else do {
        insertion \<leftarrow> try_find_fragment snap a;
        rust_assert (if_timestamp insertion = anchor_timestamp a);
        let fragment_id = if_fragment_id insertion;
        (start, c) \<leftarrow> (if allow_backwards \<and> (case as_start st of Some start \<Rightarrow> fragment_id \<le> start | None \<Rightarrow> False)
                      then Some (seek_id fragment_id (None, frag_cursor_new (fragments snap)))
                      else seek_id_forward fragment_id (as_start st, as_cursor st));
        f \<leftarrow> frag_item c;
        let fragment_offset =
          (if frag_visible f then cur_visible c + anchor_overshoot a (if_split_offset insertion) else cur_visible c);
        let (text_offset, position) =
          (if allow_backwards \<and> fragment_offset < as_text st then (0, 0) else (as_text st, as_position st));
        n \<leftarrow> text_cursor_summary snap fragment_offset text_offset;
        Some (position + n, \<lparr>as_start = start, as_cursor = c, as_text = fragment_offset, as_position = position + n\<rparr>)
      })"

fun summaries_impl :: "bool \<Rightarrow> snapshot \<Rightarrow> (anchor \<times> 'p) list \<Rightarrow> anchors_state \<Rightarrow> (nat \<times> 'p) list run" where
  "summaries_impl allow_backwards snap [] st = Some []"
| "summaries_impl allow_backwards snap ((a, payload) # anchors) st = do {
     (position, st1) \<leftarrow> anchor_summary_step allow_backwards snap a st;
     rest \<leftarrow> summaries_impl allow_backwards snap anchors st1;
     Some ((position, payload) # rest)
   }"

definition summaries_for_anchors_with_payload :: "snapshot \<Rightarrow> (anchor \<times> 'p) list \<Rightarrow> (nat \<times> 'p) list run" where
  "summaries_for_anchors_with_payload snap anchors = summaries_impl False snap anchors (anchors_init snap)"

definition summaries_for_anchors :: "snapshot \<Rightarrow> anchor list \<Rightarrow> nat list run" where
  "summaries_for_anchors snap anchors =
     map_option (map fst) (summaries_for_anchors_with_payload snap (map (\<lambda>a. (a, ())) anchors))"

definition summaries_for_anchors_unordered :: "snapshot \<Rightarrow> anchor list \<Rightarrow> nat list run" where
  "summaries_for_anchors_unordered snap anchors =
     map_option (map fst) (summaries_impl True snap (map (\<lambda>a. (a, ())) anchors) (anchors_init snap))"

end
