(* ===== verification/Local_Edit_Proofs.thy ===== *)
theory Local_Edit_Proofs
  imports Local_Edit
begin

text \<open>
  Correctness of local edits. A ghost function \<open>ins\<close> gives the text each operation inserted; a fragment stands for a range
  of the text its operation inserted. The invariant of a snapshot says that its two texts are the concatenations
  of the ranges of its visible and of its deleted fragments, and that the fragments are in the order of their
  locators.
\<close>

subsection \<open>The text of fragments\<close>

definition content :: "(lamport \<Rightarrow> bytes) \<Rightarrow> fragment \<Rightarrow> bytes" where
  "content ins f = take (frag_len f) (drop (frag_offset f) (ins (frag_timestamp f)))"

definition vis_text :: "(lamport \<Rightarrow> bytes) \<Rightarrow> fragment list \<Rightarrow> bytes" where
  "vis_text ins fs = concat (map (content ins) (filter frag_visible fs))"

definition del_text :: "(lamport \<Rightarrow> bytes) \<Rightarrow> fragment list \<Rightarrow> bytes" where
  "del_text ins fs = concat (map (content ins) (filter (\<lambda>f. \<not> frag_visible f) fs))"

definition frag_wf :: "(lamport \<Rightarrow> bytes) \<Rightarrow> fragment \<Rightarrow> bool" where
  "frag_wf ins f \<longleftrightarrow> frag_len f > 0 \<and> frag_offset f + frag_len f \<le> length (ins (frag_timestamp f))"

definition id_ok :: "locator \<Rightarrow> bool" where
  "id_ok i \<longleftrightarrow> last i \<noteq> 0 \<and> locator_min < i \<and> i < locator_max"

definition ids_ok :: "fragment list \<Rightarrow> bool" where
  "ids_ok fs \<longleftrightarrow> sorted_wrt (\<lambda>f g. frag_id f < frag_id g) fs \<and> (\<forall>f \<in> set fs. id_ok (frag_id f))"

definition snapshot_ok :: "(lamport \<Rightarrow> bytes) \<Rightarrow> snapshot \<Rightarrow> bool" where
  "snapshot_ok ins snap \<longleftrightarrow>
     (\<forall>f \<in> set (fragments snap). frag_wf ins f) \<and> ids_ok (fragments snap)
     \<and> visible_text snap = vis_text ins (fragments snap) \<and> deleted_text snap = del_text ins (fragments snap)"

lemma text_simps [simp]:
  "vis_text ins [] = []" "del_text ins [] = []"
  "vis_text ins (f # fs) = (if frag_visible f then content ins f else []) @ vis_text ins fs"
  "del_text ins (f # fs) = (if frag_visible f then [] else content ins f) @ del_text ins fs"
  "vis_text ins (fs @ gs) = vis_text ins fs @ vis_text ins gs"
  "del_text ins (fs @ gs) = del_text ins fs @ del_text ins gs"
  by (simp_all add: vis_text_def del_text_def)

lemma length_content [simp]: "frag_wf ins f \<Longrightarrow> length (content ins f) = frag_len f"
  by (auto simp: frag_wf_def content_def)

lemma length_texts:
  "\<forall>f \<in> set fs. frag_wf ins f \<Longrightarrow> length (vis_text ins fs) = sum_list (map vis_len fs)"
  "\<forall>f \<in> set fs. frag_wf ins f \<Longrightarrow> length (del_text ins fs) = sum_list (map del_len fs)"
  by (induction fs) (simp_all add: vis_len_def del_len_def)

lemma texts_cong:
  "\<forall>f \<in> set fs. content i f = content j f \<Longrightarrow> vis_text i fs = vis_text j fs \<and> del_text i fs = del_text j fs"
  by (induction fs) auto

text \<open>A part of a fragment stands for the same part of its text.\<close>

lemma content_part:
  assumes "frag_timestamp g = frag_timestamp f" "frag_offset g = frag_offset f + k" "frag_len g = m" "k + m \<le> frag_len f"
  shows "content ins g = take m (drop k (content ins f))"
  using assms by (simp add: content_def drop_take min_absorb1 add.commute)

lemma frag_wf_part:
  assumes "frag_wf ins f" "frag_timestamp g = frag_timestamp f" "frag_offset g = frag_offset f + k" "frag_len g = m" "k + m \<le> frag_len f" "0 < m"
  shows "frag_wf ins g"
  using assms by (simp add: frag_wf_def)

subsection \<open>Locators\<close>

definition max_id :: "fragment list \<Rightarrow> locator" where
  "max_id fs = (if fs = [] then locator_min else frag_id (last fs))"

definition next_id :: "fragment list \<Rightarrow> locator" where
  "next_id rest = (case rest of [] \<Rightarrow> locator_max | f # _ \<Rightarrow> frag_id f)"

lemma locator_ends: "locator_min < locator_max" "last locator_max \<noteq> 0"
  by (simp_all add: locator_min_def locator_max_def word_gt_0)

lemma max_id_less_next_id:
  assumes "ids_ok (N @ rest)"
  shows "max_id N < next_id rest" "last (next_id rest) \<noteq> 0" "locator_min \<le> max_id N" "next_id rest \<le> locator_max"
  using assms locator_ends
  by (cases N rule: rev_cases; cases rest; auto simp: max_id_def next_id_def ids_ok_def id_ok_def sorted_wrt_append)+

lemma ids_ok_insert:
  assumes "ids_ok (N @ rest)" "frag_id g = between (max_id N) (next_id rest)"
  shows "ids_ok (N @ g # rest)"
proof -
  note b = max_id_less_next_id [OF assms(1)]
  have g: "max_id N < frag_id g" "frag_id g < next_id rest" "last (frag_id g) \<noteq> 0"
    using lhs_less_between between_less_rhs [OF b(1,2)] last_between assms(2) by auto
  have "frag_id f \<le> max_id N" if "f \<in> set N" for f
    using assms(1) that by (cases N rule: rev_cases) (auto simp: ids_ok_def max_id_def sorted_wrt_append)
  moreover have "next_id rest \<le> frag_id f" if "f \<in> set rest" for f
    using assms(1) that by (cases rest) (auto simp: ids_ok_def next_id_def sorted_wrt_append)
  ultimately show ?thesis using assms(1) g b
    by (auto simp: ids_ok_def id_ok_def sorted_wrt_append dest: order.strict_trans1 order.strict_trans2)
qed

lemma ids_ok_replace: "ids_ok (N @ f # fs) \<Longrightarrow> frag_id g = frag_id f \<Longrightarrow> ids_ok (N @ g # fs)"
  by (auto simp: ids_ok_def sorted_wrt_append)

lemma ids_ok_drop: "ids_ok (N @ f # fs) \<Longrightarrow> ids_ok (N @ fs)"
  by (auto simp: ids_ok_def sorted_wrt_append)

subsection \<open>The invariant of the loop\<close>

text \<open>\<open>N\<close> are the new fragments, \<open>rest\<close> the old ones from the cursor on, \<open>k\<close> bytes of the first of which have been consumed,
  and \<open>start\<close> bytes of the old visible text \<open>V\<close>.\<close>

definition editing ::
  "(lamport \<Rightarrow> bytes) \<Rightarrow> bytes \<Rightarrow> fragment list \<Rightarrow> fragment list \<Rightarrow> nat \<Rightarrow> nat \<Rightarrow> rope_builder \<Rightarrow> patch \<Rightarrow> bool" where
  "editing ins V N rest k start rb p \<longleftrightarrow>
     (k > 0 \<longrightarrow> rest \<noteq> [] \<and> frag_visible (hd rest) \<and> k \<le> frag_len (hd rest))
     \<and> old_visible rb = drop start V \<and> drop k (vis_text ins rest) = drop start V \<and> start \<le> length V
     \<and> old_deleted rb = del_text ins rest
     \<and> new_visible rb = vis_text ins N \<and> new_deleted rb = del_text ins N
     \<and> (\<forall>f \<in> set (N @ rest). frag_wf ins f) \<and> ids_ok (N @ rest)
     \<and> composed_to V (new_visible rb) p (int start) (int (length (new_visible rb)))"

lemma composed_to_append:
  "composed_to A B p i j \<Longrightarrow> j \<le> int (length B) \<Longrightarrow> composed_to A (B @ X) p i j"
  by (simp add: composed_to_def describes_from_append)

text \<open>Copying unchanged text extends what the patch describes.\<close>

lemma composed_to_copy:
  assumes "composed_to V nv p (int start) (int (length nv))" "X = take m (drop start V)" "start + m \<le> length V"
  shows "composed_to V (nv @ X) p (int (start + m)) (int (length (nv @ X)))"
proof -
  have "agree V (nv @ X) (int start) (int (length nv)) (int m)"
    using assms(2,3) by (auto simp: agree_def nat_add_distrib nth_append)
  from composed_to_extend [OF composed_to_append [OF assms(1)] _ this] assms(2,3) show ?thesis
    by (simp add: add.commute)
qed

lemma rb_push_simps [simp]:
  "old_visible (rb_push n w v rb) = (if w then drop n (old_visible rb) else old_visible rb)"
  "old_deleted (rb_push n w v rb) = (if w then old_deleted rb else drop n (old_deleted rb))"
  "new_visible (rb_push n w v rb) = new_visible rb @ (if v then take n (if w then old_visible rb else old_deleted rb) else [])"
  "new_deleted (rb_push n w v rb) = new_deleted rb @ (if v then [] else take n (if w then old_visible rb else old_deleted rb))"
  by (auto simp: rb_push_def)

lemma rb_push_str_simps [simp]:
  "old_visible (rb_push_str t rb) = old_visible rb" "old_deleted (rb_push_str t rb) = old_deleted rb"
  "new_visible (rb_push_str t rb) = new_visible rb @ t" "new_deleted (rb_push_str t rb) = new_deleted rb"
  by (simp_all add: rb_push_str_def)

lemma drop_further: "drop k X = drop start V \<Longrightarrow> drop (k + m) X = drop (start + m) V"
  by (metis add.commute drop_drop)

text \<open>What the old visible text starts with while the first fragment is visible.\<close>

lemma editing_current:
  assumes "editing ins V N (f # fs) k start rb p" "frag_visible f" "k + m \<le> frag_len f"
  shows "take m (old_visible rb) = take m (drop k (content ins f))" "take m (old_visible rb) = take m (drop start V)"
    "start + m \<le> length V" "frag_wf ins f" "drop m (old_visible rb) = drop (k + m) (content ins f) @ vis_text ins fs"
proof -
  show wf: "frag_wf ins f" and old: "take m (old_visible rb) = take m (drop start V)" using assms by (auto simp: editing_def)
  have "drop k (vis_text ins (f # fs)) = drop start V" using assms(1) unfolding editing_def by argo
  then have V: "drop start V = drop k (content ins f) @ vis_text ins fs" using assms(2,3) wf by simp
  then have "length V - start = frag_len f - k + length (vis_text ins fs)" using wf by (metis length_append length_content length_drop)
  with assms show "start + m \<le> length V" by (auto simp: editing_def)
  show "take m (old_visible rb) = take m (drop k (content ins f))" using old V assms(3) wf by simp
  have "drop m (drop start V) = drop (k + m) (content ins f) @ vis_text ins fs"
    unfolding V using assms(3) wf by (simp add: add.commute)
  then show "drop m (old_visible rb) = drop (k + m) (content ins f) @ vis_text ins fs" using assms(1) by (simp add: editing_def)
qed

lemma editing_prefix:
  assumes "editing ins V N (f # fs) k start rb p" "frag_visible f" "0 < m" "k + m \<le> frag_len f"
    and "frag_timestamp g = frag_timestamp f" "frag_offset g = frag_offset f + k" "frag_len g = m" "frag_visible g"
    and "frag_id g = between (max_id N) (frag_id f)"
  shows "editing ins V (N @ [g]) (f # fs) (k + m) (start + m) (rb_push_fragment g True rb) p"
proof -
  note cur = editing_current [OF assms(1,2,4)]
  have g: "content ins g = take m (old_visible rb)" "frag_wf ins g"
    using content_part [OF assms(5-7,4)] frag_wf_part [OF cur(4) assms(5-7,4,3)] cur(1) by simp_all
  have "composed_to V (new_visible rb @ content ins g) p (int (start + m)) (int (length (new_visible rb @ content ins g)))"
    using assms(1) cur(2,3) g by (intro composed_to_copy) (auto simp: editing_def)
  moreover have "ids_ok (N @ [g] @ f # fs)"
    using ids_ok_insert [of N "f # fs" g] assms(1,9) by (simp add: editing_def next_id_def)
  moreover have "drop (k + m) (vis_text ins (f # fs)) = drop (start + m) V"
    using assms(1) by (intro drop_further) (simp add: editing_def)
  ultimately show ?thesis using assms g cur(3) by (simp add: editing_def rb_push_fragment_def add.commute)
qed

lemma editing_suffix:
  assumes "editing ins V N (f # fs) k start rb p" "frag_visible f" "0 < m" "k + m = frag_len f"
    and "frag_timestamp g = frag_timestamp f" "frag_offset g = frag_offset f + k" "frag_len g = m" "frag_visible g" "frag_id g = frag_id f"
  shows "editing ins V (N @ [g]) fs 0 (start + m) (rb_push_fragment g True rb) p"
proof -
  have le: "k + m \<le> frag_len f" using assms(4) by simp
  note cur = editing_current [OF assms(1,2) le]
  have g: "content ins g = take m (old_visible rb)" "frag_wf ins g"
    using content_part [OF assms(5-7) le] frag_wf_part [OF cur(4) assms(5-7) le assms(3)] cur(1) by simp_all
  have "composed_to V (new_visible rb @ content ins g) p (int (start + m)) (int (length (new_visible rb @ content ins g)))"
    using assms(1) cur(2,3) g by (intro composed_to_copy) (auto simp: editing_def)
  moreover have "ids_ok (N @ g # fs)" using ids_ok_replace [of N f fs g] assms(1,9) by (simp add: editing_def)
  moreover have "drop m (old_visible rb) = vis_text ins fs" "drop m (old_visible rb) = drop (start + m) V"
    using assms(1,4) cur(4,5) by (auto simp: editing_def add.commute)
  ultimately show ?thesis using assms g cur(3,4) by (auto simp: editing_def rb_push_fragment_def)
qed

lemma editing_delete:
  assumes "editing ins V N (f # fs) k start rb p" "frag_visible f" "0 < m" "k + m \<le> frag_len f"
    and "frag_timestamp g = frag_timestamp f" "frag_offset g = frag_offset f + k" "frag_len g = m" "\<not> frag_visible g"
    and "frag_id g = between (max_id N) (frag_id f)" "j = int (sum_list (map vis_len N))"
  shows "editing ins V (N @ [g]) (f # fs) (k + m) (start + m) (rb_push_fragment g True rb)
    (patch_push p (edit_of (int start) (int (start + m)) j j))"
proof -
  note cur = editing_current [OF assms(1,2,4)]
  have g: "content ins g = take m (old_visible rb)" "frag_wf ins g"
    using content_part [OF assms(5-7,4)] frag_wf_part [OF cur(4) assms(5-7,4,3)] cur(1) by simp_all
  have j: "j = int (length (new_visible rb))" using assms(1,10) length_texts(1) [of N ins] by (auto simp: editing_def)
  from j have "composed_to V (new_visible rb) (patch_push p (edit_of (int start) (int (start + m)) j j)) (int (start + m)) j"
    using assms(1) by (intro composed_to_push) (auto simp: editing_def)
  moreover have "ids_ok (N @ [g] @ f # fs)"
    using ids_ok_insert [of N "f # fs" g] assms(1,9) by (simp add: editing_def next_id_def)
  moreover have "drop (k + m) (vis_text ins (f # fs)) = drop (start + m) V"
    using assms(1) by (intro drop_further) (simp add: editing_def)
  ultimately show ?thesis using assms g cur(3) j by (simp add: editing_def rb_push_fragment_def add.commute)
qed

lemma editing_next:
  assumes "editing ins V N (f # fs) k start rb p" "frag_visible f" "k = frag_len f"
  shows "editing ins V N fs 0 start rb p"
  using assms ids_ok_drop [of N f fs] by (auto simp: editing_def)

lemma editing_old_deleted:
  assumes "editing ins V N (f # fs) 0 start rb p" "\<not> frag_visible f"
  shows "editing ins V (N @ [f]) fs 0 start (rb_push_fragment f False rb) p"
  using assms by (auto simp: editing_def rb_push_fragment_def)

lemma editing_append:
  assumes "editing ins V N (us @ vs) 0 start rb p"
  shows "editing ins V (N @ us) vs 0 (start + sum_list (map vis_len us)) (rb_append (fs_text (builder_summary us)) rb) p"
proof -
  have wf: "\<forall>f \<in> set us. frag_wf ins f" using assms by (auto simp: editing_def)
  note len = length_texts [OF wf]
  have ov: "old_visible rb = vis_text ins us @ vis_text ins vs" "old_visible rb = drop start V" "start \<le> length V"
    using assms by (auto simp: editing_def)
  then have "length V - start = length (vis_text ins us) + length (vis_text ins vs)" by (metis length_append length_drop)
  with ov(3) len have le: "start + sum_list (map vis_len us) \<le> length V" by linarith
  have t: "take (sum_list (map vis_len us)) (drop start V) = vis_text ins us" using ov(1) len unfolding ov(2) by simp
  then have "composed_to V (new_visible rb @ vis_text ins us) p (int (start + sum_list (map vis_len us))) (int (length (new_visible rb @ vis_text ins us)))"
    using assms le by (intro composed_to_copy) (auto simp: editing_def)
  moreover have "vis_text ins vs = drop (start + sum_list (map vis_len us)) V"
  proof -
    have "vis_text ins vs = drop (sum_list (map vis_len us)) (vis_text ins us @ vis_text ins vs)" using len by simp
    also have "\<dots> = drop (start + sum_list (map vis_len us)) V" by (metis ov(1,2) drop_drop add.commute)
    finally show ?thesis .
  qed
  ultimately show ?thesis using assms len le ov(2) by (simp add: editing_def rb_append_def t add.commute)
qed

lemma editing_insert:
  assumes "editing ins V N rest k start rb p" "t \<noteq> []" "frag_visible g" "content ins g = t" "frag_wf ins g"
    and "frag_id g = between (max_id N) (next_id rest)" "j = int (sum_list (map vis_len N))"
  shows "editing ins V (N @ [g]) rest k start (rb_push_str t rb)
    (patch_push p (edit_of (int start) (int start) j (j + int (length t))))"
proof -
  have j: "j = int (length (new_visible rb))" using assms(1,7) length_texts(1) [of N ins] by (auto simp: editing_def)
  have "composed_to V (new_visible rb @ t) p (int start) j"
    using assms(1) j by (intro composed_to_append) (auto simp: editing_def)
  then have "composed_to V (new_visible rb @ t) (patch_push p (edit_of (int start) (int start) j (j + int (length t))))
      (int start) (j + int (length t))"
    by (intro composed_to_push) auto
  moreover have "ids_ok (N @ [g] @ rest)" using ids_ok_insert [of N rest g] assms(1,6) by (simp add: editing_def)
  ultimately show ?thesis using assms j by (simp add: editing_def)
qed

subsection \<open>The operations keep the invariant\<close>

definition edit_inv :: "(lamport \<Rightarrow> bytes) \<Rightarrow> bytes \<Rightarrow> edit_state \<Rightarrow> bool" where
  "edit_inv ins V st \<longleftrightarrow>
     cur_visible (st_cursor st) \<le> st_start st
     \<and> editing ins V (st_fragments st) (cur_rest (st_cursor st)) (st_start st - cur_visible (st_cursor st)) (st_start st)
         (st_ropes st) (st_patch st)"

abbreviation built :: "edit_state \<Rightarrow> bytes" where
  "built st \<equiv> new_visible (st_ropes st)"

text \<open>What the operations leave alone.\<close>

definition same_log :: "edit_state \<Rightarrow> edit_state \<Rightarrow> bool" where
  "same_log st st' \<longleftrightarrow> st_offset st' = st_offset st \<and> st_ranges st' = st_ranges st \<and> st_texts st' = st_texts st"

lemma push_rewritten_simps [simp]:
  "st_cursor (push_rewritten f w st) = st_cursor st" "st_start (push_rewritten f w st) = st_start st"
  "st_fragments (push_rewritten f w st) = st_fragments st @ [f]" "st_ropes (push_rewritten f w st) = rb_push_fragment f w (st_ropes st)"
  "st_patch (push_rewritten f w st) = st_patch st" "st_offset (push_rewritten f w st) = st_offset st"
  "st_ranges (push_rewritten f w st) = st_ranges st" "st_texts (push_rewritten f w st) = st_texts st"
  "st_slices (push_rewritten f w st) = st_slices st"
  by (simp_all add: push_rewritten_def)

lemma max_id_builder: "fs_max_id (builder_summary fs) = max_id fs"
  by (simp add: max_id_def)

lemma slice_right_ok:
  "slice_right target v d fs = (us, c) \<Longrightarrow>
     fs = us @ cur_rest c \<and> cur_visible c = v + sum_list (map vis_len us) \<and> (v \<le> target \<longrightarrow> cur_visible c \<le> target)
     \<and> (cur_rest c \<noteq> [] \<longrightarrow> target < cur_visible c + vis_len (hd (cur_rest c)))"
  by (induction target v d fs arbitrary: us rule: slice_right.induct) (auto split: if_splits prod.splits)

lemma editing_at_end: "editing ins V N [] k start rb p \<Longrightarrow> start = length V"
  by (simp add: editing_def)

text \<open>\<open>push_suffix\<close> leaves the recorded start behind: the position is then the start of the cursor.\<close>

lemma push_suffix_ok:
  assumes "edit_inv ins V st"
  shows "\<exists>st'. push_suffix st = Some st' \<and> same_log st st' \<and> st_start st \<le> cur_visible (st_cursor st')
    \<and> cur_visible (st_cursor st') \<le> max (st_start st) (frag_end (st_cursor st))
    \<and> editing ins V (st_fragments st') (cur_rest (st_cursor st')) 0 (cur_visible (st_cursor st')) (st_ropes st') (st_patch st')
    \<and> st_patch st' = st_patch st
    \<and> built st' = built st @ take (cur_visible (st_cursor st') - st_start st) (drop (st_start st) V)"
proof (cases "st_start st > cur_visible (st_cursor st)")
  case False
  with assms show ?thesis by (auto simp: edit_inv_def push_suffix_def same_log_def Let_def)
next
  case True
  let ?c = "st_cursor st" and ?k = "st_start st - cur_visible (st_cursor st)"
  have ed: "editing ins V (st_fragments st) (cur_rest ?c) ?k (st_start st) (st_ropes st) (st_patch st)"
    using assms by (simp add: edit_inv_def)
  with True obtain f fs where r: "cur_rest ?c = f # fs" "frag_visible f" "?k \<le> frag_len f"
    by (cases "cur_rest ?c") (auto simp: editing_def)
  have fe: "frag_end ?c = cur_visible ?c + frag_len f" using r by (simp add: frag_end_def vis_len_def)
  have nx: "frag_next ?c = \<lparr>cur_visible = cur_visible ?c + frag_len f, cur_deleted = cur_deleted ?c, cur_rest = fs\<rparr>"
    using r by (simp add: frag_next_def vis_len_def del_len_def)
  show ?thesis
  proof (cases "frag_end ?c > st_start st")
    case False
    then have k: "?k = frag_len f" and eq: "cur_visible ?c + frag_len f = st_start st" using r(3) fe True by simp_all
    have "editing ins V (st_fragments st) fs 0 (st_start st) (st_ropes st) (st_patch st)"
      using editing_next [OF ed [unfolded r(1)] r(2) k] .
    then show ?thesis using False True fe [unfolded eq] nx [unfolded eq] by (auto simp: push_suffix_def same_log_def Let_def)
  next
    case gt: True
    let ?m = "frag_end ?c - st_start st"
    let ?g = "f\<lparr>frag_len := ?m, frag_offset := frag_offset f + ?k\<rparr>"
    have m: "0 < ?m" "?k + ?m = frag_len f" using gt True fe r(3) by simp_all
    have "editing ins V (st_fragments st @ [?g]) fs 0 (st_start st + ?m) (rb_push_fragment ?g True (st_ropes st)) (st_patch st)"
      using r m by (intro editing_suffix [OF ed [unfolded r(1)] r(2) m]) auto
    moreover have "st_start st + ?m = cur_visible ?c + frag_len f" using gt fe by simp
    moreover have "old_visible (st_ropes st) = drop (st_start st) V" using ed by (simp add: editing_def)
    ultimately show ?thesis using gt True nx r fe
      by (auto simp: push_suffix_def same_log_def Let_def frag_item_def rb_push_fragment_def)
  qed
qed

lemma skip_to_ok:
  assumes "edit_inv ins V st" "st_start st \<le> s" "s \<le> length V"
  shows "\<exists>st'. skip_to s st = Some st' \<and> same_log st st' \<and> edit_inv ins V st' \<and> st_start st \<le> st_start st' \<and> st_start st' \<le> s
    \<and> s \<le> frag_end (st_cursor st') \<and> built st' = built st @ take (st_start st' - st_start st) (drop (st_start st) V)"
proof (cases "frag_end (st_cursor st) < s")
  case True
  from push_suffix_ok [OF assms(1)] obtain st1 where
    s1: "push_suffix st = Some st1" "same_log st st1" "st_start st \<le> cur_visible (st_cursor st1)"
      "cur_visible (st_cursor st1) \<le> max (st_start st) (frag_end (st_cursor st))"
      "editing ins V (st_fragments st1) (cur_rest (st_cursor st1)) 0 (cur_visible (st_cursor st1)) (st_ropes st1) (st_patch st1)"
      "built st1 = built st @ take (cur_visible (st_cursor st1) - st_start st) (drop (st_start st) V)" by blast
  obtain us c where sl: "frag_slice s (st_cursor st1) = (us, c)" by fastforce
  note ok = slice_right_ok [OF sl [unfolded frag_slice_def]]
  let ?st' = "st1\<lparr>st_ropes := rb_append (fs_text (builder_summary us)) (st_ropes st1), st_fragments := st_fragments st1 @ us,
      st_cursor := c, st_start := cur_visible c\<rparr>"
  have ed: "editing ins V (st_fragments st1 @ us) (cur_rest c) 0 (cur_visible c) (rb_append (fs_text (builder_summary us)) (st_ropes st1)) (st_patch st1)"
    using editing_append [of ins V "st_fragments st1" us "cur_rest c"] s1(5) ok by simp
  have le: "cur_visible (st_cursor st1) \<le> s" using s1(4) assms(2) True by simp
  then have c: "cur_visible c \<le> s" "cur_visible (st_cursor st1) \<le> cur_visible c" using ok by auto
  have "s \<le> frag_end c"
  proof (cases "cur_rest c")
    case Nil
    then show ?thesis using editing_at_end [of ins V "st_fragments st1 @ us"] ed assms(3) by (simp add: frag_end_def)
  qed (use ok in \<open>simp add: frag_end_def\<close>)
  moreover have "built ?st' = built st @ take (cur_visible c - st_start st) (drop (st_start st) V)"
  proof -
    let ?a = "cur_visible (st_cursor st1) - st_start st" and ?b = "sum_list (map vis_len us)"
    have "old_visible (st_ropes st1) = drop (st_start st + ?a) V" using s1(3,5) by (simp add: editing_def)
    then have "built ?st' = built st @ take ?a (drop (st_start st) V) @ take ?b (drop ?a (drop (st_start st) V))"
      using s1(6) by (simp add: rb_append_def add.commute)
    also have "\<dots> = built st @ take (?a + ?b) (drop (st_start st) V)" by (simp only: take_add)
    also have "?a + ?b = cur_visible c - st_start st" using ok s1(3) by simp
    finally show ?thesis .
  qed
  ultimately show ?thesis using True s1(1,2,3) sl ed c
    by (intro exI [of _ ?st']) (auto simp: skip_to_def edit_inv_def same_log_def)
qed (use assms in \<open>auto simp: skip_to_def same_log_def\<close>)

lemma push_prefix_ok:
  assumes "edit_inv ins V st" "st_start st \<le> s" "s \<le> frag_end (st_cursor st)"
  shows "\<exists>st'. push_prefix s st = Some st' \<and> same_log st st' \<and> edit_inv ins V st' \<and> st_start st' = s
    \<and> st_cursor st' = st_cursor st \<and> built st' = built st @ take (s - st_start st) (drop (st_start st) V)"
proof (cases "st_start st < s")
  case True
  let ?c = "st_cursor st" and ?k = "st_start st - cur_visible (st_cursor st)" and ?m = "s - st_start st"
  have ed: "editing ins V (st_fragments st) (cur_rest ?c) ?k (st_start st) (st_ropes st) (st_patch st)"
    and le: "cur_visible ?c \<le> st_start st" using assms by (simp_all add: edit_inv_def)
  obtain f fs where r: "cur_rest ?c = f # fs" "frag_visible f" "s \<le> cur_visible ?c + frag_len f"
    using True assms(3) le by (cases "cur_rest ?c") (auto simp: frag_end_def vis_len_def split: if_splits)
  let ?g = "f\<lparr>frag_len := ?m, frag_offset := frag_offset f + ?k,
      frag_id := between (fs_max_id (builder_summary (st_fragments st))) (frag_id f)\<rparr>"
  have m: "0 < ?m" "?k + ?m \<le> frag_len f" using True r(3) le by simp_all
  have "editing ins V (st_fragments st @ [?g]) (f # fs) (?k + ?m) (st_start st + ?m) (rb_push_fragment ?g True (st_ropes st)) (st_patch st)"
    by (rule editing_prefix [OF ed [unfolded r(1)] r(2) m]) (simp_all add: r max_id_def)
  moreover have "?k + ?m = s - cur_visible ?c" "st_start st + ?m = s" using True le by simp_all
  moreover have "old_visible (st_ropes st) = drop (st_start st) V" using ed by (simp add: editing_def)
  ultimately show ?thesis using True r le
    by (auto simp: push_prefix_def edit_inv_def same_log_def frag_item_def rb_push_fragment_def Let_def)
qed (use assms in \<open>auto simp: push_prefix_def same_log_def\<close>)

lemma insertion_loop_single:
  assumes "t \<noteq> []" "length t \<le> MAX_INSERTION_LEN"
  shows "insertion_loop t ts nid 0 st =
     (let f = \<lparr>frag_id = between (fs_max_id (builder_summary (st_fragments st))) nid, frag_timestamp = ts,
               frag_offset = st_offset st, frag_len = length t, frag_visible = True, frag_deletions = [], frag_max_undos = global_new\<rparr>
      in Some (st\<lparr>st_slices := st_slices st @ [insertion_slice_from_fragment ts f],
                  st_insertions := st_insertions st @ [insertion_fragment_new f],
                  st_fragments := st_fragments st @ [f], st_offset := st_offset st + length t\<rparr>))"
proof -
  have "insertion_loop t ts nid (length t) st' = Some st'" for st' by (subst insertion_loop.simps) simp
  then show ?thesis using assms by (subst insertion_loop.simps) (simp add: Let_def chunk_target_def min_absorb1)
qed

lemma push_insertion_ok:
  assumes "edit_inv ins V st" "length t \<le> MAX_INSERTION_LEN" "ins ts = P @ t @ Q" "length P = st_offset st"
  shows "\<exists>st'. push_insertion t ts st = Some st' \<and> edit_inv ins V st' \<and> st_start st' = st_start st
    \<and> st_offset st' = st_offset st + length t \<and> st_texts st' = st_texts st \<and> built st' = built st @ t"
proof (cases "t = []")
  case True
  with assms show ?thesis by (simp add: push_insertion_def)
next
  case False
  let ?c = "st_cursor st"
  let ?g = "\<lparr>frag_id = between (fs_max_id (builder_summary (st_fragments st))) (next_fragment_id ?c), frag_timestamp = ts,
      frag_offset = st_offset st, frag_len = length t, frag_visible = True, frag_deletions = [], frag_max_undos = global_new\<rparr>"
  let ?j = "int (sum_list (map vis_len (st_fragments st)))"
  have nid: "next_fragment_id ?c = next_id (cur_rest ?c)"
    by (simp add: next_fragment_id_def next_id_def frag_item_def split: list.splits)
  have "content ins ?g = t" "frag_wf ins ?g" using assms(3,4) False by (simp_all add: content_def frag_wf_def)
  then have "editing ins V (st_fragments st @ [?g]) (cur_rest ?c) (st_start st - cur_visible ?c) (st_start st)
      (rb_push_str t (st_ropes st)) (patch_push (st_patch st) (edit_of (int (st_start st)) (int (st_start st)) ?j (?j + int (length t))))"
    using assms(1) False nid by (intro editing_insert) (auto simp: edit_inv_def max_id_def)
  then show ?thesis using False assms(1)
    by (simp add: push_insertion_def push_fragments_for_insertion_def insertion_loop_single [OF False assms(2)] Let_def edit_inv_def)
qed

lemma delete_step_ok:
  assumes "edit_inv ins V st" "st_start st < e" "cur_rest (st_cursor st) = f # fs"
  shows "edit_inv ins V (delete_step ts e f st) \<and> same_log st (delete_step ts e f st) \<and> built (delete_step ts e f st) = built st
    \<and> st_start (delete_step ts e f st) \<le> e
    \<and> (st_start (delete_step ts e f st) = e \<or> cur_rest (st_cursor (delete_step ts e f st)) = fs)"
proof -
  let ?c = "st_cursor st" and ?k = "st_start st - cur_visible (st_cursor st)"
  have ed: "editing ins V (st_fragments st) (f # fs) ?k (st_start st) (st_ropes st) (st_patch st)"
    and le: "cur_visible ?c \<le> st_start st" using assms by (simp_all add: edit_inv_def)
  have fe: "frag_end ?c = cur_visible ?c + vis_len f" and nx: "frag_next ?c = \<lparr>cur_visible = cur_visible ?c + vis_len f,
      cur_deleted = cur_deleted ?c + del_len f, cur_rest = fs\<rparr>"
    using assms(3) by (simp_all add: frag_end_def frag_next_def)
  have wf: "frag_wf ins f" and kle: "?k > 0 \<longrightarrow> frag_visible f \<and> ?k \<le> frag_len f" using ed by (auto simp: editing_def)
  show ?thesis
  proof (cases "frag_visible f")
    case False
    then have k: "?k = 0" "cur_visible ?c = st_start st" using kle le by auto
    have "editing ins V (st_fragments st @ [f]) fs 0 (st_start st) (rb_push_fragment f False (st_ropes st)) (st_patch st)"
      using editing_old_deleted [OF ed [unfolded k(1)] False] .
    then show ?thesis using False k assms(2) wf fe nx
      by (simp add: delete_step_def Let_def edit_inv_def same_log_def vis_len_def frag_wf_def rb_push_fragment_def)
  next
    case vis: True
    let ?ie = "min e (frag_end ?c)" and ?g = "f\<lparr>frag_len := min e (frag_end ?c) - st_start st, frag_offset := frag_offset f + ?k,
        frag_id := between (fs_max_id (builder_summary (st_fragments st))) (frag_id f),
        frag_deletions := frag_deletions f @ [ts], frag_visible := False\<rparr>"
    let ?m = "?ie - st_start st"
    have fe': "frag_end ?c = cur_visible ?c + frag_len f" using fe vis by (simp add: vis_len_def)
    have sle: "st_start st \<le> frag_end ?c" using kle le fe' by linarith
    show ?thesis
    proof (cases "?m > 0")
      case True
      let ?j = "int (sum_list (map vis_len (st_fragments st)))"
      let ?p = "patch_push (st_patch st) (edit_of (int (st_start st)) (int (st_start st + ?m)) ?j ?j)"
      have m: "?k + ?m \<le> frag_len f" using fe' le sle min.cobounded2 [of e "frag_end ?c"] by arith
      have new: "editing ins V (st_fragments st @ [?g]) (f # fs) (?k + ?m) (st_start st + ?m) (rb_push_fragment ?g True (st_ropes st)) ?p"
        by (rule editing_delete [OF ed vis True m]) (simp_all add: max_id_def)
      have start: "st_start st + ?m = ?ie" using True by simp
      show ?thesis
      proof (cases "frag_end ?c \<le> e")
        case full: True
        then have "?k + ?m = frag_len f" using fe' le sle by simp
        from editing_next [OF new vis this] show ?thesis using True full vis nx start fe fe'
          by (simp add: delete_step_def Let_def edit_inv_def same_log_def rb_push_fragment_def min_absorb2)
      next
        case part: False
        then have "?k + ?m = e - cur_visible ?c" using le True by simp
        with new show ?thesis using True part vis start assms le
          by (simp add: delete_step_def Let_def edit_inv_def same_log_def rb_push_fragment_def min_absorb1)
      qed
    next
      case False
      then have full: "frag_end ?c = st_start st" "frag_end ?c \<le> e" using sle assms(2) by auto
      then have "?k = frag_len f" using fe' le by simp
      from editing_next [OF ed vis this] show ?thesis using False full vis nx fe assms(2)
        by (simp add: delete_step_def Let_def edit_inv_def same_log_def)
    qed
  qed
qed

lemma delete_loop_ok:
  "edit_inv ins V st \<Longrightarrow> st_start st \<le> e \<Longrightarrow> e \<le> length V \<Longrightarrow>
     \<exists>st'. delete_loop ts e st = Some st' \<and> edit_inv ins V st' \<and> same_log st st' \<and> built st' = built st \<and> st_start st' = e"
proof (induction "length (cur_rest (st_cursor st))" arbitrary: st rule: less_induct)
  case less
  show ?case
  proof (cases "st_start st < e")
    case True
    then obtain f fs where r: "cur_rest (st_cursor st) = f # fs"
      using less.prems editing_at_end by (cases "cur_rest (st_cursor st)") (fastforce simp: edit_inv_def)+
    let ?st = "delete_step ts e f st"
    from delete_step_ok [OF less.prems(1) True r, of ts] have step: "edit_inv ins V ?st" "same_log st ?st" "built ?st = built st"
      "st_start ?st \<le> e" "st_start ?st = e \<or> cur_rest (st_cursor ?st) = fs" by blast+
    have unfold: "delete_loop ts e st = delete_loop ts e ?st"
      using True r by (subst delete_loop.simps) (simp add: frag_item_def)
    show ?thesis
    proof (cases "st_start ?st = e")
      case True
      then have "delete_loop ts e ?st = Some ?st" by (subst delete_loop.simps) simp
      with True step unfold show ?thesis by simp
    next
      case False
      with step r have "length (cur_rest (st_cursor ?st)) < length (cur_rest (st_cursor st))" by simp
      from less.hyps [OF this step(1,4) less.prems(3)] unfold step(2,3) show ?thesis by (auto simp: same_log_def)
    qed
  next
    case False
    then have "delete_loop ts e st = Some st" by (subst delete_loop.simps) simp
    with False less.prems show ?thesis by (simp add: same_log_def)
  qed
qed

subsection \<open>Edits\<close>

fun edits_ok :: "nat \<Rightarrow> text_edits \<Rightarrow> nat \<Rightarrow> bool" where
  "edits_ok start [] n \<longleftrightarrow> True"
| "edits_ok start (((s, e), t) # es) n \<longleftrightarrow> start \<le> s \<and> s \<le> e \<and> e \<le> n \<and> edits_ok e es n"

fun splice_from :: "nat \<Rightarrow> bytes \<Rightarrow> text_edits \<Rightarrow> bytes" where
  "splice_from start V [] = drop start V"
| "splice_from start V (((s, e), t) # es) =
     take (s - start) (drop start V) @ normalize_text t @ splice_from e V es"

definition inserted :: "text_edits \<Rightarrow> bytes" where
  "inserted es = concat (map (normalize_text \<circ> snd) es)"

lemma inserted_simps [simp]: "inserted [] = []" "inserted ((r, t) # es) = normalize_text t @ inserted es"
  by (simp_all add: inserted_def)

lemma apply_one_edit_ok:
  assumes "edit_inv ins V st" "st_start st \<le> s" "s \<le> e" "e \<le> length V"
    and "length (normalize_text t) \<le> MAX_INSERTION_LEN" "ins ts = P @ normalize_text t @ Q" "length P = st_offset st"
  shows "\<exists>st'. apply_one_edit ts ((s, e), t) st = Some st' \<and> edit_inv ins V st' \<and> st_start st' = e
    \<and> st_offset st' = st_offset st + length (normalize_text t) \<and> st_texts st' = st_texts st @ [normalize_text t]
    \<and> built st' = built st @ take (s - st_start st) (drop (st_start st) V) @ normalize_text t"
proof -
  from assms have sV: "s \<le> length V" by simp
  from skip_to_ok [OF assms(1,2) sV] obtain st1 where s1: "skip_to s st = Some st1" "same_log st st1" "edit_inv ins V st1"
    "st_start st \<le> st_start st1" "st_start st1 \<le> s" "s \<le> frag_end (st_cursor st1)"
    "built st1 = built st @ take (st_start st1 - st_start st) (drop (st_start st) V)" by blast
  from push_prefix_ok [OF s1(3,5,6)] obtain st2 where s2: "push_prefix s st1 = Some st2" "same_log st1 st2" "edit_inv ins V st2"
    "st_start st2 = s" "built st2 = built st1 @ take (s - st_start st1) (drop (st_start st1) V)" by blast
  have "length P = st_offset st2" using assms(7) s1(2) s2(2) by (simp add: same_log_def)
  from push_insertion_ok [OF s2(3) assms(5,6) this] obtain st3 where s3: "push_insertion (normalize_text t) ts st2 = Some st3"
    "edit_inv ins V st3" "st_start st3 = st_start st2" "st_offset st3 = st_offset st2 + length (normalize_text t)"
    "st_texts st3 = st_texts st2" "built st3 = built st2 @ normalize_text t" by blast
  have "st_start st3 \<le> e" using s3(3) s2(4) assms(3) by simp
  from delete_loop_ok [OF s3(2) this assms(4), of ts] obtain st4 where s4: "delete_loop ts e st3 = Some st4" "edit_inv ins V st4"
    "same_log st3 st4" "built st4 = built st3" "st_start st4 = e" by blast
  have "built st2 = built st @ take (s - st_start st) (drop (st_start st) V)"
  proof -
    let ?a = "st_start st1 - st_start st" and ?b = "s - st_start st1"
    have "drop (st_start st1) V = drop ?a (drop (st_start st) V)" using s1(4) by simp
    then have "built st2 = built st @ take (?a + ?b) (drop (st_start st) V)" using s1(7) s2(5) by (simp add: take_add)
    then show ?thesis using s1(4,5) by simp
  qed
  with s1 s2 s3 s4 show ?thesis by (simp add: apply_one_edit_def Let_def edit_inv_def same_log_def)
qed

lemma apply_edits_ok:
  "edit_inv ins V st \<Longrightarrow> edits_ok (st_start st) es (length V) \<Longrightarrow> length (inserted es) \<le> MAX_INSERTION_LEN \<Longrightarrow>
     ins ts = P @ inserted es \<Longrightarrow> length P = st_offset st \<Longrightarrow>
     \<exists>st'. apply_edits ts es st = Some st' \<and> edit_inv ins V st' \<and> st_texts st' = st_texts st @ map (normalize_text \<circ> snd) es
       \<and> built st' @ drop (st_start st') V = built st @ splice_from (st_start st) V es"
proof (induction es arbitrary: st P)
  case (Cons edit es)
  obtain s e t where edit: "edit = ((s, e), t)" by (metis surj_pair)
  let ?t = "normalize_text t"
  have ok: "st_start st \<le> s" "s \<le> e" "e \<le> length V" "edits_ok e es (length V)" "length ?t \<le> MAX_INSERTION_LEN"
    "ins ts = P @ ?t @ inserted es" using Cons.prems edit by auto
  from apply_one_edit_ok [OF Cons.prems(1) ok(1-3,5,6) Cons.prems(5)] obtain st1 where
    s1: "apply_one_edit ts ((s, e), t) st = Some st1" "edit_inv ins V st1" "st_start st1 = e"
      "st_offset st1 = st_offset st + length ?t" "st_texts st1 = st_texts st @ [?t]"
      "built st1 = built st @ take (s - st_start st) (drop (st_start st) V) @ ?t" by blast
  have "ins ts = (P @ ?t) @ inserted es" "length (P @ ?t) = st_offset st1" using ok(6) s1(4) Cons.prems(5) by simp_all
  from Cons.IH [OF s1(2) _ _ this] ok s1 Cons.prems(3) edit show ?case by auto
qed simp

lemma edit_start_ok:
  assumes "snapshot_ok ins snap"
  shows "edit_inv ins (visible_text snap) (edit_start s snap) \<and> st_offset (edit_start s snap) = 0 \<and> st_texts (edit_start s snap) = []
    \<and> st_start (edit_start s snap) \<le> s
    \<and> built (edit_start s snap) = take (st_start (edit_start s snap)) (visible_text snap)"
proof -
  let ?V = "visible_text snap"
  obtain us c where sl: "frag_slice s (frag_cursor_new (fragments snap)) = (us, c)" by fastforce
  note ok = slice_right_ok [OF sl [unfolded frag_slice_def]]
  have "editing ins ?V [] (fragments snap) 0 0 (rope_builder_new ?V (deleted_text snap)) []"
    using assms by (simp add: editing_def snapshot_ok_def rope_builder_new_def composed_to_def normal_def separated_def)
  then have ed: "editing ins ?V us (cur_rest c) 0 (cur_visible c)
      (rb_append (fs_text (builder_summary us)) (rope_builder_new ?V (deleted_text snap))) []"
    using editing_append [of ins ?V "[]" us "cur_rest c" 0 "rope_builder_new ?V (deleted_text snap)" "[]"] ok
    by (simp add: frag_cursor_new_def)
  then show ?thesis using sl ok
    by (simp add: edit_start_def edit_inv_def frag_cursor_new_def rb_append_def rope_builder_new_def)
qed

text \<open>Appending the remaining fragments completes the texts and the patch.\<close>

lemma editing_finish:
  assumes "editing ins V N rest 0 start rb p"
  shows "rb_finish (rb_append (fs_text (builder_summary rest)) rb) = (vis_text ins (N @ rest), del_text ins (N @ rest))"
    "(\<forall>f \<in> set (N @ rest). frag_wf ins f) \<and> ids_ok (N @ rest)"
    "describes p V (vis_text ins (N @ rest)) \<and> normal p"
    "vis_text ins (N @ rest) = new_visible rb @ drop start V"
proof -
  let ?rb = "rb_append (fs_text (builder_summary rest)) rb"
  have ed: "editing ins V (N @ rest) [] 0 (start + sum_list (map vis_len rest)) ?rb p"
    using editing_append [of ins V N rest "[]"] assms by simp
  note end_pos = editing_at_end [OF ed]
  have old: "old_visible ?rb = []" "old_deleted ?rb = []" and new: "new_visible ?rb = vis_text ins (N @ rest)" "new_deleted ?rb = del_text ins (N @ rest)"
    using ed end_pos by (simp_all add: editing_def)
  then show "rb_finish ?rb = (vis_text ins (N @ rest), del_text ins (N @ rest))" by (simp add: rb_finish_def)
  show "(\<forall>f \<in> set (N @ rest). frag_wf ins f) \<and> ids_ok (N @ rest)" using ed by (simp add: editing_def)
  have "composed_to V (new_visible ?rb) p (int (length V)) (int (length (new_visible ?rb)))"
    using ed unfolding end_pos editing_def by argo
  then show "describes p V (vis_text ins (N @ rest)) \<and> normal p" by (simp add: describes_def composed_to_def new(1))
  show "vis_text ins (N @ rest) = new_visible rb @ drop start V" using assms by (simp add: editing_def)
qed

lemma edit_finish_ok:
  assumes "edit_inv ins V st"
  shows "\<exists>snap'. edit_finish st snap = Some snap' \<and> snapshot_ok ins snap' \<and> visible_text snap' = built st @ drop (st_start st) V
    \<and> describes (st_patch st) V (visible_text snap') \<and> normal (st_patch st)"
proof -
  from push_suffix_ok [OF assms] obtain st1 where
    s1: "push_suffix st = Some st1" "st_start st \<le> cur_visible (st_cursor st1)"
      "editing ins V (st_fragments st1) (cur_rest (st_cursor st1)) 0 (cur_visible (st_cursor st1)) (st_ropes st1) (st_patch st1)"
      "st_patch st1 = st_patch st"
      "built st1 = built st @ take (cur_visible (st_cursor st1) - st_start st) (drop (st_start st) V)" by blast
  note fin = editing_finish [OF s1(3)]
  have "drop (cur_visible (st_cursor st1)) V = drop (cur_visible (st_cursor st1) - st_start st) (drop (st_start st) V)" using s1(2) by simp
  then have "built st1 @ drop (cur_visible (st_cursor st1)) V = built st @ drop (st_start st) V" 
    unfolding s1(5) by (simp only: append.assoc append_take_drop_id)
  with s1(1,4) fin show ?thesis by (simp add: edit_finish_def snapshot_ok_def Let_def)
qed

lemma snapshot_ok_fresh:
  assumes "snapshot_ok ins snap" "\<forall>f \<in> set (fragments snap). frag_timestamp f \<noteq> ts"
  shows "snapshot_ok (ins(ts := x)) snap"
proof -
  have "content (ins(ts := x)) f = content ins f" "frag_wf (ins(ts := x)) f = frag_wf ins f" if "f \<in> set (fragments snap)" for f
    using assms(2) that by (auto simp: content_def frag_wf_def)
  then show ?thesis using assms(1) texts_cong [of "fragments snap" "ins(ts := x)" ins] by (simp add: snapshot_ok_def)
qed

lemma apply_edit_internal_ok:
  assumes "snapshot_ok ins snap" "edits_ok 0 edits (length (visible_text snap))" "edits \<noteq> []"
    and "\<forall>f \<in> set (fragments snap). frag_timestamp f \<noteq> ts" "length (inserted edits) \<le> MAX_INSERTION_LEN"
  shows "\<exists>snap' op p. apply_edit_internal edits ts snap = Some (snap', op, p)
    \<and> visible_text snap' = splice_from 0 (visible_text snap) edits
    \<and> snapshot_ok (ins(ts := inserted edits)) snap'
    \<and> describes p (visible_text snap) (visible_text snap') \<and> normal p
    \<and> edit_timestamp op = ts \<and> edit_version op = snap_version snap \<and> edit_new_text op = map (normalize_text \<circ> snd) edits"
proof -
  let ?V = "visible_text snap" and ?ins = "ins(ts := inserted edits)"
  obtain s e t es where edits: "edits = ((s, e), t) # es" using assms(3) by (cases edits) auto
  let ?st = "edit_start s snap"
  note start = edit_start_ok [OF snapshot_ok_fresh [OF assms(1,4), of "inserted edits"], of s]
  have "edits_ok (st_start ?st) edits (length ?V)" using assms(2) start edits by simp
  from apply_edits_ok [OF _ this assms(5), of ?ins ts "[]"] start obtain st where
    st: "apply_edits ts edits ?st = Some st" "edit_inv ?ins ?V st" "st_texts st = map (normalize_text \<circ> snd) edits"
      "built st @ drop (st_start st) ?V = built ?st @ splice_from (st_start ?st) ?V edits" by auto
  from edit_finish_ok [OF st(2), of snap] obtain snap' where
    f: "edit_finish st snap = Some snap'" "snapshot_ok ?ins snap'" "visible_text snap' = built st @ drop (st_start st) ?V"
      "describes (st_patch st) ?V (visible_text snap')" "normal (st_patch st)" by blast
  have "take (st_start ?st) ?V @ take (s - st_start ?st) (drop (st_start ?st) ?V) = take s ?V"
    using start by (metis le_add_diff_inverse take_add)
  then have "built ?st @ splice_from (st_start ?st) ?V edits = splice_from 0 ?V edits"
    using start edits by simp
  with st f edits show ?thesis by (simp add: apply_edit_internal_def)
qed

text \<open>(C13) A local edit replaces exactly the given ranges. On a snapshot whose texts are those of its fragments, and for
  ordered, disjoint ranges inside the visible text, the edit returns (no panic, no endless loop) a snapshot
  whose visible text is the old one with each range replaced by its normalised text; the texts of the new snapshot
  are again those of its fragments, which are in the strict order of their locators; and the patch it publishes
  turns the old visible text into the new one.\<close>

theorem local_edit_replaces_ranges:
  assumes "snapshot_ok ins snap" "edits_ok 0 edits (length (visible_text snap))" "edits \<noteq> []"
    and "\<forall>f \<in> set (fragments snap). frag_timestamp f \<noteq> ts" "length (inserted edits) \<le> MAX_INSERTION_LEN"
  shows "\<exists>snap' op p. apply_edit_internal edits ts snap = Some (snap', op, p)
    \<and> visible_text snap' = splice_from 0 (visible_text snap) edits
    \<and> snapshot_ok (ins(ts := inserted edits)) snap'
    \<and> describes p (visible_text snap) (visible_text snap') \<and> normal p
    \<and> edit_timestamp op = ts \<and> edit_version op = snap_version snap \<and> edit_new_text op = map (normalize_text \<circ> snd) edits"
  using apply_edit_internal_ok [OF assms] .

definition example_snapshot :: snapshot where
  "example_snapshot = \<lparr>visible_text = [1, 2, 3], deleted_text = [],
     fragments = [\<lparr>frag_id = [5], frag_timestamp = Lamport 1 0, frag_offset = 0, frag_len = 3, frag_visible = True,
                    frag_deletions = [], frag_max_undos = global_new\<rparr>],
     insertions = [\<lparr>if_timestamp = Lamport 1 0, if_split_offset = 0, if_fragment_id = [5]\<rparr>], insertion_slices = [],
     snap_undo_map = um_new, snap_version = [1]\<rparr>"

lemma example_snapshot_ok: "snapshot_ok (\<lambda>_. [1, 2, 3]) example_snapshot"
  by (simp add: snapshot_ok_def example_snapshot_def frag_wf_def ids_ok_def id_ok_def content_def locator_min_def locator_max_def
      word_less_nat_alt unat_MAX)

theorem local_edit_replaces_ranges_witness:
  "\<exists>snap' op p. apply_edit_internal [((1, 2), [9])] (Lamport 2 1) example_snapshot = Some (snap', op, p)
     \<and> visible_text snap' = [1, 9, 3]"
  using local_edit_replaces_ranges [OF example_snapshot_ok, of "[((1, 2), [9])]" "Lamport 2 1"]
  by (auto simp: example_snapshot_def CR_def MAX_INSERTION_LEN_def)

end
