(* ===== verification/Undo_Proofs.thy ===== *)
theory Undo_Proofs
  imports Apply_Undo Local_Edit_Proofs
begin

text \<open>
  Correctness of undo operations on a snapshot: the index of insertions leads to exactly the fragments that the
  slices of the undone edits cover, each of them once; these get the visibility that the undo map gives them, and the two
  texts and the published patch agree with the new fragments.
\<close>

subsection \<open>The index of insertions\<close>

definition covers :: "insertion_slice \<Rightarrow> lamport \<Rightarrow> nat \<Rightarrow> bool" where
  "covers s ts offset \<longleftrightarrow> is_insertion_id s = ts \<and> is_start s \<le> offset \<and> offset < is_end s"

definition covers_item :: "insertion_slice \<Rightarrow> insertion_fragment \<Rightarrow> bool" where
  "covers_item s x \<longleftrightarrow> covers s (if_timestamp x) (if_split_offset x)"

lemma ic_advance_eq:
  assumes "sorted_keys if_key xs" "\<forall>x \<in> set xs. start \<le> if_key x"
  shows "ic_rest (ic_advance target start xs) = from_key if_key target xs \<and> ic_did_seek (ic_advance target start xs)
    \<and> (\<forall>x \<in> set (from_key if_key target xs). ic_start (ic_advance target start xs) \<le> if_key x)"
  using assms by (induction target start xs rule: ic_advance.induct) (auto simp: less_imp_le)

lemma collect_fragments_eq:
  assumes "sorted_keys if_key xs" "\<forall>x \<in> set xs. start \<le> if_key x"
  shows "\<exists>c. collect_fragments t e start xs = (map if_fragment_id (takeWhile (\<lambda>x. if_timestamp x = t \<and> if_split_offset x < e) xs), c)
    \<and> ic_rest c = dropWhile (\<lambda>x. if_timestamp x = t \<and> if_split_offset x < e) xs \<and> ic_did_seek c
    \<and> (\<forall>x \<in> set (ic_rest c). ic_start c \<le> if_key x)"
  using assms by (induction t e start xs rule: collect_fragments.induct) (auto simp: less_imp_le Let_def split: prod.splits)

text \<open>From the start of a slice on, the items it covers come first.\<close>

lemma covered_first:
  assumes "sorted_keys if_key xs" "\<forall>x \<in> set xs. (is_insertion_id s, is_start s) \<le> if_key x"
  shows "filter (covers_item s) xs = takeWhile (\<lambda>x. if_timestamp x = is_insertion_id s \<and> if_split_offset x < is_end s) xs"
    "\<forall>x \<in> set (dropWhile (\<lambda>x. if_timestamp x = is_insertion_id s \<and> if_split_offset x < is_end s) xs). \<not> covers_item s x"
proof -
  have "filter (covers_item s) xs = takeWhile (\<lambda>x. if_timestamp x = is_insertion_id s \<and> if_split_offset x < is_end s) xs
    \<and> (\<forall>x \<in> set (dropWhile (\<lambda>x. if_timestamp x = is_insertion_id s \<and> if_split_offset x < is_end s) xs). \<not> covers_item s x)"
    using assms
  proof (induction xs)
    case (Cons x xs)
    show ?case
    proof (cases "if_timestamp x = is_insertion_id s \<and> if_split_offset x < is_end s")
      case True
      with Cons.prems(2) have "covers_item s x" by (auto simp: covers_item_def covers_def if_key_def)
      with True Cons show ?thesis by simp
    next
      case False
      have "\<not> covers_item s y" if "y \<in> set (x # xs)" for y
      proof
        assume "covers_item s y"
        then have y: "if_timestamp y = is_insertion_id s" "if_split_offset y < is_end s" by (auto simp: covers_item_def covers_def)
        with False that have "if_key x < if_key y" using Cons.prems(1) by auto
        with False y Cons.prems(2) show False by (auto simp: if_key_def less_prod_def less_eq_prod_def)
      qed
      with False show ?thesis by (auto simp: filter_empty_conv)
    qed
  qed simp
  then show "filter (covers_item s) xs = takeWhile (\<lambda>x. if_timestamp x = is_insertion_id s \<and> if_split_offset x < is_end s) xs"
    "\<forall>x \<in> set (dropWhile (\<lambda>x. if_timestamp x = is_insertion_id s \<and> if_split_offset x < is_end s) xs). \<not> covers_item s x" by auto
qed

definition index_cursor_ok :: "insertion_cursor \<Rightarrow> bool" where
  "index_cursor_ok c \<longleftrightarrow> sorted_keys if_key (ic_rest c) \<and> (\<forall>x \<in> set (ic_rest c). ic_start c \<le> if_key x)
     \<and> (ic_did_seek c \<or> ic_start c = (lamport_MIN, 0))"

lemma sorted_keys_suffix: "sorted_keys key (dropWhile P xs)" if "sorted_keys key xs"
  using that by (metis sorted_keys_simps(3) takeWhile_dropWhile_id)

text \<open>One slice: whether the cursor seeks or not, the items it covers are collected and passed, and those dropped before
  them are not covered by it or a later slice.\<close>

lemma collect_slice_ok:
  assumes "index_cursor_ok c" "is_insertion_id s \<noteq> lamport_MIN"
  shows "\<exists>skipped ids c1. collect_slice s c = Some (map if_fragment_id ids, c1) \<and> index_cursor_ok c1
    \<and> ic_rest c = skipped @ ids @ ic_rest c1 \<and> (\<forall>x \<in> set skipped. if_key x < (is_insertion_id s, is_start s))
    \<and> (\<forall>x \<in> set ids. covers_item s x) \<and> (\<forall>x \<in> set (ic_rest c1). \<not> covers_item s x)"
proof -
  let ?t = "(is_insertion_id s, is_start s)"
  define c0 where "c0 = (if is_insertion_id s \<noteq> fst (ic_start c) \<or> is_start s > snd (ic_start c) then ic_seek_forward ?t c else c)"
  obtain skipped where c: "ic_rest c = skipped @ ic_rest c0" "\<forall>x \<in> set skipped. if_key x < ?t" "\<forall>x \<in> set (ic_rest c0). ?t \<le> if_key x"
      "ic_did_seek c0" "\<forall>x \<in> set (ic_rest c0). ic_start c0 \<le> if_key x" "sorted_keys if_key (ic_rest c0)"
  proof (cases "is_insertion_id s \<noteq> fst (ic_start c) \<or> is_start s > snd (ic_start c)")
    case True
    have rest: "sorted_keys if_key (ic_rest c)" "\<forall>x \<in> set (ic_rest c). ic_start c \<le> if_key x"
      using assms by (auto simp: index_cursor_ok_def)
    have adv: "ic_rest c0 = from_key if_key ?t (ic_rest c)" "ic_did_seek c0"
        "\<forall>x \<in> set (from_key if_key ?t (ic_rest c)). ic_start c0 \<le> if_key x"
      using ic_advance_eq [OF rest, of ?t] unfolding c0_def ic_seek_forward_def if_P [OF True] by blast+
    show thesis
    proof (rule that [of "below_key if_key ?t (ic_rest c)"])
      show "ic_rest c = below_key if_key ?t (ic_rest c) @ ic_rest c0" unfolding adv by simp
      show "\<forall>x \<in> set (below_key if_key ?t (ic_rest c)). if_key x < ?t" by (auto dest: set_takeWhileD)
      show "\<forall>x \<in> set (ic_rest c0). ?t \<le> if_key x" unfolding adv by (auto dest: from_keys [OF rest(1)])
      show "\<forall>x \<in> set (ic_rest c0). ic_start c0 \<le> if_key x" unfolding adv(1) by (rule adv(3))
      show "sorted_keys if_key (ic_rest c0)" unfolding adv by (rule sorted_keys_suffix [OF rest(1)])
    qed (rule adv(2))
  next
    case False
    then have "?t \<le> ic_start c" by (cases "ic_start c") (auto simp: less_eq_prod_def)
    with False assms show thesis by (intro that [of "[]"]) (auto simp: c0_def index_cursor_ok_def intro: order_trans)
  qed
  obtain c1 where c1: "collect_fragments (is_insertion_id s) (is_end s) (ic_start c0) (ic_rest c0) =
      (map if_fragment_id (filter (covers_item s) (ic_rest c0)), c1)"
      "ic_rest c1 = dropWhile (\<lambda>x. if_timestamp x = is_insertion_id s \<and> if_split_offset x < is_end s) (ic_rest c0)"
      "ic_did_seek c1" "\<forall>x \<in> set (ic_rest c1). ic_start c1 \<le> if_key x"
    using collect_fragments_eq [OF c(6,5), of "is_insertion_id s" "is_end s"] covered_first(1) [OF c(6,3)] by auto
  have "ic_rest c0 = filter (covers_item s) (ic_rest c0) @ ic_rest c1"
    unfolding c1(2) covered_first(1) [OF c(6,3)] by (rule takeWhile_dropWhile_id [symmetric])
  then have parts: "ic_rest c = skipped @ filter (covers_item s) (ic_rest c0) @ ic_rest c1" using c(1) by simp
  have "index_cursor_ok c1" unfolding index_cursor_ok_def using c1(3,4) sorted_keys_suffix [OF c(6)] by (simp add: c1(2))
  moreover have "\<forall>x \<in> set (ic_rest c1). \<not> covers_item s x" unfolding c1(2) by (rule covered_first(2) [OF c(6,3)])
  moreover have "collect_slice s c = Some (map if_fragment_id (filter (covers_item s) (ic_rest c0)), c1)"
    using c(4) c1(1) unfolding collect_slice_def Let_def c0_def [symmetric] by (simp add: rust_assert_def)
  ultimately show ?thesis using parts c(2)
    by (intro exI [of _ skipped] exI [of _ "filter (covers_item s) (ic_rest c0)"] exI [of _ c1]) auto
qed

lemma not_covered_below:
  assumes "slice_order s \<le> slice_order s'" "if_key x < (is_insertion_id s, is_start s)"
  shows "\<not> covers_item s' x"
  using assms by (auto simp: slice_order_def if_key_def covers_item_def covers_def less_prod_def less_eq_prod_def)

lemma collect_slices_ok:
  assumes "index_cursor_ok c" "sorted (map slice_order ss)" "\<forall>s \<in> set ss. is_insertion_id s \<noteq> lamport_MIN"
  shows "collect_slices ss c = Some (map if_fragment_id (filter (\<lambda>x. \<exists>s \<in> set ss. covers_item s x) (ic_rest c)))"
  using assms
proof (induction ss arbitrary: c)
  case (Cons s ss)
  from collect_slice_ok [OF Cons.prems(1), of s] Cons.prems(3) obtain skipped ids c1 where
    c1: "collect_slice s c = Some (map if_fragment_id ids, c1)" "index_cursor_ok c1" "ic_rest c = skipped @ ids @ ic_rest c1"
      "\<forall>x \<in> set skipped. if_key x < (is_insertion_id s, is_start s)" "\<forall>x \<in> set ids. covers_item s x"
      "\<forall>x \<in> set (ic_rest c1). \<not> covers_item s x" by auto
  let ?P = "\<lambda>x. \<exists>s \<in> set (s # ss). covers_item s x"
  have "\<not> covers_item s' x" if "x \<in> set skipped" "s' \<in> set (s # ss)" for s' x
    using Cons.prems(2) that c1(4) by (intro not_covered_below [of s s']) auto
  then have "filter ?P skipped = []" by (auto simp: filter_empty_conv)
  moreover have "filter ?P ids = ids" using c1(5) by (intro filter_True) auto
  moreover have "filter ?P (ic_rest c1) = filter (\<lambda>x. \<exists>s \<in> set ss. covers_item s x) (ic_rest c1)"
    using c1(6) by (intro filter_cong) auto
  ultimately have "filter ?P (ic_rest c) = ids @ filter (\<lambda>x. \<exists>s \<in> set ss. covers_item s x) (ic_rest c1)"
    unfolding c1(3) filter_append by simp
  moreover have "collect_slices ss c1 = Some (map if_fragment_id (filter (\<lambda>x. \<exists>s \<in> set ss. covers_item s x) (ic_rest c1)))"
    using Cons.prems by (intro Cons.IH c1(2)) auto
  ultimately show ?case using c1(1) by (simp del: filter.simps)
qed simp

text \<open>The index holds exactly the fragments, under the insertion and the offset at which they start.\<close>

definition index_ok :: "snapshot \<Rightarrow> bool" where
  "index_ok snap \<longleftrightarrow> sorted_keys if_key (insertions snap)
     \<and> set (insertions snap) = insertion_fragment_new ` set (fragments snap)
     \<and> sorted_keys slice_key (insertion_slices snap) \<and> (\<forall>s \<in> set (insertion_slices snap). is_insertion_id s \<noteq> lamport_MIN)"

text \<open>A fragment is touched by edits when a slice of one of them covers it.\<close>

definition touched :: "snapshot \<Rightarrow> lamport set \<Rightarrow> fragment \<Rightarrow> bool" where
  "touched snap es f \<longleftrightarrow> (\<exists>s \<in> set (insertion_slices snap). is_edit_id s \<in> es \<and> covers s (frag_timestamp f) (frag_offset f))"

lemma slices_for_edit_eq:
  assumes "sorted_keys slice_key slices"
  shows "slices_for_edit slices e = filter (\<lambda>s. is_edit_id s = e) slices"
proof -
  have "(lamport_MIN, 0 :: nat, 0 :: nat) \<le> b" for b by (cases b) (auto simp: less_eq_prod_def)
  from entries_of_first_component [OF assms this, of e] show ?thesis by (simp add: slices_for_edit_def slice_key_def)
qed

lemma ids_ok_inj:
  assumes "ids_ok fs" "f \<in> set fs" "g \<in> set fs" "frag_id f = frag_id g"
  shows "f = g"
  using assms by (induction fs) (auto simp: ids_ok_def)

lemma fragment_ids_for_edits_ok:
  assumes "index_ok snap" "ids_ok (fragments snap)"
  shows "\<exists>ids. fragment_ids_for_edits es snap = Some ids \<and> sorted_wrt (<) ids
    \<and> set ids = frag_id ` {f \<in> set (fragments snap). touched snap (set es) f}"
proof -
  let ?ss = "sort_key slice_order (concat (map (slices_for_edit (insertion_slices snap)) es))"
  let ?xs = "filter (\<lambda>x. \<exists>s \<in> set ?ss. covers_item s x) (insertions snap)"
  have ss: "set ?ss = {s \<in> set (insertion_slices snap). is_edit_id s \<in> set es}"
    using assms(1) by (auto simp: index_ok_def slices_for_edit_eq)
  let ?c = "insertion_cursor_new (insertions snap)"
  have c: "index_cursor_ok ?c" "ic_rest ?c = insertions snap"
    using assms(1) by (auto simp: index_cursor_ok_def insertion_cursor_new_def index_ok_def if_key_def less_eq_prod_def)
  have "sorted (map slice_order ?ss)" "\<forall>s \<in> set ?ss. is_insertion_id s \<noteq> lamport_MIN"
    unfolding ss using assms(1) by (simp_all add: index_ok_def)
  from collect_slices_ok [OF c(1) this] have "collect_slices ?ss ?c = Some (map if_fragment_id ?xs)" unfolding c(2) .
  then have eq: "fragment_ids_for_edits es snap = Some (sort (map if_fragment_id ?xs))"
    unfolding fragment_ids_for_edits_def Let_def by simp
  have "inj_on if_fragment_id (set (insertions snap))"
    using assms ids_ok_inj by (auto simp: inj_on_def index_ok_def insertion_fragment_new_def)
  moreover have "distinct (insertions snap)"
    using assms(1) by (simp add: index_ok_def sorted_keys_def) (metis (mono_tags) less_irrefl sorted_wrt_map strict_sorted_iff distinct_map map_map)
  ultimately have "distinct (map if_fragment_id ?xs)" by (simp add: distinct_map inj_on_def)
  then have "sorted_wrt (<) (sort (map if_fragment_id ?xs))" by (simp add: strict_sorted_iff)
  moreover have "set ?xs = insertion_fragment_new ` {f \<in> set (fragments snap). touched snap (set es) f}"
  proof -
    have "covers_item s (insertion_fragment_new f) \<longleftrightarrow> covers s (frag_timestamp f) (frag_offset f)" for s f
      by (simp add: covers_item_def insertion_fragment_new_def)
    then have "(\<exists>s \<in> set ?ss. covers_item s (insertion_fragment_new f)) \<longleftrightarrow> touched snap (set es) f" for f
      unfolding ss touched_def by auto
    then show ?thesis using assms(1) unfolding index_ok_def set_filter by auto
  qed
  then have "set (sort (map if_fragment_id ?xs)) = frag_id ` {f \<in> set (fragments snap). touched snap (set es) f}"
    by (simp only: set_sort set_map image_image) (simp add: insertion_fragment_new_def)
  ultimately show ?thesis using eq by blast
qed

subsection \<open>Visibility\<close>

definition undone :: "undo_map \<Rightarrow> lamport \<Rightarrow> bool" where
  "undone m e \<longleftrightarrow> max_count (\<lambda>_. True) (um_abs m) e mod 2 = 1"

definition um_good :: "undo_map \<Rightarrow> bool" where
  "um_good m \<longleftrightarrow> um_ok m \<and> tree_height m < STACK_CAP"

definition flag :: "undo_map \<Rightarrow> fragment \<Rightarrow> bool" where
  "flag m f \<longleftrightarrow> \<not> undone m (frag_timestamp f) \<and> (\<forall>d \<in> set (frag_deletions f). undone m d)"

lemma is_undone_ok: "um_good m \<Longrightarrow> is_undone e m = Some (undone m e)"
  using counted_entries [of m e "\<lambda>_. True"] by (auto simp: um_good_def is_undone_def undo_count_def undone_def)

lemma frag_is_visible_ok:
  assumes "um_good m"
  shows "frag_is_visible m f = Some (flag m f)"
proof -
  have "those (map (\<lambda>d. is_undone d m) ds) = Some (map (undone m) ds)" for ds
    by (induction ds) (simp_all add: is_undone_ok [OF assms])
  then show ?thesis by (simp add: frag_is_visible_def is_undone_ok [OF assms] flag_def list_all_iff)
qed

definition recompute :: "undo_map \<Rightarrow> lamport \<Rightarrow> fragment \<Rightarrow> fragment" where
  "recompute m ts f = f\<lparr>frag_visible := flag m f, frag_max_undos := global_observe (frag_max_undos f) ts\<rparr>"

lemma recompute_simps [simp]:
  "frag_id (recompute m ts f) = frag_id f" "frag_timestamp (recompute m ts f) = frag_timestamp f"
  "frag_offset (recompute m ts f) = frag_offset f" "frag_len (recompute m ts f) = frag_len f"
  "frag_deletions (recompute m ts f) = frag_deletions f" "frag_visible (recompute m ts f) = flag m f"
  "content ins (recompute m ts f) = content ins f" "frag_wf ins (recompute m ts f) = frag_wf ins f"
  by (simp_all add: recompute_def content_def frag_wf_def)

subsection \<open>The loop over the fragments\<close>

text \<open>Replacing the next old fragment by one of the same text, visible or not.\<close>

definition flip_patch :: "patch \<Rightarrow> bool \<Rightarrow> bool \<Rightarrow> int \<Rightarrow> int \<Rightarrow> int \<Rightarrow> patch" where
  "flip_patch p was now i j len =
     (if was \<and> \<not> now then patch_push p (edit_of i (i + len) j j)
      else if \<not> was \<and> now then patch_push p (edit_of i i j (j + len)) else p)"

lemma editing_flip:
  assumes "editing ins V N (f # fs) 0 start rb p" "frag_id g = frag_id f" "content ins g = content ins f" "frag_wf ins g" "frag_len g = frag_len f"
  shows "editing ins V (N @ [g]) fs 0 (start + vis_len f) (rb_push_fragment g (frag_visible f) rb)
    (flip_patch p (frag_visible f) (frag_visible g) (int start) (int (sum_list (map vis_len N))) (int (frag_len f)))"
proof -
  have wf: "frag_wf ins f" "\<forall>f \<in> set N. frag_wf ins f" and ov: "old_visible rb = drop start V" "old_deleted rb = del_text ins (f # fs)"
    and vt: "vis_text ins (f # fs) = drop start V" "start \<le> length V" and nv: "new_visible rb = vis_text ins N"
    and comp: "composed_to V (new_visible rb) p (int start) (int (length (new_visible rb)))"
    using assms(1) by (auto simp: editing_def)
  have j: "int (sum_list (map vis_len N)) = int (length (new_visible rb))" using length_texts(1) [OF wf(2)] nv by simp
  have ids: "ids_ok ((N @ [g]) @ fs)" using assms(1,2) ids_ok_replace [of N f fs g] by (simp add: editing_def)
  have len: "length (content ins f) = frag_len f" using wf(1) by simp
  have "length (drop start V) = vis_len f + length (vis_text ins fs)" unfolding vt(1) [symmetric] using len by (simp add: vis_len_def)
  with vt(2) have le: "start + vis_len f \<le> length V" by simp
  have "drop (vis_len f) (drop start V) = vis_text ins fs" unfolding vt(1) [symmetric] using len by (simp add: vis_len_def)
  then have rest: "drop (start + vis_len f) V = vis_text ins fs" by (simp add: add.commute)
  let ?p = "flip_patch p (frag_visible f) (frag_visible g) (int start) (int (length (new_visible rb))) (int (frag_len f))"
  let ?nv = "new_visible rb @ (if frag_visible g then content ins f else [])"
  have "composed_to V ?nv ?p (int (start + vis_len f)) (int (length ?nv))"
  proof (cases "frag_visible f = frag_visible g")
    case True
    have "(if frag_visible g then content ins f else []) = take (vis_len f) (drop start V)"
      unfolding vt(1) [symmetric] using True len by (simp add: vis_len_def)
    from composed_to_copy [OF comp this le] True show ?thesis by (simp add: flip_patch_def)
  next
    case False
    have "composed_to V ?nv p (int start) (int (length (new_visible rb)))" by (intro composed_to_append comp) simp
    from composed_to_push [OF this, of "int (start + vis_len f)" "int (length ?nv)"] False le len show ?thesis
      by (auto simp: flip_patch_def vis_len_def)
  qed
  moreover have "take (frag_len g) (if frag_visible f then old_visible rb else old_deleted rb) = content ins f"
    unfolding ov vt(1) [symmetric] using len assms(5) by simp
  ultimately show ?thesis using assms ids ov rest le len j
    by (auto simp: editing_def rb_push_fragment_def vis_len_def add.commute)
qed

definition undo_inv :: "(lamport \<Rightarrow> bytes) \<Rightarrow> bytes \<Rightarrow> undo_state \<Rightarrow> bool" where
  "undo_inv ins V st \<longleftrightarrow>
     editing ins V (us_fragments st) (cur_rest (us_cursor st)) 0 (cur_visible (us_cursor st)) (us_ropes st) (us_patch st)"

lemma slice_before_ok:
  assumes "\<forall>f \<in> set us. frag_id f < target" "\<not> frag_id g < target"
  shows "slice_before target v d (us @ g # fs) =
    (us, \<lparr>cur_visible = v + sum_list (map vis_len us), cur_deleted = d + sum_list (map del_len us), cur_rest = g # fs\<rparr>)"
  using assms by (induction us arbitrary: v d) (simp_all add: Let_def)

lemma undo_step_ok:
  assumes "undo_inv ins V st" "um_good m" "cur_rest (us_cursor st) = us @ f # fs" "\<forall>g \<in> set us. frag_id g < frag_id f"
  shows "\<exists>st'. undo_step m ts (frag_id f) st = Some st' \<and> undo_inv ins V st' \<and> cur_rest (us_cursor st') = fs
    \<and> us_fragments st' = us_fragments st @ us @ [recompute m ts f]"
proof -
  let ?c = "us_cursor st" and ?st = "undo_skip (frag_id f) st"
  let ?c1 = "\<lparr>cur_visible = cur_visible ?c + sum_list (map vis_len us), cur_deleted = cur_deleted ?c + sum_list (map del_len us), cur_rest = f # fs\<rparr>"
  have skip: "?st = st\<lparr>us_cursor := ?c1, us_fragments := us_fragments st @ us, us_ropes := rb_append (fs_text (builder_summary us)) (us_ropes st)\<rparr>"
    using slice_before_ok [OF assms(4), of f "cur_visible ?c" "cur_deleted ?c" fs] assms(3) by (simp add: undo_skip_def)
  have "editing ins V (us_fragments st) (us @ f # fs) 0 (cur_visible ?c) (us_ropes st) (us_patch st)"
    using assms(1,3) by (simp add: undo_inv_def)
  from editing_append [OF this] have inv: "undo_inv ins V ?st" unfolding skip by (simp add: undo_inv_def)
  then have wf: "frag_wf ins f" unfolding skip by (simp add: undo_inv_def editing_def)
  have cur: "frag_item (us_cursor ?st) = Some f" "cur_rest (us_cursor ?st) = f # fs" unfolding skip by (simp_all add: frag_item_def)
  let ?p = "flip_patch (us_patch ?st) (frag_visible f) (flag m f) (int (cur_visible (us_cursor ?st)))
    (int (sum_list (map vis_len (us_fragments ?st)))) (int (frag_len f))"
  let ?st1 = "?st\<lparr>us_patch := ?p, us_ropes := rb_push_fragment (recompute m ts f) (frag_visible f) (us_ropes ?st),
    us_fragments := us_fragments ?st @ [recompute m ts f], us_cursor := frag_next (us_cursor ?st)\<rparr>"
  have frag: "undo_fragment m ts f ?st = Some ?st1"
    by (simp add: undo_fragment_def frag_is_visible_ok [OF assms(2)] recompute_def flip_patch_def Let_def cong: if_cong)
  have "editing ins V (us_fragments ?st) (f # fs) 0 (cur_visible (us_cursor ?st)) (us_ropes ?st) (us_patch ?st)"
    using inv cur(2) by (simp add: undo_inv_def)
  from editing_flip [OF this, of "recompute m ts f"] wf have "undo_inv ins V ?st1"
    by (simp add: undo_inv_def frag_next_def cur(2))
  moreover have "undo_step m ts (frag_id f) st = Some ?st1"
    unfolding undo_step_def Let_def cur(1) option.case by (rule frag)
  moreover have "cur_rest (us_cursor ?st1) = fs" by (simp add: frag_next_def cur(2))
  moreover have "us_fragments ?st1 = us_fragments st @ us @ [recompute m ts f]" by (simp add: skip)
  ultimately show ?thesis by blast
qed

lemma undo_steps_ok:
  assumes "undo_inv ins V st" "um_good m" "sorted_wrt (<) is" "set is \<subseteq> frag_id ` set (cur_rest (us_cursor st))"
  shows "\<exists>st'. undo_steps m ts is st = Some st' \<and> undo_inv ins V st' \<and> us_fragments st' @ cur_rest (us_cursor st') =
    us_fragments st @ map (\<lambda>f. if frag_id f \<in> set is then recompute m ts f else f) (cur_rest (us_cursor st))"
  using assms
proof (induction "is" arbitrary: st)
  case (Cons i "is")
  from Cons.prems(4) obtain us f fs where r: "cur_rest (us_cursor st) = us @ f # fs" "i = frag_id f" by (auto dest: split_list)
  have "ids_ok (us_fragments st @ us @ f # fs)" using Cons.prems(1) r by (simp add: undo_inv_def editing_def)
  then have order: "\<forall>g \<in> set us. frag_id g < frag_id f" "\<forall>g \<in> set fs. frag_id f < frag_id g"
    by (auto simp: ids_ok_def sorted_wrt_append)
  from undo_step_ok [OF Cons.prems(1,2) r(1) order(1), of ts] obtain st1 where
    s1: "undo_step m ts i st = Some st1" "undo_inv ins V st1" "cur_rest (us_cursor st1) = fs"
      "us_fragments st1 = us_fragments st @ us @ [recompute m ts f]" using r(2) by blast
  have later: "\<forall>j \<in> set is. frag_id f < j" using Cons.prems(3) r(2) by simp
  then have "set is \<subseteq> frag_id ` set fs" using Cons.prems(4) r order(1) by (fastforce dest: order.asym)
  with Cons.IH [OF s1(2) Cons.prems(2)] Cons.prems(3) s1(3) obtain st2 where
    s2: "undo_steps m ts is st1 = Some st2" "undo_inv ins V st2"
      "us_fragments st2 @ cur_rest (us_cursor st2) = us_fragments st1 @ map (\<lambda>f. if frag_id f \<in> set is then recompute m ts f else f) fs" by auto
  have "map (\<lambda>g. if frag_id g \<in> set (i # is) then recompute m ts g else g) us = us"
    using order(1) later r(2) by (intro map_idI) (auto dest: order.asym)
  moreover have "map (\<lambda>g. if frag_id g \<in> set (i # is) then recompute m ts g else g) fs =
      map (\<lambda>g. if frag_id g \<in> set is then recompute m ts g else g) fs"
    using order(2) r(2) by (intro map_cong) auto
  ultimately show ?case using s1 s2 r by simp
qed simp

subsection \<open>Undo operations\<close>

text \<open>The sort leaves its input sorted by key and loses nothing.\<close>

definition sorts_edits :: "((undo_map_entry, lamport \<times> lamport) tree_edit list \<Rightarrow> (undo_map_entry, lamport \<times> lamport) tree_edit list) \<Rightarrow> bool" where
  "sorts_edits srt \<longleftrightarrow> (\<forall>es. sorted (map (edit_key um_key) (srt es)) \<and> mset (srt es) = mset es)"

text \<open>The undo map before and after the operation is one a cursor can search.\<close>

definition undo_fits ::
  "((undo_map_entry, lamport \<times> lamport) tree_edit list \<Rightarrow> (undo_map_entry, lamport \<times> lamport) tree_edit list) \<Rightarrow>
     undo_operation \<Rightarrow> undo_map \<Rightarrow> bool" where
  "undo_fits srt undo m \<longleftrightarrow> um_good m \<and> distinct (map fst (undo_counts undo))
     \<and> pred_option (\<lambda>m1. tree_height m1 < STACK_CAP) (um_insert srt undo m)"

abbreviation undone_edits :: "undo_operation \<Rightarrow> lamport set" where
  "undone_edits undo \<equiv> fst ` set (undo_counts undo)"

lemma undo_fits_insert:
  assumes "sorts_edits srt" "undo_fits srt undo m"
  shows "\<exists>m1. um_insert srt undo m = Some m1 \<and> um_good m1
    \<and> (\<forall>e u. um_abs m1 (e, u) = (if u = undo_timestamp undo \<and> e \<in> undone_edits undo
                                  then map_of (undo_counts undo) e else um_abs m (e, u)))"
  using um_insert_ok [of m undo srt] assms by (auto simp: undo_fits_def um_good_def sorts_edits_def)

lemma apply_undo_ok:
  assumes "snapshot_ok ins snap" "index_ok snap" "sorts_edits srt" "undo_fits srt undo (snap_undo_map snap)"
  shows "\<exists>snap' p m. um_insert srt undo (snap_undo_map snap) = Some m \<and> um_good m
    \<and> apply_undo srt undo snap = Some (snap', p)
    \<and> fragments snap' = map (\<lambda>f. if touched snap (undone_edits undo) f then recompute m (undo_timestamp undo) f else f) (fragments snap)
    \<and> snap_undo_map snap' = m \<and> insertions snap' = insertions snap \<and> insertion_slices snap' = insertion_slices snap
    \<and> snap_version snap' = snap_version snap
    \<and> snapshot_ok ins snap' \<and> describes p (visible_text snap) (visible_text snap') \<and> normal p"
proof -
  let ?ts = "undo_timestamp undo" and ?es = "map fst (undo_counts undo)"
  from undo_fits_insert [OF assms(3,4)] obtain m where m: "um_insert srt undo (snap_undo_map snap) = Some m" "um_good m" by blast
  let ?snap = "snap\<lparr>snap_undo_map := m\<rparr>"
  have ids_ok: "ids_ok (fragments snap)" using assms(1) by (simp add: snapshot_ok_def)
  have "touched ?snap es f = touched snap es f" for es f by (simp add: touched_def)
  with fragment_ids_for_edits_ok [of ?snap ?es] assms(2) ids_ok obtain ids where
    ids: "fragment_ids_for_edits ?es ?snap = Some ids" "sorted_wrt (<) ids"
      "set ids = frag_id ` {f \<in> set (fragments snap). touched snap (undone_edits undo) f}" by (auto simp: index_ok_def)
  have start: "undo_inv ins (visible_text snap) (undo_start ?snap)"
    using assms(1) by (simp add: undo_inv_def undo_start_def frag_cursor_new_def editing_def snapshot_ok_def rope_builder_new_def
        composed_to_def normal_def separated_def)
  from undo_steps_ok [OF start m(2) ids(2), of ?ts] ids(3) obtain st where
    st: "undo_steps m ?ts ids (undo_start ?snap) = Some st" "undo_inv ins (visible_text snap) st"
      "us_fragments st @ cur_rest (us_cursor st) = map (\<lambda>f. if frag_id f \<in> set ids then recompute m ?ts f else f) (fragments snap)"
    by (auto simp: undo_start_def frag_cursor_new_def)
  have "frag_id f \<in> set ids \<longleftrightarrow> touched snap (undone_edits undo) f" if "f \<in> set (fragments snap)" for f
    using ids(3) ids_ok_inj [OF ids_ok] that by auto
  with st(3) have frags: "us_fragments st @ cur_rest (us_cursor st) =
      map (\<lambda>f. if touched snap (undone_edits undo) f then recompute m ?ts f else f) (fragments snap)" by simp
  note fin = editing_finish [OF st(2) [unfolded undo_inv_def]]
  let ?fs = "us_fragments st @ cur_rest (us_cursor st)"
  let ?snap' = "?snap\<lparr>fragments := ?fs, visible_text := vis_text ins ?fs, deleted_text := del_text ins ?fs\<rparr>"
  have "apply_undo srt undo snap = Some (?snap', us_patch st)"
    by (simp add: apply_undo_def m(1) ids(1) st(1) fin(1) Let_def del: text_simps(5,6))
  moreover have "snapshot_ok ins ?snap'" using fin(2) by (simp add: snapshot_ok_def)
  moreover have "describes (us_patch st) (visible_text snap) (visible_text ?snap') \<and> normal (us_patch st)" using fin(3) by simp
  ultimately show ?thesis using m frags
    by (intro exI [of _ ?snap'] exI [of _ "us_patch st"] exI [of _ m]) simp
qed

end
