(* ===== verification/Cells.thy ===== *)
theory Cells
  imports Undo_Proofs "HOL-Library.Sublist"
begin

text \<open>
  Fragments byte by byte. Edits split fragments, so that what an edit does to a snapshot is best said of its bytes: each
  byte of a fragment is a cell with the insertion it belongs to, its offset there, whether it is visible and which edits
  have deleted it. A local edit keeps the cells of the snapshot in their order, marks some as
  deleted and puts new ones between them; the index of insertions and the slices follow.
\<close>

record cell =
  cell_ts :: lamport
  cell_offset :: nat
  cell_visible :: bool
  cell_deletions :: "lamport list"

definition cells_of :: "fragment \<Rightarrow> cell list" where
  "cells_of f = map (\<lambda>i. \<lparr>cell_ts = frag_timestamp f, cell_offset = frag_offset f + i, cell_visible = frag_visible f,
     cell_deletions = frag_deletions f\<rparr>) [0..<frag_len f]"

definition cells :: "fragment list \<Rightarrow> cell list" where
  "cells fs = concat (map cells_of fs)"

definition cell_key :: "cell \<Rightarrow> lamport \<times> nat" where
  "cell_key c = (cell_ts c, cell_offset c)"

definition frag_key :: "fragment \<Rightarrow> lamport \<times> nat" where
  "frag_key f = (frag_timestamp f, frag_offset f)"

lemma cells_simps [simp]:
  "cells [] = []" "cells (f # fs) = cells_of f @ cells fs" "cells (fs @ gs) = cells fs @ cells gs" "length (cells_of f) = frag_len f"
  by (simp_all add: cells_def cells_of_def)

lemma if_key_new [simp]: "if_key (insertion_fragment_new f) = frag_key f"
  by (simp add: if_key_def insertion_fragment_new_def frag_key_def)

lemma cells_of_part:
  assumes "frag_timestamp g = frag_timestamp f" "frag_offset g = frag_offset f + k" "frag_len g = m" "k + m \<le> frag_len f"
    and "frag_visible g = frag_visible f" "frag_deletions g = frag_deletions f"
  shows "cells_of g = take m (drop k (cells_of f))"
  using assms by (intro nth_equalityI) (simp_all add: cells_of_def)

lemma first_cell:
  assumes "0 < frag_len f"
  shows "\<lparr>cell_ts = frag_timestamp f, cell_offset = frag_offset f, cell_visible = frag_visible f, cell_deletions = frag_deletions f\<rparr> \<in> set (cells_of f)"
  using assms by (force simp: cells_of_def)

lemma in_cells_of:
  "c \<in> set (cells_of f) \<Longrightarrow> cell_ts c = frag_timestamp f \<and> cell_visible c = frag_visible f \<and> cell_deletions c = frag_deletions f
     \<and> frag_offset f \<le> cell_offset c \<and> cell_offset c < frag_offset f + frag_len f"
  by (auto simp: cells_of_def)

subsection \<open>What an edit does to cells\<close>

definition delete_cell :: "lamport \<Rightarrow> cell \<Rightarrow> cell" where
  "delete_cell ts c = c\<lparr>cell_visible := False, cell_deletions := cell_deletions c @ [ts]\<rparr>"

definition cell_edited :: "lamport \<Rightarrow> cell \<Rightarrow> cell \<Rightarrow> bool" where
  "cell_edited ts c d \<longleftrightarrow> d = c \<or> d = delete_cell ts c"

definition edited_cells :: "lamport \<Rightarrow> cell list \<Rightarrow> cell list \<Rightarrow> bool" where
  "edited_cells ts C D \<longleftrightarrow> list_all2 (cell_edited ts) C (filter (\<lambda>d. cell_ts d \<noteq> ts) D)
     \<and> (\<forall>d \<in> set D. cell_ts d = ts \<longrightarrow> cell_visible d \<and> cell_deletions d = [])"

definition fresh :: "lamport \<Rightarrow> fragment list \<Rightarrow> bool" where
  "fresh ts fs \<longleftrightarrow> (\<forall>f \<in> set fs. frag_timestamp f \<noteq> ts \<and> ts \<notin> set (frag_deletions f))"

lemma fresh_cell: "fresh ts fs \<Longrightarrow> c \<in> set (cells fs) \<Longrightarrow> cell_ts c \<noteq> ts \<and> ts \<notin> set (cell_deletions c)"
  by (auto simp: fresh_def cells_def dest!: in_cells_of)

lemma edited_cells_append:
  "edited_cells ts C D \<Longrightarrow> edited_cells ts C' D' \<Longrightarrow> edited_cells ts (C @ C') (D @ D')"
  by (auto simp: edited_cells_def intro: list_all2_appendI)

lemma edited_cells_same: "\<forall>c \<in> set C. cell_ts c \<noteq> ts \<Longrightarrow> edited_cells ts C C"
  by (auto simp: edited_cells_def cell_edited_def filter_id_conv list.rel_refl)

lemma edited_cells_deleted:
  assumes "\<forall>c \<in> set C. cell_ts c \<noteq> ts"
  shows "edited_cells ts C (map (delete_cell ts) C)"
  using assms by (induction C) (auto simp: edited_cells_def cell_edited_def delete_cell_def)

lemma edited_cells_new: "\<forall>d \<in> set D. cell_ts d = ts \<and> cell_visible d \<and> cell_deletions d = [] \<Longrightarrow> edited_cells ts [] D"
  by (auto simp: edited_cells_def filter_empty_conv)

subsection \<open>The invariant of the edit loop\<close>

text \<open>\<open>F\<close> are the old fragments, \<open>N\<close> the new ones, \<open>rest\<close> the old ones from the cursor on, \<open>k\<close> bytes of the first consumed; \<open>xs\<close> and
  \<open>ss\<close> the new entries of the index and the new slices, and \<open>off\<close> the length inserted so far.\<close>

definition logging ::
  "lamport \<Rightarrow> fragment list \<Rightarrow> fragment list \<Rightarrow> fragment list \<Rightarrow> nat \<Rightarrow> insertion_fragment list \<Rightarrow> insertion_slice list \<Rightarrow> nat \<Rightarrow> bool" where
  "logging ts F N rest k xs ss off \<longleftrightarrow>
     (\<exists>C. cells F = C @ drop k (cells rest) \<and> edited_cells ts C (cells N))
     \<and> (k > 0 \<longrightarrow> rest \<noteq> [] \<and> k \<le> frag_len (hd rest) \<and> frag_key (hd rest) \<in> if_key ` set xs)
     \<and> subseq xs (map insertion_fragment_new N) \<and> (\<forall>g \<in> set N. insertion_fragment_new g \<in> set xs \<or> g \<in> set F)
     \<and> (\<forall>f \<in> set F. f \<in> set rest \<or> f \<in> set N \<or> frag_key f \<in> if_key ` set xs) \<and> set rest \<subseteq> set F
     \<and> subseq ss (map (insertion_slice_from_fragment ts) N)
     \<and> (\<forall>c \<in> set (cells N). cell_ts c = ts \<or> ts \<in> set (cell_deletions c) \<longrightarrow> (\<exists>s \<in> set ss. covers s (cell_ts c) (cell_offset c)))
     \<and> map cell_offset (filter (\<lambda>c. cell_ts c = ts) (cells N)) = [0..<off]"

lemma subseq_snoc: "subseq xs ys \<Longrightarrow> subseq (xs @ [x]) (ys @ [x])"
  by (intro list_emb_append_mono) auto

lemma subseq_skip: "subseq xs ys \<Longrightarrow> subseq xs (ys @ zs)"
  by (rule subseq_order.order_trans) auto

lemma no_new_cells: "fresh ts F \<Longrightarrow> set us \<subseteq> set F \<Longrightarrow> filter (\<lambda>c. cell_ts c = ts) (cells us) = []"
  by (auto simp: filter_empty_conv cells_def fresh_def dest!: in_cells_of)

lemma logging_append:
  assumes "logging ts F N (us @ vs) 0 xs ss off" "fresh ts F"
  shows "logging ts F (N @ us) vs 0 xs ss off"
proof -
  obtain C where C: "cells F = C @ cells (us @ vs)" "edited_cells ts C (cells N)" using assms(1) by (auto simp: logging_def)
  have sub: "set us \<subseteq> set F" using assms(1) by (auto simp: logging_def)
  have nts: "cell_ts c \<noteq> ts \<and> ts \<notin> set (cell_deletions c)" if "c \<in> set (cells us)" for c
    using fresh_cell [OF assms(2), of c] C(1) that by simp
  then have "edited_cells ts (C @ cells us) (cells (N @ us))"
    using edited_cells_append [OF C(2) edited_cells_same] by simp
  then have "\<exists>C. cells F = C @ drop 0 (cells vs) \<and> edited_cells ts C (cells (N @ us))" using C(1) by auto
  with assms(1) sub nts no_new_cells [OF assms(2) sub] show ?thesis unfolding logging_def by (auto intro!: subseq_skip)
qed

lemma logging_next:
  assumes "logging ts F N (f # fs) k xs ss off" "k = frag_len f" "k > 0"
  shows "logging ts F N fs 0 xs ss off"
  using assms unfolding logging_def by auto

text \<open>What pushing a part \<open>g\<close> of the current fragment needs: how its cells come from those of the old one, and how they are logged.\<close>

lemma logging_push:
  assumes "logging ts F N (f # fs) k xs ss off" "fresh ts F" "0 < m" "k + m \<le> frag_len f"
    and "frag_timestamp g = frag_timestamp f" "frag_offset g = frag_offset f + k" "edited_cells ts (take m (drop k (cells_of f))) (cells_of g)"
    and "subseq ss' (map (insertion_slice_from_fragment ts) (N @ [g]))" "set ss \<subseteq> set ss'"
    and "\<And>c. c \<in> set (cells_of g) \<Longrightarrow> ts \<in> set (cell_deletions c) \<Longrightarrow> \<exists>s \<in> set ss'. covers s (cell_ts c) (cell_offset c)"
  shows "logging ts F (N @ [g]) (f # fs) (k + m) (xs @ [insertion_fragment_new g]) ss' off"
proof -
  obtain C where C: "cells F = C @ drop k (cells (f # fs))" "edited_cells ts C (cells N)" using assms(1) by (auto simp: logging_def)
  have "drop k (cells (f # fs)) = take m (drop k (cells_of f)) @ drop (k + m) (cells (f # fs))"
    using assms(4) by simp (metis add.commute append_assoc append_take_drop_id drop_drop)
  with C edited_cells_append [OF C(2) assms(7)]
  have cells: "\<exists>C. cells F = C @ drop (k + m) (cells (f # fs)) \<and> edited_cells ts C (cells (N @ [g]))"
    by (intro exI [of _ "C @ take m (drop k (cells_of f))"]) simp
  have f: "f \<in> set F" "frag_timestamp f \<noteq> ts" using assms(1,2) by (auto simp: logging_def fresh_def)
  have key: "frag_key f \<in> if_key ` set (xs @ [insertion_fragment_new g])"
    using assms(1,5,6) by (cases "k = 0") (auto simp: logging_def frag_key_def)
  have cover: "\<exists>s \<in> set ss'. covers s (cell_ts c) (cell_offset c)"
    if "c \<in> set (cells (N @ [g]))" "cell_ts c = ts \<or> ts \<in> set (cell_deletions c)" for c
  proof (cases "c \<in> set (cells N)")
    case True
    with that assms(1,9) show ?thesis unfolding logging_def by blast
  next
    case False
    then have c: "c \<in> set (cells_of g)" using that(1) by simp
    with that(2) f(2) assms(5) have "ts \<in> set (cell_deletions c)" by (auto dest: in_cells_of)
    with c show ?thesis by (rule assms(10))
  qed
  have "filter (\<lambda>c. cell_ts c = ts) (cells_of g) = []" using f(2) assms(5) by (auto simp: filter_empty_conv dest: in_cells_of)
  with assms(1) have off: "map cell_offset (filter (\<lambda>c. cell_ts c = ts) (cells (N @ [g]))) = [0..<off]" by (simp add: logging_def)
  have "subseq (xs @ [insertion_fragment_new g]) (map insertion_fragment_new (N @ [g]))"
    using assms(1) by (simp add: logging_def subseq_snoc)
  with assms(1,3,4,8) cells key cover off show ?thesis unfolding logging_def by auto
qed

lemma logging_part:
  assumes "logging ts F N (f # fs) k xs ss off" "fresh ts F" "0 < m" "k + m \<le> frag_len f"
    and "frag_timestamp g = frag_timestamp f" "frag_offset g = frag_offset f + k" "frag_len g = m"
    and "frag_visible g = frag_visible f" "frag_deletions g = frag_deletions f"
  shows "logging ts F (N @ [g]) (f # fs) (k + m) (xs @ [insertion_fragment_new g]) ss off"
proof (rule logging_push [OF assms(1-6)])
  have f: "frag_timestamp f \<noteq> ts" "ts \<notin> set (frag_deletions f)" using assms(1,2) by (auto simp: logging_def fresh_def)
  have "cells_of g = take m (drop k (cells_of f))" using assms by (intro cells_of_part) simp_all
  moreover have "cell_ts c \<noteq> ts" if "c \<in> set (cells_of g)" for c using that f(1) assms(5) by (auto dest: in_cells_of)
  ultimately show "edited_cells ts (take m (drop k (cells_of f))) (cells_of g)" by (simp add: edited_cells_same)
  show "subseq ss (map (insertion_slice_from_fragment ts) (N @ [g]))" using assms(1) by (simp add: logging_def subseq_skip)
  show "\<exists>s \<in> set ss. covers s (cell_ts c) (cell_offset c)" if "c \<in> set (cells_of g)" "ts \<in> set (cell_deletions c)" for c
    using that f(2) assms(9) by (auto dest: in_cells_of)
qed simp

lemma covers_fragment:
  "c \<in> set (cells_of g) \<Longrightarrow> covers (insertion_slice_from_fragment e g) (cell_ts c) (cell_offset c)"
  by (auto simp: covers_def insertion_slice_from_fragment_def dest!: in_cells_of)

lemma logging_delete:
  assumes "logging ts F N (f # fs) k xs ss off" "fresh ts F" "0 < m" "k + m \<le> frag_len f"
    and "frag_timestamp g = frag_timestamp f" "frag_offset g = frag_offset f + k" "frag_len g = m"
    and "\<not> frag_visible g" "frag_deletions g = frag_deletions f @ [ts]"
  shows "logging ts F (N @ [g]) (f # fs) (k + m) (xs @ [insertion_fragment_new g]) (ss @ [insertion_slice_from_fragment ts g]) off"
proof (rule logging_push [OF assms(1-6)])
  have f: "frag_timestamp f \<noteq> ts" using assms(1,2) by (auto simp: logging_def fresh_def)
  have "cells_of g = map (delete_cell ts) (take m (drop k (cells_of f)))"
    using assms(4-9) by (intro nth_equalityI) (simp_all add: cells_of_def delete_cell_def)
  moreover have "cell_ts c \<noteq> ts" if "c \<in> set (take m (drop k (cells_of f)))" for c
    using that f by (auto dest!: in_set_takeD in_set_dropD in_cells_of)
  ultimately show "edited_cells ts (take m (drop k (cells_of f))) (cells_of g)" by (simp add: edited_cells_deleted)
  show "subseq (ss @ [insertion_slice_from_fragment ts g]) (map (insertion_slice_from_fragment ts) (N @ [g]))"
    using assms(1) by (simp add: logging_def subseq_snoc)
  show "\<exists>s \<in> set (ss @ [insertion_slice_from_fragment ts g]). covers s (cell_ts c) (cell_offset c)" if "c \<in> set (cells_of g)" for c
    using covers_fragment [OF that, of ts] by simp
qed auto

lemma logging_insert:
  assumes "logging ts F N rest k xs ss off" "frag_timestamp g = ts" "frag_offset g = off" "frag_visible g" "frag_deletions g = []"
  shows "logging ts F (N @ [g]) rest k (xs @ [insertion_fragment_new g]) (ss @ [insertion_slice_from_fragment ts g]) (off + frag_len g)"
proof -
  obtain C where C: "cells F = C @ drop k (cells rest)" "edited_cells ts C (cells N)" using assms(1) by (auto simp: logging_def)
  have "edited_cells ts [] (cells_of g)" using assms(2,4,5) by (intro edited_cells_new) (auto dest: in_cells_of)
  from edited_cells_append [OF C(2) this] C(1)
  have cells: "\<exists>C. cells F = C @ drop k (cells rest) \<and> edited_cells ts C (cells (N @ [g]))" by auto
  have subs: "subseq (xs @ [insertion_fragment_new g]) (map insertion_fragment_new (N @ [g]))"
    "subseq (ss @ [insertion_slice_from_fragment ts g]) (map (insertion_slice_from_fragment ts) (N @ [g]))"
    using assms(1) by (simp_all add: logging_def subseq_snoc)
  have cover: "\<exists>s \<in> set (ss @ [insertion_slice_from_fragment ts g]). covers s (cell_ts c) (cell_offset c)"
    if "c \<in> set (cells (N @ [g]))" "cell_ts c = ts \<or> ts \<in> set (cell_deletions c)" for c
    using that assms(1) covers_fragment [of c g ts] by (auto simp: logging_def)
  have "filter (\<lambda>c. cell_ts c = ts) (cells_of g) = cells_of g" using assms(2) by (auto simp: filter_id_conv dest: in_cells_of)
  moreover have "map cell_offset (cells_of g) = [off..<off + frag_len g]"
    using assms(3) by (intro nth_equalityI) (simp_all add: cells_of_def)
  ultimately have "map cell_offset (filter (\<lambda>c. cell_ts c = ts) (cells (N @ [g]))) = [0..<off + frag_len g]"
    using assms(1) by (simp add: logging_def upt_add_eq_append [of 0])
  with assms(1) cells subs cover show ?thesis unfolding logging_def by auto
qed

subsection \<open>The operations keep the invariant\<close>

definition log_inv :: "lamport \<Rightarrow> fragment list \<Rightarrow> edit_state \<Rightarrow> bool" where
  "log_inv ts F st \<longleftrightarrow> logging ts F (st_fragments st) (cur_rest (st_cursor st)) (st_start st - cur_visible (st_cursor st))
     (st_insertions st) (st_slices st) (st_offset st)"

lemma push_rewritten_insertions [simp]:
  "st_insertions (push_rewritten f w st) = st_insertions st @ [insertion_fragment_new f]"
  by (simp add: push_rewritten_def)

lemma push_suffix_log:
  assumes "edit_inv ins V st" "log_inv ts F st" "fresh ts F" "push_suffix st = Some st'"
  shows "logging ts F (st_fragments st') (cur_rest (st_cursor st')) 0 (st_insertions st') (st_slices st') (st_offset st')"
proof (cases "st_start st > cur_visible (st_cursor st)")
  case False
  with assms show ?thesis by (auto simp: push_suffix_def Let_def log_inv_def)
next
  case True
  let ?c = "st_cursor st" and ?k = "st_start st - cur_visible (st_cursor st)"
  from True assms(1) obtain f fs where r: "cur_rest ?c = f # fs" "frag_visible f" "?k \<le> frag_len f"
    by (cases "cur_rest ?c") (auto simp: editing_def edit_inv_def)
  have fe: "frag_end ?c = cur_visible ?c + frag_len f" and nx: "cur_rest (frag_next ?c) = fs"
    using r by (simp_all add: frag_end_def vis_len_def frag_next_def)
  have lg: "logging ts F (st_fragments st) (f # fs) ?k (st_insertions st) (st_slices st) (st_offset st)"
    using assms(2) r by (simp add: log_inv_def)
  show ?thesis
  proof (cases "frag_end ?c > st_start st")
    case False
    then have "?k = frag_len f" "?k > 0" using r(3) fe True by simp_all
    from logging_next [OF lg this] False True assms(4) nx show ?thesis by (auto simp: push_suffix_def Let_def)
  next
    case gt: True
    let ?m = "frag_end ?c - st_start st"
    let ?g = "f\<lparr>frag_len := ?m, frag_offset := frag_offset f + ?k\<rparr>"
    have m: "0 < ?m" "?k + ?m = frag_len f" "?k + ?m \<le> frag_len f" "?k + ?m > 0" using gt True fe r(3) by simp_all
    have "logging ts F (st_fragments st @ [?g]) (f # fs) (?k + ?m) (st_insertions st @ [insertion_fragment_new ?g]) (st_slices st) (st_offset st)"
      by (rule logging_part [OF lg assms(3) m(1,3)]) simp_all
    from logging_next [OF this m(2,4)] gt True assms(4) r nx show ?thesis
      by (auto simp: push_suffix_def Let_def frag_item_def)
  qed
qed

lemma skip_to_log:
  assumes "edit_inv ins V st" "log_inv ts F st" "fresh ts F" "skip_to s st = Some st'"
  shows "log_inv ts F st'"
proof (cases "frag_end (st_cursor st) < s")
  case True
  from push_suffix_ok [OF assms(1)] obtain st1 where s1: "push_suffix st = Some st1" by blast
  obtain us c where sl: "frag_slice s (st_cursor st1) = (us, c)" by fastforce
  note ok = slice_right_ok [OF sl [unfolded frag_slice_def]]
  have "logging ts F (st_fragments st1 @ us) (cur_rest c) 0 (st_insertions st1) (st_slices st1) (st_offset st1)"
    using push_suffix_log [OF assms(1-3) s1] ok by (intro logging_append assms(3)) simp
  then show ?thesis using assms(4) True s1 sl by (auto simp: skip_to_def log_inv_def)
qed (use assms in \<open>auto simp: skip_to_def\<close>)

lemma push_prefix_log:
  assumes "edit_inv ins V st" "log_inv ts F st" "fresh ts F" "s \<le> frag_end (st_cursor st)" "push_prefix s st = Some st'"
  shows "log_inv ts F st'"
proof (cases "st_start st < s")
  case True
  let ?c = "st_cursor st" and ?k = "st_start st - cur_visible (st_cursor st)" and ?m = "s - st_start st"
  have le: "cur_visible ?c \<le> st_start st" using assms(1) by (simp add: edit_inv_def)
  obtain f fs where r: "cur_rest ?c = f # fs" "frag_visible f" "s \<le> cur_visible ?c + frag_len f"
    using True assms(4) le by (cases "cur_rest ?c") (auto simp: frag_end_def vis_len_def split: if_splits)
  let ?g = "f\<lparr>frag_len := ?m, frag_offset := frag_offset f + ?k,
      frag_id := between (fs_max_id (builder_summary (st_fragments st))) (frag_id f)\<rparr>"
  have m: "0 < ?m" "?k + ?m \<le> frag_len f" "?k + ?m = s - cur_visible ?c" using True r(3) le by simp_all
  have lg: "logging ts F (st_fragments st) (f # fs) ?k (st_insertions st) (st_slices st) (st_offset st)"
    using assms(2) r by (simp add: log_inv_def)
  have "logging ts F (st_fragments st @ [?g]) (f # fs) (?k + ?m) (st_insertions st @ [insertion_fragment_new ?g]) (st_slices st) (st_offset st)"
    by (rule logging_part [OF lg assms(3) m(1,2)]) simp_all
  then show ?thesis using True assms(5) r m(3) by (auto simp: push_prefix_def log_inv_def frag_item_def Let_def)
qed (use assms in \<open>auto simp: push_prefix_def\<close>)

lemma push_insertion_log:
  assumes "log_inv ts F st" "length t \<le> MAX_INSERTION_LEN" "push_insertion t ts st = Some st'"
  shows "log_inv ts F st'"
proof (cases "t = []")
  case False
  let ?g = "\<lparr>frag_id = between (fs_max_id (builder_summary (st_fragments st))) (next_fragment_id (st_cursor st)), frag_timestamp = ts,
      frag_offset = st_offset st, frag_len = length t, frag_visible = True, frag_deletions = [], frag_max_undos = global_new\<rparr>"
  from logging_insert [OF assms(1) [unfolded log_inv_def], of ?g] show ?thesis
    using assms(3) False by (auto simp: push_insertion_def push_fragments_for_insertion_def insertion_loop_single [OF False assms(2)] Let_def log_inv_def)
qed (use assms in \<open>simp add: push_insertion_def\<close>)

lemma delete_step_log:
  assumes "edit_inv ins V st" "log_inv ts F st" "fresh ts F" "st_start st < e" "cur_rest (st_cursor st) = f # fs"
  shows "log_inv ts F (delete_step ts e f st)"
proof -
  let ?c = "st_cursor st" and ?k = "st_start st - cur_visible (st_cursor st)"
  have le: "cur_visible ?c \<le> st_start st" and wf: "frag_len f > 0" and kle: "?k > 0 \<longrightarrow> frag_visible f \<and> ?k \<le> frag_len f"
    using assms(1,5) by (auto simp: edit_inv_def editing_def frag_wf_def)
  have lg: "logging ts F (st_fragments st) (f # fs) ?k (st_insertions st) (st_slices st) (st_offset st)"
    using assms(2,5) by (simp add: log_inv_def)
  have fe: "frag_end ?c = cur_visible ?c + vis_len f" and nx: "frag_next ?c = \<lparr>cur_visible = cur_visible ?c + vis_len f,
      cur_deleted = cur_deleted ?c + del_len f, cur_rest = fs\<rparr>"
    using assms(5) by (simp_all add: frag_end_def frag_next_def)
  show ?thesis
  proof (cases "frag_visible f")
    case False
    then have k: "?k = 0" "cur_visible ?c = st_start st" using kle le by auto
    have "logging ts F (st_fragments st @ [f]) (f # fs) (0 + frag_len f) (st_insertions st @ [insertion_fragment_new f]) (st_slices st) (st_offset st)"
      by (rule logging_part [OF lg [unfolded k(1)] assms(3) wf]) simp_all
    from logging_next [OF this] show ?thesis using False k assms(4) wf fe nx by (simp add: delete_step_def Let_def log_inv_def vis_len_def)
  next
    case vis: True
    let ?ie = "min e (frag_end ?c)" and ?g = "f\<lparr>frag_len := min e (frag_end ?c) - st_start st, frag_offset := frag_offset f + ?k,
        frag_id := between (fs_max_id (builder_summary (st_fragments st))) (frag_id f),
        frag_deletions := frag_deletions f @ [ts], frag_visible := False\<rparr>"
    let ?m = "?ie - st_start st"
    have fe': "frag_end ?c = cur_visible ?c + frag_len f" using fe vis by (simp add: vis_len_def)
    have sle: "st_start st \<le> frag_end ?c" using kle le fe' by linarith
    show ?thesis
    proof (cases "?m > 0")
      case True
      have m: "?k + ?m \<le> frag_len f" using fe' le sle min.cobounded2 [of e "frag_end ?c"] by arith
      have new: "logging ts F (st_fragments st @ [?g]) (f # fs) (?k + ?m) (st_insertions st @ [insertion_fragment_new ?g])
          (st_slices st @ [insertion_slice_from_fragment ts ?g]) (st_offset st)"
        by (rule logging_delete [OF lg assms(3) True m]) (simp_all add: vis)
      show ?thesis
      proof (cases "frag_end ?c \<le> e")
        case full: True
        then have "?k + ?m = frag_len f" "?k + ?m > 0" using fe' le sle True by simp_all
        from logging_next [OF new this] show ?thesis using True full vis nx fe fe'
          by (simp add: delete_step_def Let_def log_inv_def min_absorb2)
      next
        case part: False
        then have "?k + ?m = e - cur_visible ?c" using le True by simp
        with new show ?thesis using True part vis assms le by (simp add: delete_step_def Let_def log_inv_def min_absorb1)
      qed
    next
      case False
      then have full: "frag_end ?c = st_start st" "frag_end ?c \<le> e" using sle assms(4) by auto
      then have "?k = frag_len f" "?k > 0" using fe' le wf by simp_all
      from logging_next [OF lg this] show ?thesis using False full vis nx fe assms(4) by (simp add: delete_step_def Let_def log_inv_def)
    qed
  qed
qed

lemma delete_loop_log:
  "edit_inv ins V st \<Longrightarrow> log_inv ts F st \<Longrightarrow> fresh ts F \<Longrightarrow> st_start st \<le> e \<Longrightarrow> e \<le> length V \<Longrightarrow>
     delete_loop ts e st = Some st' \<Longrightarrow> log_inv ts F st'"
proof (induction "length (cur_rest (st_cursor st))" arbitrary: st rule: less_induct)
  case less
  show ?case
  proof (cases "st_start st < e")
    case True
    then obtain f fs where r: "cur_rest (st_cursor st) = f # fs"
      using less.prems editing_at_end by (cases "cur_rest (st_cursor st)") (fastforce simp: edit_inv_def)+
    let ?st = "delete_step ts e f st"
    from delete_step_ok [OF less.prems(1) True r, of ts] have step: "edit_inv ins V ?st"
      "st_start ?st \<le> e" "st_start ?st = e \<or> cur_rest (st_cursor ?st) = fs" by blast+
    have lg: "log_inv ts F ?st" by (rule delete_step_log [OF less.prems(1-3) True r])
    have unfold: "delete_loop ts e ?st = Some st'" using less.prems(6) True r by (subst (asm) delete_loop.simps) (simp add: frag_item_def)
    show ?thesis
    proof (cases "st_start ?st = e")
      case True
      with unfold lg show ?thesis by (subst (asm) delete_loop.simps) simp
    next
      case False
      with step r have "length (cur_rest (st_cursor ?st)) < length (cur_rest (st_cursor st))" by simp
      from less.hyps [OF this step(1) lg less.prems(3) step(2) less.prems(5) unfold] show ?thesis .
    qed
  next
    case False
    with less.prems(2,6) show ?thesis by (subst (asm) delete_loop.simps) simp
  qed
qed

lemma apply_one_edit_log:
  assumes "edit_inv ins V st" "st_start st \<le> s" "s \<le> e" "e \<le> length V"
    and "length (normalize_text t) \<le> MAX_INSERTION_LEN" "ins ts = P @ normalize_text t @ Q" "length P = st_offset st"
    and "log_inv ts F st" "fresh ts F" "apply_one_edit ts ((s, e), t) st = Some st'"
  shows "log_inv ts F st'"
proof -
  from assms have sV: "s \<le> length V" by simp
  from skip_to_ok [OF assms(1,2) sV] obtain st1 where s1: "skip_to s st = Some st1" "same_log st st1" "edit_inv ins V st1"
    "st_start st1 \<le> s" "s \<le> frag_end (st_cursor st1)" by blast
  from push_prefix_ok [OF s1(3,4,5)] obtain st2 where s2: "push_prefix s st1 = Some st2" "same_log st1 st2" "edit_inv ins V st2"
    "st_start st2 = s" by blast
  have "length P = st_offset st2" using assms(7) s1(2) s2(2) by (simp add: same_log_def)
  from push_insertion_ok [OF s2(3) assms(5,6) this] obtain st3 where s3: "push_insertion (normalize_text t) ts st2 = Some st3"
    "edit_inv ins V st3" "st_start st3 = st_start st2" by blast
  have le: "st_start st3 \<le> e" using s3(3) s2(4) assms(3) by simp
  from delete_loop_ok [OF s3(2) this assms(4), of ts] obtain st4 where s4: "delete_loop ts e st3 = Some st4" by blast
  note l1 = skip_to_log [OF assms(1,8,9) s1(1)]
  note l2 = push_prefix_log [OF s1(3) l1 assms(9) s1(5) s2(1)]
  note l3 = push_insertion_log [OF l2 assms(5) s3(1)]
  note l4 = delete_loop_log [OF s3(2) l3 assms(9) le assms(4) s4]
  from l4 assms(10) s1(1) s2(1) s3(1) s4 show ?thesis by (auto simp: apply_one_edit_def Let_def log_inv_def)
qed

lemma apply_edits_log:
  "edit_inv ins V st \<Longrightarrow> edits_ok (st_start st) es (length V) \<Longrightarrow> length (inserted es) \<le> MAX_INSERTION_LEN \<Longrightarrow>
     ins ts = P @ inserted es \<Longrightarrow> length P = st_offset st \<Longrightarrow> log_inv ts F st \<Longrightarrow> fresh ts F \<Longrightarrow>
     apply_edits ts es st = Some st' \<Longrightarrow> log_inv ts F st'"
proof (induction es arbitrary: st P)
  case (Cons edit es)
  obtain s e t where edit: "edit = ((s, e), t)" by (metis surj_pair)
  let ?t = "normalize_text t"
  have ok: "st_start st \<le> s" "s \<le> e" "e \<le> length V" "edits_ok e es (length V)" "length ?t \<le> MAX_INSERTION_LEN"
    "ins ts = P @ ?t @ inserted es" using Cons.prems edit by auto
  from apply_one_edit_ok [OF Cons.prems(1) ok(1-3,5,6) Cons.prems(5)] obtain st1 where
    s1: "apply_one_edit ts ((s, e), t) st = Some st1" "edit_inv ins V st1" "st_start st1 = e"
      "st_offset st1 = st_offset st + length ?t" by blast
  have "ins ts = (P @ ?t) @ inserted es" "length (P @ ?t) = st_offset st1" using ok(6) s1(4) Cons.prems(5) by simp_all
  from Cons.IH [OF s1(2) _ _ this apply_one_edit_log [OF Cons.prems(1) ok(1-3,5,6) Cons.prems(5,6,7) s1(1)] Cons.prems(7)]
  show ?case using ok s1 Cons.prems edit by auto
qed simp

subsection \<open>The result\<close>

text \<open>The new fragments, their cells, and the entries and slices that the edit adds to the two indices.\<close>

lemma apply_edit_internal_log:
  assumes "snapshot_ok ins snap" "edits_ok 0 edits (length (visible_text snap))" "edits \<noteq> []"
    and "fresh ts (fragments snap)" "length (inserted edits) \<le> MAX_INSERTION_LEN" "apply_edit_internal edits ts snap = Some (snap', op, p)"
  shows "\<exists>xs ss off. logging ts (fragments snap) (fragments snap') [] 0 xs ss off
    \<and> insertions snap' = edit_items if_key (insertions snap) (map Insert (sort_key if_key xs))
    \<and> insertion_slices snap' = edit_items slice_key (insertion_slices snap) (map Insert (sort_key slice_key ss))
    \<and> snap_undo_map snap' = snap_undo_map snap \<and> snap_version snap' = snap_version snap"
proof -
  let ?V = "visible_text snap" and ?ins = "ins(ts := inserted edits)" and ?F = "fragments snap"
  obtain s e t es where edits: "edits = ((s, e), t) # es" using assms(3) by (cases edits) auto
  let ?st = "edit_start s snap"
  have "\<forall>f \<in> set ?F. frag_timestamp f \<noteq> ts" using assms(4) by (simp add: fresh_def)
  note start = edit_start_ok [OF snapshot_ok_fresh [OF assms(1) this, of "inserted edits"], of s]
  have ok: "edits_ok (st_start ?st) edits (length ?V)" using assms(2) start edits by simp
  from apply_edits_ok [OF _ this assms(5), of ?ins ts "[]"] start obtain st where
    st: "apply_edits ts edits ?st = Some st" "edit_inv ?ins ?V st" by auto
  have "logging ts ?F [] ?F 0 [] [] 0" by (auto simp: logging_def edited_cells_def)
  then have "log_inv ts ?F ?st"
    using slice_right_ok [of s 0 0 ?F] logging_append [of ts ?F "[]" _ _ "[]" "[]" 0] assms(4)
    by (simp add: edit_start_def log_inv_def frag_slice_def frag_cursor_new_def split: prod.splits)
  from apply_edits_log [OF _ ok assms(5) _ _ this assms(4) st(1), of ?ins "[]"] start have "log_inv ts ?F st" by simp
  moreover from push_suffix_ok [OF st(2)] obtain st1 where s1: "push_suffix st = Some st1" by blast
  ultimately have "logging ts ?F (st_fragments st1) (cur_rest (st_cursor st1)) 0 (st_insertions st1) (st_slices st1) (st_offset st1)"
    using push_suffix_log [OF st(2)] assms(4) by blast
  with logging_append [of ts ?F "st_fragments st1" "cur_rest (st_cursor st1)" "[]"] assms(4)
  have "logging ts ?F (st_fragments st1 @ cur_rest (st_cursor st1)) [] 0 (st_insertions st1) (st_slices st1) (st_offset st1)" by simp
  moreover have "edit_finish st snap = Some snap'"
    using assms(6) st(1) unfolding apply_edit_internal_def edits
    by (simp del: apply_edits.simps) (auto split: bind_splits)
  then have "fragments snap' = st_fragments st1 @ cur_rest (st_cursor st1)"
      "insertions snap' = edit_items if_key (insertions snap) (map Insert (sort_key if_key (st_insertions st1)))"
      "insertion_slices snap' = edit_items slice_key (insertion_slices snap) (map Insert (sort_key slice_key (st_slices st1)))"
      "snap_undo_map snap' = snap_undo_map snap" "snap_version snap' = snap_version snap"
    using s1 by (auto simp: edit_finish_def Let_def split: prod.splits)
  ultimately show ?thesis by auto
qed

end
