(* ===== verification/Buffer_Invariant.thy ===== *)
theory Buffer_Invariant
  imports Cells
begin

text \<open>
  The invariant of a buffer snapshot and what it gives: local edits and undo operations keep the texts, the two indices and the
  visibility of the fragments consistent, undoing an edit restores the visible text it was made on, and the visible text after
  undo operations depends only on which edits are undone.
\<close>

subsection \<open>Sorted indices\<close>

lemma set_subseq: "subseq xs ys \<Longrightarrow> set xs \<subseteq> set ys"
  by (auto dest: list_emb_set)

lemma distinct_subseq: "subseq xs ys \<Longrightarrow> distinct ys \<Longrightarrow> distinct xs"
  by (induction rule: list_emb.induct) (auto dest: list_emb_set)

lemma edit_items_inserts:
  assumes "sorted_keys key old" "distinct (map key xs)"
  shows "sorted_keys key (edit_items key old (map Insert (sort_key key xs)))"
    "set (edit_items key old (map Insert (sort_key key xs))) = set xs \<union> {x \<in> set old. key x \<notin> key ` set xs}"
proof -
  let ?es = "map Insert (sort_key key xs) :: ('a, 'b) tree_edit list" and ?new = "edit_items key old (map Insert (sort_key key xs))"
  have keys: "map (edit_key key) ?es = map key (sort_key key xs)" by simp
  have "mset (map key (sort_key key xs)) = mset (map key xs)" by simp
  then have "distinct (map key (sort_key key xs))" using assms(2) mset_eq_imp_distinct_iff by blast
  then have dist: "distinct (map (edit_key key) ?es)" unfolding keys .
  then have "sorted_wrt (<) (map (edit_key key) ?es)" unfolding keys by (simp add: strict_sorted_iff)
  then have ok: "sorted_keys key ?new" "lookup key ?new = edited key ?es (lookup key old)"
    using edit_items_ok [OF assms(1), of ?es] by (simp_all add: sorted_wrt_map)
  show "sorted_keys key ?new" by (rule ok(1))
  have mem: "x \<in> set L \<longleftrightarrow> lookup key L (key x) = Some x" if "sorted_keys key L" for x L
    using lookup_mem [OF that] lookup_Some by metis
  have ins: "edited key ?es m (key x) = Some x" if "x \<in> set xs" for x m
    using that edited_inserts [OF _ dist, of x] by simp
  have oth: "edited key ?es m k = m k" if "k \<notin> key ` set xs" for m k
    using that by (intro edited_other) (auto simp: image_image)
  have "x \<in> set ?new \<longleftrightarrow> x \<in> set xs \<or> x \<in> set old \<and> key x \<notin> key ` set xs" for x
  proof (cases "key x \<in> key ` set xs")
    case True
    then obtain y where y: "y \<in> set xs" "key x = key y" by auto
    then have "x \<in> set ?new \<longleftrightarrow> y = x" unfolding mem [OF ok(1)] ok(2) y(2) using ins by simp
    moreover have "x \<in> set xs \<longleftrightarrow> y = x" using y assms(2) by (auto simp: distinct_map inj_on_def)
    ultimately show ?thesis using True by simp
  next
    case False
    then show ?thesis unfolding mem [OF ok(1)] ok(2) mem [OF assms(1)] using oth by auto
  qed
  then show "set ?new = set xs \<union> {x \<in> set old. key x \<notin> key ` set xs}" by auto
qed

subsection \<open>The invariant\<close>

text \<open>The insertion of the base text, which has no slices and cannot be undone.\<close>

definition base_timestamp :: lamport where
  "base_timestamp = lamport_new LOCAL"

definition flag_cell :: "undo_map \<Rightarrow> cell \<Rightarrow> bool" where
  "flag_cell m c \<longleftrightarrow> \<not> undone m (cell_ts c) \<and> (\<forall>d \<in> set (cell_deletions c). undone m d)"

text \<open>The edits a cell depends on, and a slice for each of them.\<close>

definition cell_edits :: "cell \<Rightarrow> lamport set" where
  "cell_edits c = insert (cell_ts c) (set (cell_deletions c))"

definition sliced :: "insertion_slice list \<Rightarrow> cell \<Rightarrow> bool" where
  "sliced slices c \<longleftrightarrow> (\<forall>e \<in> cell_edits c - {base_timestamp}. \<exists>s \<in> set slices. is_edit_id s = e \<and> covers s (cell_ts c) (cell_offset c))"

definition cell_ok :: "snapshot \<Rightarrow> cell \<Rightarrow> bool" where
  "cell_ok snap c \<longleftrightarrow> cell_visible c = flag_cell (snap_undo_map snap) c \<and> sliced (insertion_slices snap) c
     \<and> cell_ts c \<noteq> lamport_MIN \<and> base_timestamp \<notin> set (cell_deletions c)"

definition snap_inv :: "(lamport \<Rightarrow> bytes) \<Rightarrow> snapshot \<Rightarrow> bool" where
  "snap_inv ins snap \<longleftrightarrow> snapshot_ok ins snap \<and> index_ok snap \<and> um_good (snap_undo_map snap)
     \<and> distinct (map cell_key (cells (fragments snap))) \<and> (\<forall>c \<in> set (cells (fragments snap)). cell_ok snap c)"

lemma snap_inv_frag_len: "snap_inv ins snap \<Longrightarrow> f \<in> set (fragments snap) \<Longrightarrow> frag_len f > 0"
  by (auto simp: snap_inv_def snapshot_ok_def frag_wf_def)

lemma cells_mono: "f \<in> set fs \<Longrightarrow> c \<in> set (cells_of f) \<Longrightarrow> c \<in> set (cells fs)"
  by (auto simp: cells_def)

lemma in_cellsE:
  assumes "c \<in> set (cells fs)" obtains f where "f \<in> set fs" "c \<in> set (cells_of f)"
  using assms by (auto simp: cells_def)

lemma distinct_frag_keys:
  assumes "\<forall>f \<in> set fs. frag_len f > 0" "distinct (map cell_key (cells fs))"
  shows "distinct (map frag_key fs)"
  using assms
proof (induction fs)
  case (Cons f fs)
  have key: "frag_key g \<in> cell_key ` set (cells_of g)" if "frag_len g > 0" for g
    using first_cell [OF that] by (force simp: cell_key_def frag_key_def image_iff)
  have "frag_key f \<noteq> frag_key g" if "g \<in> set fs" for g
  proof -
    have "set (cells_of g) \<subseteq> set (cells fs)" using cells_mono [OF that] by blast
    moreover have "frag_key f \<in> cell_key ` set (cells_of f)" "frag_key g \<in> cell_key ` set (cells_of g)"
      using Cons.prems(1) that by (simp_all only: key list.set_intros)
    moreover have "cell_key ` set (cells_of f) \<inter> cell_key ` set (cells fs) = {}" using Cons.prems(2) by simp
    ultimately show ?thesis by (metis IntI emptyE image_mono subsetD)
  qed
  with Cons show ?case by auto
qed simp

subsection \<open>Local edits keep it\<close>

lemma distinct_map_parts:
  "distinct (map f (filter P xs)) \<Longrightarrow> distinct (map f (filter (\<lambda>x. \<not> P x) xs)) \<Longrightarrow>
     (\<And>x y. x \<in> set xs \<Longrightarrow> y \<in> set xs \<Longrightarrow> P x \<Longrightarrow> \<not> P y \<Longrightarrow> f x \<noteq> f y) \<Longrightarrow> distinct (map f xs)"
proof (induction xs)
  case (Cons x xs)
  have "distinct (map f xs)" using Cons by (auto split: if_splits)
  moreover have "f x \<noteq> f y" if "y \<in> set xs" for y
    using Cons.prems(1,2) Cons.prems(3) [of x y] Cons.prems(3) [of y x] that by (cases "P x"; cases "P y") (auto simp: image_iff)
  ultimately show ?case by auto
qed simp

lemma edited_cell_cases:
  assumes "edited_cells ts C D" "d \<in> set D"
  obtains (new) "cell_ts d = ts" "cell_visible d" "cell_deletions d = []" | (old) c where "c \<in> set C" "cell_edited ts c d" "cell_ts d \<noteq> ts"
proof (cases "cell_ts d = ts")
  case True
  with assms that(1) show thesis by (auto simp: edited_cells_def)
next
  case False
  then have "d \<in> set (filter (\<lambda>d. cell_ts d \<noteq> ts) D)" using assms(2) by simp
  with assms(1) False that(2) show thesis unfolding edited_cells_def list_all2_conv_all_nth in_set_conv_nth by metis
qed

lemma cell_edited_simps: "cell_edited ts c d \<Longrightarrow> cell_ts d = cell_ts c \<and> cell_offset d = cell_offset c"
  by (auto simp: cell_edited_def delete_cell_def)

lemma logging_distinct:
  assumes "logging ts F N [] 0 xs ss off" "distinct (map cell_key (cells F))"
  shows "distinct (map cell_key (cells N))"
proof (rule distinct_map_parts [where P = "\<lambda>c. cell_ts c = ts"])
  have ed: "edited_cells ts (cells F) (cells N)" and off: "map cell_offset (filter (\<lambda>c. cell_ts c = ts) (cells N)) = [0..<off]"
    using assms(1) by (auto simp: logging_def)
  have "list_all2 (cell_edited ts) (cells F) (filter (\<lambda>c. cell_ts c \<noteq> ts) (cells N))" using ed by (simp add: edited_cells_def)
  then have "map cell_key (cells F) = map cell_key (filter (\<lambda>c. cell_ts c \<noteq> ts) (cells N))"
    by (induction rule: list_all2_induct) (auto simp: cell_key_def dest: cell_edited_simps)
  with assms(2) show "distinct (map cell_key (filter (\<lambda>c. cell_ts c \<noteq> ts) (cells N)))" by simp
  have "distinct (map snd (map cell_key (filter (\<lambda>c. cell_ts c = ts) (cells N))))" using off by (simp add: cell_key_def comp_def)
  then show "distinct (map cell_key (filter (\<lambda>c. cell_ts c = ts) (cells N)))" by (simp add: distinct_map) (auto simp: inj_on_def)
qed (auto simp: cell_key_def)

lemma slice_key_inj: "slice_key s = slice_key s' \<Longrightarrow> s = s'"
  by (simp add: slice_key_def)

lemma slice_key_of_fragment:
  "slice_key (insertion_slice_from_fragment ts g) = (ts, frag_timestamp g, frag_offset g, frag_offset g + frag_len g)"
  by (simp add: slice_key_def insertion_slice_from_fragment_def)

text \<open>The new entries take the place of those of the fragments that have been rewritten.\<close>

lemma edit_index_ok:
  assumes "index_ok snap" "logging ts (fragments snap) (fragments snap') [] 0 xs ss off" "distinct (map frag_key (fragments snap'))"
    and "insertions snap' = edit_items if_key (insertions snap) (map Insert (sort_key if_key xs))"
    and "insertion_slices snap' = edit_items slice_key (insertion_slices snap) (map Insert (sort_key slice_key ss))"
    and "\<forall>g \<in> set (fragments snap'). frag_timestamp g \<noteq> lamport_MIN"
  shows "index_ok snap'" "set (insertion_slices snap') = set (insertion_slices snap) \<union> set ss" "\<forall>s \<in> set ss. is_edit_id s = ts"
proof -
  let ?F = "fragments snap" and ?N = "fragments snap'"
  have xs: "subseq xs (map insertion_fragment_new ?N)" and ss: "subseq ss (map (insertion_slice_from_fragment ts) ?N)"
    and N: "\<And>g. g \<in> set ?N \<Longrightarrow> insertion_fragment_new g \<in> set xs \<or> g \<in> set ?F"
    and F: "\<And>f. f \<in> set ?F \<Longrightarrow> f \<in> set ?N \<or> frag_key f \<in> if_key ` set xs"
    using assms(2) unfolding logging_def by auto
  have sub: "set xs \<subseteq> insertion_fragment_new ` set ?N" "set ss \<subseteq> insertion_slice_from_fragment ts ` set ?N"
    using set_subseq [OF xs] set_subseq [OF ss] by simp_all
  have "distinct (map if_key xs)" using distinct_subseq [OF subseq_map [OF xs, of if_key]] assms(3) by (simp add: comp_def)
  note ix = edit_items_inserts [OF _ this, of "insertions snap"]
  have "distinct (map (insertion_slice_from_fragment ts) ?N)"
    using assms(3) by (auto simp: distinct_map inj_on_def insertion_slice_from_fragment_def frag_key_def)
  from distinct_subseq [OF ss this] have "distinct (map slice_key ss)" by (auto simp: distinct_map inj_on_def dest: slice_key_inj)
  note sl = edit_items_inserts [OF _ this, of "insertion_slices snap"]
  have again: "insertion_fragment_new g \<in> set xs" if "g \<in> set ?N" "frag_key g \<in> if_key ` set xs" for g
  proof -
    from that(2) sub(1) obtain h where "h \<in> set ?N" "insertion_fragment_new h \<in> set xs" "frag_key h = frag_key g" by auto
    with that(1) assms(3) show ?thesis by (auto simp: distinct_map inj_on_def)
  qed
  have "set xs \<union> {x \<in> insertion_fragment_new ` set ?F. if_key x \<notin> if_key ` set xs} = insertion_fragment_new ` set ?N"
  proof (intro equalityI subsetI)
    fix x assume "x \<in> insertion_fragment_new ` set ?N"
    then obtain g where g: "x = insertion_fragment_new g" "g \<in> set ?N" by blast
    with N [OF g(2)] again [OF g(2)] show "x \<in> set xs \<union> {x \<in> insertion_fragment_new ` set ?F. if_key x \<notin> if_key ` set xs}" by auto
  qed (use sub(1) F in fastforce)
  moreover have keep: "set ss \<union> {s \<in> set (insertion_slices snap). slice_key s \<notin> slice_key ` set ss} = set (insertion_slices snap) \<union> set ss"
    by (auto dest: slice_key_inj)
  moreover have "is_insertion_id s \<noteq> lamport_MIN" "is_edit_id s = ts" if "s \<in> set ss" for s
    using that sub(2) assms(6) by (auto simp: insertion_slice_from_fragment_def)
  ultimately show "index_ok snap'" "set (insertion_slices snap') = set (insertion_slices snap) \<union> set ss" "\<forall>s \<in> set ss. is_edit_id s = ts"
    using assms(1) ix sl by (auto simp: index_ok_def assms(4,5))
qed

text \<open>A timestamp that no fragment, no slice and no undo operation mentions yet.\<close>

definition new_timestamp :: "lamport \<Rightarrow> snapshot \<Rightarrow> bool" where
  "new_timestamp ts snap \<longleftrightarrow> fresh ts (fragments snap) \<and> (\<forall>u. um_abs (snap_undo_map snap) (ts, u) = None)
     \<and> ts \<noteq> lamport_MIN \<and> ts \<noteq> base_timestamp"

lemma new_not_undone: "(\<forall>u. um_abs m (ts, u) = None) \<Longrightarrow> \<not> undone m ts"
  by (simp add: undone_def max_count_def)

lemma cell_ok_edited:
  assumes "cell_ok snap c" "cell_edited ts c d" "\<not> undone (snap_undo_map snap) ts" "ts \<noteq> base_timestamp"
    and "snap_undo_map snap' = snap_undo_map snap" "set (insertion_slices snap) \<subseteq> set (insertion_slices snap')"
    and "ts \<in> set (cell_deletions d) \<Longrightarrow> \<exists>s \<in> set (insertion_slices snap'). is_edit_id s = ts \<and> covers s (cell_ts d) (cell_offset d)"
  shows "cell_ok snap' d"
proof -
  have old: "sliced (insertion_slices snap') c" using assms(1,6) unfolding cell_ok_def sliced_def by blast
  show ?thesis
  proof (cases "d = c")
    case True
    with assms(1,5) old show ?thesis by (simp add: cell_ok_def)
  next
    case False
    then have d: "d = delete_cell ts c" using assms(2) by (simp add: cell_edited_def)
    then have "cell_edits d = insert ts (cell_edits c)" by (auto simp: cell_edits_def delete_cell_def)
    with old assms(7) d have "sliced (insertion_slices snap') d" by (auto simp: sliced_def delete_cell_def)
    with d assms(1,3,4,5) show ?thesis by (auto simp: cell_ok_def delete_cell_def flag_cell_def)
  qed
qed

text \<open>An edit that is logged in the two indices keeps the invariant, whichever replica made it.\<close>

lemma logged_snap_inv:
  assumes "snap_inv ins snap" "new_timestamp ts snap" "logging ts (fragments snap) (fragments snap') [] 0 xs ss off"
    and "insertions snap' = edit_items if_key (insertions snap) (map Insert (sort_key if_key xs))"
      "insertion_slices snap' = edit_items slice_key (insertion_slices snap) (map Insert (sort_key slice_key ss))"
      "snap_undo_map snap' = snap_undo_map snap"
    and "snapshot_ok ins' snap'"
  shows "snap_inv ins' snap' \<and> edited_cells ts (cells (fragments snap)) (cells (fragments snap'))"
proof -
  let ?F = "fragments snap" and ?N = "fragments snap'" and ?m = "snap_undo_map snap"
  have ok: "snapshot_ok ins snap" "index_ok snap" "um_good ?m" "distinct (map cell_key (cells ?F))" "\<forall>c \<in> set (cells ?F). cell_ok snap c"
    using assms(1) by (auto simp: snap_inv_def)
  have ts: "fresh ts ?F" "\<not> undone ?m ts" "ts \<noteq> lamport_MIN" "ts \<noteq> base_timestamp"
    using assms(2) new_not_undone by (auto simp: new_timestamp_def)
  note lg = assms(3) and ix = assms(4-6)
  have ed: "edited_cells ts (cells ?F) (cells ?N)" using lg by (auto simp: logging_def)
  have dist: "distinct (map cell_key (cells ?N))" by (rule logging_distinct [OF lg ok(4)])
  have len: "\<forall>g \<in> set ?N. frag_len g > 0" using assms(7) by (auto simp: snapshot_ok_def frag_wf_def)
  have nmin: "cell_ts d \<noteq> lamport_MIN" if "d \<in> set (cells ?N)" for d
    using ed that ts(3) ok(5) by (cases rule: edited_cell_cases) (auto simp: cell_ok_def dest!: cell_edited_simps)
  have min: "\<forall>g \<in> set ?N. frag_timestamp g \<noteq> lamport_MIN"
  proof
    fix g assume g: "g \<in> set ?N"
    with len first_cell [of g] nmin [OF cells_mono [OF g]] show "frag_timestamp g \<noteq> lamport_MIN" by fastforce
  qed
  note index = edit_index_ok [OF ok(2) lg distinct_frag_keys [OF len dist] ix(1,2) min]
  have cover: "\<exists>s \<in> set (insertion_slices snap'). is_edit_id s = ts \<and> covers s (cell_ts d) (cell_offset d)"
    if "d \<in> set (cells ?N)" "cell_ts d = ts \<or> ts \<in> set (cell_deletions d)" for d
    using lg that index(2,3) unfolding logging_def by blast
  have "cell_ok snap' d" if d: "d \<in> set (cells ?N)" for d
    using ed d
  proof (cases rule: edited_cell_cases)
    case new
    with cover [OF d] ts ix(3) show ?thesis by (simp add: cell_ok_def sliced_def cell_edits_def flag_cell_def)
  next
    case (old c)
    show ?thesis
    proof (rule cell_ok_edited [OF _ old(2) ts(2,4) ix(3)])
      show "cell_ok snap c" using ok(5) old(1) by blast
      show "set (insertion_slices snap) \<subseteq> set (insertion_slices snap')" using index(2) by blast
    qed (use cover [OF d] in blast)
  qed
  with assms(7) index(1) ok(3) dist ix(3) ed show ?thesis by (simp add: snap_inv_def)
qed

lemma edit_keeps_snap_inv:
  assumes "snap_inv ins snap" "edits_ok 0 edits (length (visible_text snap))" "edits \<noteq> []" "new_timestamp ts snap"
    and "length (inserted edits) \<le> MAX_INSERTION_LEN" "apply_edit_internal edits ts snap = Some (snap', op, p)"
    and "snapshot_ok ins' snap'"
  shows "snap_inv ins' snap' \<and> edited_cells ts (cells (fragments snap)) (cells (fragments snap')) \<and> snap_undo_map snap' = snap_undo_map snap
    \<and> snap_version snap' = snap_version snap"
proof -
  have "snapshot_ok ins snap" "fresh ts (fragments snap)" using assms(1,4) by (auto simp: snap_inv_def new_timestamp_def)
  from apply_edit_internal_log [OF this(1) assms(2,3) this(2) assms(5,6)] logged_snap_inv [OF assms(1,4) _ _ _ _ assms(7)]
  show ?thesis by blast
qed

subsection \<open>Undo operations keep it\<close>

definition skeleton :: "fragment list \<Rightarrow> cell list" where
  "skeleton fs = map (\<lambda>c. c\<lparr>cell_visible := True\<rparr>) (cells fs)"

lemma skeleton_key: "map cell_key (cells fs) = map cell_key (skeleton fs)"
  by (simp add: skeleton_def cell_key_def comp_def)

lemma cells_of_recompute: "cells_of (recompute m ts f) = map (\<lambda>c. c\<lparr>cell_visible := flag m f\<rparr>) (cells_of f)"
  by (simp add: cells_of_def)

lemma undone_other:
  assumes "\<forall>u. um_abs m1 (e, u) = um_abs m (e, u)"
  shows "undone m1 e = undone m e"
  using assms by (simp add: undone_def max_count_def)

lemma flag_cell_of: "c \<in> set (cells_of f) \<Longrightarrow> flag_cell m c = flag m f"
  by (auto simp: flag_cell_def flag_def dest!: in_cells_of)

lemma flag_cell_cong: "(\<And>e. e \<in> cell_edits c \<Longrightarrow> undone m1 e = undone m e) \<Longrightarrow> flag_cell m1 c = flag_cell m c"
  by (auto simp: flag_cell_def cell_edits_def)

text \<open>A fragment that depends on an undone edit is touched.\<close>

lemma depends_touched:
  assumes "snap_inv ins snap" "f \<in> set (fragments snap)" "c \<in> set (cells_of f)" "e \<in> cell_edits c" "e \<in> es" "e \<noteq> base_timestamp"
  shows "touched snap es f"
proof -
  let ?d = "\<lparr>cell_ts = frag_timestamp f, cell_offset = frag_offset f, cell_visible = frag_visible f, cell_deletions = frag_deletions f\<rparr>"
  have "?d \<in> set (cells (fragments snap))" using first_cell snap_inv_frag_len [OF assms(1,2)] cells_mono [OF assms(2)] by blast
  then have "sliced (insertion_slices snap) ?d" using assms(1) by (simp add: snap_inv_def cell_ok_def)
  moreover have "e \<in> cell_edits ?d" using assms(3,4) by (auto simp: cell_edits_def dest!: in_cells_of)
  ultimately have "\<exists>s \<in> set (insertion_slices snap). is_edit_id s = e \<and> covers s (frag_timestamp f) (frag_offset f)"
    using assms(6) by (auto simp: sliced_def)
  with assms(5) show ?thesis by (auto simp: touched_def)
qed

lemma cell_ok_recomputed:
  assumes "snap_inv ins snap" "f \<in> set (fragments snap)" "base_timestamp \<notin> es" "\<And>e. e \<notin> es \<Longrightarrow> undone (snap_undo_map snap') e = undone (snap_undo_map snap) e"
    and "insertion_slices snap' = insertion_slices snap"
    and "d \<in> set (cells_of (if touched snap es f then recompute (snap_undo_map snap') ts f else f))"
  shows "cell_ok snap' d"
proof -
  let ?m = "snap_undo_map snap'"
  have ok: "cell_ok snap c" if "c \<in> set (cells_of f)" for c using assms(1) cells_mono [OF assms(2) that] by (auto simp: snap_inv_def)
  show ?thesis
  proof (cases "touched snap es f")
    case True
    then obtain c where c: "c \<in> set (cells_of f)" "d = c\<lparr>cell_visible := flag ?m f\<rparr>" using assms(6) by (auto simp: cells_of_recompute)
    then show ?thesis using ok [OF c(1)] flag_cell_of [OF c(1), of ?m] assms(5)
      by (simp add: cell_ok_def sliced_def cell_edits_def flag_cell_def)
  next
    case False
    then have d: "d \<in> set (cells_of f)" using assms(6) by simp
    have "undone ?m e = undone (snap_undo_map snap) e" if "e \<in> cell_edits d" for e
      using depends_touched [OF assms(1,2) d that] False assms(3,4) by blast
    from flag_cell_cong [OF this] ok [OF d] assms(5) show ?thesis by (simp add: cell_ok_def)
  qed
qed

lemma undo_keeps_snap_inv:
  assumes "snap_inv ins snap" "sorts_edits srt" "undo_fits srt undo (snap_undo_map snap)" "base_timestamp \<notin> undone_edits undo"
  shows "\<exists>snap' p. apply_undo srt undo snap = Some (snap', p) \<and> snap_inv ins snap'
    \<and> describes p (visible_text snap) (visible_text snap') \<and> normal p \<and> snap_version snap' = snap_version snap
    \<and> skeleton (fragments snap') = skeleton (fragments snap)
    \<and> (\<forall>e u. um_abs (snap_undo_map snap') (e, u) = (if u = undo_timestamp undo \<and> e \<in> undone_edits undo
           then map_of (undo_counts undo) e else um_abs (snap_undo_map snap) (e, u)))"
proof -
  have "snapshot_ok ins snap" "index_ok snap" using assms(1) by (auto simp: snap_inv_def)
  from apply_undo_ok [OF this assms(2,3)] obtain snap' p where
    s: "um_insert srt undo (snap_undo_map snap) = Some (snap_undo_map snap')" "um_good (snap_undo_map snap')"
      "apply_undo srt undo snap = Some (snap', p)" "insertions snap' = insertions snap" "insertion_slices snap' = insertion_slices snap"
      "snap_version snap' = snap_version snap" "snapshot_ok ins snap'" "describes p (visible_text snap) (visible_text snap')" "normal p"
    and fr: "fragments snap' = map (\<lambda>f. if touched snap (undone_edits undo) f then recompute (snap_undo_map snap') (undo_timestamp undo) f else f)
        (fragments snap)" by blast
  from undo_fits_insert [OF assms(2,3)] s(1) have um: "\<forall>e u. um_abs (snap_undo_map snap') (e, u) =
      (if u = undo_timestamp undo \<and> e \<in> undone_edits undo then map_of (undo_counts undo) e else um_abs (snap_undo_map snap) (e, u))" by auto
  then have other: "undone (snap_undo_map snap') e = undone (snap_undo_map snap) e" if "e \<notin> undone_edits undo" for e
    using that by (intro undone_other) auto
  have skel: "skeleton (fragments snap') = skeleton (fragments snap)"
    unfolding fr skeleton_def cells_def by (auto simp: cells_of_recompute map_concat comp_def intro!: arg_cong [of _ _ concat])
  have "cell_ok snap' d" if "d \<in> set (cells (fragments snap'))" for d
  proof -
    from that fr obtain f where "f \<in> set (fragments snap)"
      "d \<in> set (cells_of (if touched snap (undone_edits undo) f then recompute (snap_undo_map snap') (undo_timestamp undo) f else f))"
      by (auto elim!: in_cellsE)
    from cell_ok_recomputed [OF assms(1) this(1) assms(4) other s(5) this(2)] show ?thesis .
  qed
  moreover have "distinct (map cell_key (cells (fragments snap')))" using assms(1) skeleton_key skel by (metis snap_inv_def)
  moreover have "index_ok snap'"
  proof -
    have "insertion_fragment_new ` set (fragments snap') = insertion_fragment_new ` set (fragments snap)"
      unfolding fr set_map image_image by (intro image_cong refl) (simp add: insertion_fragment_new_def)
    then show ?thesis using assms(1) s(4,5) by (simp add: snap_inv_def index_ok_def)
  qed
  ultimately have "snap_inv ins snap'" using s(2,7) by (simp add: snap_inv_def)
  with s um skel show ?thesis by blast
qed

subsection \<open>The visible text\<close>

definition byte_of :: "(lamport \<Rightarrow> bytes) \<Rightarrow> cell \<Rightarrow> nat" where
  "byte_of ins c = ins (cell_ts c) ! cell_offset c"

lemma vis_text_cells:
  "\<forall>f \<in> set fs. frag_wf ins f \<Longrightarrow> vis_text ins fs = map (byte_of ins) (filter cell_visible (cells fs))"
proof (induction fs)
  case (Cons f fs)
  have "content ins f = map (byte_of ins) (cells_of f)"
    using Cons.prems by (intro nth_equalityI) (auto simp: content_def cells_of_def byte_of_def frag_wf_def)
  moreover have "filter cell_visible (cells_of f) = (if frag_visible f then cells_of f else [])"
    by (auto simp: filter_id_conv filter_empty_conv dest: in_cells_of)
  ultimately show ?case using Cons by simp
qed simp

lemma visible_text_cells:
  assumes "snap_inv ins snap"
  shows "visible_text snap = map (byte_of ins) (filter (flag_cell (snap_undo_map snap)) (cells (fragments snap)))"
proof -
  have "filter cell_visible (cells (fragments snap)) = filter (flag_cell (snap_undo_map snap)) (cells (fragments snap))"
    using assms by (intro filter_cong) (auto simp: snap_inv_def cell_ok_def)
  with assms vis_text_cells [of "fragments snap" ins] show ?thesis by (simp add: snap_inv_def snapshot_ok_def)
qed

text \<open>It depends only on the skeleton and on which edits are undone.\<close>

lemma visible_text_determined:
  assumes "snap_inv ins snap" "snap_inv ins snap'" "skeleton (fragments snap') = skeleton (fragments snap)"
    and "\<And>e. undone (snap_undo_map snap') e = undone (snap_undo_map snap) e"
  shows "visible_text snap' = visible_text snap"
proof -
  have "map (byte_of ins) (filter (flag_cell m) (cells fs)) = map (byte_of ins) (filter (flag_cell m) (skeleton fs))" for m fs
    by (simp add: skeleton_def filter_map comp_def flag_cell_def [abs_def] byte_of_def [abs_def])
  moreover have "flag_cell (snap_undo_map snap') = flag_cell (snap_undo_map snap)"
    using assms(4) by (intro ext flag_cell_cong) simp
  ultimately show ?thesis using assms(3) by (simp add: visible_text_cells [OF assms(1)] visible_text_cells [OF assms(2)])
qed

text \<open>Undoing the edit itself gives the cells it started from.\<close>

lemma edited_cells_undone:
  assumes "edited_cells ts C D" "\<And>c. c \<in> set C \<Longrightarrow> ts \<notin> cell_edits c"
    and "undone m1 ts" "\<And>e. e \<noteq> ts \<Longrightarrow> undone m1 e = undone m e"
  shows "map (byte_of ins) (filter (flag_cell m1) D) = map (byte_of ins) (filter (flag_cell m) C)"
proof -
  have "filter (flag_cell m1) D = filter (flag_cell m1) (filter (\<lambda>d. cell_ts d \<noteq> ts) D)"
    using assms(3) by (auto simp: flag_cell_def intro: filter_cong)
  moreover have "list_all2 (cell_edited ts) C (filter (\<lambda>d. cell_ts d \<noteq> ts) D)" using assms(1) by (simp add: edited_cells_def)
  then have "map (byte_of ins) (filter (flag_cell m1) (filter (\<lambda>d. cell_ts d \<noteq> ts) D)) = map (byte_of ins) (filter (flag_cell m) C)"
    using assms(2)
  proof (induction rule: list_all2_induct)
    case (Cons c C d D)
    have "flag_cell m1 c = flag_cell m c" using assms(4) Cons.prems [of c] by (intro flag_cell_cong) (metis list.set_intros(1))
    moreover have "flag_cell m1 d = flag_cell m1 c" using Cons.hyps(1) assms(3) by (auto simp: cell_edited_def delete_cell_def flag_cell_def)
    moreover have "byte_of ins d = byte_of ins c" using cell_edited_simps [OF Cons.hyps(1)] by (simp add: byte_of_def)
    ultimately show ?case using Cons by simp
  qed simp
  ultimately show ?thesis by simp
qed

end
