(* ===== verification/Anchor_Proofs.thy ===== *)
theory Anchor_Proofs
  imports Anchor Buffer_Invariant
begin

text \<open>
  Anchors in a snapshot. The index of insertions leads an anchor to the fragment that holds the byte it is attached to, so that an
  anchor stands at a gap between the cells of the snapshot: its offset is the number of visible cells before the gap, and the order of
  anchors is that of their gaps. An anchor made at an offset stands there, and the loop that resolves many anchors with one pass of two
  cursors gives what resolving each of them gives.
\<close>

subsection \<open>The index\<close>

lemma find_with_prev_key_scan:
  assumes "P = (\<lambda>x. \<not> (target < key x \<or> target = key x \<and> b = Left))"
  shows "find_with_prev_key b key target prev xs =
     (case dropWhile P xs of [] \<Rightarrow> None | x # _ \<Rightarrow> Some (last (prev # map Some (takeWhile P xs)), x))"
proof (induction xs arbitrary: prev)
  case (Cons x xs)
  have P: "(target < key x \<or> target = key x \<and> b = Left) = (\<not> P x)" by (simp add: assms)
  show ?case unfolding find_with_prev_key.simps P using Cons.IH by (cases "P x") (simp_all cong: list.case_cong)
qed simp

lemma vec_last_map: "last (None # map Some xs) = vec_last xs"
  by (cases xs rule: rev_cases) simp_all

text \<open>The byte an anchor is attached to, and whether it is after it.\<close>

definition after_byte :: "anchor \<Rightarrow> bool" where
  "after_byte a \<longleftrightarrow> anchor_bias a = Left \<and> anchor_offset a > 0"

definition anchor_byte :: "anchor \<Rightarrow> lamport \<times> nat" where
  "anchor_byte a = (anchor_timestamp a, if after_byte a then unat (anchor_offset a) - 1 else unat (anchor_offset a))"

lemma takeWhile_found:
  assumes "sorted_keys key xs" "x \<in> set xs" "key x \<le> k" "\<And>y. y \<in> set xs \<Longrightarrow> key x < key y \<Longrightarrow> \<not> key y \<le> k"
  shows "vec_last (takeWhile (\<lambda>y. key y \<le> k) xs) = Some x"
proof -
  from assms(2) obtain us vs where xs: "xs = us @ x # vs" by (auto dest: split_list)
  have "\<forall>y \<in> set us. key y \<le> k" "\<forall>y \<in> set vs. \<not> key y \<le> k"
    using assms(1,3,4) unfolding xs by (force simp: sorted_keys_def sorted_wrt_append)+
  then have "takeWhile (\<lambda>y. key y \<le> k) xs = us @ [x]"
    unfolding xs using assms(3) by (cases vs) (simp_all add: takeWhile_append)
  then show ?thesis by simp
qed

lemma try_find_fragment_last:
  assumes "sorted_keys if_key (insertions snap)"
  shows "try_find_fragment snap a = vec_last (takeWhile (\<lambda>x. if_key x \<le> anchor_byte a) (insertions snap))"
proof -
  let ?xs = "insertions snap" and ?t = "(anchor_timestamp a, unat (anchor_offset a))"
  let ?Q = "\<lambda>x. if_key x \<le> anchor_byte a"
  define P where "P = (\<lambda>x. \<not> (?t < if_key x \<or> ?t = if_key x \<and> anchor_bias a = Left))"
  have lt: "if_key x < ?t \<longleftrightarrow> ?Q x" if "after_byte a" for x
    using that by (cases "if_key x") (auto simp: after_byte_def anchor_byte_def word_less_nat_alt)
  have eq: "anchor_byte a = ?t" if "\<not> after_byte a" using that by (simp add: anchor_byte_def)
  have PQ: "P x \<Longrightarrow> ?Q x" for x using lt [of x] eq by (cases "after_byte a") (auto simp: P_def after_byte_def)
  have scan: "find_with_prev_key (anchor_bias a) if_key ?t None ?xs =
      (case dropWhile P ?xs of [] \<Rightarrow> None | x # _ \<Rightarrow> Some (vec_last (takeWhile P ?xs), x))"
    unfolding find_with_prev_key_scan [OF P_def] vec_last_map ..
  show ?thesis
  proof (cases "dropWhile P ?xs")
    case Nil
    then have "takeWhile P ?xs = ?xs" by (metis append_Nil2 takeWhile_dropWhile_id)
    then have "\<forall>x \<in> set ?xs. ?Q x" using PQ by (metis set_takeWhileD)
    then have "takeWhile ?Q ?xs = ?xs" by (simp add: takeWhile_eq_all_conv)
    moreover have "try_find_fragment snap a = vec_last ?xs" using scan Nil by (simp add: try_find_fragment_def)
    ultimately show ?thesis by (simp only:)
  next
    case (Cons x rest)
    have xs: "?xs = takeWhile P ?xs @ x # rest" using Cons by (metis takeWhile_dropWhile_id)
    have x: "\<not> P x" using Cons by (metis hd_dropWhile list.distinct(1) list.sel(1))
    let ?prev = "?t < if_key x \<or> after_byte a \<and> if_key x = ?t"
    have found: "try_find_fragment snap a = (if ?prev then vec_last (takeWhile P ?xs) else Some x)"
      using Cons scan by (auto simp: try_find_fragment_def after_byte_def)
    show ?thesis
    proof (cases ?prev)
      case True
      then have "\<not> ?Q x" using lt [of x] eq by (cases "after_byte a") auto
      moreover have "\<forall>y \<in> set (takeWhile P ?xs). ?Q y" using PQ by (metis set_takeWhileD)
      ultimately have "takeWhile ?Q ?xs = takeWhile P ?xs" by (subst xs) (simp add: takeWhile_append)
      with found True show ?thesis by simp
    next
      case False
      then have x: "if_key x = ?t" "\<not> after_byte a" using x by (auto simp: P_def)
      have "x \<in> set ?xs" by (subst xs) simp
      then have "vec_last (takeWhile ?Q ?xs) = Some x" using x eq by (intro takeWhile_found [OF assms]) auto
      with found False show ?thesis by simp
    qed
  qed
qed

lemma same_fragment:
  assumes "distinct (map cell_key (cells fs))" "f \<in> set fs" "g \<in> set fs" "c \<in> set (cells_of f)" "d \<in> set (cells_of g)" "cell_key c = cell_key d"
  shows "f = g"
  using assms
proof (induction fs)
  case (Cons h fs)
  have "cell_key c \<notin> cell_key ` set (cells fs)" if "c \<in> set (cells_of h)" for c
    using Cons.prems(1) that by auto
  then have no: False if "x \<in> set (cells_of h)" "k \<in> set fs" "y \<in> set (cells_of k)" "cell_key x = cell_key y" for x k y
    using that cells_mono [OF that(2,3)] by (metis imageI)
  show ?case using Cons no by (metis cells_simps(2) distinct_append map_append set_ConsD)
qed simp

lemma try_find_fragment_ok:
  assumes "snap_inv ins snap" "f \<in> set (fragments snap)" "c \<in> set (cells_of f)" "cell_key c = anchor_byte a"
  shows "try_find_fragment snap a = Some (insertion_fragment_new f)"
proof -
  have ix: "sorted_keys if_key (insertions snap)" "set (insertions snap) = insertion_fragment_new ` set (fragments snap)"
    and dist: "distinct (map cell_key (cells (fragments snap)))" using assms(1) by (auto simp: snap_inv_def index_ok_def)
  have c: "anchor_byte a = (frag_timestamp f, cell_offset c)" "frag_offset f \<le> cell_offset c" "cell_offset c < frag_offset f + frag_len f"
    using in_cells_of [OF assms(3)] assms(4) by (simp_all add: cell_key_def)
  have "\<not> if_key y \<le> anchor_byte a" if "y \<in> set (insertions snap)" "if_key (insertion_fragment_new f) < if_key y" for y
  proof
    assume le: "if_key y \<le> anchor_byte a"
    from that ix(2) obtain g where g: "g \<in> set (fragments snap)" "y = insertion_fragment_new g" by auto
    with that(2) le c have k: "frag_timestamp g = frag_timestamp f" "frag_offset f < frag_offset g" "frag_offset g \<le> cell_offset c"
      by (auto simp: frag_key_def)
    let ?d = "\<lambda>h. \<lparr>cell_ts = frag_timestamp h, cell_offset = frag_offset g, cell_visible = frag_visible h, cell_deletions = frag_deletions h\<rparr>"
    have "?d f \<in> set (cells_of f)" using k c by (auto simp: cells_of_def image_iff intro!: bexI [of _ "frag_offset g - frag_offset f"])
    moreover have "?d g \<in> set (cells_of g)" using first_cell snap_inv_frag_len [OF assms(1) g(1)] by blast
    ultimately have "f = g" using same_fragment [OF dist assms(2) g(1)] k(1) by (simp add: cell_key_def)
    with k show False by simp
  qed
  moreover have "if_key (insertion_fragment_new f) \<le> anchor_byte a" using c by (simp add: frag_key_def)
  ultimately show ?thesis
    using try_find_fragment_last [OF ix(1)] takeWhile_found [OF ix(1), of "insertion_fragment_new f"] ix(2) assms(2) by simp
qed

subsection \<open>Gaps\<close>

text \<open>The gap between cells where an anchor is, and the visible cells before a gap.\<close>

definition anchor_gap :: "cell list \<Rightarrow> anchor \<Rightarrow> nat" where
  "anchor_gap C a =
     (if anchor_is_min a then 0
      else if anchor_is_max a then length C
      else length (takeWhile (\<lambda>c. cell_key c \<noteq> anchor_byte a) C) + (if after_byte a then 1 else 0))"

definition visible_before :: "cell list \<Rightarrow> nat \<Rightarrow> nat" where
  "visible_before C n = length (filter cell_visible (take n C))"

definition anchored :: "cell list \<Rightarrow> anchor \<Rightarrow> bool" where
  "anchored C a \<longleftrightarrow> anchor_is_min a \<or> anchor_is_max a \<or> anchor_byte a \<in> cell_key ` set C"

lemma visible_before_mono: "m \<le> n \<Longrightarrow> visible_before C m \<le> visible_before C n"
proof -
  assume "m \<le> n"
  then have "take n C = take m C @ take (n - m) (drop m C)" by (metis le_add_diff_inverse take_add)
  then show ?thesis by (simp add: visible_before_def)
qed

lemma split_cells:
  "cells fs = A @ c # B \<Longrightarrow> \<exists>us f vs i. fs = us @ f # vs \<and> i < frag_len f \<and> A = cells us @ take i (cells_of f) \<and> c = cells_of f ! i"
proof (induction fs arbitrary: A)
  case (Cons f fs)
  show ?case
  proof (cases "length A < frag_len f")
    case True
    have "A = take (length A) (cells (f # fs))" "c = cells (f # fs) ! length A" using Cons.prems by simp_all
    with True have "A = take (length A) (cells_of f)" "c = cells_of f ! length A" by (simp_all add: nth_append)
    with True show ?thesis by (intro exI [of _ "[]"] exI [of _ f] exI [of _ fs] exI [of _ "length A"]) simp
  next
    case False
    have "drop (frag_len f) (cells (f # fs)) = drop (frag_len f) A @ c # B" unfolding Cons.prems using False by simp
    then have "cells fs = drop (frag_len f) A @ c # B" by simp
    from Cons.IH [OF this] obtain us g vs i where
      g: "fs = us @ g # vs" "i < frag_len g" "drop (frag_len f) A = cells us @ take i (cells_of g)" "c = cells_of g ! i" by blast
    have "take (frag_len f) A = take (frag_len f) (cells (f # fs))" unfolding Cons.prems using False by simp
    then have "A = cells_of f @ cells us @ take i (cells_of g)" using g(3) by (metis append_take_drop_id cells_simps(2,4) take_all append_eq_conv_conj)
    with g show ?thesis by (intro exI [of _ "f # us"] exI [of _ g] exI [of _ vs] exI [of _ i]) simp
  qed
qed simp

lemma visible_cells_of: "filter cell_visible (cells_of f) = (if frag_visible f then cells_of f else [])"
  by (auto simp: filter_id_conv filter_empty_conv dest: in_cells_of)

lemma visible_cells: "length (filter cell_visible (cells fs)) = sum_list (map vis_len fs)"
  by (induction fs) (simp_all add: visible_cells_of vis_len_def)

lemma visible_take: "length (filter cell_visible (take i (cells_of f))) = (if frag_visible f then min i (frag_len f) else 0)"
proof -
  have "\<forall>c \<in> set (take i (cells_of f)). cell_visible c = frag_visible f" by (auto dest!: in_set_takeD in_cells_of)
  then have "filter cell_visible (take i (cells_of f)) = (if frag_visible f then take i (cells_of f) else [])"
    by (auto simp: filter_id_conv filter_empty_conv)
  then show ?thesis by (simp add: min.commute)
qed

lemma find_by_id_ok:
  assumes "ids_ok (us @ f # vs)"
  shows "find_by_id (us @ f # vs) (frag_id f) = \<lparr>cur_visible = sum_list (map vis_len us), cur_deleted = sum_list (map del_len us), cur_rest = f # vs\<rparr>"
proof -
  have "\<forall>g \<in> set us. frag_id g < frag_id f" using assms by (auto simp: ids_ok_def sorted_wrt_append)
  then show ?thesis by (simp add: find_by_id_def slice_before_ok)
qed

lemma overshoot_ok:
  assumes "s \<le> unat (anchor_offset a)"
  shows "anchor_overshoot a s = unat (anchor_offset a) - s"
proof -
  have "s < 2 ^ 32" using assms unsigned_less [of "anchor_offset a", where ?'a = nat] by simp
  then have "unat (of_nat s :: u32) = s" by (simp add: unat_of_nat)
  then show ?thesis using assms by (simp add: anchor_overshoot_def unat_sub_if')
qed

lemma takeWhile_key:
  assumes "distinct (map cell_key (A @ c # B))"
  shows "takeWhile (\<lambda>d. cell_key d \<noteq> cell_key c) (A @ c # B) = A"
  using assms by (induction A) (auto simp: image_iff)

text \<open>The fragment of an attached anchor, and the offset it stands for.\<close>

lemma attached_fragment:
  assumes "snap_inv ins snap" "anchor_byte a \<in> cell_key ` set (cells (fragments snap))" "\<not> anchor_is_min a" "\<not> anchor_is_max a"
  obtains us f vs i where "fragments snap = us @ f # vs" "i < frag_len f" "anchor_byte a = (frag_timestamp f, frag_offset f + i)"
    "try_find_fragment snap a = Some (insertion_fragment_new f)" "anchor_gap (cells (fragments snap)) a = length (cells us) + i + (if after_byte a then 1 else 0)"
    "unat (anchor_offset a) = frag_offset f + i + (if after_byte a then 1 else 0)"
proof -
  let ?C = "cells (fragments snap)"
  obtain c where c: "c \<in> set ?C" "cell_key c = anchor_byte a" using assms(2) by auto
  then obtain A B where C: "?C = A @ c # B" by (auto dest: split_list)
  from split_cells [OF C] obtain us f vs i where
    f: "fragments snap = us @ f # vs" "i < frag_len f" "A = cells us @ take i (cells_of f)" "c = cells_of f ! i" by blast
  have byte: "anchor_byte a = (frag_timestamp f, frag_offset f + i)" using f(2,4) c(2) by (simp add: cells_of_def cell_key_def)
  have found: "try_find_fragment snap a = Some (insertion_fragment_new f)"
    using f c(2) by (intro try_find_fragment_ok [OF assms(1)]) simp_all
  have "distinct (map cell_key (A @ c # B))" using assms(1) C by (simp add: snap_inv_def)
  from takeWhile_key [OF this] C c(2) f(2,3) assms(3,4)
  have gap: "anchor_gap ?C a = length (cells us) + i + (if after_byte a then 1 else 0)" by (simp add: anchor_gap_def)
  have "unat (anchor_offset a) = frag_offset f + i + (if after_byte a then 1 else 0)"
    using byte by (auto simp: anchor_byte_def after_byte_def word_less_nat_alt split: if_splits)
  with that f byte found gap show thesis by blast
qed

lemma anchor_timestamp_found: "anchor_byte a = (frag_timestamp f, k) \<Longrightarrow> if_timestamp (insertion_fragment_new f) = anchor_timestamp a"
  by (simp add: anchor_byte_def insertion_fragment_new_def split: if_splits)

lemma length_visible_text: "snap_inv ins snap \<Longrightarrow> length (visible_text snap) = length (filter cell_visible (cells (fragments snap)))"
  using vis_text_cells [of "fragments snap" ins] by (simp add: snap_inv_def snapshot_ok_def)

lemma fragment_offset_ok:
  assumes "i < frag_len f" "unat (anchor_offset a) = frag_offset f + i + (if after_byte a then 1 else 0)"
  shows "(if frag_visible f then sum_list (map vis_len us) + anchor_overshoot a (frag_offset f) else sum_list (map vis_len us))
    = visible_before (cells (us @ f # vs)) (length (cells us) + i + (if after_byte a then 1 else 0))"
proof -
  have "take (length (cells us) + n) (cells (us @ f # vs)) = cells us @ take n (cells_of f)" if "n \<le> frag_len f" for n using that by simp
  from this [of "i + (if after_byte a then 1 else 0)"] assms(1)
  have "visible_before (cells (us @ f # vs)) (length (cells us) + i + (if after_byte a then 1 else 0))
      = sum_list (map vis_len us) + (if frag_visible f then i + (if after_byte a then 1 else 0) else 0)"
    by (simp add: visible_before_def visible_take visible_cells add.assoc)
  moreover have "frag_offset f \<le> unat (anchor_offset a)" using assms(2) by simp
  from overshoot_ok [OF this] have "anchor_overshoot a (frag_offset f) = i + (if after_byte a then 1 else 0)" using assms(2) by simp
  ultimately show ?thesis by simp
qed

lemma offset_for_anchor_ok:
  assumes "snap_inv ins snap" "anchored (cells (fragments snap)) a"
  shows "offset_for_anchor snap a = Some (visible_before (cells (fragments snap)) (anchor_gap (cells (fragments snap)) a))"
proof -
  have ids: "ids_ok (fragments snap)" using assms(1) by (simp add: snap_inv_def snapshot_ok_def)
  consider "anchor_is_min a" | "\<not> anchor_is_min a" "anchor_is_max a" | "\<not> anchor_is_min a" "\<not> anchor_is_max a" by blast
  then show ?thesis
  proof cases
    case 3
    then have "anchor_byte a \<in> cell_key ` set (cells (fragments snap))" using assms(2) by (simp add: anchored_def)
    from attached_fragment [OF assms(1) this 3] obtain us f vs i where
      f: "fragments snap = us @ f # vs" "i < frag_len f" "anchor_byte a = (frag_timestamp f, frag_offset f + i)"
      "try_find_fragment snap a = Some (insertion_fragment_new f)"
      "anchor_gap (cells (fragments snap)) a = length (cells us) + i + (if after_byte a then 1 else 0)"
      "unat (anchor_offset a) = frag_offset f + i + (if after_byte a then 1 else 0)" .
    have "find_by_id (fragments snap) (frag_id f) = \<lparr>cur_visible = sum_list (map vis_len us), cur_deleted = sum_list (map del_len us), cur_rest = f # vs\<rparr>"
      using find_by_id_ok ids f(1) by simp
    then show ?thesis
      using 3 f(4) anchor_timestamp_found [OF f(3)] fragment_offset_ok [OF f(2,6), of us vs]
      unfolding offset_for_anchor_def f(5) f(1) [symmetric]
      by (simp add: insertion_fragment_new_def frag_item_def split: if_splits)
  qed (simp_all add: offset_for_anchor_def anchor_gap_def visible_before_def length_visible_text [OF assms(1)])
qed

subsection \<open>Making anchors\<close>

lemma find_at_offset_ok:
  assumes "target \<le> start + sum_list (map vis_len fs)" "b = Left \<Longrightarrow> start < target"
    "b = Right \<Longrightarrow> start \<le> target \<and> target < start + sum_list (map vis_len fs)"
  shows "\<exists>us f vs i. fs = us @ f # vs \<and> find_at_offset b target start fs = (start + sum_list (map vis_len us), Some f) \<and> frag_visible f
    \<and> i < frag_len f \<and> target = start + sum_list (map vis_len us) + i + (if b = Left then 1 else 0)"
  using assms
proof (induction fs arbitrary: start)
  case Nil
  then show ?case by (cases b) auto
next
  case (Cons f fs)
  show ?case
  proof (cases "target < start + vis_len f \<or> target = start + vis_len f \<and> b = Left")
    case True
    then show ?thesis using Cons.prems(2,3)
      by (cases b; intro exI [of _ "[]"] exI [of _ f] exI [of _ fs] exI [of _ "target - start - (if b = Left then 1 else 0)"])
        (auto simp: vis_len_def split: if_splits)
  next
    case False
    have "\<exists>us g vs i. fs = us @ g # vs \<and> find_at_offset b target (start + vis_len f) fs = ((start + vis_len f) + sum_list (map vis_len us), Some g)
      \<and> frag_visible g \<and> i < frag_len g \<and> target = (start + vis_len f) + sum_list (map vis_len us) + i + (if b = Left then 1 else 0)"
      using Cons.prems False by (intro Cons.IH) (cases b; auto)+
    then obtain us g vs i where g: "fs = us @ g # vs" "find_at_offset b target (start + vis_len f) fs = ((start + vis_len f) + sum_list (map vis_len us), Some g)"
      "frag_visible g" "i < frag_len g" "target = (start + vis_len f) + sum_list (map vis_len us) + i + (if b = Left then 1 else 0)" by blast
    then show ?thesis using False
      by (intro exI [of _ "f # us"] exI [of _ g] exI [of _ vs] exI [of _ i]) (simp add: add.assoc)
  qed
qed

lemma find_at_offset_snapshot:
  assumes "snap_inv ins snap" "off \<le> length (visible_text snap)" "b = Left \<Longrightarrow> 0 < off" "b = Right \<Longrightarrow> off < length (visible_text snap)"
  obtains us f vs i where "fragments snap = us @ f # vs" "find_at_offset b off 0 (fragments snap) = (sum_list (map vis_len us), Some f)"
    "frag_visible f" "i < frag_len f" "off = sum_list (map vis_len us) + i + (if b = Left then 1 else 0)"
proof -
  have len: "length (visible_text snap) = sum_list (map vis_len (fragments snap))"
    using length_visible_text [OF assms(1)] visible_cells by simp
  have "\<exists>us f vs i. fragments snap = us @ f # vs \<and> find_at_offset b off 0 (fragments snap) = (0 + sum_list (map vis_len us), Some f) \<and> frag_visible f
    \<and> i < frag_len f \<and> off = 0 + sum_list (map vis_len us) + i + (if b = Left then 1 else 0)"
    using assms(2-4) len by (intro find_at_offset_ok) auto
  with that show thesis by auto
qed

text \<open>The anchor made at an offset is attached to the visible byte next to it.\<close>

lemma anchor_at_offset_byte:
  assumes "snap_inv ins snap" "\<forall>ts. length (ins ts) \<le> MAX_INSERTION_LEN" "off \<le> length (visible_text snap)"
    and "is_char_boundary (visible_text snap) off" "b = Left \<Longrightarrow> 0 < off" "b = Right \<Longrightarrow> off < length (visible_text snap)"
    and "a = anchor_at_offset remote_id snap off b"
  obtains A c B where "cells (fragments snap) = A @ c # B" "cell_visible c" "anchor_byte a = cell_key c" "after_byte a = (b = Left)"
    "off = length (filter cell_visible A) + (if b = Left then 1 else 0)" "\<not> anchor_is_min a" "\<not> anchor_is_max a" "anchor_bias a = b"
    "anchor_buffer a = remote_id"
proof -
  from find_at_offset_snapshot [OF assms(1,3,5,6)] obtain us f vs i where
    f: "fragments snap = us @ f # vs" "find_at_offset b off 0 (fragments snap) = (sum_list (map vis_len us), Some f)"
      "frag_visible f" "i < frag_len f" "off = sum_list (map vis_len us) + i + (if b = Left then 1 else 0)" .
  let ?n = "i + (if b = Left then 1 else 0)"
  have a: "a = anchor_new (frag_timestamp f) (of_nat (frag_offset f) + of_nat ?n) b remote_id"
    using assms(3-7) f(2,5) by (auto simp: anchor_at_offset_def)
  have "frag_offset f + frag_len f \<le> MAX_INSERTION_LEN"
    using assms(1,2) f(1) order_trans by (fastforce simp: snap_inv_def snapshot_ok_def frag_wf_def)
  then have small: "frag_offset f + ?n < 2 ^ 32 - (if b = Left then 0 else 1)" using f(4) by (auto simp: MAX_INSERTION_LEN_def)
  then have off: "unat (anchor_offset a) = frag_offset f + ?n" unfolding a anchor_new_def
    by (simp add: unat_of_nat flip: of_nat_add)
  have after: "after_byte a = (b = Left)" using off by (auto simp: after_byte_def a anchor_new_def word_less_nat_alt)
  have "anchor_timestamp a = frag_timestamp f" by (simp add: a anchor_new_def anchor_timestamp_def)
  then have "anchor_byte a = (frag_timestamp f, frag_offset f + i)" by (simp add: anchor_byte_def after off)
  then have byte: "anchor_byte a = cell_key (cells_of f ! i)" using f(4) by (simp add: cells_of_def cell_key_def)
  have "\<not> anchor_is_min a" using off by (auto simp: anchor_is_min_def a anchor_new_def split: if_splits)
  moreover have "\<not> anchor_is_max a"
  proof
    assume "anchor_is_max a"
    then have "anchor_offset a = - 1" "anchor_bias a = Right" by (simp_all add: anchor_is_max_def)
    then have "unat (anchor_offset a) = 2 ^ 32 - 1" "b = Right" by (simp_all add: a anchor_new_def unsigned_minus_1_eq_mask mask_eq_exp_minus_1)
    with off small show False by simp
  qed
  moreover have "cells (fragments snap) = (cells us @ take i (cells_of f)) @ cells_of f ! i # (drop (Suc i) (cells_of f) @ cells vs)"
    using f(1,4) by (simp add: id_take_nth_drop [symmetric])
  moreover have "cell_visible (cells_of f ! i)" using f(3,4) by (simp add: cells_of_def)
  moreover have "off = length (filter cell_visible (cells us @ take i (cells_of f))) + (if b = Left then 1 else 0)"
    using f(3-5) by (simp add: visible_cells visible_take)
  moreover have "anchor_bias a = b" "anchor_buffer a = remote_id" by (simp_all add: a anchor_new_def)
  ultimately show thesis using byte after by (intro that)
qed

lemma gap_at:
  assumes "distinct (map cell_key (A @ c # B))" "anchor_byte a = cell_key c" "\<not> anchor_is_min a" "\<not> anchor_is_max a"
  shows "anchor_gap (A @ c # B) a = length A + (if after_byte a then 1 else 0)" "anchored (A @ c # B) a"
  using takeWhile_key [OF assms(1)] assms(2-4) by (simp_all add: anchor_gap_def anchored_def)

lemma anchor_ends:
  "anchor_is_min (min_for_buffer i)" "anchor_is_max (max_for_buffer i)"
  by (simp_all add: anchor_is_min_def anchor_is_max_def min_for_buffer_def max_for_buffer_def anchor_timestamp_def)

lemma anchor_at_offset_ends:
  "anchor_at_offset i snap 0 Left = min_for_buffer i" "length (visible_text snap) \<le> off \<Longrightarrow> anchor_at_offset i snap off Right = max_for_buffer i"
  by (simp_all add: anchor_at_offset_def)

lemma offset_at:
  assumes "snap_inv ins snap" "cells (fragments snap) = A @ c # B" "anchor_byte a = cell_key c" "\<not> anchor_is_min a" "\<not> anchor_is_max a"
  shows "offset_for_anchor snap a = Some (length (filter cell_visible A) + (if after_byte a \<and> cell_visible c then 1 else 0))"
proof -
  have dist: "distinct (map cell_key (A @ c # B))" using assms(1,2) by (simp add: snap_inv_def)
  from offset_for_anchor_ok [OF assms(1)] gap_at [OF dist assms(3-5)]
  show ?thesis by (simp add: assms(2) visible_before_def)
qed

lemma offset_ends:
  "offset_for_anchor snap (min_for_buffer i) = Some 0" "offset_for_anchor snap (max_for_buffer i) = Some (length (visible_text snap))"
proof -
  have "\<not> anchor_is_min (max_for_buffer i)" by (simp add: anchor_is_min_def max_for_buffer_def)
  then show "offset_for_anchor snap (min_for_buffer i) = Some 0" "offset_for_anchor snap (max_for_buffer i) = Some (length (visible_text snap))"
    using anchor_ends by (simp_all add: offset_for_anchor_def)
qed

lemma anchor_roundtrip_ok:
  assumes "snap_inv ins snap" "\<forall>ts. length (ins ts) \<le> MAX_INSERTION_LEN" "off \<le> length (visible_text snap)"
    and "is_char_boundary (visible_text snap) off"
  shows "offset_for_anchor snap (anchor_at_offset remote_id snap off b) = Some off"
proof -
  let ?a = "anchor_at_offset remote_id snap off b"
  consider "b = Left" "off = 0" | "b = Right" "off = length (visible_text snap)"
    | "b = Left \<Longrightarrow> 0 < off" "b = Right \<Longrightarrow> off < length (visible_text snap)"
    using assms(3) by (cases b) force+
  then show ?thesis
  proof cases
    case 3
    from anchor_at_offset_byte [OF assms 3 refl, where remote_id = remote_id] obtain A c B where
      c: "cells (fragments snap) = A @ c # B" "cell_visible c" "anchor_byte ?a = cell_key c" "after_byte ?a = (b = Left)"
        "off = length (filter cell_visible A) + (if b = Left then 1 else 0)" "\<not> anchor_is_min ?a" "\<not> anchor_is_max ?a" .
    then show ?thesis using offset_at [OF assms(1) c(1,3,6,7)] by simp
  qed (simp_all add: anchor_at_offset_ends offset_ends)
qed

subsection \<open>The order of anchors\<close>

definition in_offset_order :: "cell list \<Rightarrow> bool" where
  "in_offset_order C \<longleftrightarrow> (\<forall>ts. sorted_wrt (<) (map cell_offset (filter (\<lambda>c. cell_ts c = ts) C)))"

abbreviation cell_pos :: "cell list \<Rightarrow> lamport \<times> nat \<Rightarrow> nat" where
  "cell_pos C k \<equiv> length (takeWhile (\<lambda>c. cell_key c \<noteq> k) C)"

lemma cell_pos_at: "distinct (map cell_key (A @ c # B)) \<Longrightarrow> cell_pos (A @ c # B) (cell_key c) = length A"
  by (simp add: takeWhile_key)

lemma cell_pos_less: "k \<in> cell_key ` set C \<Longrightarrow> cell_pos C k < length C"
  by (induction C) auto

lemma cell_pos_insertion:
  assumes "distinct (map cell_key C)" "in_offset_order C" "(ts, i) \<in> cell_key ` set C" "(ts, j) \<in> cell_key ` set C" "i < j"
  shows "cell_pos C (ts, i) < cell_pos C (ts, j)"
proof -
  obtain c d where c: "c \<in> set C" "cell_key c = (ts, i)" and d: "d \<in> set C" "cell_key d = (ts, j)" using assms(3,4) by force
  from c(1) obtain A B where C: "C = A @ c # B" by (auto dest: split_list)
  have "d \<notin> set A"
  proof
    assume "d \<in> set A"
    with assms(2) c d have "j < i" unfolding C in_offset_order_def
      by (fastforce simp: sorted_wrt_append cell_key_def)
    with assms(5) show False by simp
  qed
  then have "d \<in> set B" using d c assms(5) by (auto simp: C)
  then obtain B1 B2 where B: "B = B1 @ d # B2" by (auto dest: split_list)
  have "C = (A @ c # B1) @ d # B2" by (simp add: C B)
  then show ?thesis using cell_pos_at [of A c B] cell_pos_at [of "A @ c # B1" d B2] assms(1) C c(2) d(2) by simp
qed

lemma anchor_gap_le: "anchored C a \<Longrightarrow> anchor_gap C a \<le> length C"
  using cell_pos_less [of "anchor_byte a" C] by (auto simp: anchored_def anchor_gap_def)

text \<open>The fragments of attached anchors are in the order of their locators.\<close>

lemma fragments_apart:
  assumes "ids_ok fs" "fs = us @ f # vs" "fs = us' @ f' # vs'" "frag_id f < frag_id f'"
  shows "length (cells us) + frag_len f \<le> length (cells us')"
proof -
  have "length us < length us'"
  proof (rule ccontr)
    assume "\<not> length us < length us'"
    then have "frag_id f' \<le> frag_id f"
    proof (cases "length us = length us'")
      case True
      with assms(2,3) show ?thesis by simp
    next
      case False
      with \<open>\<not> length us < length us'\<close> have "length us' < length us" by simp
      moreover have "f' = fs ! length us'" "f = fs ! length us" "length us < length fs" using assms(2,3) by (simp_all, metis nth_append_length)
      ultimately show ?thesis using assms(1) sorted_wrt_nth_less [of _ fs "length us'" "length us"] by (auto simp: ids_ok_def intro: less_imp_le)
    qed
    with assms(4) show False by simp
  qed
  then have "us' = us @ f # take (length us' - length us - 1) vs"
    using assms(2,3) by (metis (no_types, lifting) append_eq_append_conv_if append_eq_conv_conj diff_Suc_1' drop_Cons' less_imp_le_nat not_less take_Cons' take_append take_all zero_less_diff Suc_eq_plus1)
  then show ?thesis by (metis add_le_mono1 cells_simps(2,3,4) le_add1 length_append append.assoc)
qed


text \<open>Where an anchor stands.\<close>

lemma anchor_cases:
  assumes "snap_inv ins snap" "anchored (cells (fragments snap)) a"
  obtains (min) "anchor_is_min a" "fragment_id_for_anchor snap a = Some locator_min"
  | (max) "\<not> anchor_is_min a" "anchor_is_max a" "fragment_id_for_anchor snap a = Some locator_max"
  | (byte) us f vs i where "\<not> anchor_is_min a" "\<not> anchor_is_max a" "fragments snap = us @ f # vs" "i < frag_len f"
      "anchor_byte a = (frag_timestamp f, frag_offset f + i)" "try_find_fragment snap a = Some (insertion_fragment_new f)"
      "fragment_id_for_anchor snap a = Some (frag_id f)" "anchor_gap (cells (fragments snap)) a = length (cells us) + i + (if after_byte a then 1 else 0)"
      "unat (anchor_offset a) = frag_offset f + i + (if after_byte a then 1 else 0)" "locator_min < frag_id f" "frag_id f < locator_max"
proof -
  consider "anchor_is_min a" | "\<not> anchor_is_min a" "anchor_is_max a" | "\<not> anchor_is_min a" "\<not> anchor_is_max a" by blast
  then show thesis
  proof cases
    case 3
    then have "anchor_byte a \<in> cell_key ` set (cells (fragments snap))" using assms(2) by (simp add: anchored_def)
    from attached_fragment [OF assms(1) this 3] obtain us f vs i where
      f: "fragments snap = us @ f # vs" "i < frag_len f" "anchor_byte a = (frag_timestamp f, frag_offset f + i)"
      "try_find_fragment snap a = Some (insertion_fragment_new f)"
      "anchor_gap (cells (fragments snap)) a = length (cells us) + i + (if after_byte a then 1 else 0)"
      "unat (anchor_offset a) = frag_offset f + i + (if after_byte a then 1 else 0)" .
    have "id_ok (frag_id f)" using assms(1) f(1) by (auto simp: snap_inv_def snapshot_ok_def ids_ok_def)
    moreover have "fragment_id_for_anchor snap a = Some (frag_id f)"
      using 3 f(4) by (simp add: fragment_id_for_anchor_def try_fragment_id_for_anchor_def insertion_fragment_new_def)
    ultimately show thesis using byte [OF 3 f(1-4) _ f(5,6)] by (simp add: id_ok_def)
  qed (use min max in \<open>simp_all add: fragment_id_for_anchor_def try_fragment_id_for_anchor_def\<close>)
qed

lemma locator_min_max: "locator_min < locator_max"
  by (simp add: locator_min_def locator_max_def word_less_nat_alt unat_MAX)

lemma anchor_gap_min: "anchor_is_min a \<Longrightarrow> anchor_gap C a = 0"
  by (simp add: anchor_gap_def)

lemma anchor_gap_max: "\<not> anchor_is_min a \<Longrightarrow> anchor_is_max a \<Longrightarrow> anchor_gap C a = length C"
  by (simp add: anchor_gap_def)

lemma smaller_id_gap:
  assumes "snap_inv ins snap" "anchored (cells (fragments snap)) a" "anchored (cells (fragments snap)) b"
    and "fragment_id_for_anchor snap a = Some i" "fragment_id_for_anchor snap b = Some j" "i < j"
  shows "anchor_gap (cells (fragments snap)) a \<le> anchor_gap (cells (fragments snap)) b"
  using assms(1,2)
proof (cases rule: anchor_cases)
  case max
  have "j \<le> locator_max" using assms(1,3) by (cases rule: anchor_cases) (use assms(5) locator_min_max in auto)
  with max assms(4,6) show ?thesis by auto
next
  case (byte us f vs n)
  note a = byte
  show ?thesis using assms(1,3)
  proof (cases rule: anchor_cases)
    case min
    with a assms(4-6) show ?thesis by auto
  next
    case max
    then show ?thesis using anchor_gap_le [OF assms(2)] by (simp add: anchor_gap_max)
  next
    case (byte us' f' vs' n')
    have "frag_id f < frag_id f'" using a(7) byte(7) assms(4-6) by simp
    moreover have "ids_ok (fragments snap)" using assms(1) by (simp add: snap_inv_def snapshot_ok_def)
    ultimately have "length (cells us) + frag_len f \<le> length (cells us')" using fragments_apart a(3) byte(3) by blast
    then show ?thesis using a(4,8) byte(8) by simp
  qed
qed (simp add: anchor_gap_min)

lemma same_id_timestamp:
  assumes "snap_inv ins snap" "anchored (cells (fragments snap)) a" "anchored (cells (fragments snap)) b"
    and "fragment_id_for_anchor snap a = Some i" "fragment_id_for_anchor snap b = Some i"
  shows "anchor_timestamp a = anchor_timestamp b"
  using assms(1,2)
proof (cases rule: anchor_cases)
  case min
  then have a: "anchor_timestamp a = lamport_MIN" "i = locator_min" using assms(4) by (simp_all add: anchor_is_min_def)
  show ?thesis using assms(1,3) by (cases rule: anchor_cases) (use a assms(5) locator_min_max in \<open>auto simp: anchor_is_min_def\<close>)
next
  case max
  then have a: "anchor_timestamp a = lamport_MAX" "i = locator_max" using assms(4) by (simp_all add: anchor_is_max_def)
  show ?thesis using assms(1,3) by (cases rule: anchor_cases) (use a assms(5) locator_min_max in \<open>auto simp: anchor_is_max_def\<close>)
next
  case (byte us f vs n)
  note a = byte
  show ?thesis using assms(1,3)
  proof (cases rule: anchor_cases)
    case (byte us' f' vs' n')
    then have "frag_id f = frag_id f'" using a(7) assms(4,5) by simp
    moreover have "f \<in> set (fragments snap)" using a(3) by simp
    moreover have "f' \<in> set (fragments snap)" using byte(3) by simp
    moreover have "ids_ok (fragments snap)" using assms(1) by (simp add: snap_inv_def snapshot_ok_def)
    ultimately have "f = f'" using ids_ok_inj by blast
    then show ?thesis using a(5) byte(5) by (simp add: anchor_byte_def split: if_splits)
  qed (use a assms(4,5) in auto)
qed


text \<open>The order of anchors is the order of their gaps.\<close>

lemma anchor_cmp_defined:
  assumes "snap_inv ins snap" "anchored (cells (fragments snap)) a" "anchored (cells (fragments snap)) b"
  obtains i j where "fragment_id_for_anchor snap a = Some i" "fragment_id_for_anchor snap b = Some j"
    "anchor_cmp snap a b = Some (then_with (then_with (if anchor_timestamp a = anchor_timestamp b then Equal else cmp i j)
       (cmp (anchor_offset a) (anchor_offset b))) (cmp (anchor_bias a) (anchor_bias b)))"
proof -
  have "fragment_id_for_anchor snap x \<noteq> None" if "anchored (cells (fragments snap)) x" for x
    using assms(1) that by (cases rule: anchor_cases) simp_all
  with assms(2,3) obtain i j where ids: "fragment_id_for_anchor snap a = Some i" "fragment_id_for_anchor snap b = Some j" by blast
  show thesis by (rule that [OF ids]) (simp add: anchor_cmp_def ids)
qed

lemma same_timestamp_gap:
  assumes "snap_inv ins snap" "in_offset_order (cells (fragments snap))" "anchored (cells (fragments snap)) a" "anchored (cells (fragments snap)) b"
    and "anchor_timestamp a = anchor_timestamp b" "anchor_offset a < anchor_offset b \<or> anchor_offset a = anchor_offset b \<and> anchor_bias a < anchor_bias b"
  shows "anchor_gap (cells (fragments snap)) a \<le> anchor_gap (cells (fragments snap)) b"
proof -
  let ?C = "cells (fragments snap)"
  consider "anchor_is_min a" | "\<not> anchor_is_min b" "anchor_is_max b" | "\<not> anchor_is_min a" "anchor_is_min b \<or> anchor_is_max a \<and> \<not> anchor_is_max b"
    | "\<not> anchor_is_min a" "\<not> anchor_is_max a" "\<not> anchor_is_min b" "\<not> anchor_is_max b" by blast
  then show ?thesis
  proof cases
    case 3
    have "\<not> (- 1 :: u32) < x" "\<not> x < (0 :: u32)" for x by (simp_all add: not_less)
    with 3 assms(6) show ?thesis by (auto simp: anchor_is_max_def anchor_is_min_def less_bias_def)
  next
    case 4
    have keys: "anchor_byte a \<in> cell_key ` set ?C" "anchor_byte b \<in> cell_key ` set ?C" using 4 assms(3,4) by (simp_all add: anchored_def)
    have dist: "distinct (map cell_key ?C)" using assms(1) by (simp add: snap_inv_def)
    have gap: "anchor_gap ?C x = cell_pos ?C (anchor_byte x) + (if after_byte x then 1 else 0)" if "x = a \<or> x = b" for x
      using that 4 by (auto simp: anchor_gap_def)
    have less: "cell_pos ?C (anchor_byte a) < cell_pos ?C (anchor_byte b)" if "snd (anchor_byte a) < snd (anchor_byte b)"
    proof -
      have "anchor_byte x = (anchor_timestamp x, snd (anchor_byte x))" for x by (simp add: anchor_byte_def)
      with cell_pos_insertion [OF dist assms(2)] keys assms(5) that show ?thesis by metis
    qed
    have "snd (anchor_byte a) < snd (anchor_byte b) \<or> anchor_byte a = anchor_byte b \<and> (after_byte a \<longrightarrow> after_byte b)"
      using assms(5,6) by (cases "anchor_bias a"; cases "anchor_bias b")
        (auto simp: anchor_byte_def after_byte_def word_less_nat_alt less_bias_def)
    then consider "snd (anchor_byte a) < snd (anchor_byte b)" | "anchor_byte a = anchor_byte b" "after_byte a \<longrightarrow> after_byte b" by blast
    then show ?thesis
    proof cases
      case 1
      with less gap [of a] gap [of b] show ?thesis by simp
    next
      case 2
      with gap [of a] gap [of b] show ?thesis by simp
    qed
  qed (use anchor_gap_le [OF assms(3)] in \<open>simp_all add: anchor_gap_min anchor_gap_max\<close>)
qed


lemma anchor_cmp_ok:
  assumes "snap_inv ins snap" "in_offset_order (cells (fragments snap))" "anchored (cells (fragments snap)) a" "anchored (cells (fragments snap)) b"
  shows "\<exists>ord. anchor_cmp snap a b = Some ord
    \<and> (ord = Less \<longrightarrow> anchor_gap (cells (fragments snap)) a \<le> anchor_gap (cells (fragments snap)) b)
    \<and> (ord = Greater \<longrightarrow> anchor_gap (cells (fragments snap)) b \<le> anchor_gap (cells (fragments snap)) a)
    \<and> (ord = Equal \<longrightarrow> anchor_timestamp a = anchor_timestamp b \<and> anchor_offset a = anchor_offset b \<and> anchor_bias a = anchor_bias b)"
proof -
  from anchor_cmp_defined [OF assms(1,3,4)] obtain i j where ids: "fragment_id_for_anchor snap a = Some i" "fragment_id_for_anchor snap b = Some j"
    and c: "anchor_cmp snap a b = Some (then_with (then_with (if anchor_timestamp a = anchor_timestamp b then Equal else cmp i j)
       (cmp (anchor_offset a) (anchor_offset b))) (cmp (anchor_bias a) (anchor_bias b)))" .
  have less: "anchor_timestamp a \<noteq> anchor_timestamp b \<Longrightarrow> i < j \<or> j < i"
    using same_id_timestamp [OF assms(1,3,4) ids(1)] ids(2) neq_iff by blast
  show ?thesis
  proof (cases "anchor_timestamp a = anchor_timestamp b")
    case True
    with c same_timestamp_gap [OF assms(1,2,3,4)] same_timestamp_gap [OF assms(1,2,4,3)] show ?thesis by (auto simp: then_with_eq)
  next
    case False
    with c less smaller_id_gap [OF assms(1,3,4) ids] smaller_id_gap [OF assms(1,4,3) ids(2,1)] show ?thesis by (auto simp: then_with_eq)
  qed
qed

text \<open>A byte that comes earlier makes the anchor smaller.\<close>

lemma anchor_cmp_less:
  assumes "snap_inv ins snap" "in_offset_order (cells (fragments snap))" "anchored (cells (fragments snap)) a" "anchored (cells (fragments snap)) b"
    and "anchor_gap (cells (fragments snap)) a < anchor_gap (cells (fragments snap)) b"
  shows "anchor_cmp snap a b = Some Less"
proof -
  have "ord = Less" if "anchor_cmp snap a b = Some ord" for ord
  proof (cases ord)
    case Equal
    with that anchor_cmp_ok [OF assms(1-4)]
    have "anchor_timestamp a = anchor_timestamp b" "anchor_offset a = anchor_offset b" "anchor_bias a = anchor_bias b" by auto
    then have "anchor_gap C a = anchor_gap C b" for C
      by (simp add: anchor_gap_def anchor_is_min_def anchor_is_max_def anchor_byte_def after_byte_def)
    with assms(5) show ?thesis by simp
  qed (use that anchor_cmp_ok [OF assms(1-4)] assms(5) in auto)
  with anchor_cmp_ok [OF assms(1-4)] show ?thesis by auto
qed

lemma boundary_le: "is_char_boundary t i \<Longrightarrow> i \<le> length t"
  by (auto simp: is_char_boundary_def)

lemma floor_boundary: "i \<le> length t \<Longrightarrow> is_char_boundary t (floor_char_boundary t i)"
  by (induction i) (auto simp: is_char_boundary_def)

lemma usize_to_offset_boundary: "is_char_boundary (visible_text snap) (usize_to_offset snap p)"
  using floor_boundary by (auto simp: usize_to_offset_def rope_floor_char_boundary_def is_char_boundary_def)

lemma anchor_cmp_swap:
  assumes "anchor_cmp snap a b = Some Less"
  shows "anchor_cmp snap b a = Some Greater"
  using assms by (auto simp: anchor_cmp_def bind_eq_Some_conv then_with_eq split: if_splits)

lemma anchor_cmp_same: "anchored C a \<Longrightarrow> anchor_cmp snap a a = Some Equal"
  by (simp add: anchor_cmp_def then_with_def)

lemma attached_cases:
  assumes "snap_inv ins snap" "anchored (cells (fragments snap)) a" "\<not> anchor_is_min a" "\<not> anchor_is_max a"
  obtains us f vs i where "fragments snap = us @ f # vs" "i < frag_len f"
      "anchor_byte a = (frag_timestamp f, frag_offset f + i)" "try_find_fragment snap a = Some (insertion_fragment_new f)"
      "fragment_id_for_anchor snap a = Some (frag_id f)" "cell_pos (cells (fragments snap)) (anchor_byte a) = length (cells us) + i"
      "unat (anchor_offset a) = frag_offset f + i + (if after_byte a then 1 else 0)" "locator_min < frag_id f" "frag_id f < locator_max"
  using assms(1,2)
proof (cases rule: anchor_cases)
  case (byte us f vs i)
  with that assms(3,4) show thesis by (simp add: anchor_gap_def)
qed (use assms(3,4) in simp_all)

text \<open>Anchors at different bytes are in the order of the bytes.\<close>

lemma anchor_cmp_bytes:
  assumes "snap_inv ins snap" "in_offset_order (cells (fragments snap))" "anchored (cells (fragments snap)) a" "anchored (cells (fragments snap)) b"
    and "\<not> anchor_is_min a" "\<not> anchor_is_max a" "\<not> anchor_is_min b" "\<not> anchor_is_max b"
    and "cell_pos (cells (fragments snap)) (anchor_byte a) < cell_pos (cells (fragments snap)) (anchor_byte b)"
  shows "anchor_cmp snap a b = Some Less"
proof -
  let ?C = "cells (fragments snap)"
  from attached_cases [OF assms(1,3,5,6)] obtain us f vs i where
    f: "fragments snap = us @ f # vs" "i < frag_len f" "fragment_id_for_anchor snap a = Some (frag_id f)"
      "cell_pos ?C (anchor_byte a) = length (cells us) + i" .
  from attached_cases [OF assms(1,4,7,8)] obtain us' f' vs' i' where
    f': "fragments snap = us' @ f' # vs'" "i' < frag_len f'" "fragment_id_for_anchor snap b = Some (frag_id f')"
      "cell_pos ?C (anchor_byte b) = length (cells us') + i'" .
  have c: "anchor_cmp snap a b = Some (then_with (then_with (if anchor_timestamp a = anchor_timestamp b then Equal else cmp (frag_id f) (frag_id f'))
       (cmp (anchor_offset a) (anchor_offset b))) (cmp (anchor_bias a) (anchor_bias b)))" using f(3) f'(3) by (simp add: anchor_cmp_def)
  have ids: "ids_ok (fragments snap)" using assms(1) by (simp add: snap_inv_def snapshot_ok_def)
  show ?thesis
  proof (cases "anchor_timestamp a = anchor_timestamp b")
    case False
    have "\<not> frag_id f' < frag_id f" using fragments_apart [OF ids f'(1) f(1)] f(4) f'(2,4) assms(9) by auto
    moreover have "frag_id f \<noteq> frag_id f'" using same_id_timestamp [OF assms(1,3,4) f(3)] f'(3) False by auto
    ultimately have "frag_id f < frag_id f'" by (meson linorder_neqE)
    with c False show ?thesis by (simp add: then_with_eq)
  next
    case True
    have keys: "anchor_byte x \<in> cell_key ` set ?C" if "x = a \<or> x = b" for x using that assms(3-8) by (auto simp: anchored_def)
    have byte: "anchor_byte x = (anchor_timestamp x, snd (anchor_byte x))" for x by (simp add: anchor_byte_def)
    have dist: "distinct (map cell_key ?C)" using assms(1) by (simp add: snap_inv_def)
    have "\<not> snd (anchor_byte b) < snd (anchor_byte a)"
      using cell_pos_insertion [OF dist assms(2)] keys True assms(9) byte by (metis less_asym)
    moreover have "snd (anchor_byte a) \<noteq> snd (anchor_byte b)" using True assms(9) byte by (metis less_irrefl)
    ultimately have "snd (anchor_byte a) < snd (anchor_byte b)" by simp
    then have "anchor_offset a < anchor_offset b \<or> anchor_offset a = anchor_offset b \<and> anchor_bias a < anchor_bias b"
      by (cases "anchor_bias a"; cases "anchor_bias b")
        (auto simp: anchor_byte_def after_byte_def word_less_nat_alt word_unat_eq_iff less_bias_def split: if_splits)
    with c True show ?thesis by (auto simp: then_with_eq)
  qed
qed

lemma anchor_cmp_ends:
  assumes "snap_inv ins snap" "anchored (cells (fragments snap)) a"
  shows "anchor_is_min m \<Longrightarrow> \<not> anchor_is_min a \<Longrightarrow> anchor_cmp snap m a = Some Less"
    "anchor_is_max m \<Longrightarrow> \<not> anchor_is_max a \<Longrightarrow> anchor_cmp snap a m = Some Less"
proof -
  have MAX: "x < - 1 \<or> x = - 1" "0 < x \<or> x = 0" for x :: u32
    by (metis order.order_iff_strict word_n1_ge, metis order.order_iff_strict word_zero_le)
  show "anchor_cmp snap m a = Some Less" if m: "anchor_is_min m" and a: "\<not> anchor_is_min a"
  proof -
    have "anchored (cells (fragments snap)) m" using m by (simp add: anchored_def)
    from anchor_cmp_defined [OF assms(1) this assms(2)] obtain i j where ids: "fragment_id_for_anchor snap m = Some i" "fragment_id_for_anchor snap a = Some j"
      and c: "anchor_cmp snap m a = Some (then_with (then_with (if anchor_timestamp m = anchor_timestamp a then Equal else cmp i j)
       (cmp (anchor_offset m) (anchor_offset a))) (cmp (anchor_bias m) (anchor_bias a)))" .
    have "i = locator_min" using ids(1) m by (simp add: fragment_id_for_anchor_def try_fragment_id_for_anchor_def)
    moreover have "locator_min < j" using assms a ids(2) locator_min_max by (cases rule: anchor_cases) auto
    moreover have "anchor_offset m = 0" "anchor_bias m = Left" "anchor_timestamp m = lamport_MIN" using m by (simp_all add: anchor_is_min_def)
    moreover have "0 < anchor_offset a \<or> anchor_offset a = 0 \<and> anchor_bias a = Right" if "anchor_timestamp a = lamport_MIN"
      using that a MAX(2) [of "anchor_offset a"] by (cases "anchor_bias a") (auto simp: anchor_is_min_def)
    ultimately show ?thesis using c by (auto simp: then_with_eq less_bias_def)
  qed
  show "anchor_cmp snap a m = Some Less" if m: "anchor_is_max m" and a: "\<not> anchor_is_max a"
  proof -
    have "anchored (cells (fragments snap)) m" using m by (simp add: anchored_def)
    from anchor_cmp_defined [OF assms this] obtain i j where ids: "fragment_id_for_anchor snap a = Some i" "fragment_id_for_anchor snap m = Some j"
      and c: "anchor_cmp snap a m = Some (then_with (then_with (if anchor_timestamp a = anchor_timestamp m then Equal else cmp i j)
       (cmp (anchor_offset a) (anchor_offset m))) (cmp (anchor_bias a) (anchor_bias m)))" .
    have "\<not> anchor_is_min m" using m by (auto simp: anchor_is_max_def anchor_is_min_def)
    then have "j = locator_max" using ids(2) m by (simp add: fragment_id_for_anchor_def try_fragment_id_for_anchor_def)
    moreover have "i < locator_max" using assms a ids(1) locator_min_max by (cases rule: anchor_cases) auto
    moreover have "anchor_offset m = - 1" "anchor_bias m = Right" "anchor_timestamp m = lamport_MAX" using m by (simp_all add: anchor_is_max_def)
    moreover have "anchor_offset a < - 1 \<or> anchor_offset a = - 1 \<and> anchor_bias a = Left" if "anchor_timestamp a = lamport_MAX"
      using that a MAX(1) [of "anchor_offset a"] by (cases "anchor_bias a") (auto simp: anchor_is_max_def)
    ultimately show ?thesis using c by (auto simp: then_with_eq less_bias_def)
  qed
qed

subsection \<open>Many anchors at once\<close>

text \<open>The state of the loop after the fragments \<open>us\<close>.\<close>

definition cursor_after :: "fragment list \<Rightarrow> fragment list \<Rightarrow> locator option \<times> frag_cursor" where
  "cursor_after us rest =
     (if us = [] then None else Some (frag_id (last us)),
      \<lparr>cur_visible = sum_list (map vis_len us), cur_deleted = sum_list (map del_len us), cur_rest = rest\<rparr>)"

definition summing :: "fragment list \<Rightarrow> fragment list \<Rightarrow> anchors_state \<Rightarrow> bool" where
  "summing fs us st \<longleftrightarrow> (\<exists>rest. fs = us @ rest \<and> (as_start st, as_cursor st) = cursor_after us rest) \<and> as_position st = as_text st"

lemma seek_id_ok:
  assumes "\<forall>g \<in> set vs. frag_id g < frag_id f"
  shows "seek_id (frag_id f) (cursor_after us (vs @ f # ws)) = cursor_after (us @ vs) (f # ws)"
  using slice_before_ok [of vs "frag_id f" f "sum_list (map vis_len us)" "sum_list (map del_len us)" ws] assms
  by (simp add: seek_id_def cursor_after_def)

lemma cursor_after_new: "cursor_after [] fs = (None, frag_cursor_new fs)"
  by (simp add: cursor_after_def frag_cursor_new_def)

lemma seek_forward_ok:
  assumes "ids_ok fs" "fs = us @ rest" "fs = us' @ f # ws" "\<forall>g \<in> set us. frag_id g < frag_id f"
  shows "seek_id_forward (frag_id f) (cursor_after us rest) = Some (cursor_after us' (f # ws))"
proof -
  have f: "f \<notin> set us" using assms(4) by auto
  have "\<exists>vs. us' = us @ vs"
  proof (rule ccontr)
    assume "\<nexists>vs. us' = us @ vs"
    then obtain x xs where "us = us' @ x # xs" using assms(2,3) by (auto simp: append_eq_append_conv2 neq_Nil_conv)
    with assms(2,3) f show False by auto
  qed
  then obtain vs where us': "us' = us @ vs" by blast
  then have rest: "rest = vs @ f # ws" using assms(2,3) by simp
  have "\<forall>g \<in> set vs. frag_id g < frag_id f" using assms(1,3) us' by (auto simp: ids_ok_def sorted_wrt_append)
  from seek_id_ok [OF this, of us ws] rest us' assms(4) show ?thesis
    by (cases us rule: rev_cases) (auto simp: seek_id_forward_def cursor_after_def)
qed

lemma seek_start_ok:
  assumes "ids_ok fs" "fs = us' @ f # ws"
  shows "seek_id (frag_id f) (None, frag_cursor_new fs) = cursor_after us' (f # ws)"
  using assms seek_id_ok [of us' f "[]" ws] by (simp add: cursor_after_new ids_ok_def sorted_wrt_append)

text \<open>One anchor: the cursor must not be past it, unless it may go backwards.\<close>

lemma anchor_summary_step_ok:
  assumes "snap_inv ins snap" "anchored (cells (fragments snap)) a" "summing (fragments snap) us st" "\<not> anchor_is_min a" "\<not> anchor_is_max a"
    and "fragment_id_for_anchor snap a = Some i" "offset_for_anchor snap a = Some off"
    and "allow \<or> (\<forall>g \<in> set us. frag_id g < i) \<and> as_text st \<le> off"
  shows "\<exists>us' st'. anchor_summary_step allow snap a st = Some (off, st') \<and> summing (fragments snap) us' st' \<and> (\<forall>g \<in> set us'. frag_id g < i) \<and> as_text st' = off"
proof -
  from attached_cases [OF assms(1,2,4,5)] obtain us' f ws n where
    f: "fragments snap = us' @ f # ws" "anchor_byte a = (frag_timestamp f, frag_offset f + n)"
      "try_find_fragment snap a = Some (insertion_fragment_new f)" "fragment_id_for_anchor snap a = Some (frag_id f)" .
  have ids: "ids_ok (fragments snap)" using assms(1) by (simp add: snap_inv_def snapshot_ok_def)
  have i: "i = frag_id f" using f(4) assms(6) by simp
  have ts: "if_timestamp (insertion_fragment_new f) = anchor_timestamp a" using anchor_timestamp_found [OF f(2)] .
  have before: "\<forall>g \<in> set us'. frag_id g < i" using ids f(1) by (auto simp: ids_ok_def sorted_wrt_append i)
  obtain rest where st: "fragments snap = us @ rest" "(as_start st, as_cursor st) = cursor_after us rest" "as_position st = as_text st"
    using assms(3) by (auto simp: summing_def)
  let ?backwards = "allow \<and> (case as_start st of Some start \<Rightarrow> if_fragment_id (insertion_fragment_new f) \<le> start | None \<Rightarrow> False)"
  have seek: "(if ?backwards then Some (seek_id (if_fragment_id (insertion_fragment_new f)) (None, frag_cursor_new (fragments snap)))
      else seek_id_forward (if_fragment_id (insertion_fragment_new f)) (as_start st, as_cursor st)) = Some (cursor_after us' (f # ws))"
  proof (cases ?backwards)
    case True
    then show ?thesis using seek_start_ok [OF ids f(1)] by (simp add: insertion_fragment_new_def)
  next
    case False
    have "\<forall>g \<in> set us. frag_id g < frag_id f"
    proof (cases "us = []")
      case us: False
      obtain zs z where us: "us = zs @ [z]" using us by (cases us rule: rev_cases) simp_all
      have "frag_id z < frag_id f"
      proof (cases allow)
        case True
        moreover have "as_start st = Some (frag_id z)" using st(2) by (simp add: cursor_after_def us)
        ultimately show ?thesis using False by (simp add: insertion_fragment_new_def)
      next
        case False
        with assms(8) show ?thesis by (simp add: us i)
      qed
      moreover have "\<forall>g \<in> set zs. frag_id g < frag_id z" using ids st(1) by (simp add: us ids_ok_def sorted_wrt_append)
      ultimately show ?thesis by (auto simp: us intro: less_trans)
    qed simp
    from seek_forward_ok [OF ids st(1) f(1) this] show ?thesis unfolding if_not_P [OF False] st(2) by (simp add: insertion_fragment_new_def)
  qed
  let ?foff = "if frag_visible f then sum_list (map vis_len us') + anchor_overshoot a (frag_offset f) else sum_list (map vis_len us')"
  have off: "off = ?foff"
    using assms(4,5,7) f(3) ts find_by_id_ok [of us' f ws] ids f(1)
    by (simp add: offset_for_anchor_def insertion_fragment_new_def frag_item_def Let_def split: if_splits)
  have len: "off \<le> length (visible_text snap)"
    using offset_for_anchor_ok [OF assms(1,2)] assms(7) visible_before_mono [OF anchor_gap_le [OF assms(2)], of "cells (fragments snap)"]
    by (simp add: length_visible_text [OF assms(1)] visible_before_def)
  have split: "if_split_offset (insertion_fragment_new f) = frag_offset f" by (simp add: insertion_fragment_new_def)
  let ?st = "\<lparr>as_start = fst (cursor_after us' (f # ws)), as_cursor = snd (cursor_after us' (f # ws)), as_text = off, as_position = off\<rparr>"
  have "anchor_summary_step allow snap a st = Option.bind (Some (cursor_after us' (f # ws))) (\<lambda>(start, c). Option.bind (frag_item c) (\<lambda>f'.
      case (if allow \<and> (if frag_visible f' then cur_visible c + anchor_overshoot a (frag_offset f) else cur_visible c) < as_text st
            then (0, 0) else (as_text st, as_position st)) of
        (text_offset, position) \<Rightarrow> Option.bind (text_cursor_summary snap
            (if frag_visible f' then cur_visible c + anchor_overshoot a (frag_offset f) else cur_visible c) text_offset)
          (\<lambda>n. Some (position + n, \<lparr>as_start = start, as_cursor = c,
             as_text = (if frag_visible f' then cur_visible c + anchor_overshoot a (frag_offset f) else cur_visible c), as_position = position + n\<rparr>))))"
    unfolding anchor_summary_step_def if_not_P [OF assms(4)] if_not_P [OF assms(5)] f(3) Option.bind.bind_lunit rust_assert_bind [OF ts] Let_def seek split ..
  also have "\<dots> = Some (off, ?st)"
    using assms(8) off len st(3) by (auto simp: cursor_after_def frag_item_def text_cursor_summary_def)
  finally have "anchor_summary_step allow snap a st = Some (off, ?st)" .
  moreover have "summing (fragments snap) us' ?st" using f(1) by (simp add: summing_def)
  ultimately show ?thesis using before by auto
qed


lemma anchor_cmp_ids:
  assumes "snap_inv ins snap" "in_offset_order (cells (fragments snap))" "anchored (cells (fragments snap)) a" "anchored (cells (fragments snap)) b"
    and "\<not> anchor_is_min a" "\<not> anchor_is_max a" "\<not> anchor_is_min b" "\<not> anchor_is_max b"
    and "fragment_id_for_anchor snap a = Some i" "fragment_id_for_anchor snap b = Some j" "anchor_cmp snap a b \<noteq> Some Greater"
  shows "i \<le> j"
proof (rule ccontr)
  assume "\<not> i \<le> j"
  then have ji: "j < i" by simp
  from attached_cases [OF assms(1,3,5,6)] obtain us f vs n where
    f: "fragments snap = us @ f # vs" "n < frag_len f" "fragment_id_for_anchor snap a = Some (frag_id f)"
      "cell_pos (cells (fragments snap)) (anchor_byte a) = length (cells us) + n" .
  from attached_cases [OF assms(1,4,7,8)] obtain us' f' vs' n' where
    f': "fragments snap = us' @ f' # vs'" "n' < frag_len f'" "fragment_id_for_anchor snap b = Some (frag_id f')"
      "cell_pos (cells (fragments snap)) (anchor_byte b) = length (cells us') + n'" .
  have "frag_id f' < frag_id f" using f(3) f'(3) assms(9,10) ji by simp
  moreover have "ids_ok (fragments snap)" using assms(1) by (simp add: snap_inv_def snapshot_ok_def)
  ultimately have "length (cells us') + frag_len f' \<le> length (cells us)" using fragments_apart f(1) f'(1) by blast
  then have "cell_pos (cells (fragments snap)) (anchor_byte b) < cell_pos (cells (fragments snap)) (anchor_byte a)" using f(4) f'(2,4) by simp
  from anchor_cmp_swap [OF anchor_cmp_bytes [OF assms(1,2,4,3,7,8,5,6) this]] assms(11) show False by simp
qed

lemma anchor_cmp_offsets:
  assumes "snap_inv ins snap" "in_offset_order (cells (fragments snap))" "anchored (cells (fragments snap)) a" "anchored (cells (fragments snap)) b"
    and "anchor_cmp snap a b \<noteq> Some Greater" "offset_for_anchor snap a = Some i" "offset_for_anchor snap b = Some j"
  shows "i \<le> j"
proof -
  let ?C = "cells (fragments snap)"
  from anchor_cmp_ok [OF assms(1-4)] obtain ord where ord: "anchor_cmp snap a b = Some ord" "ord = Less \<longrightarrow> anchor_gap ?C a \<le> anchor_gap ?C b"
    "ord = Equal \<longrightarrow> anchor_timestamp a = anchor_timestamp b \<and> anchor_offset a = anchor_offset b \<and> anchor_bias a = anchor_bias b" by blast
  have "anchor_gap ?C a \<le> anchor_gap ?C b"
  proof (cases ord)
    case Equal
    with ord(3) show ?thesis by (simp add: anchor_gap_def anchor_is_min_def anchor_is_max_def anchor_byte_def after_byte_def)
  qed (use ord assms(5) in simp_all)
  from visible_before_mono [OF this, of ?C] offset_for_anchor_ok [OF assms(1,3)] offset_for_anchor_ok [OF assms(1,4)] assms(6,7) show ?thesis by simp
qed

definition anchor_order :: "snapshot \<Rightarrow> anchor list \<Rightarrow> bool" where
  "anchor_order snap as \<longleftrightarrow> sorted_wrt (\<lambda>a b. anchor_cmp snap a b \<noteq> Some Greater) as"

lemma summaries_impl_ok:
  assumes "snap_inv ins snap" "in_offset_order (cells (fragments snap))"
  shows "\<forall>a \<in> set as. anchored (cells (fragments snap)) a \<Longrightarrow> summing (fragments snap) us st \<Longrightarrow>
    allow \<or> anchor_order snap as \<and> (\<forall>a \<in> set as. \<not> anchor_is_min a \<and> \<not> anchor_is_max a \<longrightarrow>
      (\<forall>i off. fragment_id_for_anchor snap a = Some i \<and> offset_for_anchor snap a = Some off \<longrightarrow> (\<forall>g \<in> set us. frag_id g < i) \<and> as_text st \<le> off)) \<Longrightarrow>
    \<exists>offs. those (map (offset_for_anchor snap) as) = Some offs \<and> summaries_impl allow snap (map (\<lambda>a. (a, ())) as) st = Some (map (\<lambda>i. (i, ())) offs)"
proof (induction as arbitrary: us st)
  case (Cons a as)
  let ?C = "cells (fragments snap)"
  have an: "anchored ?C a" using Cons.prems(1) by simp
  obtain off where off: "offset_for_anchor snap a = Some off" using offset_for_anchor_ok [OF assms(1) an] by blast
  show ?case
  proof (cases "anchor_is_min a \<or> anchor_is_max a")
    case True
    then have "anchor_summary_step allow snap a st = Some (off, st)" using off by (auto simp: anchor_summary_step_def offset_for_anchor_def split: if_splits)
    moreover have "allow \<or> anchor_order snap as \<and> (\<forall>a \<in> set as. \<not> anchor_is_min a \<and> \<not> anchor_is_max a \<longrightarrow>
      (\<forall>i off. fragment_id_for_anchor snap a = Some i \<and> offset_for_anchor snap a = Some off \<longrightarrow> (\<forall>g \<in> set us. frag_id g < i) \<and> as_text st \<le> off))"
      using Cons.prems(3) by (auto simp: anchor_order_def)
    with Cons.IH [OF _ Cons.prems(2)] Cons.prems(1) obtain offs where "those (map (offset_for_anchor snap) as) = Some offs"
      "summaries_impl allow snap (map (\<lambda>a. (a, ())) as) st = Some (map (\<lambda>i. (i, ())) offs)" by auto
    ultimately show ?thesis using off by simp
  next
    case False
    then have a: "\<not> anchor_is_min a" "\<not> anchor_is_max a" by simp_all
    from attached_cases [OF assms(1) an a] obtain i where i: "fragment_id_for_anchor snap a = Some i" by blast
    have "allow \<or> (\<forall>g \<in> set us. frag_id g < i) \<and> as_text st \<le> off" using Cons.prems(3) a i off by auto
    from anchor_summary_step_ok [OF assms(1) an Cons.prems(2) a i off this] obtain us' st' where
      s: "anchor_summary_step allow snap a st = Some (off, st')" "summing (fragments snap) us' st'" "\<forall>g \<in> set us'. frag_id g < i" "as_text st' = off" by blast
    have "allow \<or> anchor_order snap as \<and> (\<forall>b \<in> set as. \<not> anchor_is_min b \<and> \<not> anchor_is_max b \<longrightarrow>
      (\<forall>j off'. fragment_id_for_anchor snap b = Some j \<and> offset_for_anchor snap b = Some off' \<longrightarrow> (\<forall>g \<in> set us'. frag_id g < j) \<and> as_text st' \<le> off'))"
    proof (cases allow)
      case False
      then have ord: "anchor_order snap as" "\<forall>b \<in> set as. anchor_cmp snap a b \<noteq> Some Greater" using Cons.prems(3) by (simp_all add: anchor_order_def)
      have "(\<forall>g \<in> set us'. frag_id g < j) \<and> as_text st' \<le> off'"
        if "b \<in> set as" "\<not> anchor_is_min b" "\<not> anchor_is_max b" "fragment_id_for_anchor snap b = Some j" "offset_for_anchor snap b = Some off'" for b j off'
      proof -
        have b: "anchored ?C b" "anchor_cmp snap a b \<noteq> Some Greater" using that(1) Cons.prems(1) ord(2) by simp_all
        from anchor_cmp_ids [OF assms an b(1) a that(2,3) i that(4) b(2)] anchor_cmp_offsets [OF assms an b(1,2) off that(5)] s(3,4)
        show ?thesis by (auto intro: less_le_trans)
      qed
      with ord(1) show ?thesis by blast
    qed simp
    with Cons.IH [OF _ s(2)] Cons.prems(1) obtain offs where "those (map (offset_for_anchor snap) as) = Some offs"
      "summaries_impl allow snap (map (\<lambda>a. (a, ())) as) st' = Some (map (\<lambda>i. (i, ())) offs)" by auto
    then show ?thesis using off s(1) by simp
  qed
qed simp

lemma summaries_ok:
  assumes "snap_inv ins snap" "in_offset_order (cells (fragments snap))" "\<forall>a \<in> set as. anchored (cells (fragments snap)) a"
  shows "\<exists>offs. those (map (offset_for_anchor snap) as) = Some offs \<and> summaries_for_anchors_unordered snap as = Some offs
    \<and> (anchor_order snap as \<longrightarrow> summaries_for_anchors snap as = Some offs)"
proof -
  have init: "summing (fragments snap) [] (anchors_init snap)" "as_text (anchors_init snap) = 0"
    by (simp_all add: summing_def anchors_init_def cursor_after_new)
  have "\<exists>offs. those (map (offset_for_anchor snap) as) = Some offs \<and> summaries_impl allow snap (map (\<lambda>a. (a, ())) as) (anchors_init snap) = Some (map (\<lambda>i. (i, ())) offs)"
    if "allow \<or> anchor_order snap as" for allow
    using that init(2) by (intro summaries_impl_ok [OF assms init(1)]) auto
  from this [of True] this [of False] show ?thesis
    by (auto simp: summaries_for_anchors_unordered_def summaries_for_anchors_def summaries_for_anchors_with_payload_def comp_def)
qed

end
