(* ===== verification/Remote_Edit.thy ===== *)
theory Remote_Edit
  imports Local_Edit
begin

text \<open>
  Edits of other replicas: \<^verbatim>\<open>Buffer::apply_remote_edit\<close> of \<^verbatim>\<open>src/crates/text/src/text.rs\<close>. The ranges of the operation are offsets into
  the text, deletions included, that the other replica knew, so that positions count the fragments its version has observed and no
  others. Insertions concurrent with the operation are skipped when their timestamp is higher and passed over when the operation
  deletes around them.
\<close>

subsection \<open>Versioned offsets\<close>

datatype versioned_full_offset = Offset full_offset | Invalid

definition versioned_default :: versioned_full_offset where
  "versioned_default = Offset 0"

fun full_offset_of :: "versioned_full_offset \<Rightarrow> full_offset run" where
  "full_offset_of (Offset position) = Some position"
| "full_offset_of Invalid = None"

fun versioned_add :: "global \<Rightarrow> versioned_full_offset \<Rightarrow> fragment_summary \<Rightarrow> versioned_full_offset" where
  "versioned_add version (Offset offset) summary =
     (if observed_all version (fs_max_insertion_version summary)
      then Offset (offset + (sum_visible (fs_text summary) + sum_deleted (fs_text summary)))
      else if observed_any version (fs_min_insertion_version summary) then Invalid
      else Offset offset)"
| "versioned_add version Invalid summary = Invalid"

text \<open>Comparing with an invalid target is unreachable in the code.\<close>

fun versioned_cmp :: "versioned_full_offset \<Rightarrow> versioned_full_offset \<Rightarrow> ordering run" where
  "versioned_cmp (Offset a) (Offset b) = Some (cmp a b)"
| "versioned_cmp (Offset _) Invalid = Some Less"
| "versioned_cmp Invalid _ = None"

subsection \<open>The cursor\<close>

text \<open>The length of one fragment along the versioned offsets: that of its summary.\<close>

definition versioned_len :: "global \<Rightarrow> fragment \<Rightarrow> nat" where
  "versioned_len version f = (if global_observed version (frag_timestamp f) then frag_len f else 0)"

text \<open>The local variables: those of a local edit, with \<open>st_start\<close> a versioned offset, and the versioned offset of the start of
  the cursor. The start of the cursor along the visible text is that of \<open>st_cursor\<close>.\<close>

record remote_state =
  rs_full :: nat
  rs_edit :: edit_state

definition rs_rest :: "remote_state \<Rightarrow> fragment list" where
  "rs_rest rs = cur_rest (st_cursor (rs_edit rs))"

definition rs_start :: "remote_state \<Rightarrow> nat" where
  "rs_start rs = st_start (rs_edit rs)"

definition rs_end :: "global \<Rightarrow> remote_state \<Rightarrow> nat" where
  "rs_end version rs = rs_full rs + (case rs_rest rs of [] \<Rightarrow> 0 | f # _ \<Rightarrow> versioned_len version f)"

definition rs_next :: "global \<Rightarrow> remote_state \<Rightarrow> remote_state" where
  "rs_next version rs =
     \<lparr>rs_full = rs_end version rs, rs_edit = (rs_edit rs)\<lparr>st_cursor := frag_next (st_cursor (rs_edit rs))\<rparr>\<rparr>"

text \<open>\<^verbatim>\<open>slice(&VersionedFullOffset::Offset(offset), Bias::Left)\<close>: everything that ends before the offset. The parts of the
  cursor are the versioned, the visible and the deleted offset and the items from it on.\<close>

fun slice_versioned ::
  "global \<Rightarrow> nat \<Rightarrow> nat \<Rightarrow> nat \<Rightarrow> nat \<Rightarrow> fragment list \<Rightarrow> fragment list \<times> nat \<times> frag_cursor" where
  "slice_versioned version target full v d [] = ([], full, \<lparr>cur_visible = v, cur_deleted = d, cur_rest = []\<rparr>)"
| "slice_versioned version target full v d (f # fs) =
     (if versioned_cmp (Offset target) (versioned_add version (Offset full) (fragment_summary_of f)) = Some Greater
      then (let (us, r) = slice_versioned version target (full + versioned_len version f) (v + vis_len f) (d + del_len f) fs
            in (f # us, r))
      else ([], full, \<lparr>cur_visible = v, cur_deleted = d, cur_rest = f # fs\<rparr>))"

declare versioned_add.simps [simp del]

text \<open>The end of a fragment is never invalid, and \<open>versioned_len\<close> is how far it lies from the start.\<close>

lemma observed_any_iff: "observed_any a b \<longleftrightarrow> (\<exists>n. gv b n > 0 \<and> gv b n \<le> gv a n)"
proof -
  have "n < length b \<and> n < length a" if "gv b n > 0" "gv b n \<le> gv a n" for n
    using that by (auto simp: gv_def split: if_splits)
  then show ?thesis by (fastforce simp: observed_any_def list_ex_length gv_def)
qed

lemma gv_new: "gv global_new n = 0"
  by (simp add: gv_def global_new_def)

lemma observed_single:
  "observed_all v (global_observe global_new t) \<longleftrightarrow> global_observed v t"
  "observed_any v (global_observe global_new t) \<Longrightarrow> global_observed v t"
proof -
  have "wf_global (global_observe global_new t)" by (intro wf_global_observe wf_global_new)
  then have c: "canonical (global_observe global_new t)" by (simp add: wf_global_def)
  have gv: "gv (global_observe global_new t) n = (if n = unat (lam_replica t) then lam_value t else 0)" for n
    by (simp add: gv_new)
  show "observed_all v (global_observe global_new t) \<longleftrightarrow> global_observed v t"
    unfolding canonical_observed_all [OF c] gv by (auto simp: global_observed_def global_get_gv)
  assume "observed_any v (global_observe global_new t)"
  then obtain n where "gv (global_observe global_new t) n > 0" "gv v n \<ge> gv (global_observe global_new t) n"
    by (auto simp: observed_any_iff)
  then show "global_observed v t" unfolding gv by (auto simp: global_observed_def global_get_gv split: if_splits)
qed

lemma versioned_add_fragment:
  "versioned_add version (Offset full) (fragment_summary_of f) = Offset (full + versioned_len version f)"
  using observed_single [of version "frag_timestamp f"]
  by (auto simp: versioned_add.simps fragment_summary_of_def versioned_len_def vis_len_def del_len_def Let_def)

lemma slice_versioned_Cons [simp]:
  "slice_versioned version target full v d (f # fs) =
     (if full + versioned_len version f < target
      then (let (us, r) = slice_versioned version target (full + versioned_len version f) (v + vis_len f) (d + del_len f) fs
            in (f # us, r))
      else ([], full, \<lparr>cur_visible = v, cur_deleted = d, cur_rest = f # fs\<rparr>))"
  by (simp add: versioned_add_fragment)

declare slice_versioned.simps(2) [simp del]

text \<open>
  Whole nodes of the tree of fragments. The end of a node is invalid exactly when the version has observed some of its fragments
  and not others, and otherwise lies where the fragments one by one lead. So the code passes a node as a whole only where the scan
  passes all its fragments, and where it does not pass a node the scan stops in it, or the node is mixed and the code looks at its
  children.
\<close>

lemma builder_versions:
  "gv (fs_max_insertion_version (builder_summary us)) n =
     foldl (\<lambda>a f. max a (if n = unat (lam_replica (frag_timestamp f)) then lam_value (frag_timestamp f) else 0)) 0 us"
  "gv (fs_min_insertion_version (builder_summary us)) n =
     foldl (\<lambda>a f. meet_entry a (if n = unat (lam_replica (frag_timestamp f)) then lam_value (frag_timestamp f) else 0)) 0 us"
  "wf_global (fs_max_insertion_version (builder_summary us))"
proof -
  have snoc: "builder_summary (us @ [f]) = fragment_summary_add (builder_summary us) (fragment_summary_of f)" for us f
    by (simp add: builder_summary_def)
  show "gv (fs_max_insertion_version (builder_summary us)) n =
     foldl (\<lambda>a f. max a (if n = unat (lam_replica (frag_timestamp f)) then lam_value (frag_timestamp f) else 0)) 0 us"
    by (induction us rule: rev_induct) (simp_all add: snoc gv_new fragment_summary_zero_def fragment_summary_add_def fragment_summary_of_def Let_def)
  show "gv (fs_min_insertion_version (builder_summary us)) n =
     foldl (\<lambda>a f. meet_entry a (if n = unat (lam_replica (frag_timestamp f)) then lam_value (frag_timestamp f) else 0)) 0 us"
    by (induction us rule: rev_induct) (simp_all add: snoc gv_new fragment_summary_zero_def fragment_summary_add_def fragment_summary_of_def Let_def)
  show "wf_global (fs_max_insertion_version (builder_summary us))"
    by (induction us rule: rev_induct)
      (simp_all add: snoc fragment_summary_zero_def fragment_summary_add_def fragment_summary_of_def Let_def wf_global_intros)
qed

lemma builder_observed_all:
  "observed_all v (fs_max_insertion_version (builder_summary us)) \<longleftrightarrow> (\<forall>f \<in> set us. global_observed v (frag_timestamp f))"
proof -
  have "foldl (\<lambda>a f. max a (if n = unat (lam_replica (frag_timestamp f)) then lam_value (frag_timestamp f) else 0)) a us \<le> gv v n \<longleftrightarrow>
      a \<le> gv v n \<and> (\<forall>f \<in> set us. n = unat (lam_replica (frag_timestamp f)) \<longrightarrow> lam_value (frag_timestamp f) \<le> gv v n)" for n a
    by (induction us arbitrary: a) auto
  with builder_versions(1,3) [of us] show ?thesis
    by (auto simp: wf_global_def canonical_observed_all global_observed_def global_get_gv)
qed

lemma builder_observed_any:
  assumes "\<forall>f \<in> set us. lam_value (frag_timestamp f) > 0"
  shows "observed_any v (fs_min_insertion_version (builder_summary us)) \<longleftrightarrow> (\<exists>f \<in> set us. global_observed v (frag_timestamp f))"
proof -
  let ?m = "\<lambda>n a us. foldl (\<lambda>a f. meet_entry a (if n = unat (lam_replica (frag_timestamp f)) then lam_value (frag_timestamp f) else 0)) a us"
  have "?m n a us > 0 \<and> ?m n a us \<le> x \<longleftrightarrow>
      (a > 0 \<and> a \<le> x) \<or> (\<exists>f \<in> set us. n = unat (lam_replica (frag_timestamp f)) \<and> lam_value (frag_timestamp f) \<le> x)" for n a x
    using assms
  proof (induction us arbitrary: a)
    case (Cons f us)
    then show ?case by (auto simp: meet_entry_def min_def word_gt_0 split: if_splits)
  qed simp
  then show ?thesis
    unfolding observed_any_iff builder_versions(2) by (auto simp: global_observed_def global_get_gv)
qed

lemma versioned_add_node:
  assumes "\<forall>f \<in> set us. lam_value (frag_timestamp f) > 0"
  shows "versioned_add version (Offset full) (builder_summary us) =
    (if (\<exists>f \<in> set us. global_observed version (frag_timestamp f)) \<and> (\<exists>f \<in> set us. \<not> global_observed version (frag_timestamp f))
     then Invalid else Offset (full + sum_list (map (versioned_len version) us)))"
proof -
  have "sum_list (map vis_len us) + sum_list (map del_len us) = sum_list (map frag_len us)"
    by (induction us) (auto simp: vis_len_def del_len_def)
  moreover have "sum_list (map (versioned_len version) us) = sum_list (map frag_len us)"
    if "\<forall>f \<in> set us. global_observed version (frag_timestamp f)"
    using that by (induction us) (auto simp: versioned_len_def)
  moreover have "sum_list (map (versioned_len version) us) = 0" if "\<forall>f \<in> set us. \<not> global_observed version (frag_timestamp f)"
    using that by (induction us) (auto simp: versioned_len_def)
  ultimately show ?thesis
    by (auto simp: versioned_add.simps builder_observed_all builder_observed_any [OF assms] fragment_summary_zero_def)
qed

lemma slice_versioned_skips:
  "full + sum_list (map (versioned_len version) us) < target \<Longrightarrow>
   slice_versioned version target full v d (us @ fs) =
     (let (ws, r) = slice_versioned version target (full + sum_list (map (versioned_len version) us))
                      (v + sum_list (map vis_len us)) (d + sum_list (map del_len us)) fs
      in (us @ ws, r))"
  by (induction us arbitrary: full v d) (auto simp: ac_simps split: prod.splits)

lemma slice_versioned_stops:
  "us \<noteq> [] \<Longrightarrow> target \<le> full + sum_list (map (versioned_len version) us) \<Longrightarrow>
   length (fst (slice_versioned version target full v d (us @ fs))) < length us"
proof (induction us arbitrary: full v d)
  case (Cons f us)
  show ?case
  proof (cases "us = []")
    case False
    from Cons.IH [OF this, of "full + versioned_len version f" "v + vis_len f" "d + del_len f"] Cons.prems(2) show ?thesis
      by (simp add: case_prod_beta Let_def ac_simps)
  qed (use Cons.prems in simp)
qed simp

lemma versioned_node_passed:
  assumes "\<forall>f \<in> set us. lam_value (frag_timestamp f) > 0"
    and "versioned_cmp (Offset target) (versioned_add version (Offset full) (builder_summary us)) = Some Greater"
  shows "slice_versioned version target full v d (us @ fs) =
     (let (ws, r) = slice_versioned version target (full + sum_list (map (versioned_len version) us))
                      (v + sum_list (map vis_len us)) (d + sum_list (map del_len us)) fs
      in (us @ ws, r))"
  using assms(2) by (intro slice_versioned_skips) (simp add: versioned_add_node [OF assms(1)] split: if_splits)

lemma versioned_node_entered:
  assumes "us \<noteq> []" "\<forall>f \<in> set us. lam_value (frag_timestamp f) > 0"
    and "versioned_cmp (Offset target) (versioned_add version (Offset full) (builder_summary us)) \<noteq> Some Greater"
    and "versioned_add version (Offset full) (builder_summary us) \<noteq> Invalid"
  shows "length (fst (slice_versioned version target full v d (us @ fs))) < length us"
  using assms(3,4) by (intro slice_versioned_stops [OF assms(1)]) (auto simp: versioned_add_node [OF assms(2)] not_less split: if_splits)

definition set_start :: "nat \<Rightarrow> remote_state \<Rightarrow> remote_state" where
  "set_start s rs = rs\<lparr>rs_edit := (rs_edit rs)\<lparr>st_start := s\<rparr>\<rparr>"

subsection \<open>The steps of one edit\<close>

text \<open>Push the rest of the current fragment, with the identity it has, and advance.\<close>

definition push_current :: "global \<Rightarrow> remote_state \<Rightarrow> remote_state run" where
  "push_current version rs = do {
     f \<leftarrow> frag_item (st_cursor (rs_edit rs));
     let g = f\<lparr>frag_len := rs_end version rs - rs_start rs, frag_offset := frag_offset f + (rs_start rs - rs_full rs)\<rparr>;
     Some (rs\<lparr>rs_edit := push_rewritten g (frag_visible g) (rs_edit rs)\<rparr>)
   }"

definition remote_suffix :: "global \<Rightarrow> remote_state \<Rightarrow> remote_state run" where
  "remote_suffix version rs =
     (if rs_start rs > rs_full rs then do {
        rs1 \<leftarrow> (if rs_end version rs > rs_start rs then push_current version rs else Some rs);
        Some (rs_next version rs1)
      } else Some rs)"

definition remote_skip :: "global \<Rightarrow> nat \<Rightarrow> remote_state \<Rightarrow> remote_state run" where
  "remote_skip version range_start rs =
     (if rs_end version rs < range_start then do {
        rs1 \<leftarrow> remote_suffix version rs;
        let (us, full, c) = slice_versioned version range_start (rs_full rs1) (cur_visible (st_cursor (rs_edit rs1)))
                              (cur_deleted (st_cursor (rs_edit rs1))) (rs_rest rs1);
        let st = rs_edit rs1;
        Some \<lparr>rs_full = full,
              rs_edit = st\<lparr>st_ropes := rb_append (fs_text (builder_summary us)) (st_ropes st), st_fragments := st_fragments st @ us,
                           st_cursor := c, st_start := full\<rparr>\<rparr>
      } else Some rs)"

text \<open>At the end of a fragment that is not concurrent, advance to the next one.\<close>

definition remote_advance :: "global \<Rightarrow> nat \<Rightarrow> remote_state \<Rightarrow> remote_state run" where
  "remote_advance version range_start rs =
     (if rs_end version rs = range_start \<and> rs_end version rs > rs_start rs then do {
        rs1 \<leftarrow> push_current version rs;
        let rs2 = rs_next version rs1;
        Some (set_start (rs_full rs2) rs2)
      } else Some rs)"

text \<open>Skip concurrent insertions with a higher timestamp; the second argument is what follows the cursor.\<close>

fun skip_higher :: "global \<Rightarrow> lamport \<Rightarrow> nat \<Rightarrow> fragment list \<Rightarrow> remote_state \<Rightarrow> remote_state" where
  "skip_higher version timestamp range_start [] rs = rs"
| "skip_higher version timestamp range_start (f # fs) rs =
     (if rs_start rs = range_start \<and> frag_timestamp f > timestamp then
        let st = rs_edit rs
        in skip_higher version timestamp range_start fs
             (rs_next version (rs\<lparr>rs_edit := st\<lparr>st_ropes := rb_push_fragment f (frag_visible f) (st_ropes st),
                                               st_fragments := st_fragments st @ [f]\<rparr>\<rparr>))
      else rs)"

definition remote_prefix :: "nat \<Rightarrow> remote_state \<Rightarrow> remote_state run" where
  "remote_prefix range_start rs =
     (if rs_start rs < range_start then do {
        let st = rs_edit rs;
        f \<leftarrow> frag_item (st_cursor st);
        let prefix = f\<lparr>frag_len := range_start - rs_start rs, frag_offset := frag_offset f + (rs_start rs - rs_full rs),
                       frag_id := between (fs_max_id (builder_summary (st_fragments st))) (frag_id f)\<rparr>;
        Some (set_start range_start (rs\<lparr>rs_edit := push_rewritten prefix (frag_visible prefix) st\<rparr>))
      } else Some rs)"

definition remote_insertion :: "bytes \<Rightarrow> lamport \<Rightarrow> remote_state \<Rightarrow> remote_state run" where
  "remote_insertion new_text timestamp rs =
     (if new_text \<noteq> [] then do {
        let st = rs_edit rs;
        let old_st = cur_visible (st_cursor st)
              + (case frag_item (st_cursor st) of Some f \<Rightarrow> if frag_visible f then rs_start rs - rs_full rs else 0 | None \<Rightarrow> 0);
        let new_st = sum_visible (fs_text (builder_summary (st_fragments st)));
        st1 \<leftarrow> push_fragments_for_insertion new_text timestamp (next_fragment_id (st_cursor st)) st;
        Some (rs\<lparr>rs_edit := st1\<lparr>st_patch := patch_push (st_patch st1)
                (edit_of (int old_st) (int old_st) (int new_st) (int (new_st + length new_text)))\<rparr>\<rparr>)
      } else Some rs)"

text \<open>One round of the loop that marks what intersects the range as deleted; \<open>undos\<close> is the undo map of the buffer.\<close>

definition remote_delete_step ::
  "global \<Rightarrow> undo_map \<Rightarrow> lamport \<Rightarrow> nat \<Rightarrow> fragment \<Rightarrow> remote_state \<Rightarrow> remote_state run" where
  "remote_delete_step version undos timestamp range_end f rs = do {
     let st = rs_edit rs;
     let fragment_end = rs_end version rs;
     let intersection_end = min range_end fragment_end;
     was_visible \<leftarrow> (if global_observed version (frag_timestamp f) then frag_was_visible version undos f else Some False);
     let part = (if global_observed version (frag_timestamp f)
                 then f\<lparr>frag_len := intersection_end - rs_start rs, frag_offset := frag_offset f + (rs_start rs - rs_full rs),
                        frag_id := between (fs_max_id (builder_summary (st_fragments st))) (frag_id f)\<rparr>
                 else f);
     let intersection = (if was_visible then part\<lparr>frag_deletions := frag_deletions f @ [timestamp], frag_visible := False\<rparr> else part);
     let st1 = (if was_visible then st\<lparr>st_slices := st_slices st @ [insertion_slice_from_fragment timestamp intersection]\<rparr> else st);
     let rs1 = (if frag_len intersection > 0 then
                  let p = (if frag_visible f \<and> \<not> frag_visible intersection then
                             let old_st = int (cur_visible (st_cursor st) + (rs_start rs - rs_full rs));
                                 new_st = int (sum_visible (fs_text (builder_summary (st_fragments st))))
                             in patch_push (st_patch st1) (edit_of old_st (old_st + int (frag_len intersection)) new_st new_st)
                           else st_patch st1)
                  in set_start intersection_end
                       (rs\<lparr>rs_edit := push_rewritten intersection (frag_visible f) (st1\<lparr>st_patch := p\<rparr>)\<rparr>)
                else rs\<lparr>rs_edit := st1\<rparr>);
     Some (if fragment_end \<le> range_end then rs_next version rs1 else rs1)
   }"

partial_function (option) remote_delete_loop ::
  "global \<Rightarrow> undo_map \<Rightarrow> lamport \<Rightarrow> nat \<Rightarrow> remote_state \<Rightarrow> remote_state option" where
  "remote_delete_loop version undos timestamp range_end rs =
     (if rs_start rs < range_end then
        Option.bind (frag_item (st_cursor (rs_edit rs))) (\<lambda>f.
          Option.bind (remote_delete_step version undos timestamp range_end f rs)
            (remote_delete_loop version undos timestamp range_end))
      else Some rs)"

declare remote_delete_loop.simps [code]

definition remote_one_edit ::
  "global \<Rightarrow> undo_map \<Rightarrow> lamport \<Rightarrow> (full_offset \<times> full_offset) \<times> bytes \<Rightarrow> remote_state \<Rightarrow> remote_state run" where
  "remote_one_edit version undos timestamp edit rs =
     (let ((range_start, range_end), new_text) = edit
      in do {
        rs1 \<leftarrow> remote_skip version range_start rs;
        rs2 \<leftarrow> remote_advance version range_start rs1;
        let rs3 = skip_higher version timestamp range_start (rs_rest rs2) rs2;
        rs4 \<leftarrow> remote_prefix range_start rs3;
        rs5 \<leftarrow> remote_insertion new_text timestamp rs4;
        remote_delete_loop version undos timestamp range_end rs5
      })"

fun remote_edits ::
  "global \<Rightarrow> undo_map \<Rightarrow> lamport \<Rightarrow> ((full_offset \<times> full_offset) \<times> bytes) list \<Rightarrow> remote_state \<Rightarrow> remote_state run" where
  "remote_edits version undos timestamp [] rs = Some rs"
| "remote_edits version undos timestamp (e # es) rs =
     Option.bind (remote_one_edit version undos timestamp e rs) (remote_edits version undos timestamp es)"

subsection \<open>The whole operation\<close>

definition remote_start :: "global \<Rightarrow> nat \<Rightarrow> snapshot \<Rightarrow> remote_state" where
  "remote_start version range_start snap =
     (let (us, full, c) = slice_versioned version range_start 0 0 0 (fragments snap)
      in \<lparr>rs_full = full,
          rs_edit = \<lparr>st_cursor = c, st_start = full, st_fragments = us, st_insertions = [], st_slices = [],
            st_ropes = rb_append (fs_text (builder_summary us)) (rope_builder_new (visible_text snap) (deleted_text snap)),
            st_patch = [], st_offset = 0, st_ranges = [], st_texts = []\<rparr>\<rparr>)"

definition remote_finish :: "global \<Rightarrow> remote_state \<Rightarrow> snapshot \<Rightarrow> (snapshot \<times> patch) run" where
  "remote_finish version rs snap = do {
     rs1 \<leftarrow> remote_suffix version rs;
     let st = rs_edit rs1;
     let rest = cur_rest (st_cursor st);
     let (v, d) = rb_finish (rb_append (fs_text (builder_summary rest)) (st_ropes st));
     Some (snap\<lparr>fragments := st_fragments st @ rest,
       insertions := edit_items if_key (insertions snap) (map Insert (sort_key if_key (st_insertions st))),
       visible_text := v, deleted_text := d,
       insertion_slices := edit_items slice_key (insertion_slices snap) (map Insert (sort_key slice_key (st_slices st)))\<rparr>,
       st_patch st)
   }"

text \<open>The result is the snapshot and the patch to publish, if any.\<close>

definition apply_remote_edit ::
  "global \<Rightarrow> (full_offset \<times> full_offset) list \<Rightarrow> bytes list \<Rightarrow> lamport \<Rightarrow> snapshot \<Rightarrow> (snapshot \<times> patch option) run" where
  "apply_remote_edit version ranges new_text timestamp snap =
     (case ranges of
        [] \<Rightarrow> Some (snap, None)
      | (range_start, _) # _ \<Rightarrow> do {
          rs \<leftarrow> remote_edits version (snap_undo_map snap) timestamp (zip ranges new_text) (remote_start version range_start snap);
          (snap1, p) \<leftarrow> remote_finish version rs snap;
          Some (snap1, Some p)
        })"

end
