(* ===== verification/Remote_Proofs.thy ===== *)
theory Remote_Proofs
  imports Remote_Edit Buffer_Invariant
begin

text \<open>
  Correctness of remote edits. \<open>remote_cells\<close> says byte by byte what an edit of another replica means: positions count the cells its
  version has observed, new cells go after concurrent ones with a higher timestamp, and every cell of a range that was visible at the
  version is deleted. The loop over fragments refines it, keeps the invariant of a snapshot and publishes the change of the visible
  text.
\<close>

subsection \<open>Parts of fragments\<close>

text \<open>The fragments from the cursor on, without the bytes that have been consumed.\<close>

definition trim :: "nat \<Rightarrow> fragment list \<Rightarrow> fragment list" where
  "trim k fs = (case fs of [] \<Rightarrow> []
     | f # gs \<Rightarrow> if k < frag_len f then f\<lparr>frag_offset := frag_offset f + k, frag_len := frag_len f - k\<rparr> # gs else gs)"

definition part_of :: "fragment \<Rightarrow> fragment \<Rightarrow> nat \<Rightarrow> nat \<Rightarrow> bool" where
  "part_of g f k m \<longleftrightarrow> frag_timestamp g = frag_timestamp f \<and> frag_offset g = frag_offset f + k \<and> frag_len g = m"

lemma trim_simps [simp]:
  "trim k [] = []"
  "k < frag_len f \<Longrightarrow> trim k (f # fs) = f\<lparr>frag_offset := frag_offset f + k, frag_len := frag_len f - k\<rparr> # fs"
  "trim (frag_len f) (f # fs) = fs"
  by (simp_all add: trim_def)

lemma trim_0: "\<forall>f \<in> set fs. frag_len f > 0 \<Longrightarrow> trim 0 fs = fs"
  by (cases fs) auto

lemma trim_trim: "k < frag_len f \<Longrightarrow> trim m (trim k (f # fs)) = trim (k + m) (f # fs)"
  by (auto simp: trim_def add.assoc)

lemma cells_trim:
  assumes "fs \<noteq> [] \<Longrightarrow> k \<le> frag_len (hd fs)"
  shows "cells (trim k fs) = drop k (cells fs)"
proof (cases fs)
  case (Cons f gs)
  have "cells_of (f\<lparr>frag_offset := frag_offset f + k, frag_len := frag_len f - k\<rparr>) = drop k (cells_of f)"
    by (intro nth_equalityI) (simp_all add: cells_of_def)
  then show ?thesis using assms Cons by (auto simp: trim_def)
qed simp

lemma editing_rest:
  assumes "editing ins V N rest 0 start rb p" "vis_text ins rest' = vis_text ins rest" "del_text ins rest' = del_text ins rest"
    and "\<forall>f \<in> set rest'. frag_wf ins f" "ids_ok (N @ rest')"
  shows "editing ins V N rest' 0 start rb p"
  using assms unfolding editing_def by auto

text \<open>Splitting the next old fragment changes nothing; its first part may have an identity of its own.\<close>

lemma editing_split:
  assumes "editing ins V N (f # fs) 0 start rb p" "0 < m" "m \<le> frag_len f" "part_of g f 0 m" "frag_visible g = frag_visible f"
    and "frag_id g = between (max_id N) (frag_id f) \<or> frag_id g = frag_id f \<and> m = frag_len f"
  shows "editing ins V N (g # trim m (f # fs)) 0 start rb p"
proof -
  have wf: "frag_wf ins f" and ids: "ids_ok (N @ f # fs)" using assms(1) by (auto simp: editing_def)
  have g: "content ins g = take m (content ins f)" "frag_wf ins g"
    using content_part [of g f 0 m ins] frag_wf_part [OF wf, of g 0 m] assms(2-4) by (simp_all add: part_of_def)
  show ?thesis
  proof (cases "m = frag_len f")
    case True
    have "ids_ok (N @ g # fs)"
      using assms(6)
    proof
      assume "frag_id g = between (max_id N) (frag_id f)"
      with ids_ok_insert [OF ids, of g] have "ids_ok ((N @ [g]) @ f # fs)" by (simp add: next_id_def)
      from ids_ok_drop [OF this] show ?thesis by simp
    qed (use ids_ok_replace [OF ids, of g] in blast)
    moreover have "content ins g = content ins f" using g(1) True wf by simp
    ultimately have "editing ins V N (g # fs) 0 start rb p"
      using assms(1,5) g(2) by (intro editing_rest [OF assms(1)]) (auto simp: editing_def)
    then show ?thesis using True by simp
  next
    case False
    let ?h = "f\<lparr>frag_offset := frag_offset f + m, frag_len := frag_len f - m\<rparr>"
    have m: "m < frag_len f" using False assms(3) by simp
    have h: "content ins ?h = drop m (content ins f)" "frag_wf ins ?h"
      using content_part [of ?h f m "frag_len f - m" ins] frag_wf_part [OF wf, of ?h m] m wf by simp_all
    have "ids_ok (N @ g # f # fs)" using ids_ok_insert [OF ids, of g] False assms(6) by (simp add: next_id_def)
    then have "ids_ok (N @ g # ?h # fs)" using ids_ok_replace [of "N @ [g]" f fs ?h] by simp
    moreover have "content ins g @ content ins ?h = content ins f" using g(1) h(1) by simp
    then have "vis_text ins (g # ?h # fs) = vis_text ins (f # fs)" "del_text ins (g # ?h # fs) = del_text ins (f # fs)"
      using assms(5) by simp_all
    moreover have "\<forall>x \<in> set (g # ?h # fs). frag_wf ins x" using assms(1) g(2) h(2) by (simp add: editing_def)
    ultimately have "editing ins V N (g # ?h # fs) 0 start rb p" by (intro editing_rest [OF assms(1)])
    then show ?thesis using m by simp
  qed
qed

lemma editing_part:
  assumes "editing ins V N (trim k (f # fs)) 0 start rb p" "0 < m" "k + m \<le> frag_len f" "part_of g f k m"
    and "frag_id g = between (max_id N) (frag_id f) \<or> frag_id g = frag_id f \<and> k + m = frag_len f"
  shows "editing ins V (N @ [g]) (trim (k + m) (f # fs)) 0 (start + (if frag_visible f then m else 0)) (rb_push_fragment g (frag_visible f) rb)
    (flip_patch p (frag_visible f) (frag_visible g) (int start) (int (sum_list (map vis_len N))) (int m))"
proof -
  have k: "k < frag_len f" using assms(2,3) by simp
  let ?h = "f\<lparr>frag_offset := frag_offset f + k, frag_len := frag_len f - k\<rparr>" and ?g = "g\<lparr>frag_visible := frag_visible f\<rparr>"
  have h: "editing ins V N (?h # fs) 0 start rb p" using assms(1) k by simp
  have "m \<le> frag_len ?h" "part_of ?g ?h 0 m" "frag_visible ?g = frag_visible ?h"
    "frag_id ?g = between (max_id N) (frag_id ?h) \<or> frag_id ?g = frag_id ?h \<and> m = frag_len ?h"
    using assms(3-5) by (auto simp: part_of_def)
  from editing_split [OF h assms(2) this] have "editing ins V N (?g # trim m (?h # fs)) 0 start rb p" .
  moreover have "trim m (?h # fs) = trim (k + m) (f # fs)" using trim_trim [OF k, of m fs] k by simp
  ultimately have ed: "editing ins V N (?g # trim (k + m) (f # fs)) 0 start rb p" by simp
  then have "frag_wf ins ?g" by (simp add: editing_def)
  then have "frag_wf ins g" by (simp add: frag_wf_def)
  moreover have "frag_id g = frag_id ?g" "content ins g = content ins ?g" "frag_len g = frag_len ?g" "frag_len ?g = m"
    "frag_visible ?g = frag_visible f" "vis_len ?g = (if frag_visible f then m else 0)"
    using assms(4) by (simp_all add: content_def part_of_def vis_len_def)
  ultimately show ?thesis using editing_flip [OF ed, of g] by (simp only:)
qed

subsection \<open>The invariant of the loop\<close>

definition remaining :: "remote_state \<Rightarrow> fragment list" where
  "remaining rs = trim (rs_start rs - rs_full rs) (rs_rest rs)"

text \<open>The position in the old visible text.\<close>

definition old_pos :: "remote_state \<Rightarrow> nat" where
  "old_pos rs = cur_visible (st_cursor (rs_edit rs))
     + (case rs_rest rs of [] \<Rightarrow> 0 | f # _ \<Rightarrow> if frag_visible f then rs_start rs - rs_full rs else 0)"

text \<open>A partially consumed fragment has been observed, and some of it is left.\<close>

definition head_ok :: "global \<Rightarrow> remote_state \<Rightarrow> bool" where
  "head_ok version rs \<longleftrightarrow> rs_full rs \<le> rs_start rs \<and> (rs_full rs < rs_start rs \<longrightarrow>
     (\<exists>f fs. rs_rest rs = f # fs \<and> global_observed version (frag_timestamp f) \<and> rs_start rs - rs_full rs < frag_len f))"

definition remote_inv ::
  "(lamport \<Rightarrow> bytes) \<Rightarrow> bytes \<Rightarrow> global \<Rightarrow> lamport \<Rightarrow> fragment list \<Rightarrow> remote_state \<Rightarrow> bool" where
  "remote_inv ins V version ts F rs \<longleftrightarrow> head_ok version rs
     \<and> editing ins V (st_fragments (rs_edit rs)) (remaining rs) 0 (old_pos rs) (st_ropes (rs_edit rs)) (st_patch (rs_edit rs))
     \<and> logging ts F (st_fragments (rs_edit rs)) (rs_rest rs) (rs_start rs - rs_full rs) (st_insertions (rs_edit rs))
         (st_slices (rs_edit rs)) (st_offset (rs_edit rs))"

definition observed_cell :: "global \<Rightarrow> cell \<Rightarrow> bool" where
  "observed_cell version c \<longleftrightarrow> global_observed version (cell_ts c)"

text \<open>The loop has consumed the cells \<open>A\<close> and produced the cells \<open>X\<close>.\<close>

definition moved :: "global \<Rightarrow> remote_state \<Rightarrow> remote_state \<Rightarrow> cell list \<Rightarrow> cell list \<Rightarrow> bool" where
  "moved version rs rs' A X \<longleftrightarrow> cells (remaining rs) = A @ cells (remaining rs')
     \<and> cells (st_fragments (rs_edit rs')) = cells (st_fragments (rs_edit rs)) @ X
     \<and> rs_start rs' = rs_start rs + length (filter (observed_cell version) A)"

lemma moved_refl [simp]: "moved version rs rs [] []"
  by (simp add: moved_def)

lemma moved_trans: "moved version rs rs1 A X \<Longrightarrow> moved version rs1 rs2 B Y \<Longrightarrow> moved version rs rs2 (A @ B) (X @ Y)"
  by (simp add: moved_def)

lemma rs_simps [simp]:
  "rs_start (set_start s rs) = s" "rs_full (set_start s rs) = rs_full rs" "rs_rest (set_start s rs) = rs_rest rs"
  "st_cursor (rs_edit (set_start s rs)) = st_cursor (rs_edit rs)" "st_fragments (rs_edit (set_start s rs)) = st_fragments (rs_edit rs)"
  "st_insertions (rs_edit (set_start s rs)) = st_insertions (rs_edit rs)" "st_slices (rs_edit (set_start s rs)) = st_slices (rs_edit rs)"
  "st_ropes (rs_edit (set_start s rs)) = st_ropes (rs_edit rs)" "st_patch (rs_edit (set_start s rs)) = st_patch (rs_edit rs)"
  "st_offset (rs_edit (set_start s rs)) = st_offset (rs_edit rs)" "set_start s (set_start t rs) = set_start s rs"
  by (simp_all add: set_start_def rs_start_def rs_rest_def)

lemma rs_next_simps [simp]:
  "rs_start (rs_next version rs) = rs_start rs" "rs_full (rs_next version rs) = rs_end version rs"
  "rs_rest (rs_next version rs) = tl (rs_rest rs)"
  "st_fragments (rs_edit (rs_next version rs)) = st_fragments (rs_edit rs)"
  "st_insertions (rs_edit (rs_next version rs)) = st_insertions (rs_edit rs)" "st_slices (rs_edit (rs_next version rs)) = st_slices (rs_edit rs)"
  "st_ropes (rs_edit (rs_next version rs)) = st_ropes (rs_edit rs)" "st_patch (rs_edit (rs_next version rs)) = st_patch (rs_edit rs)"
  "st_offset (rs_edit (rs_next version rs)) = st_offset (rs_edit rs)"
  by (simp_all add: rs_next_def rs_start_def rs_rest_def frag_next_def split: list.split)

lemma rs_next_visible:
  "rs_rest rs = f # fs \<Longrightarrow> cur_visible (st_cursor (rs_edit (rs_next version rs))) = cur_visible (st_cursor (rs_edit rs)) + vis_len f"
  by (simp add: rs_next_def rs_rest_def frag_next_def)

lemma rs_end_simp: "rs_rest rs = f # fs \<Longrightarrow> rs_end version rs = rs_full rs + versioned_len version f"
  by (simp add: rs_end_def)

text \<open>Pushing a part of the current fragment.\<close>

definition push_part :: "fragment \<Rightarrow> bool \<Rightarrow> insertion_slice list \<Rightarrow> patch \<Rightarrow> remote_state \<Rightarrow> remote_state" where
  "push_part g w ss p rs = rs\<lparr>rs_edit := push_rewritten g w ((rs_edit rs)\<lparr>st_slices := ss, st_patch := p\<rparr>)\<rparr>"

lemma push_part_simps [simp]:
  "rs_start (push_part g w ss p rs) = rs_start rs" "rs_full (push_part g w ss p rs) = rs_full rs" "rs_rest (push_part g w ss p rs) = rs_rest rs"
  "rs_end version (push_part g w ss p rs) = rs_end version rs"
  "st_cursor (rs_edit (push_part g w ss p rs)) = st_cursor (rs_edit rs)" "st_fragments (rs_edit (push_part g w ss p rs)) = st_fragments (rs_edit rs) @ [g]"
  "st_insertions (rs_edit (push_part g w ss p rs)) = st_insertions (rs_edit rs) @ [insertion_fragment_new g]"
  "st_slices (rs_edit (push_part g w ss p rs)) = ss"
  "st_ropes (rs_edit (push_part g w ss p rs)) = rb_push_fragment g w (st_ropes (rs_edit rs))" "st_patch (rs_edit (push_part g w ss p rs)) = p"
  "st_offset (rs_edit (push_part g w ss p rs)) = st_offset (rs_edit rs)"
  by (simp_all add: push_part_def push_rewritten_def rs_start_def rs_rest_def rs_end_def)

definition part_pushed :: "lamport \<Rightarrow> fragment \<Rightarrow> fragment \<Rightarrow> insertion_slice list \<Rightarrow> insertion_slice list \<Rightarrow> bool" where
  "part_pushed ts f g ss ss' \<longleftrightarrow> frag_visible g = frag_visible f \<and> frag_deletions g = frag_deletions f \<and> ss' = ss
     \<or> \<not> frag_visible g \<and> frag_deletions g = frag_deletions f @ [ts] \<and> ss' = ss @ [insertion_slice_from_fragment ts g]"

lemma logging_part_pushed:
  assumes "logging ts F N (f # fs) k xs ss off" "fresh ts F" "0 < m" "k + m \<le> frag_len f" "part_of g f k m" "part_pushed ts f g ss ss'"
  shows "logging ts F (N @ [g]) (f # fs) (k + m) (xs @ [insertion_fragment_new g]) ss' off"
proof -
  note part = assms(5) [unfolded part_of_def, THEN conjunct1] assms(5) [unfolded part_of_def, THEN conjunct2, THEN conjunct1]
    assms(5) [unfolded part_of_def, THEN conjunct2, THEN conjunct2]
  show ?thesis using assms(6) logging_part [OF assms(1-4) part] logging_delete [OF assms(1-4) part] by (auto simp: part_pushed_def)
qed

lemma filter_observed_cells_of:
  assumes "set A \<subseteq> set (cells_of f)"
  shows "filter (observed_cell version) A = (if global_observed version (frag_timestamp f) then A else [])"
proof -
  have "\<forall>c \<in> set A. cell_ts c = frag_timestamp f" using assms by (auto dest: in_cells_of)
  then show ?thesis by (auto simp: filter_id_conv filter_empty_conv observed_cell_def)
qed

lemma push_part_ok:
  assumes "remote_inv ins V version ts F rs" "rs_rest rs = f # fs" "0 < m" "rs_start rs - rs_full rs + m \<le> frag_len f"
    and "part_of g f (rs_start rs - rs_full rs) m"
    and "frag_id g = between (max_id (st_fragments (rs_edit rs))) (frag_id f) \<or> frag_id g = frag_id f \<and> rs_start rs - rs_full rs + m = frag_len f"
    and "part_pushed ts f g (st_slices (rs_edit rs)) ss" "fresh ts F"
    and "p = flip_patch (st_patch (rs_edit rs)) (frag_visible f) (frag_visible g) (int (old_pos rs))
      (int (sum_list (map vis_len (st_fragments (rs_edit rs))))) (int m)"
    and "rs1 = push_part g (frag_visible f) ss p rs" "A = take m (drop (rs_start rs - rs_full rs) (cells_of f))"
  shows "rs_start rs - rs_full rs + m < frag_len f \<Longrightarrow> global_observed version (frag_timestamp f) \<Longrightarrow>
      remote_inv ins V version ts F (set_start (rs_start rs + m) rs1) \<and> moved version rs (set_start (rs_start rs + m) rs1) A (cells_of g)"
    and "rs_start rs - rs_full rs + m = frag_len f \<Longrightarrow>
      remote_inv ins V version ts F (set_start (rs_end version rs) (rs_next version rs1))
        \<and> moved version rs (set_start (rs_end version rs) (rs_next version rs1)) A (cells_of g)"
proof -
  define k where "k = rs_start rs - rs_full rs"
  have inv: "head_ok version rs" "editing ins V (st_fragments (rs_edit rs)) (trim k (f # fs)) 0 (old_pos rs) (st_ropes (rs_edit rs)) (st_patch (rs_edit rs))"
    "logging ts F (st_fragments (rs_edit rs)) (f # fs) k (st_insertions (rs_edit rs)) (st_slices (rs_edit rs)) (st_offset (rs_edit rs))"
    using assms(1,2) by (simp_all add: remote_inv_def remaining_def k_def)
  note pre = assms(4,5,6) [folded k_def]
  have ed: "editing ins V (st_fragments (rs_edit rs) @ [g]) (trim (k + m) (f # fs)) 0 (old_pos rs + (if frag_visible f then m else 0))
      (rb_push_fragment g (frag_visible f) (st_ropes (rs_edit rs))) p"
    unfolding assms(9) by (rule editing_part [OF inv(2) assms(3) pre])
  have lg: "logging ts F (st_fragments (rs_edit rs) @ [g]) (f # fs) (k + m) (st_insertions (rs_edit rs) @ [insertion_fragment_new g]) ss (st_offset (rs_edit rs))"
    by (rule logging_part_pushed [OF inv(3) assms(8,3) pre(1,2) assms(7)])
  have le: "rs_full rs \<le> rs_start rs" and obs: "k > 0 \<Longrightarrow> global_observed version (frag_timestamp f)"
    using inv(1) assms(2) by (auto simp: head_ok_def k_def)
  have cells: "cells (remaining rs) = drop k (cells_of f) @ cells fs"
    using cells_trim [of "f # fs" k] pre(1) assms(2) by (simp add: remaining_def k_def)
  have A: "A = take m (drop k (cells_of f))" using assms(11) by (simp add: k_def)
  have "set A \<subseteq> set (cells_of f)" unfolding A by (auto dest: in_set_takeD in_set_dropD)
  from filter_observed_cells_of [OF this, of version]
  have count: "length (filter (observed_cell version) A) = (if global_observed version (frag_timestamp f) then m else 0)"
    using pre(1) A by simp
  show "remote_inv ins V version ts F (set_start (rs_start rs + m) rs1) \<and> moved version rs (set_start (rs_start rs + m) rs1) A (cells_of g)"
    if stay: "rs_start rs - rs_full rs + m < frag_len f" "global_observed version (frag_timestamp f)"
  proof -
    let ?rs = "set_start (rs_start rs + m) rs1"
    have k1: "rs_start ?rs - rs_full ?rs = k + m" "rs_rest ?rs = f # fs" using le assms(2,10) by (simp_all add: k_def)
    have "head_ok version ?rs" using stay le assms(2,10) by (simp add: head_ok_def k_def)
    moreover have rem: "remaining ?rs = trim (k + m) (f # fs)" unfolding remaining_def k1 ..
    moreover have "old_pos ?rs = old_pos rs + (if frag_visible f then m else 0)" using assms(2,10) k1 by (simp add: old_pos_def k_def)
    ultimately have "remote_inv ins V version ts F ?rs" unfolding remote_inv_def k1 using ed lg assms(10) by simp
    moreover have "cells (remaining ?rs) = drop (k + m) (cells_of f) @ cells fs"
      using cells_trim [of "f # fs" "k + m"] pre(1) by (simp add: rem)
    then have "cells (remaining rs) = A @ cells (remaining ?rs)"
      unfolding cells A by (simp add: add.commute) (metis append_take_drop_id drop_drop add.commute)
    ultimately show ?thesis using count stay(2) assms(10) by (simp add: moved_def)
  qed
  show "remote_inv ins V version ts F (set_start (rs_end version rs) (rs_next version rs1))
      \<and> moved version rs (set_start (rs_end version rs) (rs_next version rs1)) A (cells_of g)"
    if all: "rs_start rs - rs_full rs + m = frag_len f"
  proof -
    let ?rs = "set_start (rs_end version rs) (rs_next version rs1)"
    have k1: "rs_start ?rs - rs_full ?rs = 0" "rs_rest ?rs = fs" "k + m = frag_len f" using assms(2,10) all by (simp_all add: k_def)
    have "editing ins V (st_fragments (rs_edit rs) @ [g]) fs 0 (old_pos rs + (if frag_visible f then m else 0))
      (rb_push_fragment g (frag_visible f) (st_ropes (rs_edit rs))) p" using ed unfolding k1(3) by simp
    moreover from this have "\<forall>f \<in> set fs. frag_len f > 0" by (auto simp: editing_def frag_wf_def)
    then have rem: "remaining ?rs = fs" unfolding remaining_def k1 by (rule trim_0)
    moreover have "old_pos ?rs = old_pos rs + (if frag_visible f then m else 0)"
      using assms(2,10) k1 rs_next_visible [of rs1 f fs version] le by (cases fs) (auto simp: old_pos_def vis_len_def k_def)
    moreover have "head_ok version ?rs" using assms(10) by (simp add: head_ok_def)
    moreover have "logging ts F (st_fragments (rs_edit rs) @ [g]) fs 0 (st_insertions (rs_edit rs) @ [insertion_fragment_new g]) ss (st_offset (rs_edit rs))"
      using logging_next [OF lg k1(3)] assms(3) by simp
    ultimately have "remote_inv ins V version ts F ?rs" unfolding remote_inv_def k1 using assms(10) by simp
    moreover have "cells (remaining rs) = A @ cells (remaining ?rs)"
      unfolding cells A rem using k1(3) by simp
    moreover have "rs_start ?rs = rs_start rs + (if global_observed version (frag_timestamp f) then m else 0)"
      using all obs le assms(2) by (cases "rs_full rs < rs_start rs") (auto simp: rs_end_simp versioned_len_def k_def)
    ultimately show ?thesis using count assms(10) by (simp add: moved_def)
  qed
qed

subsection \<open>Jumping ahead\<close>

lemma cells_of_part_same:
  assumes "part_of g f k m" "k + m \<le> frag_len f" "frag_visible g = frag_visible f" "frag_deletions g = frag_deletions f"
  shows "cells_of g = take m (drop k (cells_of f))"
  using assms by (intro cells_of_part) (simp_all add: part_of_def)

lemma flip_patch_same [simp]: "flip_patch p v v i j n = p"
  by (simp add: flip_patch_def)

lemma push_current_eq:
  assumes "rs_rest rs = f # fs"
  shows "push_current version rs = Some (push_part (f\<lparr>frag_len := rs_end version rs - rs_start rs, frag_offset := frag_offset f + (rs_start rs - rs_full rs)\<rparr>)
    (frag_visible f) (st_slices (rs_edit rs)) (st_patch (rs_edit rs)) rs)"
  using assms by (simp add: push_current_def push_part_def frag_item_def rs_rest_def Let_def)

text \<open>Pushing all that is left of an observed fragment.\<close>

lemma push_current_ok:
  assumes "remote_inv ins V version ts F rs" "fresh ts F" "rs_end version rs > rs_start rs"
  shows "\<exists>rs' A. push_current version rs = Some rs' \<and> remote_inv ins V version ts F (set_start (rs_end version rs) (rs_next version rs'))
    \<and> moved version rs (set_start (rs_end version rs) (rs_next version rs')) A A \<and> A \<noteq> [] \<and> observed_cell version (last A)
    \<and> rs_end version rs' = rs_end version rs \<and> st_offset (rs_edit rs') = st_offset (rs_edit rs)"
proof -
  have hd: "rs_full rs \<le> rs_start rs" using assms(1) by (simp add: remote_inv_def head_ok_def)
  with assms(3) obtain f fs where r: "rs_rest rs = f # fs" by (cases "rs_rest rs") (auto simp: rs_end_def)
  have o: "global_observed version (frag_timestamp f)" "rs_end version rs = rs_full rs + frag_len f"
    using assms(3) hd r by (auto simp: rs_end_simp versioned_len_def split: if_splits)
  define k m where "k = rs_start rs - rs_full rs" and "m = rs_end version rs - rs_start rs"
  define g where "g = f\<lparr>frag_len := m, frag_offset := frag_offset f + k\<rparr>"
  have m: "0 < m" "k + m = frag_len f" using assms(3) hd o by (simp_all add: k_def m_def)
  have g: "part_of g f k m" "frag_visible g = frag_visible f" "frag_deletions g = frag_deletions f" "frag_id g = frag_id f"
    by (simp_all add: g_def part_of_def)
  define A where "A = take m (drop k (cells_of f))"
  have A: "cells_of g = A" "A \<noteq> []" "set A \<subseteq> set (cells_of f)"
    using cells_of_part_same [OF g(1) _ g(2,3)] m by (auto simp: A_def dest: in_set_takeD in_set_dropD)
  have "cell_ts (last A) = frag_timestamp f" using last_in_set [OF A(2)] A(3) in_cells_of by blast
  then have "observed_cell version (last A)" using o(1) by (simp add: observed_cell_def)
  moreover have "push_current version rs = Some (push_part g (frag_visible f) (st_slices (rs_edit rs)) (st_patch (rs_edit rs)) rs)"
    using push_current_eq [OF r, of version] by (simp add: g_def k_def m_def)
  moreover have "part_pushed ts f g (st_slices (rs_edit rs)) (st_slices (rs_edit rs))" using g by (simp add: part_pushed_def)
  from push_part_ok(2) [OF assms(1) r m(1) _ g(1) [unfolded k_def] _ this assms(2) _ refl refl, of "st_patch (rs_edit rs)"] g m A
  have "remote_inv ins V version ts F (set_start (rs_end version rs) (rs_next version (push_part g (frag_visible f) (st_slices (rs_edit rs)) (st_patch (rs_edit rs)) rs)))"
    "moved version rs (set_start (rs_end version rs) (rs_next version (push_part g (frag_visible f) (st_slices (rs_edit rs)) (st_patch (rs_edit rs)) rs))) A A"
    by (simp_all add: k_def A_def)
  ultimately show ?thesis using A(2) by auto
qed

lemma remote_suffix_ok:
  assumes "remote_inv ins V version ts F rs" "fresh ts F"
  shows "\<exists>rs' A. remote_suffix version rs = Some rs' \<and> remote_inv ins V version ts F (set_start (rs_full rs') rs')
    \<and> moved version rs (set_start (rs_full rs') rs') A A \<and> rs_full rs' \<le> rs_end version rs \<and> rs_start rs \<le> rs_full rs'
    \<and> st_offset (rs_edit rs') = st_offset (rs_edit rs)"
proof (cases "rs_start rs > rs_full rs")
  case False
  then have "rs_start rs = rs_full rs" using assms(1) by (simp add: remote_inv_def head_ok_def)
  moreover from this have "set_start (rs_full rs) rs = rs" by (simp add: set_start_def rs_start_def)
  ultimately show ?thesis using assms(1) by (auto simp: remote_suffix_def rs_end_def intro!: exI [of _ "[]"])
next
  case True
  with assms(1) obtain f fs where r: "rs_rest rs = f # fs" "global_observed version (frag_timestamp f)" "rs_start rs - rs_full rs < frag_len f"
    by (auto simp: remote_inv_def head_ok_def)
  then have gt: "rs_end version rs > rs_start rs" using True by (simp add: rs_end_simp versioned_len_def)
  from push_current_ok [OF assms gt] True gt show ?thesis by (fastforce simp: remote_suffix_def)
qed

lemma slice_versioned_ok:
  "slice_versioned version target full v d fs = (us, full', c) \<Longrightarrow>
     fs = us @ cur_rest c \<and> full' = full + sum_list (map (versioned_len version) us) \<and> cur_visible c = v + sum_list (map vis_len us)
     \<and> (full < target \<longrightarrow> full' < target) \<and> (cur_rest c \<noteq> [] \<longrightarrow> target \<le> full' + versioned_len version (hd (cur_rest c)))"
  by (induction version target full v d fs arbitrary: us rule: slice_versioned.induct)
    (auto simp: versioned_add_fragment split: if_splits prod.splits)

lemma observed_cells: "length (filter (observed_cell version) (cells us)) = sum_list (map (versioned_len version) us)"
  by (induction us) (simp_all add: filter_observed_cells_of [OF subset_refl] versioned_len_def)

text \<open>The observed cells that are left.\<close>

definition rs_left :: "global \<Rightarrow> remote_state \<Rightarrow> nat" where
  "rs_left version rs = length (filter (observed_cell version) (cells (remaining rs)))"

lemma moved_left: "moved version rs rs' A X \<Longrightarrow> rs_start rs + rs_left version rs = rs_start rs' + rs_left version rs'"
  by (simp add: moved_def rs_left_def)

text \<open>What the operation may assume of the fragments: they do not mention it, and those it has observed are older.\<close>

definition remote_base :: "global \<Rightarrow> lamport \<Rightarrow> fragment list \<Rightarrow> bool" where
  "remote_base version ts F \<longleftrightarrow> fresh ts F \<and> (\<forall>f \<in> set F. frag_len f > 0 \<and> (global_observed version (frag_timestamp f) \<longrightarrow> frag_timestamp f < ts))"

lemma rest_in_base: "remote_inv ins V version ts F rs \<Longrightarrow> set (rs_rest rs) \<subseteq> set F"
  by (simp add: remote_inv_def logging_def)

lemma remaining_0:
  assumes "remote_inv ins V version ts F rs" "remote_base version ts F" "rs_start rs = rs_full rs"
  shows "remaining rs = rs_rest rs"
  using rest_in_base [OF assms(1)] assms(2,3) by (auto simp: remaining_def remote_base_def intro!: trim_0)

lemma remote_skip_ok:
  assumes "remote_inv ins V version ts F rs" "remote_base version ts F" "rs_start rs \<le> s" "s \<le> rs_start rs + rs_left version rs"
  shows "\<exists>rs' A. remote_skip version s rs = Some rs' \<and> remote_inv ins V version ts F rs' \<and> moved version rs rs' A A
    \<and> rs_start rs' \<le> s \<and> s \<le> rs_end version rs' \<and> (A = [] \<or> rs_start rs' < s) \<and> st_offset (rs_edit rs') = st_offset (rs_edit rs)"
proof (cases "rs_end version rs < s")
  case False
  with assms show ?thesis by (auto simp: remote_skip_def intro!: exI [of _ "[]"])
next
  case True
  have fr: "fresh ts F" using assms(2) by (simp add: remote_base_def)
  from remote_suffix_ok [OF assms(1) fr] obtain rs1 A1 where s1: "remote_suffix version rs = Some rs1"
    "remote_inv ins V version ts F (set_start (rs_full rs1) rs1)" "moved version rs (set_start (rs_full rs1) rs1) A1 A1"
    "rs_full rs1 \<le> rs_end version rs" "st_offset (rs_edit rs1) = st_offset (rs_edit rs)" by blast
  let ?st = "rs_edit rs1"
  obtain us full c where sl: "slice_versioned version s (rs_full rs1) (cur_visible (st_cursor ?st)) (cur_deleted (st_cursor ?st)) (rs_rest rs1) = (us, full, c)"
    by (metis prod_cases3)
  note ok = slice_versioned_ok [OF sl]
  let ?rs = "\<lparr>rs_full = full, rs_edit = ?st\<lparr>st_ropes := rb_append (fs_text (builder_summary us)) (st_ropes ?st),
      st_fragments := st_fragments ?st @ us, st_cursor := c, st_start := full\<rparr>\<rparr>"
  have simps: "rs_start ?rs = full" "rs_full ?rs = full" "rs_rest ?rs = cur_rest c" by (simp_all add: rs_start_def rs_rest_def)
  have rest: "remaining (set_start (rs_full rs1) rs1) = rs_rest rs1" using remaining_0 [OF s1(2) assms(2)] by simp
  have "set (cur_rest c) \<subseteq> set F" using rest_in_base [OF s1(2)] ok by auto
  then have rem: "remaining ?rs = cur_rest c"
    using assms(2) unfolding remaining_def simps by (auto simp: remote_base_def intro!: trim_0)
  have rs1: "rs_rest rs1 = us @ cur_rest c" using ok by blast
  have old1: "old_pos (set_start (rs_full rs1) rs1) = cur_visible (st_cursor ?st)" by (simp add: old_pos_def split: list.split)
  have "editing ins V (st_fragments ?st) (us @ cur_rest c) 0 (cur_visible (st_cursor ?st)) (st_ropes ?st) (st_patch ?st)"
    using s1(2) rest old1 rs1 by (simp add: remote_inv_def)
  from editing_append [OF this] have ed: "editing ins V (st_fragments ?st @ us) (cur_rest c) 0 (cur_visible c)
      (rb_append (fs_text (builder_summary us)) (st_ropes ?st)) (st_patch ?st)" using ok by simp
  have "logging ts F (st_fragments ?st) (us @ cur_rest c) 0 (st_insertions ?st) (st_slices ?st) (st_offset ?st)"
    using s1(2) rs1 by (simp add: remote_inv_def)
  from logging_append [OF this fr] have lg: "logging ts F (st_fragments ?st @ us) (cur_rest c) 0 (st_insertions ?st) (st_slices ?st) (st_offset ?st)" .
  have "old_pos ?rs = cur_visible c" by (simp add: old_pos_def simps split: list.split)
  then have inv: "remote_inv ins V version ts F ?rs" unfolding remote_inv_def rem simps using ed lg by (simp add: head_ok_def simps)
  have "moved version (set_start (rs_full rs1) rs1) ?rs (cells us) (cells us)"
    unfolding moved_def rest rem simps observed_cells using ok by simp
  note mv = moved_trans [OF s1(3) this]
  have lt: "full < s" using ok s1(4) True by simp
  moreover have "s \<le> rs_end version ?rs"
  proof (cases "cur_rest c")
    case Nil
    then show ?thesis using moved_left [OF mv] assms(4) rem simps by (simp add: rs_left_def rs_end_def)
  next
    case (Cons f fs)
    then show ?thesis using ok simps by (simp add: rs_end_def)
  qed
  moreover have "remote_skip version s rs = Some ?rs" using True s1(1) sl by (simp add: remote_skip_def Let_def)
  ultimately show ?thesis using inv mv simps s1(5) by fastforce
qed

subsection \<open>To the start of the range\<close>

text \<open>Consuming up to a position: nothing, or cells the last of which has been observed.\<close>

definition reached :: "global \<Rightarrow> cell list \<Rightarrow> bool" where
  "reached version A \<longleftrightarrow> A = [] \<or> observed_cell version (last A)"

lemma remote_advance_ok:
  assumes "remote_inv ins V version ts F rs" "remote_base version ts F" "rs_start rs \<le> s" "s \<le> rs_end version rs"
  shows "\<exists>rs' A. remote_advance version s rs = Some rs' \<and> remote_inv ins V version ts F rs' \<and> moved version rs rs' A A
    \<and> (rs' = rs \<and> A = [] \<and> (rs_start rs < s \<longrightarrow> s < rs_end version rs) \<or> rs_start rs' = s \<and> A \<noteq> [] \<and> reached version A)
    \<and> st_offset (rs_edit rs') = st_offset (rs_edit rs)"
proof (cases "rs_end version rs = s \<and> rs_end version rs > rs_start rs")
  case True
  have "fresh ts F" using assms(2) by (simp add: remote_base_def)
  from push_current_ok [OF assms(1) this] True obtain rs1 A where s1: "push_current version rs = Some rs1"
    "remote_inv ins V version ts F (set_start s (rs_next version rs1))" "moved version rs (set_start s (rs_next version rs1)) A A"
    "A \<noteq> []" "observed_cell version (last A)" "rs_end version rs1 = s" "st_offset (rs_edit rs1) = st_offset (rs_edit rs)" by blast
  then have "remote_advance version s rs = Some (set_start s (rs_next version rs1))" using True by (simp add: remote_advance_def)
  with s1 show ?thesis by (auto simp: reached_def)
next
  case False
  with assms show ?thesis by (auto simp: remote_advance_def intro!: exI [of _ "[]"])
qed

lemma push_fragment_ok:
  assumes "remote_inv ins V version ts F rs" "remote_base version ts F" "rs_rest rs = f # fs" "rs_start rs = rs_full rs"
    and "\<not> global_observed version (frag_timestamp f)"
    and "rs1 = rs_next version (rs\<lparr>rs_edit := (rs_edit rs)\<lparr>st_ropes := rb_push_fragment f (frag_visible f) (st_ropes (rs_edit rs)),
      st_fragments := st_fragments (rs_edit rs) @ [f]\<rparr>\<rparr>)"
  shows "remote_inv ins V version ts F rs1 \<and> moved version rs rs1 (cells_of f) (cells_of f) \<and> rs_rest rs1 = fs
    \<and> rs_start rs1 = rs_full rs1 \<and> rs_start rs1 = rs_start rs \<and> st_offset (rs_edit rs1) = st_offset (rs_edit rs)"
proof -
  have rem: "remaining rs = f # fs" using remaining_0 [OF assms(1,2,4)] assms(3) by simp
  have simps: "rs_rest rs1 = fs" "rs_start rs1 = rs_start rs" "rs_full rs1 = rs_start rs"
    "st_fragments (rs_edit rs1) = st_fragments (rs_edit rs) @ [f]"
    "st_ropes (rs_edit rs1) = rb_push_fragment f (frag_visible f) (st_ropes (rs_edit rs))" "st_patch (rs_edit rs1) = st_patch (rs_edit rs)"
    "st_insertions (rs_edit rs1) = st_insertions (rs_edit rs)" "st_slices (rs_edit rs1) = st_slices (rs_edit rs)"
    "st_offset (rs_edit rs1) = st_offset (rs_edit rs)"
    "cur_visible (st_cursor (rs_edit rs1)) = cur_visible (st_cursor (rs_edit rs)) + vis_len f"
    using assms(3-5) unfolding assms(6)
    by (simp_all add: rs_next_def rs_rest_def rs_start_def rs_end_def frag_next_def versioned_len_def)
  have "set fs \<subseteq> set F" using rest_in_base [OF assms(1)] assms(3) by simp
  then have rem1: "remaining rs1 = fs" using assms(2) unfolding remaining_def simps by (auto simp: remote_base_def intro!: trim_0)
  have old: "old_pos rs = cur_visible (st_cursor (rs_edit rs))" "old_pos rs1 = cur_visible (st_cursor (rs_edit rs)) + vis_len f"
    using assms(4) by (simp_all add: old_pos_def simps split: list.split)
  have "editing ins V (st_fragments (rs_edit rs)) (f # fs) 0 (old_pos rs) (st_ropes (rs_edit rs)) (st_patch (rs_edit rs))"
    using assms(1) rem by (simp add: remote_inv_def)
  moreover from this have "frag_wf ins f" by (simp add: editing_def)
  ultimately have ed: "editing ins V (st_fragments (rs_edit rs1)) fs 0 (old_pos rs1) (st_ropes (rs_edit rs1)) (st_patch (rs_edit rs1))"
    using editing_flip [of ins V "st_fragments (rs_edit rs)" f fs "old_pos rs" "st_ropes (rs_edit rs)" "st_patch (rs_edit rs)" f] old simps by simp
  have "logging ts F (st_fragments (rs_edit rs)) ([f] @ fs) 0 (st_insertions (rs_edit rs)) (st_slices (rs_edit rs)) (st_offset (rs_edit rs))"
    using assms(1,3,4) by (simp add: remote_inv_def)
  from logging_append [OF this] have "remote_inv ins V version ts F rs1"
    unfolding remote_inv_def rem1 using ed simps assms(2) by (simp add: head_ok_def remote_base_def)
  moreover have "moved version rs rs1 (cells_of f) (cells_of f)"
    unfolding moved_def rem rem1 simps using assms(5) by (simp add: filter_observed_cells_of [OF subset_refl])
  ultimately show ?thesis using simps by simp
qed

lemma no_higher:
  assumes "remote_inv ins V version ts F rs" "remote_base version ts F" "rs_rest rs = f # fs" "\<not> ts < frag_timestamp f"
  shows "takeWhile (\<lambda>c. ts < cell_ts c) (cells (remaining rs)) = []"
proof -
  define k where "k = rs_start rs - rs_full rs"
  have "k < frag_len f" using assms(1-3) rest_in_base [OF assms(1)] by (auto simp: remote_inv_def head_ok_def remote_base_def k_def)
  then have c: "cells (remaining rs) = drop k (cells_of f) @ cells fs" "drop k (cells_of f) \<noteq> []"
    using cells_trim [of "f # fs" k] assms(3) by (simp_all add: remaining_def k_def)
  from in_set_dropD [OF hd_in_set [OF c(2)]] have "cell_ts (hd (drop k (cells_of f))) = frag_timestamp f" by (auto dest: in_cells_of)
  with c assms(4) show ?thesis by (cases "drop k (cells_of f)") auto
qed

text \<open>Concurrent cells with a higher timestamp.\<close>

lemma skip_higher_ok:
  assumes "remote_inv ins V version ts F rs" "remote_base version ts F" "rs_start rs = s" "rs' = skip_higher version ts s (rs_rest rs) rs"
  shows "\<exists>H. remote_inv ins V version ts F rs' \<and> moved version rs rs' H H \<and> H = takeWhile (\<lambda>c. ts < cell_ts c) (cells (remaining rs))
    \<and> rs_start rs' = s \<and> st_offset (rs_edit rs') = st_offset (rs_edit rs)"
  using assms
proof (induction "rs_rest rs" arbitrary: rs)
  case Nil
  then have "remaining rs = []" by (simp add: remaining_def flip: Nil.hyps)
  with Nil show ?case by (simp flip: Nil.hyps)
next
  case (Cons f fs)
  have r: "rs_rest rs = f # fs" using Cons.hyps(2) by simp
  have f: "frag_len f > 0" "global_observed version (frag_timestamp f) \<Longrightarrow> frag_timestamp f < ts"
    using Cons.prems(2) rest_in_base [OF Cons.prems(1)] r by (auto simp: remote_base_def)
  show ?case
  proof (cases "frag_timestamp f > ts")
    case True
    then have no: "\<not> global_observed version (frag_timestamp f)" using f(2) by auto
    then have full: "rs_start rs = rs_full rs" using Cons.prems(1) r by (auto simp: remote_inv_def head_ok_def)
    define rs1 where "rs1 = rs_next version (rs\<lparr>rs_edit := (rs_edit rs)\<lparr>st_ropes := rb_push_fragment f (frag_visible f) (st_ropes (rs_edit rs)),
      st_fragments := st_fragments (rs_edit rs) @ [f]\<rparr>\<rparr>)"
    note s1 = push_fragment_ok [OF Cons.prems(1,2) r full no rs1_def]
    have "rs' = skip_higher version ts s (rs_rest rs1) rs1" using Cons.prems(3,4) r True s1 by (simp add: rs1_def Let_def)
    from Cons.hyps(1) [OF _ _ Cons.prems(2) _ this] s1 Cons.prems(3) obtain H where
      H: "remote_inv ins V version ts F rs'" "moved version rs1 rs' H H" "H = takeWhile (\<lambda>c. ts < cell_ts c) (cells (remaining rs1))"
        "rs_start rs' = s" "st_offset (rs_edit rs') = st_offset (rs_edit rs1)" by auto
    have "cells (remaining rs) = cells_of f @ cells (remaining rs1)" using s1 by (simp add: moved_def)
    moreover have "\<forall>c \<in> set (cells_of f). ts < cell_ts c" using True by (auto dest: in_cells_of)
    ultimately have "takeWhile (\<lambda>c. ts < cell_ts c) (cells (remaining rs)) = cells_of f @ H" using H(3) by simp
    with moved_trans [of version rs rs1 "cells_of f" "cells_of f" rs' H H] H s1 show ?thesis by auto
  next
    case False
    have "takeWhile (\<lambda>c. ts < cell_ts c) (cells (remaining rs)) = []" by (rule no_higher [OF Cons.prems(1,2) r False])
    moreover have "rs' = rs" using Cons.prems(4) r False by simp
    ultimately show ?thesis using Cons.prems by simp
  qed
qed

lemma remote_prefix_ok:
  assumes "remote_inv ins V version ts F rs" "remote_base version ts F" "rs_start rs \<le> s" "rs_start rs < s \<Longrightarrow> s < rs_end version rs"
  shows "\<exists>rs' A. remote_prefix s rs = Some rs' \<and> remote_inv ins V version ts F rs' \<and> moved version rs rs' A A
    \<and> rs_start rs' = s \<and> reached version A \<and> (rs_start rs < s \<or> A = []) \<and> (rs_start rs < s \<longrightarrow> A \<noteq> [] \<and> rs_full rs' < s)
    \<and> st_offset (rs_edit rs') = st_offset (rs_edit rs)"
proof (cases "rs_start rs < s")
  case False
  with assms show ?thesis by (auto simp: remote_prefix_def reached_def intro!: exI [of _ "[]"])
next
  case True
  have le: "rs_full rs \<le> rs_start rs" using assms(1) by (simp add: remote_inv_def head_ok_def)
  have gt: "s < rs_end version rs" using assms(4) True by blast
  then obtain f fs where r: "rs_rest rs = f # fs" using le True by (cases "rs_rest rs") (auto simp: rs_end_def)
  have o: "global_observed version (frag_timestamp f)" "rs_end version rs = rs_full rs + frag_len f"
    using gt le True r by (auto simp: rs_end_simp versioned_len_def split: if_splits)
  define k m where "k = rs_start rs - rs_full rs" and "m = s - rs_start rs"
  define g where "g = f\<lparr>frag_len := m, frag_offset := frag_offset f + k, frag_id := between (max_id (st_fragments (rs_edit rs))) (frag_id f)\<rparr>"
  have m: "0 < m" "k + m < frag_len f" "rs_start rs + m = s" using True gt le o by (simp_all add: k_def m_def)
  have g: "part_of g f k m" "frag_visible g = frag_visible f" "frag_deletions g = frag_deletions f"
    "frag_id g = between (max_id (st_fragments (rs_edit rs))) (frag_id f)" by (simp_all add: g_def part_of_def)
  define A where "A = take m (drop k (cells_of f))"
  have A: "cells_of g = A" "A \<noteq> []" "set A \<subseteq> set (cells_of f)"
    using cells_of_part_same [OF g(1) _ g(2,3)] m by (auto simp: A_def dest: in_set_takeD in_set_dropD)
  have "cell_ts (last A) = frag_timestamp f" using last_in_set [OF A(2)] A(3) in_cells_of by blast
  then have reach: "reached version A" using o(1) by (simp add: observed_cell_def reached_def)
  let ?rs = "push_part g (frag_visible f) (st_slices (rs_edit rs)) (st_patch (rs_edit rs)) rs"
  have eq: "remote_prefix s rs = Some (set_start s ?rs)"
    using True r by (simp add: remote_prefix_def push_part_def frag_item_def rs_rest_def Let_def g_def k_def m_def max_id_def)
  have "part_pushed ts f g (st_slices (rs_edit rs)) (st_slices (rs_edit rs))" using g by (simp add: part_pushed_def)
  from push_part_ok(1) [OF assms(1) r m(1) _ g(1) [unfolded k_def] _ this _ _ refl refl, of "st_patch (rs_edit rs)"] g m A o(1) assms(2)
  have "remote_inv ins V version ts F (set_start s ?rs)" "moved version rs (set_start s ?rs) A A"
    by (simp_all add: k_def A_def remote_base_def)
  with eq A(2) True reach le show ?thesis by auto
qed

subsection \<open>The insertion\<close>

definition new_cells :: "lamport \<Rightarrow> nat \<Rightarrow> nat \<Rightarrow> cell list" where
  "new_cells ts off n = map (\<lambda>i. \<lparr>cell_ts = ts, cell_offset = off + i, cell_visible = True, cell_deletions = []\<rparr>) [0..<n]"

lemma next_id_remaining:
  assumes "remote_inv ins V version ts F rs" "remote_base version ts F"
  shows "next_fragment_id (st_cursor (rs_edit rs)) = next_id (remaining rs)"
proof (cases "rs_rest rs")
  case (Cons f fs)
  then have "rs_start rs - rs_full rs < frag_len f"
    using assms rest_in_base [OF assms(1)] by (auto simp: remote_inv_def head_ok_def remote_base_def)
  with Cons show ?thesis by (simp add: next_fragment_id_def next_id_def remaining_def frag_item_def rs_rest_def)
qed (simp add: next_fragment_id_def next_id_def remaining_def frag_item_def rs_rest_def)

lemma remote_insertion_ok:
  assumes "remote_inv ins V version ts F rs" "remote_base version ts F" "length t \<le> MAX_INSERTION_LEN"
    and "ins ts = P @ t @ Q" "length P = st_offset (rs_edit rs)"
  shows "\<exists>rs'. remote_insertion t ts rs = Some rs' \<and> remote_inv ins V version ts F rs'
    \<and> moved version rs rs' [] (new_cells ts (st_offset (rs_edit rs)) (length t)) \<and> st_offset (rs_edit rs') = st_offset (rs_edit rs) + length t"
proof (cases "t = []")
  case True
  with assms show ?thesis by (auto simp: remote_insertion_def new_cells_def)
next
  case False
  let ?st = "rs_edit rs"
  define g where "g = \<lparr>frag_id = between (max_id (st_fragments ?st)) (next_fragment_id (st_cursor ?st)), frag_timestamp = ts,
      frag_offset = st_offset ?st, frag_len = length t, frag_visible = True, frag_deletions = [], frag_max_undos = global_new\<rparr>"
  let ?j = "int (sum_list (map vis_len (st_fragments ?st)))"
  define st1 where "st1 = ?st\<lparr>st_slices := st_slices ?st @ [insertion_slice_from_fragment ts g],
    st_insertions := st_insertions ?st @ [insertion_fragment_new g], st_fragments := st_fragments ?st @ [g], st_offset := st_offset ?st + length t,
    st_ropes := rb_push_str t (st_ropes ?st),
    st_patch := patch_push (st_patch ?st) (edit_of (int (old_pos rs)) (int (old_pos rs)) ?j (?j + int (length t)))\<rparr>"
  let ?rs = "rs\<lparr>rs_edit := st1\<rparr>"
  have "(case frag_item (st_cursor ?st) of Some f \<Rightarrow> if frag_visible f then rs_start rs - rs_full rs else 0 | None \<Rightarrow> 0) =
      (case rs_rest rs of [] \<Rightarrow> 0 | f # _ \<Rightarrow> if frag_visible f then rs_start rs - rs_full rs else 0)"
    by (simp add: frag_item_def rs_rest_def split: list.split)
  then have eq: "remote_insertion t ts rs = Some ?rs"
    using False by (simp add: remote_insertion_def push_fragments_for_insertion_def insertion_loop_single [OF False assms(3)] Let_def
        st1_def g_def old_pos_def max_id_def)
  have simps: "rs_rest ?rs = rs_rest rs" "rs_start ?rs = rs_start rs" "rs_full ?rs = rs_full rs" "st_cursor st1 = st_cursor ?st"
    by (simp_all add: rs_rest_def rs_start_def st1_def)
  have same: "remaining ?rs = remaining rs" "old_pos ?rs = old_pos rs" by (simp_all add: remaining_def old_pos_def simps split: list.split)
  have "content ins g = t" "frag_wf ins g" using assms(4,5) False by (simp_all add: g_def content_def frag_wf_def)
  moreover have "frag_id g = between (max_id (st_fragments ?st)) (next_id (remaining rs))"
    using next_id_remaining [OF assms(1,2)] by (simp add: g_def)
  ultimately have ed: "editing ins V (st_fragments ?st @ [g]) (remaining rs) 0 (old_pos rs) (rb_push_str t (st_ropes ?st))
      (patch_push (st_patch ?st) (edit_of (int (old_pos rs)) (int (old_pos rs)) ?j (?j + int (length t))))"
    using assms(1) False by (intro editing_insert) (simp_all add: remote_inv_def g_def)
  have "logging ts F (st_fragments ?st) (rs_rest rs) (rs_start rs - rs_full rs) (st_insertions ?st) (st_slices ?st) (st_offset ?st)"
    using assms(1) by (simp add: remote_inv_def)
  from logging_insert [OF this, of g] have lg: "logging ts F (st_fragments ?st @ [g]) (rs_rest rs) (rs_start rs - rs_full rs)
      (st_insertions ?st @ [insertion_fragment_new g]) (st_slices ?st @ [insertion_slice_from_fragment ts g]) (st_offset ?st + length t)"
    by (simp add: g_def)
  have "head_ok version ?rs" using assms(1) by (simp add: remote_inv_def head_ok_def simps)
  then have "remote_inv ins V version ts F ?rs" unfolding remote_inv_def same simps using ed lg by (simp add: st1_def)
  moreover have "moved version rs ?rs [] (new_cells ts (st_offset ?st) (length t))"
    by (simp add: moved_def same simps) (simp add: st1_def new_cells_def cells_of_def g_def)
  ultimately show ?thesis using eq by (simp add: st1_def)
qed

subsection \<open>The deletions\<close>

definition undone_at :: "global \<Rightarrow> undo_map \<Rightarrow> lamport \<Rightarrow> bool" where
  "undone_at version m e \<longleftrightarrow> max_count (global_observed version) (um_abs m) e mod 2 = 1"

definition visible_at :: "global \<Rightarrow> undo_map \<Rightarrow> lamport \<Rightarrow> lamport list \<Rightarrow> bool" where
  "visible_at version m e ds \<longleftrightarrow> global_observed version e \<and> \<not> undone_at version m e
     \<and> (\<forall>d \<in> set ds. global_observed version d \<longrightarrow> undone_at version m d)"

lemma was_undone_ok: "um_good m \<Longrightarrow> was_undone e version m = Some (undone_at version m e)"
  using counted_entries [of m e "global_observed version"] by (auto simp: um_good_def was_undone_def undone_at_def)

lemma frag_was_visible_ok:
  assumes "um_good m"
  shows "frag_was_visible version m f = Some (visible_at version m (frag_timestamp f) (frag_deletions f))"
proof -
  have "those (map (\<lambda>d. if \<not> global_observed version d then Some True else was_undone d version m) ds)
      = Some (map (\<lambda>d. global_observed version d \<longrightarrow> undone_at version m d) ds)" for ds
    by (induction ds) (simp_all add: was_undone_ok [OF assms])
  then show ?thesis by (simp add: frag_was_visible_def was_undone_ok [OF assms] visible_at_def list_all_iff)
qed

text \<open>What the operation does to a cell of its range: it deletes what was visible at its version.\<close>

definition mark_cell :: "global \<Rightarrow> undo_map \<Rightarrow> lamport \<Rightarrow> cell \<Rightarrow> cell" where
  "mark_cell version m ts c = (if visible_at version m (cell_ts c) (cell_deletions c) then delete_cell ts c else c)"

lemma mark_cells_part:
  assumes "set A \<subseteq> set (cells_of f)"
  shows "map (mark_cell version m ts) A =
    (if visible_at version m (frag_timestamp f) (frag_deletions f) then map (delete_cell ts) A else A)"
proof -
  have "\<forall>c \<in> set A. cell_ts c = frag_timestamp f \<and> cell_deletions c = frag_deletions f" using assms by (auto dest: in_cells_of)
  then show ?thesis by (auto simp: mark_cell_def intro: map_idI)
qed

lemma cells_of_part_deleted:
  assumes "part_of g f k m" "k + m \<le> frag_len f" "\<not> frag_visible g" "frag_deletions g = frag_deletions f @ [ts]"
  shows "cells_of g = map (delete_cell ts) (take m (drop k (cells_of f)))"
  using assms by (intro nth_equalityI) (simp_all add: cells_of_def delete_cell_def part_of_def)

text \<open>What one round pushes: a part of the current fragment, deleted if it was visible.\<close>

definition intersection :: "global \<Rightarrow> undo_map \<Rightarrow> lamport \<Rightarrow> nat \<Rightarrow> fragment \<Rightarrow> remote_state \<Rightarrow> fragment" where
  "intersection version undos ts e f rs =
     (let part = (if global_observed version (frag_timestamp f)
                  then f\<lparr>frag_len := min e (rs_end version rs) - rs_start rs, frag_offset := frag_offset f + (rs_start rs - rs_full rs),
                         frag_id := between (max_id (st_fragments (rs_edit rs))) (frag_id f)\<rparr>
                  else f)
      in if visible_at version undos (frag_timestamp f) (frag_deletions f)
         then part\<lparr>frag_deletions := frag_deletions f @ [ts], frag_visible := False\<rparr> else part)"

lemma remote_delete_step_eq:
  assumes "um_good undos" "rs_rest rs = f # fs" "g = intersection version undos ts e f rs" "frag_len g > 0"
    and "ss = (if visible_at version undos (frag_timestamp f) (frag_deletions f)
               then st_slices (rs_edit rs) @ [insertion_slice_from_fragment ts g] else st_slices (rs_edit rs))"
    and "frag_visible f \<Longrightarrow> \<not> frag_visible g \<Longrightarrow> old_pos rs = cur_visible (st_cursor (rs_edit rs)) + (rs_start rs - rs_full rs)"
    and "\<not> frag_visible f \<Longrightarrow> \<not> frag_visible g"
    and "p = flip_patch (st_patch (rs_edit rs)) (frag_visible f) (frag_visible g) (int (old_pos rs))
      (int (sum_list (map vis_len (st_fragments (rs_edit rs))))) (int (frag_len g))"
  shows "remote_delete_step version undos ts e f rs =
    Some (if rs_end version rs \<le> e
          then set_start (min e (rs_end version rs)) (rs_next version (push_part g (frag_visible f) ss p rs))
          else set_start (min e (rs_end version rs)) (push_part g (frag_visible f) ss p rs))"
proof -
  let ?v = "visible_at version undos (frag_timestamp f) (frag_deletions f)" and ?st = "rs_edit rs"
  have w: "(if global_observed version (frag_timestamp f) then frag_was_visible version undos f else Some False) = Some ?v"
    by (simp add: frag_was_visible_ok [OF assms(1)]) (simp add: visible_at_def)
  have next_start: "rs_next version (set_start x rs') = set_start x (rs_next version rs')" for x rs'
    by (simp add: rs_next_def set_start_def rs_end_def rs_rest_def)
  have push: "push_part g (frag_visible f) ss p rs = rs\<lparr>rs_edit := push_rewritten g (frag_visible f)
      ((if ?v then ?st\<lparr>st_slices := st_slices ?st @ [insertion_slice_from_fragment ts g]\<rparr> else ?st)\<lparr>st_patch := p\<rparr>)\<rparr>"
    by (simp add: push_part_def assms(5))
  have patch: "(if frag_visible f \<and> \<not> frag_visible g
      then patch_push (st_patch ?st) (edit_of (int (cur_visible (st_cursor ?st) + (rs_start rs - rs_full rs)))
        (int (cur_visible (st_cursor ?st) + (rs_start rs - rs_full rs)) + int (frag_len g))
        (int (sum_visible (fs_text (builder_summary (st_fragments ?st))))) (int (sum_visible (fs_text (builder_summary (st_fragments ?st))))))
      else st_patch ?st) = p"
    using assms(6,7) unfolding assms(8) by (auto simp: flip_patch_def)
  have same: "st_patch (if ?v then ?st\<lparr>st_slices := xs\<rparr> else ?st) = st_patch ?st" for xs by simp
  show ?thesis
    unfolding remote_delete_step_def Let_def w bind.bind_lunit max_id_builder
      assms(3) [unfolded intersection_def Let_def, symmetric] same patch push next_start [symmetric]
    using assms(4) by (simp cong: if_cong)
qed

lemma remote_delete_step_ok:
  assumes "remote_inv ins V version ts F rs" "remote_base version ts F" "um_good undos" "rs_start rs < e" "rs_rest rs = f # fs"
  shows "\<exists>rs' A. remote_delete_step version undos ts e f rs = Some rs' \<and> remote_inv ins V version ts F rs'
    \<and> moved version rs rs' A (map (mark_cell version undos ts) A) \<and> rs_start rs' \<le> e \<and> A \<noteq> []
    \<and> (rs_start rs' = e \<and> reached version A \<or> rs_start rs' < e \<and> rs_rest rs' = fs) \<and> st_offset (rs_edit rs') = st_offset (rs_edit rs)"
proof -
  let ?v = "visible_at version undos (frag_timestamp f) (frag_deletions f)" and ?o = "global_observed version (frag_timestamp f)"
  have le: "rs_full rs \<le> rs_start rs" and len: "frag_len f > 0" and fr: "fresh ts F"
    and k0: "rs_full rs < rs_start rs \<Longrightarrow> ?o \<and> rs_start rs - rs_full rs < frag_len f"
    using assms(1,2,5) rest_in_base [OF assms(1)] by (auto simp: remote_inv_def head_ok_def remote_base_def)
  define g where "g = intersection version undos ts e f rs"
  define k m where "k = rs_start rs - rs_full rs" and "m = frag_len g"
  have re: "rs_end version rs = rs_full rs + (if ?o then frag_len f else 0)" using assms(5) by (simp add: rs_end_simp versioned_len_def)
  have vo: "?v \<Longrightarrow> ?o" by (simp add: visible_at_def)
  have klt: "k < frag_len f" using k0 len by (cases "rs_full rs < rs_start rs") (simp_all add: k_def)
  have m: "m = (if ?o then min e (rs_end version rs) - rs_start rs else frag_len f)" by (simp add: m_def g_def intersection_def Let_def)
  have kun: "\<not> ?o \<Longrightarrow> k = 0 \<and> rs_start rs = rs_full rs" using k0 le by (cases "rs_full rs < rs_start rs") (auto simp: k_def)
  have m0: "0 < m" "k + m \<le> frag_len f" using assms(4) le klt re kun len by (auto simp: m k_def)
  have mend: "rs_end version rs \<le> e \<longleftrightarrow> k + m = frag_len f"
    using assms(4) le klt re kun by (auto simp: m k_def min_def)
  have part: "part_of g f k m"
    using kun by (auto simp: part_of_def m_def) (auto simp: g_def intersection_def Let_def k_def)
  have id: "frag_id g = between (max_id (st_fragments (rs_edit rs))) (frag_id f) \<or> frag_id g = frag_id f \<and> k + m = frag_len f"
  proof (cases ?o)
    case False
    then have "frag_id g = frag_id f" using vo by (simp add: g_def intersection_def)
    then show ?thesis using False kun m by simp
  qed (simp add: g_def intersection_def Let_def)
  have vis: "?v \<Longrightarrow> \<not> frag_visible g \<and> frag_deletions g = frag_deletions f @ [ts]"
    "\<not> ?v \<Longrightarrow> frag_visible g = frag_visible f \<and> frag_deletions g = frag_deletions f" by (simp_all add: g_def intersection_def Let_def)
  define ss where "ss = (if ?v then st_slices (rs_edit rs) @ [insertion_slice_from_fragment ts g] else st_slices (rs_edit rs))"
  define p where "p = flip_patch (st_patch (rs_edit rs)) (frag_visible f) (frag_visible g) (int (old_pos rs))
      (int (sum_list (map vis_len (st_fragments (rs_edit rs))))) (int m)"
  let ?rs = "push_part g (frag_visible f) ss p rs"
  define A where "A = take m (drop k (cells_of f))"
  have sub: "set A \<subseteq> set (cells_of f)" by (auto simp: A_def dest: in_set_takeD in_set_dropD)
  have Ane: "A \<noteq> []" using m0 klt by (simp add: A_def)
  have A: "cells_of g = map (mark_cell version undos ts) A"
  proof (cases ?v)
    case True
    then show ?thesis using cells_of_part_deleted [OF part m0(2)] vis(1) mark_cells_part [OF sub, of version undos ts] by (simp add: A_def)
  next
    case False
    then show ?thesis using cells_of_part_same [OF part m0(2)] vis(2) mark_cells_part [OF sub, of version undos ts] by (simp add: A_def)
  qed
  have pushed: "part_pushed ts f g (st_slices (rs_edit rs)) ss" using vis by (auto simp: part_pushed_def ss_def)
  note step = push_part_ok [OF assms(1,5) m0(1) m0(2) [unfolded k_def] part [unfolded k_def] id [unfolded k_def] pushed fr p_def refl A_def [unfolded k_def]]
  have "old_pos rs = cur_visible (st_cursor (rs_edit rs)) + (rs_start rs - rs_full rs)" if "frag_visible f"
    using that assms(5) by (simp add: old_pos_def)
  then have eq: "remote_delete_step version undos ts e f rs = Some (if rs_end version rs \<le> e
          then set_start (min e (rs_end version rs)) (rs_next version ?rs) else set_start (min e (rs_end version rs)) ?rs)"
    using m0(1) vis p_def by (intro remote_delete_step_eq [OF assms(3,5) g_def]) (auto simp: m_def ss_def)
  have count: "rs_start rs' = e \<Longrightarrow> reached version A" if "moved version rs rs' A X" for rs' X
  proof (cases ?o)
    case True
    then have "cell_ts (last A) = frag_timestamp f" using last_in_set [OF Ane] sub in_cells_of by blast
    then show ?thesis using True by (simp add: reached_def observed_cell_def)
  next
    case False
    then show "rs_start rs' = e \<Longrightarrow> reached version A" using that assms(4) filter_observed_cells_of [OF sub, of version] by (simp add: moved_def)
  qed
  show ?thesis
  proof (cases "rs_end version rs \<le> e")
    case True
    let ?rs' = "set_start (rs_end version rs) (rs_next version ?rs)"
    have "rs_start rs - rs_full rs + m = frag_len f" using True mend by (simp add: k_def)
    from step(2) [OF this] A have "remote_inv ins V version ts F ?rs'" "moved version rs ?rs' A (map (mark_cell version undos ts) A)" by simp_all
    moreover have "rs_rest ?rs' = fs" using assms(5) by simp
    moreover have "rs_start ?rs' = e \<or> rs_start ?rs' < e" using True by auto
    ultimately show ?thesis using eq True count Ane by (auto simp: min_absorb2)
  next
    case False
    let ?rs' = "set_start e ?rs"
    have "?o" using False re le assms(4) by (auto split: if_splits)
    moreover have "rs_start rs + m = e" using False \<open>?o\<close> assms(4) by (simp add: m)
    moreover have "rs_start rs - rs_full rs + m < frag_len f" using False mend m0(2) by (simp add: k_def)
    ultimately have "remote_inv ins V version ts F ?rs'" "moved version rs ?rs' A (map (mark_cell version undos ts) A)"
      using step(1) A by simp_all
    then show ?thesis using eq False count Ane by (auto simp: min_absorb1)
  qed
qed

lemma remote_delete_loop_ok:
  assumes "remote_inv ins V version ts F rs" "remote_base version ts F" "um_good undos" "rs_start rs \<le> e" "e \<le> rs_start rs + rs_left version rs"
  shows "\<exists>rs' D. remote_delete_loop version undos ts e rs = Some rs' \<and> remote_inv ins V version ts F rs'
    \<and> moved version rs rs' D (map (mark_cell version undos ts) D) \<and> rs_start rs' = e \<and> reached version D
    \<and> st_offset (rs_edit rs') = st_offset (rs_edit rs)"
  using assms(1,4,5)
proof (induction "length (rs_rest rs)" arbitrary: rs rule: less_induct)
  case less
  show ?case
  proof (cases "rs_start rs < e")
    case False
    then have "rs_start rs = e" "remote_delete_loop version undos ts e rs = Some rs"
      using less.prems(2) by (simp_all add: remote_delete_loop.simps)
    with less.prems(1) show ?thesis by (auto simp: reached_def intro!: exI [of _ "[]"])
  next
    case True
    then obtain f fs where r: "rs_rest rs = f # fs" using less.prems(3) by (cases "rs_rest rs") (auto simp: rs_left_def remaining_def)
    from remote_delete_step_ok [OF less.prems(1) assms(2,3) True r] obtain rs1 A where
      s1: "remote_delete_step version undos ts e f rs = Some rs1" "remote_inv ins V version ts F rs1"
        "moved version rs rs1 A (map (mark_cell version undos ts) A)" "rs_start rs1 \<le> e" "A \<noteq> []"
        "rs_start rs1 = e \<and> reached version A \<or> rs_start rs1 < e \<and> rs_rest rs1 = fs" "st_offset (rs_edit rs1) = st_offset (rs_edit rs)" by blast
    have unfold: "remote_delete_loop version undos ts e rs = remote_delete_loop version undos ts e rs1"
      using True r s1(1) by (subst remote_delete_loop.simps) (simp add: frag_item_def rs_rest_def)
    show ?thesis
    proof (cases "rs_start rs1 = e")
      case True
      then have "remote_delete_loop version undos ts e rs1 = Some rs1" by (simp add: remote_delete_loop.simps)
      with s1 True unfold show ?thesis by auto
    next
      case False
      with s1(6) r have "length (rs_rest rs1) < length (rs_rest rs)" and lt: "rs_start rs1 < e" by auto
      from less.hyps [OF this(1) s1(2,4)] moved_left [OF s1(3)] less.prems(3) obtain rs' D where
        s2: "remote_delete_loop version undos ts e rs1 = Some rs'" "remote_inv ins V version ts F rs'"
          "moved version rs1 rs' D (map (mark_cell version undos ts) D)" "rs_start rs' = e" "reached version D"
          "st_offset (rs_edit rs') = st_offset (rs_edit rs1)" by auto
      from s2(3,4) lt have "D \<noteq> []" by (auto simp: moved_def)
      then have "reached version (A @ D)" using s2(5) by (simp add: reached_def)
      with moved_trans [OF s1(3) s2(3)] s1(7) s2 unfold show ?thesis
        by (intro exI [of _ rs'] exI [of _ "A @ D"]) simp
    qed
  qed
qed

subsection \<open>What an operation means\<close>

text \<open>Split after so many observed cells.\<close>

fun split_observed :: "(cell \<Rightarrow> bool) \<Rightarrow> nat \<Rightarrow> cell list \<Rightarrow> cell list \<times> cell list" where
  "split_observed P 0 cs = ([], cs)"
| "split_observed P (Suc n) [] = ([], [])"
| "split_observed P (Suc n) (c # cs) = (let (A, B) = split_observed P (if P c then n else Suc n) cs in (c # A, B))"

type_synonym remote_edit_list = "((full_offset \<times> full_offset) \<times> bytes) list"

text \<open>\<open>off\<close> bytes have been inserted and \<open>pos\<close> observed cells consumed; \<open>C\<close> are the cells that remain.\<close>

fun remote_cells :: "global \<Rightarrow> undo_map \<Rightarrow> lamport \<Rightarrow> nat \<Rightarrow> nat \<Rightarrow> remote_edit_list \<Rightarrow> cell list \<Rightarrow> cell list" where
  "remote_cells version m ts off pos [] C = C"
| "remote_cells version m ts off pos (((s, e), t) # es) C =
     (let (A, B) = split_observed (observed_cell version) (s - pos) C;
          H = takeWhile (\<lambda>c. ts < cell_ts c) B;
          (D, R) = split_observed (observed_cell version) (e - s) (drop (length H) B)
      in A @ H @ new_cells ts off (length t) @ map (mark_cell version m ts) D @ remote_cells version m ts (off + length t) e es R)"

lemma split_observed_append:
  "reached version A \<Longrightarrow> n = length (filter (observed_cell version) A) \<Longrightarrow> split_observed (observed_cell version) n (A @ B) = (A, B)"
proof (induction A arbitrary: n)
  case (Cons c A)
  have "observed_cell version (last (c # A))" using Cons.prems(1) by (simp add: reached_def)
  then have "filter (observed_cell version) (c # A) \<noteq> []" using last_in_set [of "c # A"] unfolding filter_empty_conv by blast
  then have "n \<noteq> 0" unfolding Cons.prems(2) by (simp del: filter.simps)
  then obtain n' where n: "n = Suc n'" by (cases n) auto
  have "reached version A" using Cons.prems(1) by (auto simp: reached_def split: if_splits)
  moreover have "(if observed_cell version c then n' else Suc n') = length (filter (observed_cell version) A)"
    using Cons.prems(2) n by (simp split: if_splits)
  ultimately show ?case using Cons.IH n by simp
qed simp

lemma remote_one_edit_ok:
  assumes "remote_inv ins V version ts F rs" "remote_base version ts F" "um_good undos" "rs_start rs \<le> s" "s \<le> e" "e \<le> rs_start rs + rs_left version rs"
    and "length t \<le> MAX_INSERTION_LEN" "ins ts = P @ t @ Q" "length P = st_offset (rs_edit rs)"
  shows "\<exists>rs' A H D. remote_one_edit version undos ts ((s, e), t) rs = Some rs' \<and> remote_inv ins V version ts F rs'
    \<and> moved version rs rs' (A @ H @ D) (A @ H @ new_cells ts (st_offset (rs_edit rs)) (length t) @ map (mark_cell version undos ts) D)
    \<and> rs_start rs' = e \<and> st_offset (rs_edit rs') = st_offset (rs_edit rs) + length t
    \<and> reached version A \<and> length (filter (observed_cell version) A) = s - rs_start rs
    \<and> H = takeWhile (\<lambda>c. ts < cell_ts c) (H @ D @ cells (remaining rs'))
    \<and> reached version D \<and> length (filter (observed_cell version) D) = e - s"
proof -
  have "s \<le> rs_start rs + rs_left version rs" using assms(5,6) by simp
  from remote_skip_ok [OF assms(1,2,4) this] obtain rs1 A1 where
    s1: "remote_skip version s rs = Some rs1" "remote_inv ins V version ts F rs1" "moved version rs rs1 A1 A1" "rs_start rs1 \<le> s"
      "s \<le> rs_end version rs1" "A1 = [] \<or> rs_start rs1 < s" "st_offset (rs_edit rs1) = st_offset (rs_edit rs)" by blast
  from remote_advance_ok [OF s1(2) assms(2) s1(4,5)] obtain rs2 A2 where
    s2: "remote_advance version s rs1 = Some rs2" "remote_inv ins V version ts F rs2" "moved version rs1 rs2 A2 A2"
      "rs2 = rs1 \<and> A2 = [] \<and> (rs_start rs1 < s \<longrightarrow> s < rs_end version rs1) \<or> rs_start rs2 = s \<and> A2 \<noteq> [] \<and> reached version A2"
      "st_offset (rs_edit rs2) = st_offset (rs_edit rs1)" by blast
  have le2: "rs_start rs2 \<le> s" "rs_start rs2 < s \<Longrightarrow> s < rs_end version rs2" using s1(4) s2(4) by auto
  define rs3 where "rs3 = skip_higher version ts s (rs_rest rs2) rs2"
  \<comment> \<open>Either the position is inside a fragment and nothing is skipped, or nothing precedes the range.\<close>
  obtain rs4 A3 H where s4: "remote_prefix s rs3 = Some rs4" "remote_inv ins V version ts F rs4" "moved version rs2 rs4 (A3 @ H) (A3 @ H)"
    "rs_start rs4 = s" "st_offset (rs_edit rs4) = st_offset (rs_edit rs2)" "reached version A3" "A3 = [] \<longleftrightarrow> rs_start rs2 = s"
    "length (filter (observed_cell version) A3) = s - rs_start rs2" "H = takeWhile (\<lambda>c. ts < cell_ts c) (H @ cells (remaining rs4))"
  proof (cases "rs_start rs2 = s")
    case True
    from skip_higher_ok [OF s2(2) assms(2) True rs3_def] obtain H where
      s3: "remote_inv ins V version ts F rs3" "moved version rs2 rs3 H H" "H = takeWhile (\<lambda>c. ts < cell_ts c) (cells (remaining rs2))"
        "rs_start rs3 = s" "st_offset (rs_edit rs3) = st_offset (rs_edit rs2)" by blast
    have "remote_prefix s rs3 = Some rs3" using s3(4) by (simp add: remote_prefix_def)
    moreover have "cells (remaining rs2) = H @ cells (remaining rs3)" using s3(2) by (simp add: moved_def)
    ultimately show thesis using that [of rs3 "[]" H] s3 True by (simp add: reached_def)
  next
    case False
    then have lt: "rs_start rs2 < s" using le2(1) by simp
    then have "rs3 = rs2" by (cases "rs_rest rs2") (simp_all add: rs3_def)
    with remote_prefix_ok [OF s2(2) assms(2) le2] lt obtain rs4 A3 where
      s4: "remote_prefix s rs3 = Some rs4" "remote_inv ins V version ts F rs4" "moved version rs2 rs4 A3 A3" "rs_start rs4 = s"
        "reached version A3" "A3 \<noteq> []" "st_offset (rs_edit rs4) = st_offset (rs_edit rs2)" "rs_full rs4 < s" by blast
    then obtain f fs where f: "rs_rest rs4 = f # fs" "global_observed version (frag_timestamp f)" by (auto simp: remote_inv_def head_ok_def)
    then have "frag_timestamp f < ts" using assms(2) rest_in_base [OF s4(2)] by (simp add: remote_base_def)
    then have "takeWhile (\<lambda>c. ts < cell_ts c) (cells (remaining rs4)) = []" by (intro no_higher [OF s4(2) assms(2) f(1)]) auto
    moreover have "length (filter (observed_cell version) A3) = s - rs_start rs2" using s4(3,4) by (simp add: moved_def)
    ultimately show thesis using that [of rs4 A3 "[]"] s4 lt by simp
  qed
  from assms(9) s1(7) s2(5) s4(5) have "length P = st_offset (rs_edit rs4)" by simp
  from remote_insertion_ok [OF s4(2) assms(2,7,8) this] obtain rs5 where
    s5: "remote_insertion t ts rs4 = Some rs5" "remote_inv ins V version ts F rs5"
      "moved version rs4 rs5 [] (new_cells ts (st_offset (rs_edit rs4)) (length t))" "st_offset (rs_edit rs5) = st_offset (rs_edit rs4) + length t" by blast
  note m4 = moved_trans [OF moved_trans [OF s1(3) s2(3)] s4(3)]
  note m5 = moved_trans [OF m4 s5(3)]
  have st5: "rs_start rs5 = s" using s4(4) s5(3) by (simp add: moved_def)
  then have "rs_start rs5 \<le> e" "e \<le> rs_start rs5 + rs_left version rs5" using assms(5,6) moved_left [OF m5] by simp_all
  from remote_delete_loop_ok [OF s5(2) assms(2,3) this] obtain rs6 D where
    s6: "remote_delete_loop version undos ts e rs5 = Some rs6" "remote_inv ins V version ts F rs6"
      "moved version rs5 rs6 D (map (mark_cell version undos ts) D)" "rs_start rs6 = e" "reached version D"
      "st_offset (rs_edit rs6) = st_offset (rs_edit rs5)" by blast
  have "remote_one_edit version undos ts ((s, e), t) rs = Some rs6"
    using s1(1) s2(1) s4(1) s5(1) s6(1) by (simp add: remote_one_edit_def rs3_def Let_def)
  moreover have "moved version rs rs6 ((A1 @ A2 @ A3) @ H @ D)
      ((A1 @ A2 @ A3) @ H @ new_cells ts (st_offset (rs_edit rs)) (length t) @ map (mark_cell version undos ts) D)"
    using moved_trans [OF m5 s6(3)] s1(7) s2(5) s4(5) by simp
  moreover have "reached version (A1 @ A2 @ A3)"
    using s1(6) s2(4) s4(6,7) by (auto simp: reached_def)
  moreover have "length (filter (observed_cell version) (A1 @ A2 @ A3)) = s - rs_start rs"
    using s1(3) s2(3) s4(8) le2 by (simp add: moved_def)
  moreover have "H = takeWhile (\<lambda>c. ts < cell_ts c) (H @ D @ cells (remaining rs6))"
    using s4(9) s5(3) s6(3) by (simp add: moved_def)
  moreover have "length (filter (observed_cell version) D) = e - s" using s6(3,4) st5 by (simp add: moved_def)
  moreover have "st_offset (rs_edit rs6) = st_offset (rs_edit rs) + length t" using s1(7) s2(5) s4(5) s5(4) s6(6) by simp
  ultimately show ?thesis using s6(2,4,5) by metis
qed

abbreviation op_text :: "remote_edit_list \<Rightarrow> bytes" where
  "op_text es \<equiv> concat (map snd es)"

lemma remote_edits_ok:
  "remote_inv ins V version ts F rs \<Longrightarrow> remote_base version ts F \<Longrightarrow> um_good undos \<Longrightarrow>
     edits_ok (rs_start rs) es (rs_start rs + rs_left version rs) \<Longrightarrow> length (op_text es) \<le> MAX_INSERTION_LEN \<Longrightarrow>
     ins ts = P @ op_text es \<Longrightarrow> length P = st_offset (rs_edit rs) \<Longrightarrow>
     \<exists>rs'. remote_edits version undos ts es rs = Some rs' \<and> remote_inv ins V version ts F rs'
       \<and> cells (st_fragments (rs_edit rs')) @ cells (remaining rs') =
         cells (st_fragments (rs_edit rs)) @ remote_cells version undos ts (st_offset (rs_edit rs)) (rs_start rs) es (cells (remaining rs))"
proof (induction es arbitrary: rs P)
  case (Cons edit es)
  obtain s e t where edit: "edit = ((s, e), t)" by (metis surj_pair)
  let ?n = "rs_start rs + rs_left version rs" and ?off = "st_offset (rs_edit rs)"
  have ok: "rs_start rs \<le> s" "s \<le> e" "e \<le> ?n" "edits_ok e es ?n" "length t \<le> MAX_INSERTION_LEN" "ins ts = P @ t @ op_text es"
    using Cons.prems edit by auto
  from remote_one_edit_ok [OF Cons.prems(1-3) ok(1-3,5,6) Cons.prems(7)] obtain rs1 A H D where
    s1: "remote_one_edit version undos ts ((s, e), t) rs = Some rs1" "remote_inv ins V version ts F rs1"
      "moved version rs rs1 (A @ H @ D) (A @ H @ new_cells ts ?off (length t) @ map (mark_cell version undos ts) D)"
      "rs_start rs1 = e" "st_offset (rs_edit rs1) = ?off + length t" "reached version A"
      "length (filter (observed_cell version) A) = s - rs_start rs" "H = takeWhile (\<lambda>c. ts < cell_ts c) (H @ D @ cells (remaining rs1))"
      "reached version D" "length (filter (observed_cell version) D) = e - s" by metis
  have "rs_start rs1 + rs_left version rs1 = ?n" using moved_left [OF s1(3)] by simp
  then have n1: "edits_ok (rs_start rs1) es (rs_start rs1 + rs_left version rs1)" using ok(4) s1(4) by simp
  have "ins ts = (P @ t) @ op_text es" "length (P @ t) = st_offset (rs_edit rs1)" using ok(6) s1(5) Cons.prems(7) by simp_all
  from Cons.IH [OF s1(2) Cons.prems(2,3) n1 _ this] Cons.prems(5) edit obtain rs2 where
    s2: "remote_edits version undos ts es rs1 = Some rs2" "remote_inv ins V version ts F rs2"
      "cells (st_fragments (rs_edit rs2)) @ cells (remaining rs2) =
         cells (st_fragments (rs_edit rs1)) @ remote_cells version undos ts (?off + length t) e es (cells (remaining rs1))"
    using s1(4,5) by auto
  have rem: "cells (remaining rs) = A @ H @ D @ cells (remaining rs1)" using s1(3) by (simp add: moved_def)
  have "split_observed (observed_cell version) (s - rs_start rs) (cells (remaining rs)) = (A, H @ D @ cells (remaining rs1))"
    unfolding rem using split_observed_append [OF s1(6)] s1(7) by simp
  moreover have "split_observed (observed_cell version) (e - s) (D @ cells (remaining rs1)) = (D, cells (remaining rs1))"
    using split_observed_append [OF s1(9)] s1(10) by simp
  moreover have "drop (length H) (H @ D @ cells (remaining rs1)) = D @ cells (remaining rs1)" by simp
  ultimately have "remote_cells version undos ts ?off (rs_start rs) (((s, e), t) # es) (cells (remaining rs)) =
      A @ H @ new_cells ts ?off (length t) @ map (mark_cell version undos ts) D
        @ remote_cells version undos ts (?off + length t) e es (cells (remaining rs1))"
    using s1(8) by (simp add: Let_def)
  then show ?case using s1(1,3) s2 edit by (auto simp: moved_def)
qed simp

text \<open>The operation as a whole.\<close>

lemma remote_start_ok:
  assumes "snapshot_ok ins snap" "remote_base version ts (fragments snap)" "s \<le> length (filter (observed_cell version) (cells (fragments snap)))"
  shows "remote_inv ins (visible_text snap) version ts (fragments snap) (remote_start version s snap)
    \<and> st_offset (rs_edit (remote_start version s snap)) = 0 \<and> rs_start (remote_start version s snap) \<le> s
    \<and> cells (fragments snap) = cells (st_fragments (rs_edit (remote_start version s snap))) @ cells (remaining (remote_start version s snap))
    \<and> rs_start (remote_start version s snap) = length (filter (observed_cell version) (cells (st_fragments (rs_edit (remote_start version s snap)))))
    \<and> (st_fragments (rs_edit (remote_start version s snap)) = [] \<or> rs_start (remote_start version s snap) < s)"
proof -
  let ?V = "visible_text snap" and ?F = "fragments snap" and ?rs = "remote_start version s snap"
  obtain us full c where sl: "slice_versioned version s 0 0 0 ?F = (us, full, c)" by (metis prod_cases3)
  note ok = slice_versioned_ok [OF sl]
  have fr: "fresh ts ?F" using assms(2) by (simp add: remote_base_def)
  have simps: "rs_start ?rs = full" "rs_full ?rs = full" "rs_rest ?rs = cur_rest c" "st_fragments (rs_edit ?rs) = us" "st_cursor (rs_edit ?rs) = c"
      "st_offset (rs_edit ?rs) = 0" "st_patch (rs_edit ?rs) = []" "st_insertions (rs_edit ?rs) = []" "st_slices (rs_edit ?rs) = []"
      "st_ropes (rs_edit ?rs) = rb_append (fs_text (builder_summary us)) (rope_builder_new ?V (deleted_text snap))"
    by (simp_all add: remote_start_def sl rs_start_def rs_rest_def)
  have F: "?F = us @ cur_rest c" using ok by blast
  then have "set (cur_rest c) \<subseteq> set ?F" by (metis set_append Un_upper2)
  then have rem: "remaining ?rs = cur_rest c"
    using assms(2) unfolding remaining_def simps by (auto simp: remote_base_def intro!: trim_0)
  have old: "old_pos ?rs = cur_visible c" by (simp add: old_pos_def simps split: list.split)
  have "editing ins ?V [] ?F 0 0 (rope_builder_new ?V (deleted_text snap)) []"
    using assms(1) by (simp add: editing_def snapshot_ok_def rope_builder_new_def composed_to_def normal_def separated_def)
  then have "editing ins ?V [] (us @ cur_rest c) 0 0 (rope_builder_new ?V (deleted_text snap)) []" using F by simp
  from editing_append [OF this] have ed: "editing ins ?V us (cur_rest c) 0 (cur_visible c)
      (rb_append (fs_text (builder_summary us)) (rope_builder_new ?V (deleted_text snap))) []" using ok by simp
  have "logging ts ?F [] ?F 0 [] [] 0" by (auto simp: logging_def edited_cells_def)
  then have "logging ts ?F [] (us @ cur_rest c) 0 [] [] 0" using F by simp
  from logging_append [OF this fr] have lg: "logging ts ?F us (cur_rest c) 0 [] [] 0" by simp
  have inv: "remote_inv ins ?V version ts ?F ?rs" unfolding remote_inv_def rem old simps using ed lg by (simp add: head_ok_def simps)
  have full: "full = length (filter (observed_cell version) (cells us))" using ok by (simp add: observed_cells)
  have "us = [] \<and> full = 0 \<or> full < s"
  proof (cases "s = 0")
    case True
    then show ?thesis using sl by (cases ?F) auto
  qed (use ok in simp)
  then show ?thesis using inv full F rem simps by auto
qed

lemma split_observed_prefix:
  "U = [] \<or> length (filter P U) < n \<Longrightarrow> split_observed P n (U @ C) =
     (U @ fst (split_observed P (n - length (filter P U)) C), snd (split_observed P (n - length (filter P U)) C))"
proof (induction U arbitrary: n)
  case (Cons c U)
  then obtain n' where "n = Suc n'" by (cases n) auto
  with Cons show ?case by (auto simp: Let_def split: prod.split)
qed simp

lemma remote_cells_prefix:
  assumes "U = [] \<or> length (filter (observed_cell version) U) < s"
  shows "U @ remote_cells version m ts off (length (filter (observed_cell version) U)) (((s, e), t) # es) C =
    remote_cells version m ts off 0 (((s, e), t) # es) (U @ C)"
  using split_observed_prefix [OF assms, of C] by (simp add: Let_def split: prod.split)

lemma remote_finish_ok:
  assumes "remote_inv ins (visible_text snap) version ts (fragments snap) rs" "remote_base version ts (fragments snap)"
  shows "\<exists>snap' p xs ss off. remote_finish version rs snap = Some (snap', p) \<and> snapshot_ok ins snap'
    \<and> cells (fragments snap') = cells (st_fragments (rs_edit rs)) @ cells (remaining rs)
    \<and> describes p (visible_text snap) (visible_text snap') \<and> normal p
    \<and> logging ts (fragments snap) (fragments snap') [] 0 xs ss off
    \<and> insertions snap' = edit_items if_key (insertions snap) (map Insert (sort_key if_key xs))
    \<and> insertion_slices snap' = edit_items slice_key (insertion_slices snap) (map Insert (sort_key slice_key ss))
    \<and> snap_undo_map snap' = snap_undo_map snap \<and> snap_version snap' = snap_version snap"
proof -
  have fr: "fresh ts (fragments snap)" using assms(2) by (simp add: remote_base_def)
  from remote_suffix_ok [OF assms(1) fr] obtain rs1 A where s1: "remote_suffix version rs = Some rs1"
    "remote_inv ins (visible_text snap) version ts (fragments snap) (set_start (rs_full rs1) rs1)"
    "moved version rs (set_start (rs_full rs1) rs1) A A" by blast
  let ?st = "rs_edit rs1" and ?rest = "rs_rest rs1"
  have rem: "remaining (set_start (rs_full rs1) rs1) = ?rest" using remaining_0 [OF s1(2) assms(2)] by simp
  have "editing ins (visible_text snap) (st_fragments ?st) ?rest 0 (old_pos (set_start (rs_full rs1) rs1)) (st_ropes ?st) (st_patch ?st)"
    using s1(2) rem by (simp add: remote_inv_def)
  note fin = editing_finish [OF this]
  have "logging ts (fragments snap) (st_fragments ?st) (?rest @ []) 0 (st_insertions ?st) (st_slices ?st) (st_offset ?st)"
    using s1(2) by (simp add: remote_inv_def)
  from logging_append [OF this fr]
  have lg: "logging ts (fragments snap) (st_fragments ?st @ ?rest) [] 0 (st_insertions ?st) (st_slices ?st) (st_offset ?st)" .
  have cells: "cells (st_fragments ?st @ ?rest) = cells (st_fragments (rs_edit rs)) @ cells (remaining rs)"
    using s1(3) rem by (simp add: moved_def)
  have rest: "cur_rest (st_cursor ?st) = ?rest" by (simp add: rs_rest_def)
  define snap' where "snap' = snap\<lparr>fragments := st_fragments ?st @ ?rest,
    insertions := edit_items if_key (insertions snap) (map Insert (sort_key if_key (st_insertions ?st))),
    visible_text := vis_text ins (st_fragments ?st @ ?rest), deleted_text := del_text ins (st_fragments ?st @ ?rest),
    insertion_slices := edit_items slice_key (insertion_slices snap) (map Insert (sort_key slice_key (st_slices ?st)))\<rparr>"
  have "remote_finish version rs snap = Some (snap', st_patch ?st)"
    using s1(1) fin(1) by (simp add: remote_finish_def Let_def rest snap'_def)
  moreover have "snapshot_ok ins snap'" using fin(2) by (simp add: snapshot_ok_def snap'_def)
  moreover have "describes (st_patch ?st) (visible_text snap) (visible_text snap')" "normal (st_patch ?st)" using fin(3) by (simp_all add: snap'_def)
  moreover have "fragments snap' = st_fragments ?st @ ?rest" by (simp add: snap'_def)
  moreover have "insertions snap' = edit_items if_key (insertions snap) (map Insert (sort_key if_key (st_insertions ?st)))"
      "insertion_slices snap' = edit_items slice_key (insertion_slices snap) (map Insert (sort_key slice_key (st_slices ?st)))"
      "snap_undo_map snap' = snap_undo_map snap" "snap_version snap' = snap_version snap" by (simp_all add: snap'_def)
  ultimately show ?thesis using lg cells by metis
qed

lemma apply_remote_edit_ok:
  assumes "snap_inv ins snap" "new_timestamp ts snap" "ranges \<noteq> []" "length ranges = length new_text"
    and "\<forall>f \<in> set (fragments snap). global_observed version (frag_timestamp f) \<longrightarrow> frag_timestamp f < ts"
    and "edits_ok 0 (zip ranges new_text) (length (filter (observed_cell version) (cells (fragments snap))))"
    and "length (concat new_text) \<le> MAX_INSERTION_LEN"
  shows "\<exists>snap' p. apply_remote_edit version ranges new_text ts snap = Some (snap', Some p)
    \<and> cells (fragments snap') = remote_cells version (snap_undo_map snap) ts 0 0 (zip ranges new_text) (cells (fragments snap))
    \<and> snap_inv (ins(ts := concat new_text)) snap' \<and> describes p (visible_text snap) (visible_text snap') \<and> normal p
    \<and> edited_cells ts (cells (fragments snap)) (cells (fragments snap'))
    \<and> snap_undo_map snap' = snap_undo_map snap \<and> snap_version snap' = snap_version snap"
proof -
  let ?F = "fragments snap" and ?ins = "ins(ts := concat new_text)" and ?V = "visible_text snap" and ?m = "snap_undo_map snap"
  obtain s e rs t tx where es: "ranges = (s, e) # rs" "new_text = t # tx" using assms(3,4) by (cases ranges; cases new_text) auto
  have good: "um_good ?m" and sok: "snapshot_ok ins snap" using assms(1) by (auto simp: snap_inv_def)
  have base: "remote_base version ts ?F"
    using assms(2,5) snap_inv_frag_len [OF assms(1)] by (simp add: remote_base_def new_timestamp_def)
  have "\<forall>f \<in> set ?F. frag_timestamp f \<noteq> ts" using base by (simp add: remote_base_def fresh_def)
  note sok' = snapshot_ok_fresh [OF sok this, of "concat new_text"]
  have sle: "s \<le> length (filter (observed_cell version) (cells ?F))" "s \<le> e" using assms(6) es by auto
  define r where "r = remote_start version s snap"
  note start = remote_start_ok [OF sok' base sle(1), folded r_def]
  have "length (filter (observed_cell version) (cells ?F)) = rs_start r + rs_left version r"
    using start by (simp add: rs_left_def)
  then have eok: "edits_ok (rs_start r) (zip ranges new_text) (rs_start r + rs_left version r)"
    using assms(6) start es by simp
  have opt: "op_text (zip ranges new_text) = concat new_text" using assms(4) by simp
  from remote_edits_ok [OF _ base good eok, of ?ins ?V "[]"] start assms(7) obtain r1 where
    r1: "remote_edits version ?m ts (zip ranges new_text) r = Some r1" "remote_inv ?ins ?V version ts ?F r1"
      "cells (st_fragments (rs_edit r1)) @ cells (remaining r1) = cells (st_fragments (rs_edit r))
         @ remote_cells version ?m ts 0 (rs_start r) (zip ranges new_text) (cells (remaining r))"
    unfolding opt by auto
  from remote_finish_ok [OF r1(2) base] obtain snap' p xs ss off where
    f: "remote_finish version r1 snap = Some (snap', p)" "snapshot_ok ?ins snap'"
      "cells (fragments snap') = cells (st_fragments (rs_edit r1)) @ cells (remaining r1)" "describes p ?V (visible_text snap')" "normal p"
      "logging ts ?F (fragments snap') [] 0 xs ss off"
      "insertions snap' = edit_items if_key (insertions snap) (map Insert (sort_key if_key xs))"
      "insertion_slices snap' = edit_items slice_key (insertion_slices snap) (map Insert (sort_key slice_key ss))"
      "snap_undo_map snap' = ?m" "snap_version snap' = snap_version snap" by blast
  have "cells (st_fragments (rs_edit r)) = [] \<or> length (filter (observed_cell version) (cells (st_fragments (rs_edit r)))) < s"
    using start by auto
  from remote_cells_prefix [OF this, of ?m ts 0 e t "zip rs tx" "cells (remaining r)"] r1(3) f(3) start es
  have "cells (fragments snap') = remote_cells version ?m ts 0 0 (zip ranges new_text) (cells ?F)" by simp
  moreover have "apply_remote_edit version ranges new_text ts snap = Some (snap', Some p)"
    using r1(1) f(1) unfolding apply_remote_edit_def es r_def by (simp del: remote_edits.simps zip_Cons_Cons)
  ultimately show ?thesis using logged_snap_inv [OF assms(1,2) f(6-9,2)] f(4,5,9,10) by blast
qed

end
