(* ===== verification/Concurrent_Edits.thy ===== *)
theory Concurrent_Edits
  imports Remote_Proofs
begin

text \<open>
  Two edits that did not know of each other have the same effect in either order. \<open>place_cells\<close> says in one pass over the bytes what
  \<open>remote_cells\<close> says range by range; passes of concurrent edits commute.
\<close>

subsection \<open>Marks\<close>

text \<open>Which undo operations have been applied matters only through the counts they give to edits.\<close>

type_synonym counts = "lamport \<times> lamport \<Rightarrow> u32 option"

definition undone_in :: "global \<Rightarrow> counts \<Rightarrow> lamport \<Rightarrow> bool" where
  "undone_in v M e \<longleftrightarrow> max_count (global_observed v) M e mod 2 = 1"

definition visible_in :: "global \<Rightarrow> counts \<Rightarrow> lamport \<Rightarrow> lamport set \<Rightarrow> bool" where
  "visible_in v M e ds \<longleftrightarrow> global_observed v e \<and> \<not> undone_in v M e \<and> (\<forall>d \<in> ds. global_observed v d \<longrightarrow> undone_in v M d)"

definition mark_in :: "global \<Rightarrow> counts \<Rightarrow> lamport \<Rightarrow> cell \<Rightarrow> cell" where
  "mark_in v M ts c = (if visible_in v M (cell_ts c) (set (cell_deletions c)) then delete_cell ts c else c)"

lemma mark_cell_in: "mark_cell v m ts c = mark_in v (um_abs m) ts c"
  by (simp add: mark_cell_def mark_in_def visible_in_def visible_at_def undone_at_def undone_in_def)

subsection \<open>One pass\<close>

text \<open>\<open>new k\<close> are the cells inserted after \<open>k\<close> observed ones and \<open>del k\<close> says whether the observed cell \<open>k\<close> lies in a deleted range.
  \<open>wait\<close> are new cells that wait until no newer insertion follows.\<close>

fun place_cells ::
  "global \<Rightarrow> counts \<Rightarrow> lamport \<Rightarrow> (nat \<Rightarrow> cell list) \<Rightarrow> (nat \<Rightarrow> bool) \<Rightarrow> nat \<Rightarrow> cell list \<Rightarrow> cell list \<Rightarrow> cell list" where
  "place_cells v m ts new del k wait [] = wait"
| "place_cells v m ts new del k wait (c # C) =
     (if wait \<noteq> [] \<and> ts < cell_ts c then c # place_cells v m ts new del k wait C
      else wait @ (if observed_cell v c \<and> del k then mark_in v m ts c else c)
             # (if observed_cell v c then place_cells v m ts new del (Suc k) (new (Suc k)) C else place_cells v m ts new del k [] C))"

text \<open>What a cell is, up to the order of its deletions; whether it is visible follows.\<close>

definition cell_view :: "cell \<Rightarrow> lamport \<times> nat \<times> lamport multiset" where
  "cell_view c = (cell_ts c, cell_offset c, mset (cell_deletions c))"

lemma mark_in_simps [simp]: "cell_ts (mark_in v m ts c) = cell_ts c" "cell_offset (mark_in v m ts c) = cell_offset c"
  "observed_cell w (mark_in v m ts c) = observed_cell w c"
  by (simp_all add: mark_in_def delete_cell_def observed_cell_def)

lemma mark_in_view:
  assumes "cell_view c = cell_view c'"
  shows "cell_view (mark_in v M ts c) = cell_view (mark_in v M ts c')"
proof -
  have same: "cell_ts c = cell_ts c'" "cell_offset c = cell_offset c'" "mset (cell_deletions c) = mset (cell_deletions c')"
    using assms by (simp_all add: cell_view_def)
  from mset_eq_setD [OF this(3)] have "set (cell_deletions c) = set (cell_deletions c')" .
  with same show ?thesis by (simp add: mark_in_def cell_view_def delete_cell_def)
qed

lemma mark_in_commute:
  assumes "\<not> global_observed v1 ts2" "\<not> global_observed v2 ts1"
  shows "cell_view (mark_in v1 M ts1 (mark_in v2 M ts2 c)) = cell_view (mark_in v2 M ts2 (mark_in v1 M ts1 c))"
proof -
  have other: "visible_in v M e (insert t ds) = visible_in v M e ds" if "\<not> global_observed v t" for v e t ds
    using that by (auto simp: visible_in_def)
  show ?thesis using other [OF assms(1)] other [OF assms(2)] by (simp add: mark_in_def delete_cell_def cell_view_def)
qed

lemma place_over_higher:
  "wait \<noteq> [] \<Longrightarrow> \<forall>x \<in> set X. ts < cell_ts x \<Longrightarrow> place_cells v m ts new del k wait (X @ C) = X @ place_cells v m ts new del k wait C"
  by (induction X) auto

lemma place_over_unobserved:
  "\<forall>x \<in> set X. \<not> observed_cell v x \<Longrightarrow> place_cells v m ts new del k [] (X @ C) = X @ place_cells v m ts new del k [] C"
  by (induction X) auto

lemma place_before_lower:
  "X \<noteq> [] \<Longrightarrow> \<forall>x \<in> set X. cell_ts x < ts \<and> \<not> observed_cell v x \<Longrightarrow>
     place_cells v m ts new del k wait (X @ C) = wait @ X @ place_cells v m ts new del k [] C"
  by (cases X) (auto simp: place_over_unobserved)

lemma place_commute:
  assumes "ts1 < ts2" "\<not> global_observed v1 ts2" "\<not> global_observed v2 ts1"
    and "\<forall>k. \<forall>c \<in> set (new1 k). cell_ts c = ts1" "\<forall>k. \<forall>c \<in> set (new2 k). cell_ts c = ts2"
  shows "\<forall>c \<in> set C. (observed_cell v1 c \<longrightarrow> cell_ts c < ts1) \<and> (observed_cell v2 c \<longrightarrow> cell_ts c < ts2) \<Longrightarrow>
    \<forall>c \<in> set W1. cell_ts c = ts1 \<Longrightarrow> \<forall>c \<in> set W2. cell_ts c = ts2 \<Longrightarrow>
    map cell_view (place_cells v1 m ts1 new1 del1 k1 W1 (place_cells v2 m ts2 new2 del2 k2 W2 C)) =
    map cell_view (place_cells v2 m ts2 new2 del2 k2 W2 (place_cells v1 m ts1 new1 del1 k1 W1 C))"
proof (induction C arbitrary: k1 W1 k2 W2)
  case Nil
  have un: "\<forall>c \<in> set W1. cell_ts c < ts2 \<and> \<not> observed_cell v2 c" "\<forall>c \<in> set W2. ts1 < cell_ts c \<and> \<not> observed_cell v1 c"
    using Nil(2,3) assms(1-3) by (auto simp: observed_cell_def)
  have "place_cells v1 m ts1 new1 del1 k1 W1 (W2 @ []) = W2 @ W1"
    using un(2) by (cases "W1 = []") (auto simp: place_over_higher place_over_unobserved simp del: append_Nil2)
  moreover have "place_cells v2 m ts2 new2 del2 k2 W2 (W1 @ []) = W2 @ W1"
    using un(1) place_before_lower [of W1 ts2 v2 m new2 del2 k2 W2 "[]"] by (cases "W1 = []") auto
  ultimately show ?case by simp
next
  case (Cons c C)
  let ?p1 = "place_cells v1 m ts1 new1 del1" and ?p2 = "place_cells v2 m ts2 new2 del2"
  have un: "\<forall>c \<in> set W1. cell_ts c < ts2 \<and> \<not> observed_cell v2 c" "\<forall>c \<in> set W2. ts1 < cell_ts c \<and> \<not> observed_cell v1 c"
    using Cons.prems(2,3) assms(1-3) by (auto simp: observed_cell_def)
  have old: "observed_cell v1 c \<Longrightarrow> \<not> ts1 < cell_ts c" "observed_cell v2 c \<Longrightarrow> \<not> ts2 < cell_ts c" "ts2 < cell_ts c \<Longrightarrow> ts1 < cell_ts c"
    using Cons.prems(1) assms(1) by auto
  have C: "\<forall>c \<in> set C. (observed_cell v1 c \<longrightarrow> cell_ts c < ts1) \<and> (observed_cell v2 c \<longrightarrow> cell_ts c < ts2)" using Cons.prems(1) by simp
  note IH = Cons.IH [OF C]
  define c1 where "c1 = (if observed_cell v1 c \<and> del1 k1 then mark_in v1 m ts1 c else c)"
  define c2 where "c2 = (if observed_cell v2 c \<and> del2 k2 then mark_in v2 m ts2 c else c)"
  define d12 where "d12 = (if observed_cell v1 c \<and> del1 k1 then mark_in v1 m ts1 c2 else c2)"
  define d21 where "d21 = (if observed_cell v2 c \<and> del2 k2 then mark_in v2 m ts2 c1 else c1)"
  have ts: "cell_ts c1 = cell_ts c" "cell_ts c2 = cell_ts c" by (simp_all add: c1_def c2_def)
  have obs: "observed_cell v c1 = observed_cell v c" "observed_cell v c2 = observed_cell v c" for v by (simp_all add: c1_def c2_def)
  have d: "cell_view d12 = cell_view d21" using mark_in_commute [OF assms(2,3)] by (simp add: d12_def d21_def c1_def c2_def)
  define j1 where "j1 = (if observed_cell v1 c then Suc k1 else k1)"
  define j2 where "j2 = (if observed_cell v2 c then Suc k2 else k2)"
  define X1 where "X1 = (if observed_cell v1 c then new1 (Suc k1) else [])"
  define X2 where "X2 = (if observed_cell v2 c then new2 (Suc k2) else [])"
  have X: "\<forall>c \<in> set X1. cell_ts c = ts1" "\<forall>c \<in> set X2. cell_ts c = ts2" using assms(4,5) by (auto simp: X1_def X2_def)
  have step1: "?p1 k1 W (b # B) = W @ (if observed_cell v1 c \<and> del1 k1 then mark_in v1 m ts1 b else b) # ?p1 j1 X1 B"
    if "W = [] \<or> \<not> ts1 < cell_ts c" "cell_ts b = cell_ts c" "\<And>v. observed_cell v b = observed_cell v c" for W b B
    using that by (auto simp: j1_def X1_def)
  have step2: "?p2 k2 W (b # B) = W @ (if observed_cell v2 c \<and> del2 k2 then mark_in v2 m ts2 b else b) # ?p2 j2 X2 B"
    if "W = [] \<or> \<not> ts2 < cell_ts c" "cell_ts b = cell_ts c" "\<And>v. observed_cell v b = observed_cell v c" for W b B
    using that by (auto simp: j2_def X2_def)
  have over1: "?p1 k1 W1 (W2 @ B) = W2 @ ?p1 k1 W1 B" for B
    using un(2) by (cases "W1 = []") (auto simp: place_over_higher place_over_unobserved)
  show ?case
  proof (cases "W1 = [] \<or> \<not> ts1 < cell_ts c")
    case emit1: True
    have over2: "?p2 k2 W2 (W1 @ c1 # B) = W2 @ W1 @ d21 # ?p2 j2 X2 B" if "W2 = [] \<or> \<not> ts2 < cell_ts c" for B
      using that un(1) step2 [of W2 c1 B] step2 [of "[]" c1 B] ts(1) obs(1)
      by (cases "W1 = []") (simp_all add: place_before_lower d21_def)
    show ?thesis
    proof (cases "W2 = [] \<or> \<not> ts2 < cell_ts c")
      case True
      have "?p1 k1 W1 (?p2 k2 W2 (c # C)) = W2 @ W1 @ d12 # ?p1 j1 X1 (?p2 j2 X2 C)"
        using step2 [OF True] over1 step1 [OF emit1 ts(2) obs(2)] by (simp add: c2_def d12_def)
      moreover have "?p2 k2 W2 (?p1 k1 W1 (c # C)) = W2 @ W1 @ d21 # ?p2 j2 X2 (?p1 j1 X1 C)"
        using step1 [OF emit1] over2 [OF True] by (simp add: c1_def)
      ultimately show ?thesis using IH [OF X] d by simp
    next
      case False
      then have hi: "W2 \<noteq> []" "ts2 < cell_ts c" "W1 = []" "\<not> observed_cell v1 c" "\<not> observed_cell v2 c" using emit1 old by auto
      then show ?thesis using IH [of "[]" W2 k1 k2] Cons.prems(3) by simp
    qed
  next
    case hold1: False
    then have hi: "W1 \<noteq> []" "ts1 < cell_ts c" "\<not> observed_cell v1 c" using old by auto
    show ?thesis
    proof (cases "W2 = [] \<or> \<not> ts2 < cell_ts c")
      case True
      have "?p1 k1 W1 (?p2 k2 W2 (c # C)) = W2 @ c2 # ?p1 k1 W1 (?p2 j2 X2 C)"
        using step2 [OF True] over1 hi ts(2) by (simp add: c2_def)
      moreover have "?p2 k2 W2 (?p1 k1 W1 (c # C)) = W2 @ c2 # ?p2 j2 X2 (?p1 k1 W1 C)"
        using step2 [OF True] hi by (simp add: c2_def)
      ultimately show ?thesis using IH [OF Cons.prems(2) X(2)] by simp
    next
      case False
      then show ?thesis using hi IH [OF Cons.prems(2,3)] old by simp
    qed
  qed
qed

subsection \<open>The pass of an edit\<close>

fun new_at :: "lamport \<Rightarrow> nat \<Rightarrow> remote_edit_list \<Rightarrow> nat \<Rightarrow> cell list" where
  "new_at ts off [] k = []"
| "new_at ts off (((s, e), t) # es) k = (if k = s then new_cells ts off (length t) else []) @ new_at ts (off + length t) es k"

fun deletes_at :: "remote_edit_list \<Rightarrow> nat \<Rightarrow> bool" where
  "deletes_at [] k \<longleftrightarrow> False"
| "deletes_at (((s, e), t) # es) k \<longleftrightarrow> s \<le> k \<and> k < e \<or> deletes_at es k"

lemma edits_later: "edits_ok pos es n \<Longrightarrow> k < pos \<Longrightarrow> new_at ts off es k = [] \<and> \<not> deletes_at es k"
proof (induction es arbitrary: pos off)
  case (Cons e es)
  obtain a b t where [simp]: "e = ((a, b), t)" by (metis surj_pair)
  show ?case using Cons.IH [of b] Cons.prems by simp
qed simp

lemma new_at_ts: "c \<in> set (new_at ts off es k) \<Longrightarrow> cell_ts c = ts"
  by (induction ts off es k rule: new_at.induct) (auto simp: new_cells_def split: if_splits)

lemma place_cong:
  "\<forall>j > k. new j = new' j \<Longrightarrow> \<forall>j \<ge> k. del j = del' j \<Longrightarrow> place_cells v m ts new del k W C = place_cells v m ts new' del' k W C"
  by (induction C arbitrary: k W) auto

lemma place_nothing: "place_cells v m ts (\<lambda>_. []) (\<lambda>_. False) k [] C = C"
  by (induction C arbitrary: k) auto

lemma place_waits:
  assumes "\<forall>c \<in> set C. observed_cell v c \<longrightarrow> cell_ts c < ts"
  shows "place_cells v m ts new del k W C =
    takeWhile (\<lambda>c. ts < cell_ts c) C @ W @ place_cells v m ts new del k [] (dropWhile (\<lambda>c. ts < cell_ts c) C)"
  using assms by (induction C) auto

lemma mark_unobserved: "\<not> observed_cell v c \<Longrightarrow> mark_in v m ts c = c"
  by (simp add: mark_in_def visible_in_def observed_cell_def)

lemma place_through:
  "reached v A \<Longrightarrow> A \<noteq> [] \<Longrightarrow> n = length (filter (observed_cell v) A) \<Longrightarrow> \<forall>j. k < j \<and> j < k + n \<longrightarrow> new j = [] \<Longrightarrow>
     \<forall>j. k \<le> j \<and> j < k + n \<longrightarrow> del j = b \<Longrightarrow>
     place_cells v m ts new del k [] (A @ B) = map (\<lambda>c. if b then mark_in v m ts c else c) A @ place_cells v m ts new del (k + n) (new (k + n)) B"
proof (induction A arbitrary: k n)
  case (Cons c A)
  show ?case
  proof (cases "A = []")
    case True
    with Cons.prems show ?thesis by (auto simp: reached_def)
  next
    case False
    then have r: "reached v A" using Cons.prems(1) by (simp add: reached_def)
    then have "last A \<in> set (filter (observed_cell v) A)" using False by (simp add: reached_def)
    then have pos: "0 < length (filter (observed_cell v) A)" by (metis length_pos_if_in_set)
    show ?thesis
    proof (cases "observed_cell v c")
      case True
      then have n: "n = Suc (length (filter (observed_cell v) A))" using Cons.prems(3) by simp
      have "new (Suc k) = []" "del k = b" using Cons.prems(4,5) n pos by auto
      moreover have "place_cells v m ts new del (Suc k) [] (A @ B) = map (\<lambda>c. if b then mark_in v m ts c else c) A
          @ place_cells v m ts new del (Suc k + length (filter (observed_cell v) A)) (new (Suc k + length (filter (observed_cell v) A))) B"
        using Cons.prems(4,5) n by (intro Cons.IH [OF r False refl]) auto
      ultimately show ?thesis using True n by simp
    next
      case no: False
      then have "n = length (filter (observed_cell v) A)" using Cons.prems(3) by simp
      from Cons.IH [OF r False this Cons.prems(4,5)] no show ?thesis by (simp add: mark_unobserved)
    qed
  qed
qed simp

lemma split_observed_ok:
  "n \<le> length (filter (observed_cell v) C) \<Longrightarrow>
     \<exists>A B. split_observed (observed_cell v) n C = (A, B) \<and> C = A @ B \<and> reached v A \<and> length (filter (observed_cell v) A) = n"
proof (induction "observed_cell v" n C rule: split_observed.induct)
  case (3 n c C)
  let ?n = "if observed_cell v c then n else Suc n"
  have "?n \<le> length (filter (observed_cell v) C)" using "3.prems" by auto
  from "3.hyps" [OF this] obtain A B where ab: "split_observed (observed_cell v) ?n C = (A, B)" "C = A @ B" "reached v A"
    "length (filter (observed_cell v) A) = ?n" by blast
  have "reached v (c # A)"
  proof (cases "A = []")
    case True
    then have "observed_cell v c" using ab(4) by (auto split: if_splits)
    with True show ?thesis by (simp add: reached_def)
  qed (use ab(3) in \<open>simp add: reached_def\<close>)
  with ab show ?case by (auto split: if_splits)
qed (auto simp: reached_def)

lemma takeWhile_dropWhile: "takeWhile P (dropWhile P xs) = []" "dropWhile P (dropWhile P xs) = dropWhile P xs"
  by (induction xs) simp_all

lemma remote_cells_place:
  "edits_ok pos es (pos + length (filter (observed_cell v) C)) \<Longrightarrow> \<forall>c \<in> set C. observed_cell v c \<longrightarrow> cell_ts c < ts \<Longrightarrow>
     remote_cells v m ts off pos es C = place_cells v (um_abs m) ts (new_at ts off es) (deletes_at es) pos (new_at ts off es pos) C"
proof (induction es arbitrary: pos off C)
  case Nil
  then show ?case using place_nothing by (simp add: fun_eq_iff)
next
  case (Cons x es)
  obtain s e t where x: "x = ((s, e), t)" by (metis surj_pair)
  let ?obs = "observed_cell v" and ?off = "off + length t"
  let ?N = "new_at ts off (x # es)" and ?N' = "new_at ts ?off es" and ?d = "deletes_at (x # es)" and ?d' = "deletes_at es"
  let ?place = "place_cells v (um_abs m) ts ?N ?d" and ?place' = "place_cells v (um_abs m) ts ?N' ?d'"
  have ok: "pos \<le> s" "s \<le> e" "e \<le> pos + length (filter ?obs C)" "edits_ok e es (pos + length (filter ?obs C))"
    using Cons.prems(1) by (simp_all add: x)
  have later: "?N' k = []" "\<not> ?d' k" if "k < e" for k using edits_later [OF ok(4) that] by auto
  have "s - pos \<le> length (filter ?obs C)" using ok by simp
  from split_observed_ok [OF this] obtain A B where A: "split_observed ?obs (s - pos) C = (A, B)" "C = A @ B" "reached v A"
    "length (filter ?obs A) = s - pos" by blast
  have old: "\<forall>c \<in> set B. ?obs c \<longrightarrow> cell_ts c < ts" using Cons.prems(2) A(2) by auto
  define H where "H = takeWhile (\<lambda>c. ts < cell_ts c) B"
  define R' where "R' = drop (length H) B"
  have R': "R' = dropWhile (\<lambda>c. ts < cell_ts c) B" by (simp add: R'_def H_def dropWhile_eq_drop)
  have B: "B = H @ R'" by (simp add: R' H_def)
  have "\<forall>c \<in> set H. \<not> ?obs c" using old unfolding H_def by (meson order.asym set_takeWhileD)
  then have fH: "filter ?obs H = []" by (simp add: filter_empty_conv)
  have len: "length (filter ?obs C) = (s - pos) + length (filter ?obs R')" using A(2,4) B fH by simp
  have "e - s \<le> length (filter ?obs R')" using ok len by simp
  from split_observed_ok [OF this] obtain D R where D: "split_observed ?obs (e - s) R' = (D, R)" "R' = D @ R" "reached v D"
    "length (filter ?obs D) = e - s" by blast
  have oldR: "\<forall>c \<in> set R. ?obs c \<longrightarrow> cell_ts c < ts" using old B D(2) by auto
  have "pos + length (filter ?obs C) = e + length (filter ?obs R)" using len D(2,4) ok by simp
  then have IH: "remote_cells v m ts ?off e es R = ?place' e (?N' e) R" using Cons.IH [OF _ oldR] ok(4) by simp
  have left: "remote_cells v m ts off pos (x # es) C = A @ H @ new_cells ts off (length t) @ map (mark_in v (um_abs m) ts) D @ ?place' e (?N' e) R"
    using A(1) D(1) IH by (simp add: x mark_cell_in [abs_def] H_def [symmetric] R'_def [symmetric])
  have toB: "?place pos (?N pos) (A @ B) = A @ ?place s (?N s) B"
  proof (cases "A = []")
    case True
    then show ?thesis using A(4) ok(1) by simp
  next
    case False
    have "filter ?obs A \<noteq> []" using A(3) False last_in_set [OF False] unfolding reached_def filter_empty_conv by blast
    then have "pos < s" using A(4) by (metis length_greater_0_conv zero_less_diff)
    then have "?N pos = []" using later [of pos] ok by (simp add: x)
    moreover have "?place pos [] (A @ B) = map (\<lambda>c. if False then mark_in v (um_abs m) ts c else c) A @ ?place (pos + (s - pos)) (?N (pos + (s - pos))) B"
      using later ok A(4) by (intro place_through [OF A(3) False]) (auto simp: x)
    ultimately show ?thesis using ok(1) by simp
  qed
  have toR': "?place s (?N s) B = H @ ?N s @ ?place s [] R'"
    using place_waits [OF old] by (simp add: H_def R')
  have toR: "?N s @ ?place s [] R' = new_cells ts off (length t) @ map (mark_in v (um_abs m) ts) D @ ?place' e (?N' e) R"
  proof (cases "e = s")
    case True
    then have "D = []" using D(3,4) by (auto simp: reached_def filter_empty_conv dest: last_in_set)
    then have R: "R = R'" using D(2) by simp
    have "takeWhile (\<lambda>c. ts < cell_ts c) R' = []" "dropWhile (\<lambda>c. ts < cell_ts c) R' = R'" by (simp_all add: R' takeWhile_dropWhile)
    then have "?place' e (?N' e) R = ?N' e @ ?place' e [] R" using place_waits [OF oldR, of "um_abs m" ?N' ?d' e "?N' e"] R by simp
    moreover have "?place s [] R' = ?place' s [] R'" using True by (intro place_cong) (auto simp: x)
    ultimately show ?thesis using True \<open>D = []\<close> R by (simp add: x)
  next
    case False
    then have lt: "s < e" using ok(2) by simp
    then have "D \<noteq> []" using D(4) by auto
    have "?place s [] (D @ R) = map (\<lambda>c. if True then mark_in v (um_abs m) ts c else c) D @ ?place (s + (e - s)) (?N (s + (e - s))) R"
      using later ok D(4) by (intro place_through [OF D(3) \<open>D \<noteq> []\<close>]) (auto simp: x)
    moreover have "?place e (?N e) R = ?place' e (?N' e) R"
      using lt by (subst place_cong [where new' = ?N' and del' = ?d']) (auto simp: x)
    ultimately show ?thesis using D(2) lt later(1) [OF lt] by (simp add: x)
  qed
  have "?place pos (?N pos) C = A @ H @ new_cells ts off (length t) @ map (mark_in v (um_abs m) ts) D @ ?place' e (?N' e) R"
    unfolding A(2) toB toR' toR ..
  with left show ?case by (simp only:)
qed

end
