(* ===== verification/Buffer.thy ===== *)
theory Buffer
  imports Apply_Undo
begin

text \<open>
  The buffer of \<^verbatim>\<open>src/crates/text/src/text.rs\<close> and its local operations: creation, edits, transactions, undo and redo,
  subscriptions and waiting. A buffer couples a snapshot with its history, a clock, the queue of deferred remote operations and the
  topic of its subscriptions.

  The current time is an argument of the operations that ask for it, and ranges of edits are given as offsets. A channel for one
  message is a number; \<open>sent\<close> lists the channels on which the message has been sent. The identity of the buffer is not
  part of its behaviour and is left out.
\<close>

type_synonym undo_sort = "(undo_map_entry, lamport \<times> lamport) tree_edit list \<Rightarrow> (undo_map_entry, lamport \<times> lamport) tree_edit list"

record buffer =
  buf_snapshot :: snapshot
  buf_line_ending :: line_ending
  buf_history :: "(bytes, bytes) history"
  deferred_ops :: "bytes operation list"
  deferred_replicas :: "replica_id list"
  lamport_clock :: lamport
  subscriptions :: topic_store
  edit_id_resolvers :: "lamport \<rightharpoonup> nat list"
  wait_for_version_txs :: "(global \<times> nat) list"
  next_channel :: nat
  sent :: "nat list"

definition buffer_version :: "buffer \<Rightarrow> global" where
  "buffer_version b = snap_version (buf_snapshot b)"

subsection \<open>Creation\<close>

text \<open>The loop that splits a base text into fragments.\<close>

partial_function (option) base_fragments ::
  "bytes \<Rightarrow> lamport \<Rightarrow> locator \<Rightarrow> nat \<Rightarrow> fragment list \<Rightarrow> fragment list option" where
  "base_fragments base timestamp prev_locator text_offset fs =
     (if text_offset < length base then
        let target_end = chunk_target base text_offset;
            chunk_end = (if target_end = length base then target_end else floor_char_boundary base target_end);
            f = \<lparr>frag_id = between prev_locator locator_max, frag_timestamp = timestamp, frag_offset = text_offset,
                 frag_len = chunk_end - text_offset, frag_visible = True, frag_deletions = [], frag_max_undos = global_new\<rparr>
        in base_fragments base timestamp (frag_id f) chunk_end (fs @ [f])
      else Some fs)"

declare base_fragments.simps [code]

definition topic_new :: topic_store where
  "topic_new = \<lparr>patches = [], subscribers = [], next_address = 0\<rparr>"

definition new_normalized :: "replica_id \<Rightarrow> line_ending \<Rightarrow> bytes \<Rightarrow> buffer run" where
  "new_normalized replica le base = do {
     let insertion_timestamp = lamport_new LOCAL;
     fs \<leftarrow> base_fragments base insertion_timestamp locator_min 0 [];
     let clock = lamport_new replica;
     Some \<lparr>buf_snapshot = \<lparr>visible_text = base, deleted_text = [], fragments = fs,
              insertions = map insertion_fragment_new fs, insertion_slices = [], snap_undo_map = um_new,
              snap_version = (if base = [] then global_new else global_observe global_new insertion_timestamp)\<rparr>,
           buf_line_ending = le, buf_history = history_new base, deferred_ops = [], deferred_replicas = [],
           lamport_clock = (if base = [] then clock else lamport_observe clock insertion_timestamp),
           subscriptions = topic_new, edit_id_resolvers = Map.empty, wait_for_version_txs = [], next_channel = 0, sent = []\<rparr>
   }"

text \<open>The platform's line ending is that of a text without a line feed.\<close>

definition buffer_new :: "line_ending \<Rightarrow> replica_id \<Rightarrow> bytes \<Rightarrow> buffer run" where
  "buffer_new platform replica base = new_normalized replica (detect platform base) (normalize_text base)"

definition branch :: "buffer \<Rightarrow> buffer" where
  "branch b = b\<lparr>buf_history := history_new (base_text (buf_history b)), deferred_ops := [], deferred_replicas := [],
     lamport_clock := lamport_new LOCAL_BRANCH, subscriptions := topic_new, edit_id_resolvers := Map.empty,
     wait_for_version_txs := [], next_channel := 0, sent := []\<rparr>"

definition set_line_ending :: "line_ending \<Rightarrow> buffer \<Rightarrow> buffer" where
  "set_line_ending le b = b\<lparr>buf_line_ending := le\<rparr>"

subsection \<open>Transactions\<close>

definition start_transaction_at :: "instant \<Rightarrow> buffer \<Rightarrow> buffer \<times> transaction_id option" where
  "start_transaction_at now b =
     (let (h, clock, tid) = start_transaction (buffer_version b) now (lamport_clock b) (buf_history b)
      in (b\<lparr>buf_history := h, lamport_clock := clock\<rparr>, tid))"

definition end_transaction_at :: "instant \<Rightarrow> buffer \<Rightarrow> (buffer \<times> (transaction_id \<times> global) option) run" where
  "end_transaction_at now b = do {
     (h, entry) \<leftarrow> end_transaction now (buf_history b);
     (case entry of
        Some e \<Rightarrow> do {
          let since = tr_start (he_transaction e);
          (h1, tid) \<leftarrow> group h;
          tid \<leftarrow> tid;
          Some (b\<lparr>buf_history := h1\<rparr>, Some (tid, since))
        }
      | None \<Rightarrow> Some (b\<lparr>buf_history := h\<rparr>, None))
   }"

definition buffer_finalize_last_transaction :: "buffer \<Rightarrow> buffer \<times> transaction option" where
  "buffer_finalize_last_transaction b =
     (let (h, t) = finalize_last_transaction (buf_history b) in (b\<lparr>buf_history := h\<rparr>, t))"

definition group_until_transaction :: "transaction_id \<Rightarrow> buffer \<Rightarrow> buffer run" where
  "group_until_transaction tid b = map_option (\<lambda>h. b\<lparr>buf_history := h\<rparr>) (group_until tid (buf_history b))"

definition forget_transaction :: "transaction_id \<Rightarrow> buffer \<Rightarrow> (buffer \<times> transaction option) run" where
  "forget_transaction tid b = map_option (\<lambda>(h, t). (b\<lparr>buf_history := h\<rparr>, t)) (forget tid (buf_history b))"

definition get_transaction :: "transaction_id \<Rightarrow> buffer \<Rightarrow> transaction option" where
  "get_transaction tid b = history_transaction tid (buf_history b)"

definition buffer_merge_transactions :: "transaction_id \<Rightarrow> transaction_id \<Rightarrow> buffer \<Rightarrow> buffer run" where
  "buffer_merge_transactions tid destination b =
     map_option (\<lambda>h. b\<lparr>buf_history := h\<rparr>) (merge_transactions tid destination (buf_history b))"

definition buffer_push_transaction :: "transaction \<Rightarrow> instant \<Rightarrow> buffer \<Rightarrow> buffer run" where
  "buffer_push_transaction t now b = map_option (\<lambda>h. b\<lparr>buf_history := h\<rparr>) (push_transaction t now (buf_history b))"

definition buffer_push_empty_transaction :: "instant \<Rightarrow> buffer \<Rightarrow> (buffer \<times> transaction_id) run" where
  "buffer_push_empty_transaction now b =
     map_option (\<lambda>(h, clock, tid). (b\<lparr>buf_history := h, lamport_clock := clock\<rparr>, tid))
       (push_empty_transaction (buffer_version b) now (lamport_clock b) (buf_history b))"

subsection \<open>Edits\<close>

definition observe_version :: "lamport \<Rightarrow> buffer \<Rightarrow> buffer" where
  "observe_version ts b = b\<lparr>buf_snapshot := (buf_snapshot b)\<lparr>snap_version := global_observe (buffer_version b) ts\<rparr>\<rparr>"

definition apply_local_edit :: "text_edits \<Rightarrow> lamport \<Rightarrow> buffer \<Rightarrow> (buffer \<times> bytes edit_operation) run" where
  "apply_local_edit edits timestamp b = do {
     (snap, edit_op, p) \<leftarrow> apply_edit_internal edits timestamp (buf_snapshot b);
     Some (b\<lparr>buf_snapshot := snap, subscriptions := publish p (subscriptions b)\<rparr>, edit_op)
   }"

definition buffer_edit :: "instant \<Rightarrow> instant \<Rightarrow> text_edits \<Rightarrow> buffer \<Rightarrow> (buffer \<times> bytes operation) run" where
  "buffer_edit started ended edits b = do {
     let (b1, _) = start_transaction_at started b;
     let (timestamp, clock) = tick (lamport_clock b1);
     (b2, edit_op) \<leftarrow> apply_local_edit edits timestamp (b1\<lparr>lamport_clock := clock\<rparr>);
     let op = Edit edit_op;
     h \<leftarrow> push_undo (op_timestamp op) (history_push op (buf_history b2));
     let b3 = observe_version (op_timestamp op) (b2\<lparr>buf_history := h\<rparr>);
     (b4, _) \<leftarrow> end_transaction_at ended b3;
     Some (b4, op)
   }"

subsection \<open>Undo and redo\<close>

definition undo_operations :: "undo_sort \<Rightarrow> (lamport \<times> u32) list \<Rightarrow> buffer \<Rightarrow> (buffer \<times> bytes operation) run" where
  "undo_operations srt counts b = do {
     let (timestamp, clock) = tick (lamport_clock b);
     let undo = \<lparr>undo_timestamp = timestamp, undo_version = buffer_version b, undo_counts = counts\<rparr>;
     let b1 = observe_version timestamp (b\<lparr>lamport_clock := clock\<rparr>);
     (snap, p) \<leftarrow> apply_undo srt undo (buf_snapshot b1);
     Some (b1\<lparr>buf_snapshot := snap, subscriptions := publish p (subscriptions b1)\<rparr>, Undo undo)
   }"

text \<open>The counts of the edits of a transaction, a hash map: one entry for each edit.\<close>

definition next_counts :: "undo_map \<Rightarrow> lamport list \<Rightarrow> (lamport \<times> u32) list run" where
  "next_counts m edit_ids =
     those (map (\<lambda>e. map_option (\<lambda>n. (e, if n = - 1 then n else n + 1)) (undo_count e m)) (remdups edit_ids))"

definition undo_or_redo :: "undo_sort \<Rightarrow> transaction \<Rightarrow> buffer \<Rightarrow> (buffer \<times> bytes operation) run" where
  "undo_or_redo srt t b = do {
     counts \<leftarrow> next_counts (snap_undo_map (buf_snapshot b)) (tr_edit_ids t);
     (b1, op) \<leftarrow> undo_operations srt counts b;
     Some (b1\<lparr>buf_history := history_push op (buf_history b1)\<rparr>, op)
   }"

fun undo_or_redo_all :: "undo_sort \<Rightarrow> history_entry list \<Rightarrow> buffer \<Rightarrow> (buffer \<times> bytes operation list) run" where
  "undo_or_redo_all srt [] b = Some (b, [])"
| "undo_or_redo_all srt (e # es) b = do {
     (b1, op) \<leftarrow> undo_or_redo srt (he_transaction e) b;
     (b2, ops) \<leftarrow> undo_or_redo_all srt es b1;
     Some (b2, op # ops)
   }"

definition buffer_undo :: "undo_sort \<Rightarrow> buffer \<Rightarrow> (buffer \<times> (transaction_id \<times> bytes operation) option) run" where
  "buffer_undo srt b = do {
     (h, entry) \<leftarrow> pop_undo (buf_history b);
     (case entry of
        Some e \<Rightarrow> do {
          (b1, op) \<leftarrow> undo_or_redo srt (he_transaction e) (b\<lparr>buf_history := h\<rparr>);
          Some (b1, Some (transaction_id_of e, op))
        }
      | None \<Rightarrow> Some (b\<lparr>buf_history := h\<rparr>, None))
   }"

definition buffer_redo :: "undo_sort \<Rightarrow> buffer \<Rightarrow> (buffer \<times> (transaction_id \<times> bytes operation) option) run" where
  "buffer_redo srt b = do {
     (h, entry) \<leftarrow> pop_redo (buf_history b);
     (case entry of
        Some e \<Rightarrow> do {
          (b1, op) \<leftarrow> undo_or_redo srt (he_transaction e) (b\<lparr>buf_history := h\<rparr>);
          Some (b1, Some (transaction_id_of e, op))
        }
      | None \<Rightarrow> Some (b\<lparr>buf_history := h\<rparr>, None))
   }"

definition undo_transaction :: "undo_sort \<Rightarrow> transaction_id \<Rightarrow> buffer \<Rightarrow> (buffer \<times> bytes operation option) run" where
  "undo_transaction srt tid b = do {
     (h, entry) \<leftarrow> remove_from_undo tid (buf_history b);
     (case entry of
        Some e \<Rightarrow> do {
          (b1, op) \<leftarrow> undo_or_redo srt (he_transaction e) (b\<lparr>buf_history := h\<rparr>);
          Some (b1, Some op)
        }
      | None \<Rightarrow> Some (b\<lparr>buf_history := h\<rparr>, None))
   }"

definition undo_to_transaction :: "undo_sort \<Rightarrow> transaction_id \<Rightarrow> buffer \<Rightarrow> (buffer \<times> bytes operation list) run" where
  "undo_to_transaction srt tid b = do {
     (h, entries) \<leftarrow> remove_from_undo_until tid (buf_history b);
     undo_or_redo_all srt entries (b\<lparr>buf_history := h\<rparr>)
   }"

definition redo_to_transaction :: "undo_sort \<Rightarrow> transaction_id \<Rightarrow> buffer \<Rightarrow> (buffer \<times> bytes operation list) run" where
  "redo_to_transaction srt tid b = do {
     (h, entries) \<leftarrow> remove_from_redo tid (buf_history b);
     undo_or_redo_all srt entries (b\<lparr>buf_history := h\<rparr>)
   }"

subsection \<open>Edits on a copy of the snapshot\<close>

record edited_buffer_snapshot =
  base_version :: global
  edited_snapshot :: snapshot
  did_edit :: bool

definition snapshot_with_edits :: "text_edits \<Rightarrow> buffer \<Rightarrow> (buffer \<times> edited_buffer_snapshot) run" where
  "snapshot_with_edits edits b =
     (if edits = [] then Some (b, \<lparr>base_version = buffer_version b, edited_snapshot = buf_snapshot b, did_edit = False\<rparr>)
      else do {
        let (timestamp, clock) = tick (lamport_clock b);
        (snap, _, _) \<leftarrow> apply_edit_internal edits timestamp (buf_snapshot b);
        Some (b\<lparr>lamport_clock := clock\<rparr>,
              \<lparr>base_version = buffer_version b,
               edited_snapshot = snap\<lparr>snap_version := global_observe (snap_version snap) timestamp\<rparr>, did_edit = True\<rparr>)
      })"

definition fast_forward :: "edited_buffer_snapshot \<Rightarrow> buffer \<Rightarrow> buffer run" where
  "fast_forward ebs b = do {
     rust_assert (\<not> changed_since (buffer_version b) (base_version ebs));
     Some (b\<lparr>buf_snapshot := edited_snapshot ebs,
             lamport_clock := foldl lamport_observe (lamport_clock b) (global_iter (snap_version (edited_snapshot ebs)))\<rparr>)
   }"

subsection \<open>Subscribing and waiting\<close>

definition buffer_subscribe :: "buffer \<Rightarrow> buffer \<times> nat" where
  "buffer_subscribe b = (let (t, a) = subscribe (subscriptions b) in (b\<lparr>subscriptions := t\<rparr>, a))"

fun wait_for_edits :: "lamport list \<Rightarrow> buffer \<Rightarrow> buffer \<times> nat list" where
  "wait_for_edits [] b = (b, [])"
| "wait_for_edits (e # es) b =
     (if \<not> global_observed (buffer_version b) e then
        let tx = next_channel b;
            txs = (case edit_id_resolvers b e of Some txs \<Rightarrow> txs | None \<Rightarrow> []);
            b1 = b\<lparr>edit_id_resolvers := (edit_id_resolvers b)(e \<mapsto> txs @ [tx]), next_channel := tx + 1\<rparr>;
            (b2, rxs) = wait_for_edits es b1
        in (b2, tx # rxs)
      else wait_for_edits es b)"

definition wait_for_version :: "global \<Rightarrow> buffer \<Rightarrow> buffer \<times> nat option" where
  "wait_for_version v b =
     (if \<not> observed_all (buffer_version b) v then
        (b\<lparr>wait_for_version_txs := wait_for_version_txs b @ [(v, next_channel b)], next_channel := next_channel b + 1\<rparr>,
         Some (next_channel b))
      else (b, None))"

definition give_up_waiting :: "buffer \<Rightarrow> buffer" where
  "give_up_waiting b = b\<lparr>edit_id_resolvers := Map.empty, wait_for_version_txs := []\<rparr>"

definition resolve_edit :: "lamport \<Rightarrow> buffer \<Rightarrow> buffer" where
  "resolve_edit e b = b\<lparr>sent := sent b @ (case edit_id_resolvers b e of Some txs \<Rightarrow> txs | None \<Rightarrow> []),
     edit_id_resolvers := (edit_id_resolvers b)(e := None)\<rparr>"

subsection \<open>The buffer's own check of its invariants\<close>

fun check_fragments :: "locator \<Rightarrow> insertion_fragment list \<Rightarrow> fragment list \<Rightarrow> bool" where
  "check_fragments prev index [] \<longleftrightarrow> True"
| "check_fragments prev index (f # fs) \<longleftrightarrow>
     frag_id f > prev
     \<and> (case lookup if_key index (frag_timestamp f, frag_offset f) of Some x \<Rightarrow> if_fragment_id x = frag_id f | None \<Rightarrow> False)
     \<and> check_fragments (frag_id f) index fs"

definition check_insertion :: "fragment list \<Rightarrow> insertion_fragment \<Rightarrow> bool" where
  "check_insertion fs x =
     (case dropWhile (\<lambda>f. frag_id f < if_fragment_id x) fs of
        f # _ \<Rightarrow> if_fragment_id x = frag_id f \<and> if_split_offset x = frag_offset f
      | [] \<Rightarrow> False)"

fun contains_crlf :: "bytes \<Rightarrow> bool" where
  "contains_crlf (a # b # t) \<longleftrightarrow> a = CR \<and> b = LF \<or> contains_crlf (b # t)"
| "contains_crlf _ \<longleftrightarrow> False"

definition check_invariants :: "buffer \<Rightarrow> bool" where
  "check_invariants b =
     (let snap = buf_snapshot b
      in check_fragments locator_min (insertions snap) (fragments snap)
         \<and> list_all (check_insertion (fragments snap)) (insertions snap)
         \<and> sum_visible (fs_text (builder_summary (fragments snap))) = length (visible_text snap)
         \<and> sum_deleted (fs_text (builder_summary (fragments snap))) = length (deleted_text snap)
         \<and> \<not> contains_crlf (visible_text snap))"

end
