(* ===== verification/Apply_Ops.thy ===== *)
theory Apply_Ops
  imports Buffer Remote_Edit
begin

text \<open>
  Operations from other replicas: the queue of \<^verbatim>\<open>src/crates/text/src/operation_queue.rs\<close> and \<^verbatim>\<open>Buffer::apply_ops\<close> of
  \<^verbatim>\<open>src/crates/text/src/text.rs\<close>. An operation is applied when the buffer has observed everything it depends on and no
  earlier operation of its replica is waiting; otherwise it is put into the queue, which every call flushes once, in the order of
  timestamps. The queue, a sum tree, is represented by the list of its items.
\<close>

subsection \<open>The operation queue\<close>

record operation_summary =
  os_key :: lamport
  os_len :: nat

definition operation_summary_zero :: operation_summary where
  "operation_summary_zero = \<lparr>os_key = lamport_MIN, os_len = 0\<rparr>"

definition operation_summary_of :: "'text operation \<Rightarrow> operation_summary" where
  "operation_summary_of op = \<lparr>os_key = op_timestamp op, os_len = 1\<rparr>"

text \<open>Adding a summary asserts that the keys ascend.\<close>

definition operation_summary_add :: "operation_summary \<Rightarrow> operation_summary \<Rightarrow> operation_summary run" where
  "operation_summary_add s other = do {
     rust_assert (os_key s < os_key other);
     Some \<lparr>os_key = os_key other, os_len = os_len s + os_len other\<rparr>
   }"

definition operation_key_add :: "lamport \<Rightarrow> operation_summary \<Rightarrow> lamport run" where
  "operation_key_add k s = do { rust_assert (k \<le> os_key s); Some (os_key s) }"

fun queue_summary_from :: "operation_summary \<Rightarrow> 'text operation list \<Rightarrow> operation_summary run" where
  "queue_summary_from s [] = Some s"
| "queue_summary_from s (op # ops) = Option.bind (operation_summary_add s (operation_summary_of op)) (\<lambda>s1. queue_summary_from s1 ops)"

definition queue_len :: "'text operation list \<Rightarrow> nat run" where
  "queue_len q = map_option os_len (queue_summary_from operation_summary_zero q)"

definition queue_is_empty :: "'text operation list \<Rightarrow> bool run" where
  "queue_is_empty q = map_option (\<lambda>n. n = 0) (queue_len q)"

text \<open>\<^verbatim>\<open>dedup_by_key\<close> keeps the first of a run of equal keys. Operations with the same timestamp are the same operation, so that
  the order in which the unstable sort leaves them is of no account.\<close>

fun dedup_by_key :: "('a \<Rightarrow> 'k) \<Rightarrow> 'a list \<Rightarrow> 'a list" where
  "dedup_by_key key (x # y # xs) = (if key x = key y then dedup_by_key key (x # xs) else x # dedup_by_key key (y # xs))"
| "dedup_by_key key xs = xs"

definition queue_insert :: "'text operation list \<Rightarrow> 'text operation list \<Rightarrow> 'text operation list" where
  "queue_insert ops q = edit_items op_timestamp q (map Insert (dedup_by_key op_timestamp (sort_key op_timestamp ops)))"

definition queue_drain :: "'text operation list \<Rightarrow> 'text operation list \<times> 'text operation list" where
  "queue_drain q = (q, [])"

subsection \<open>Applying an operation\<close>

fun op_version :: "'text operation \<Rightarrow> global" where
  "op_version (Edit e) = edit_version e"
| "op_version (Undo u) = undo_version u"

definition op_replica :: "'text operation \<Rightarrow> replica_id" where
  "op_replica op = lam_replica (op_timestamp op)"

definition can_apply_op :: "bytes operation \<Rightarrow> buffer \<Rightarrow> bool" where
  "can_apply_op op b =
     (if op_replica op \<in> set (deferred_replicas b) then False else observed_all (buffer_version b) (op_version op))"

text \<open>The channels that wait for a version the buffer has reached.\<close>

definition notify_versions :: "buffer \<Rightarrow> buffer" where
  "notify_versions b =
     b\<lparr>sent := sent b @ map snd (filter (\<lambda>(version, _). observed_all (buffer_version b) version) (wait_for_version_txs b)),
       wait_for_version_txs := filter (\<lambda>(version, _). \<not> observed_all (buffer_version b) version) (wait_for_version_txs b)\<rparr>"

definition observe_op :: "lamport \<Rightarrow> buffer \<Rightarrow> buffer" where
  "observe_op ts b = (observe_version ts b)\<lparr>lamport_clock := lamport_observe (lamport_clock b) ts\<rparr>"

definition apply_edit_op :: "bytes edit_operation \<Rightarrow> buffer \<Rightarrow> buffer run" where
  "apply_edit_op e b =
     (if \<not> global_observed (buffer_version b) (edit_timestamp e) then do {
        (snap, p) \<leftarrow> apply_remote_edit (edit_version e) (edit_ranges e) (edit_new_text e) (edit_timestamp e) (buf_snapshot b);
        let b1 = b\<lparr>buf_snapshot := snap,
                   subscriptions := (case p of Some p \<Rightarrow> publish p (subscriptions b) | None \<Rightarrow> subscriptions b)\<rparr>;
        Some (resolve_edit (edit_timestamp e) (observe_op (edit_timestamp e) b1))
      } else Some b)"

definition apply_undo_op :: "undo_sort \<Rightarrow> undo_operation \<Rightarrow> buffer \<Rightarrow> buffer run" where
  "apply_undo_op srt u b =
     (if \<not> global_observed (buffer_version b) (undo_timestamp u) then do {
        (snap, p) \<leftarrow> apply_undo srt u (buf_snapshot b);
        Some (observe_op (undo_timestamp u) (b\<lparr>buf_snapshot := snap, subscriptions := publish p (subscriptions b)\<rparr>))
      } else Some b)"

definition apply_op :: "undo_sort \<Rightarrow> bytes operation \<Rightarrow> buffer \<Rightarrow> buffer run" where
  "apply_op srt op b = do {
     b1 \<leftarrow> (case op of Edit e \<Rightarrow> apply_edit_op e b | Undo u \<Rightarrow> apply_undo_op srt u b);
     Some (notify_versions b1)
   }"

subsection \<open>Applying many\<close>

definition defer_replica :: "bytes operation \<Rightarrow> buffer \<Rightarrow> buffer" where
  "defer_replica op b = b\<lparr>deferred_replicas := List.insert (op_replica op) (deferred_replicas b)\<rparr>"

text \<open>The loop of the flush; the result has the operations that stay deferred.\<close>

fun apply_or_defer :: "undo_sort \<Rightarrow> bytes operation list \<Rightarrow> buffer \<Rightarrow> (buffer \<times> bytes operation list) run" where
  "apply_or_defer srt [] b = Some (b, [])"
| "apply_or_defer srt (op # ops) b =
     (if can_apply_op op b then do {
        b1 \<leftarrow> apply_op srt op b;
        apply_or_defer srt ops b1
      } else do {
        (b1, deferred) \<leftarrow> apply_or_defer srt ops (defer_replica op b);
        Some (b1, op # deferred)
      })"

definition flush_deferred_ops :: "undo_sort \<Rightarrow> buffer \<Rightarrow> buffer run" where
  "flush_deferred_ops srt b = do {
     let (drained, q) = queue_drain (deferred_ops b);
     (b1, deferred) \<leftarrow> apply_or_defer srt drained (b\<lparr>deferred_replicas := [], deferred_ops := q\<rparr>);
     Some (b1\<lparr>deferred_ops := queue_insert deferred (deferred_ops b1)\<rparr>)
   }"

text \<open>The loop of \<^verbatim>\<open>apply_ops\<close> also records every operation in the history.\<close>

fun record_and_apply :: "undo_sort \<Rightarrow> bytes operation list \<Rightarrow> buffer \<Rightarrow> (buffer \<times> bytes operation list) run" where
  "record_and_apply srt [] b = Some (b, [])"
| "record_and_apply srt (op # ops) b =
     (let b0 = b\<lparr>buf_history := history_push op (buf_history b)\<rparr>
      in if can_apply_op op b0 then do {
           b1 \<leftarrow> apply_op srt op b0;
           record_and_apply srt ops b1
         } else do {
           (b1, deferred) \<leftarrow> record_and_apply srt ops (defer_replica op b0);
           Some (b1, op # deferred)
         })"

definition apply_ops :: "undo_sort \<Rightarrow> bytes operation list \<Rightarrow> buffer \<Rightarrow> buffer run" where
  "apply_ops srt ops b = do {
     (b1, deferred) \<leftarrow> record_and_apply srt ops b;
     flush_deferred_ops srt (b1\<lparr>deferred_ops := queue_insert deferred (deferred_ops b1)\<rparr>)
   }"

definition has_deferred_ops :: "buffer \<Rightarrow> bool run" where
  "has_deferred_ops b = map_option Not (queue_is_empty (deferred_ops b))"

definition deferred_ops_len :: "buffer \<Rightarrow> nat run" where
  "deferred_ops_len b = queue_len (deferred_ops b)"

end
