(* ===== verification/Convergence.thy ===== *)
theory Convergence
  imports Concurrent_Edits Apply_Ops
begin

text \<open>
  Convergence. What matters of a snapshot is its document: its bytes, deleted ones included, with their deletions, and the undo counts.
  Operations act on documents; those that do not know of each other commute, so that replicas that have applied the same operations,
  each after what it depends on, have the same document.
\<close>

subsection \<open>Operations on documents\<close>

type_synonym doc = "cell list \<times> counts"

abbreviation edits_of :: "bytes edit_operation \<Rightarrow> remote_edit_list" where
  "edits_of e \<equiv> zip (edit_ranges e) (edit_new_text e)"

fun effect :: "bytes operation \<Rightarrow> doc \<Rightarrow> doc" where
  "effect (Edit e) (C, M) = (place_cells (edit_version e) M (edit_timestamp e) (new_at (edit_timestamp e) 0 (edits_of e))
     (deletes_at (edits_of e)) 0 (new_at (edit_timestamp e) 0 (edits_of e) 0) C, M)"
| "effect (Undo u) (C, M) = (C, \<lambda>(e, w). if w = undo_timestamp u \<and> e \<in> undone_edits u then map_of (undo_counts u) e else M (e, w))"

fun fits_doc :: "bytes operation \<Rightarrow> doc \<Rightarrow> bool" where
  "fits_doc (Edit e) (C, M) \<longleftrightarrow> edits_ok 0 (edits_of e) (length (filter (observed_cell (edit_version e)) C))
     \<and> (\<forall>c \<in> set C. observed_cell (edit_version e) c \<longrightarrow> cell_ts c < edit_timestamp e)"
| "fits_doc (Undo u) (C, M) \<longleftrightarrow> True"

definition same_doc :: "doc \<Rightarrow> doc \<Rightarrow> bool" where
  "same_doc d d' \<longleftrightarrow> map cell_view (fst d) = map cell_view (fst d') \<and> snd d = snd d'"

lemma same_doc_refl [simp]: "same_doc d d"
  by (simp add: same_doc_def)

lemma same_doc_trans: "same_doc d d' \<Longrightarrow> same_doc d' d'' \<Longrightarrow> same_doc d d''"
  by (simp add: same_doc_def)

lemma same_doc_sym: "same_doc d d' \<Longrightarrow> same_doc d' d"
  by (simp add: same_doc_def)

text \<open>Neither knows of the other.\<close>

definition concurrent :: "bytes operation \<Rightarrow> bytes operation \<Rightarrow> bool" where
  "concurrent a b \<longleftrightarrow> op_timestamp a \<noteq> op_timestamp b \<and> \<not> global_observed (op_version a) (op_timestamp b)
     \<and> \<not> global_observed (op_version b) (op_timestamp a)"

lemma concurrent_sym: "concurrent a b \<Longrightarrow> concurrent b a"
  by (auto simp: concurrent_def)

subsection \<open>What an effect depends on\<close>

lemma place_view:
  "map cell_view C = map cell_view C' \<Longrightarrow>
     map cell_view (place_cells v M ts new del k W C) = map cell_view (place_cells v M ts new del k W C')"
proof (induction C arbitrary: C' k W)
  case (Cons c C)
  then obtain c' D where D: "C' = c' # D" "cell_view c = cell_view c'" "map cell_view C = map cell_view D" by (cases C') auto
  then have "cell_ts c = cell_ts c'" by (simp add: cell_view_def)
  then have "cell_ts c = cell_ts c'" "observed_cell v c = observed_cell v c'" by (simp_all add: observed_cell_def)
  with Cons.IH [OF D(3)] D(2) mark_in_view [OF D(2)] show ?case by (simp add: D(1))
qed simp

lemma place_counts: "(\<And>e. undone_in v M e = undone_in v M' e) \<Longrightarrow> place_cells v M ts new del k W C = place_cells v M' ts new del k W C"
  by (induction C arbitrary: k W) (simp_all add: mark_in_def visible_in_def)

lemma undone_in_other:
  "\<not> global_observed v w \<Longrightarrow> (\<And>e x. x \<noteq> w \<Longrightarrow> M' (e, x) = M (e, x)) \<Longrightarrow> undone_in v M' e = undone_in v M e"
proof -
  assume a: "\<not> global_observed v w" "\<And>e x. x \<noteq> w \<Longrightarrow> M' (e, x) = M (e, x)"
  then have "{n. \<exists>u. global_observed v u \<and> M' (e, u) = Some n} = {n. \<exists>u. global_observed v u \<and> M (e, u) = Some n}" by metis
  then show ?thesis by (simp add: undone_in_def max_count_def)
qed

definition known_ts :: "global \<Rightarrow> cell list \<Rightarrow> lamport list" where
  "known_ts v C = map cell_ts (filter (observed_cell v) C)"

lemma known_ts_alt: "known_ts v C = filter (global_observed v) (map cell_ts C)"
  by (simp add: known_ts_def filter_map comp_def observed_cell_def [abs_def])

lemma fits_known: "fits_doc (Edit e) (C, M) \<longleftrightarrow> edits_ok 0 (edits_of e) (length (known_ts (edit_version e) C))
    \<and> (\<forall>t \<in> set (known_ts (edit_version e) C). t < edit_timestamp e)"
  by (auto simp: known_ts_def)

lemma known_ts_place:
  assumes "\<not> global_observed w ts" "\<forall>k. \<forall>c \<in> set (new k). cell_ts c = ts"
  shows "\<forall>c \<in> set W. cell_ts c = ts \<Longrightarrow> known_ts w (place_cells v M ts new del k W C) = known_ts w C"
proof (induction C arbitrary: k W)
  case Nil
  then show ?case using assms(1) by (auto simp: known_ts_def filter_empty_conv observed_cell_def)
next
  case (Cons c C)
  have app: "known_ts w (W @ X) = known_ts w X" for X
    using Cons.prems assms(1) by (auto simp: known_ts_def filter_empty_conv observed_cell_def)
  have cons: "known_ts w (d # X) = (if global_observed w (cell_ts d) then [cell_ts d] else []) @ known_ts w X" for d X
    by (simp add: known_ts_alt)
  have "known_ts w (place_cells v M ts new del j X C) = known_ts w C" if "X = W \<or> X = [] \<or> X = new (Suc k)" for j X
    using Cons.IH [of X j] Cons.prems that assms(2) by fastforce
  then show ?case by (simp add: cons app del: append.simps)
qed

lemma cells_view_ts: "map cell_view C = map cell_view C' \<Longrightarrow> map cell_ts C = map cell_ts C'"
proof -
  assume "map cell_view C = map cell_view C'"
  then have "map fst (map cell_view C) = map fst (map cell_view C')" by simp
  then show ?thesis by (simp add: cell_view_def comp_def)
qed

lemma fits_same: "same_doc d d' \<Longrightarrow> fits_doc op d = fits_doc op d'"
proof (cases op)
  case (Edit e)
  assume a: "same_doc d d'"
  obtain C M C' M' where d: "d = (C, M)" "d' = (C', M')" by (metis surj_pair)
  with a have "known_ts v C = known_ts v C'" for v using cells_view_ts [of C C'] by (simp add: same_doc_def known_ts_alt)
  then show ?thesis unfolding Edit d fits_known by simp
next
  case (Undo u)
  then show ?thesis by (cases d; cases d') simp
qed

lemma effect_same: "same_doc d d' \<Longrightarrow> same_doc (effect op d) (effect op d')"
  by (cases op; cases d; cases d') (auto simp: same_doc_def intro: place_view)

lemma fits_effect:
  assumes "\<not> global_observed (op_version b) (op_timestamp a)"
  shows "fits_doc b (effect a d) = fits_doc b d"
proof (cases b)
  case (Edit e)
  obtain C M where d: "d = (C, M)" by (metis surj_pair)
  show ?thesis
  proof (cases a)
    case a: (Edit x)
    let ?new = "new_at (edit_timestamp x) 0 (edits_of x)"
    have "known_ts (edit_version e) (fst (effect a d)) = known_ts (edit_version e) C"
      using assms Edit a d new_at_ts [of _ "edit_timestamp x"] by (simp add: known_ts_place)
    with fits_known [of e "fst (effect a d)" "snd (effect a d)"] fits_known [of e C M] Edit d show ?thesis by simp
  qed (simp add: Edit d)
next
  case (Undo u)
  then show ?thesis by (cases d; cases "effect a d") simp
qed

lemma effects_commute:
  assumes "concurrent a b" "fits_doc a d" "fits_doc b d"
  shows "same_doc (effect a (effect b d)) (effect b (effect a d))"
proof -
  obtain C M where d: "d = (C, M)" by (metis surj_pair)
  have edits: "same_doc (effect (Edit x) (effect (Edit y) d)) (effect (Edit y) (effect (Edit x) d))"
    if "concurrent (Edit x) (Edit y)" "fits_doc (Edit x) d" "fits_doc (Edit y) d" "edit_timestamp x < edit_timestamp y" for x y
    using that new_at_ts [of _ "edit_timestamp x"] new_at_ts [of _ "edit_timestamp y"]
    by (simp add: d same_doc_def concurrent_def) (rule place_commute, auto)
  have mixed: "same_doc (effect (Edit x) (effect (Undo u) d)) (effect (Undo u) (effect (Edit x) d))" if "concurrent (Edit x) (Undo u)" for x u
    using that by (auto simp: d same_doc_def concurrent_def intro!: arg_cong [of _ _ "map cell_view"] place_counts undone_in_other)
  show ?thesis
  proof (cases a; cases b)
    fix x y assume ab: "a = Edit x" "b = Edit y"
    then consider "edit_timestamp x < edit_timestamp y" | "edit_timestamp y < edit_timestamp x"
      using assms(1) by (fastforce simp: concurrent_def)
    then show ?thesis using edits [of x y] edits [of y x] assms concurrent_sym same_doc_sym unfolding ab by cases blast+
  next
    fix x u assume ab: "a = Edit x" "b = Undo u"
    then show ?thesis using mixed assms(1) by blast
  next
    fix x u assume ab: "a = Undo u" "b = Edit x"
    then show ?thesis using mixed [of x u] assms(1) concurrent_sym same_doc_sym by blast
  next
    fix u w assume ab: "a = Undo u" "b = Undo w"
    then show ?thesis using assms(1) by (auto simp: d same_doc_def concurrent_def)
  qed
qed

subsection \<open>Sequences of operations\<close>

definition run_doc :: "bytes operation list \<Rightarrow> doc \<Rightarrow> doc" where
  "run_doc ops d = fold effect ops d"

fun all_fit :: "bytes operation list \<Rightarrow> doc \<Rightarrow> bool" where
  "all_fit [] d \<longleftrightarrow> True"
| "all_fit (op # ops) d \<longleftrightarrow> fits_doc op d \<and> all_fit ops (effect op d)"

text \<open>No operation comes twice or before one it knows of.\<close>

fun in_order :: "bytes operation list \<Rightarrow> bool" where
  "in_order [] \<longleftrightarrow> True"
| "in_order (op # ops) \<longleftrightarrow> (\<forall>later \<in> set ops. op_timestamp later \<noteq> op_timestamp op \<and> \<not> global_observed (op_version op) (op_timestamp later))
     \<and> in_order ops"

lemma run_simps [simp]: "run_doc [] d = d" "run_doc (op # ops) d = run_doc ops (effect op d)"
  "run_doc (xs @ ys) d = run_doc ys (run_doc xs d)"
  by (simp_all add: run_doc_def)

lemma all_fit_append [simp]: "all_fit (xs @ ys) d \<longleftrightarrow> all_fit xs d \<and> all_fit ys (run_doc xs d)"
  by (induction xs arbitrary: d) auto

lemma run_same: "same_doc d d' \<Longrightarrow> all_fit ops d = all_fit ops d' \<and> same_doc (run_doc ops d) (run_doc ops d')"
proof (induction ops arbitrary: d d')
  case (Cons op ops)
  from Cons.IH [OF effect_same [OF Cons.prems]] fits_same [OF Cons.prems] show ?case by simp
qed simp

lemma in_order_append: "in_order (xs @ ys) \<longleftrightarrow> in_order xs \<and> in_order ys
    \<and> (\<forall>x \<in> set xs. \<forall>y \<in> set ys. op_timestamp y \<noteq> op_timestamp x \<and> \<not> global_observed (op_version x) (op_timestamp y))"
  by (induction xs) auto

text \<open>An operation that is concurrent with those before it could as well have come first.\<close>

lemma move_first:
  "\<forall>u \<in> set us. concurrent x u \<Longrightarrow> fits_doc x d \<Longrightarrow> all_fit (us @ vs) (effect x d) \<Longrightarrow>
     all_fit (us @ x # vs) d \<and> same_doc (run_doc (us @ vs) (effect x d)) (run_doc (us @ x # vs) d)"
proof (induction us arbitrary: d)
  case (Cons u us)
  have con: "concurrent x u" using Cons.prems(1) by simp
  then have u: "fits_doc u d" "fits_doc x (effect u d)"
    using Cons.prems(2,3) fits_effect [of u x] fits_effect [of x u] by (auto simp: concurrent_def)
  have swap: "same_doc (effect u (effect x d)) (effect x (effect u d))"
    using effects_commute [OF con Cons.prems(2) u(1)] by (rule same_doc_sym)
  from run_same [OF swap, of "us @ vs"] Cons.prems(3) have
    r: "all_fit (us @ vs) (effect x (effect u d))" "same_doc (run_doc (us @ vs) (effect u (effect x d))) (run_doc (us @ vs) (effect x (effect u d)))"
    by simp_all
  from Cons.IH [OF _ u(2) r(1)] Cons.prems(1) same_doc_trans [OF r(2)] u(1) show ?case by simp
qed simp

lemma orders_agree:
  "in_order xs \<Longrightarrow> in_order ys \<Longrightarrow> set xs = set ys \<Longrightarrow> all_fit xs d \<Longrightarrow> same_doc (run_doc xs d) (run_doc ys d) \<and> all_fit ys d"
proof (induction xs arbitrary: ys d)
  case (Cons x xs)
  then obtain us vs where ys: "ys = us @ x # vs" by (metis in_set_conv_decomp list.set_intros(1))
  have x: "x \<notin> set xs" "x \<notin> set us" "x \<notin> set vs" using Cons.prems(1,2) by (auto simp: ys in_order_append)
  then have set: "set xs = set (us @ vs)" using Cons.prems(3) by (auto simp: ys)
  have order: "in_order (us @ vs)" using Cons.prems(2) by (auto simp: ys in_order_append)
  have "concurrent x u" if "u \<in> set us" for u
    using that Cons.prems(1,2) set by (auto simp: ys in_order_append concurrent_def)
  from Cons.IH [OF _ order set] Cons.prems(1,4) have
    ih: "same_doc (run_doc xs (effect x d)) (run_doc (us @ vs) (effect x d))" "all_fit (us @ vs) (effect x d)" by auto
  from move_first [OF _ _ ih(2)] Cons.prems(4) \<open>\<And>u. u \<in> set us \<Longrightarrow> concurrent x u\<close> same_doc_trans [OF ih(1)] show ?case
    by (simp add: ys)
qed simp

end
