(* ===== verification/Local_Cells.thy ===== *)
theory Local_Cells
  imports Convergence
begin

text \<open>
  A local edit does to the bytes what the operation it sends does to those of a replica that has observed the same.
\<close>

subsection \<open>The loop of a local edit, byte by byte\<close>

definition loc_rest :: "edit_state \<Rightarrow> cell list" where
  "loc_rest st = drop (st_start st - cur_visible (st_cursor st)) (cells (cur_rest (st_cursor st)))"

text \<open>The full offset of the position, deleted bytes included.\<close>

definition loc_full :: "edit_state \<Rightarrow> nat" where
  "loc_full st = st_start st + cur_deleted (st_cursor st)"

definition loc_moved :: "edit_state \<Rightarrow> edit_state \<Rightarrow> cell list \<Rightarrow> cell list \<Rightarrow> bool" where
  "loc_moved st st' A X \<longleftrightarrow> loc_rest st = A @ loc_rest st' \<and> cells (st_fragments st') = cells (st_fragments st) @ X
     \<and> loc_full st' = loc_full st + length A"

lemma loc_moved_refl [simp]: "loc_moved st st [] []"
  by (simp add: loc_moved_def)

lemma loc_moved_trans: "loc_moved st st1 A X \<Longrightarrow> loc_moved st1 st2 B Y \<Longrightarrow> loc_moved st st2 (A @ B) (X @ Y)"
  by (simp add: loc_moved_def)

definition delete_visible :: "lamport \<Rightarrow> cell \<Rightarrow> cell" where
  "delete_visible ts c = (if cell_visible c then delete_cell ts c else c)"

lemma length_cells: "length (cells fs) = sum_list (map vis_len fs) + sum_list (map del_len fs)"
  by (induction fs) (simp_all add: vis_len_def del_len_def)

lemma slice_right_deleted: "slice_right target v d fs = (us, c) \<Longrightarrow> cur_deleted c = d + sum_list (map del_len us)"
  by (induction target v d fs arbitrary: us rule: slice_right.induct) (auto split: if_splits prod.splits)

text \<open>The current fragment is visible where it is partly consumed.\<close>

lemma edit_inv_head:
  assumes "edit_inv ins V st" "cur_rest (st_cursor st) = f # fs"
  shows "cur_visible (st_cursor st) \<le> st_start st" "0 < frag_len f"
    "cur_visible (st_cursor st) < st_start st \<longrightarrow> frag_visible f" "st_start st - cur_visible (st_cursor st) \<le> frag_len f"
  using assms by (auto simp: edit_inv_def editing_def frag_wf_def)

lemma part_cells:
  assumes "frag_timestamp g = frag_timestamp f" "frag_offset g = frag_offset f + k" "frag_len g = m" "k + m \<le> frag_len f"
    and "frag_visible g = frag_visible f" "frag_deletions g = frag_deletions f"
  shows "drop k (cells (f # fs)) = cells_of g @ drop (k + m) (cells (f # fs))"
proof -
  have "drop k (cells (f # fs)) = take m (drop k (cells_of f)) @ drop (k + m) (cells (f # fs))"
    using assms(4) by simp (metis add.commute append_assoc append_take_drop_id drop_drop)
  then show ?thesis using cells_of_part [OF assms] by simp
qed

text \<open>After \<open>push_suffix\<close> the position is the start of the cursor.\<close>

lemma push_suffix_cells:
  assumes "edit_inv ins V st" "push_suffix st = Some st1"
  shows "\<exists>A. loc_moved st (st1\<lparr>st_start := cur_visible (st_cursor st1)\<rparr>) A A"
proof (cases "st_start st > cur_visible (st_cursor st)")
  case False
  with assms show ?thesis
    by (intro exI [of _ "[]"]) (auto simp: push_suffix_def Let_def loc_moved_def loc_rest_def loc_full_def edit_inv_def)
next
  case True
  let ?c = "st_cursor st" and ?k = "st_start st - cur_visible (st_cursor st)"
  from True assms(1) obtain f fs where r: "cur_rest ?c = f # fs" by (cases "cur_rest ?c") (auto simp: editing_def edit_inv_def)
  note h = edit_inv_head [OF assms(1) r]
  have vis: "frag_visible f" using h(3) True by blast
  have fe: "frag_end ?c = cur_visible ?c + frag_len f"
    and nx: "frag_next ?c = \<lparr>cur_visible = cur_visible ?c + frag_len f, cur_deleted = cur_deleted ?c, cur_rest = fs\<rparr>"
    using r vis by (simp_all add: frag_end_def vis_len_def del_len_def frag_next_def)
  show ?thesis
  proof (cases "frag_end ?c > st_start st")
    case False
    then have "?k = frag_len f" "frag_end ?c = st_start st" using h(4) fe True by simp_all
    with False True assms(2) nx r fe show ?thesis
      by (intro exI [of _ "[]"]) (auto simp: push_suffix_def Let_def loc_moved_def loc_rest_def loc_full_def)
  next
    case gt: True
    let ?m = "frag_end ?c - st_start st"
    let ?g = "f\<lparr>frag_len := ?m, frag_offset := frag_offset f + ?k\<rparr>"
    have m: "?k + ?m \<le> frag_len f" "?k + ?m = frag_len f" "st_start st + ?m = cur_visible ?c + frag_len f" using gt True fe h(4) by simp_all
    have "drop ?k (cells (f # fs)) = cells_of ?g @ drop (?k + ?m) (cells (f # fs))" by (rule part_cells) (use m(1) in simp_all)
    moreover have "drop (?k + ?m) (cells (f # fs)) = cells fs" unfolding m(2) by simp
    ultimately show ?thesis using gt True assms(2) r nx m(3)
      by (intro exI [of _ "cells_of ?g"]) (auto simp: push_suffix_def Let_def frag_item_def loc_moved_def loc_rest_def loc_full_def)
  qed
qed

lemma skip_to_cells:
  assumes "edit_inv ins V st" "skip_to s st = Some st'"
  shows "\<exists>A. loc_moved st st' A A"
proof (cases "frag_end (st_cursor st) < s")
  case True
  from push_suffix_ok [OF assms(1)] obtain st1 where s1: "push_suffix st = Some st1" by blast
  from push_suffix_cells [OF assms(1) s1] obtain A where A: "loc_moved st (st1\<lparr>st_start := cur_visible (st_cursor st1)\<rparr>) A A" by blast
  obtain us c where sl: "frag_slice s (st_cursor st1) = (us, c)" by fastforce
  note ok = slice_right_ok [OF sl [unfolded frag_slice_def]] slice_right_deleted [OF sl [unfolded frag_slice_def]]
  have "loc_moved (st1\<lparr>st_start := cur_visible (st_cursor st1)\<rparr>) st' (cells us) (cells us)"
    using assms(2) True s1 sl ok by (auto simp: skip_to_def loc_moved_def loc_rest_def loc_full_def length_cells)
  from loc_moved_trans [OF A this] show ?thesis by blast
next
  case False
  with assms have "st' = st" by (simp add: skip_to_def)
  then show ?thesis using loc_moved_refl by blast
qed

lemma push_prefix_cells:
  assumes "edit_inv ins V st" "s \<le> frag_end (st_cursor st)" "push_prefix s st = Some st'"
  shows "\<exists>A. loc_moved st st' A A"
proof (cases "st_start st < s")
  case True
  let ?c = "st_cursor st" and ?k = "st_start st - cur_visible (st_cursor st)" and ?m = "s - st_start st"
  have le: "cur_visible ?c \<le> st_start st" using assms(1) by (simp add: edit_inv_def)
  obtain f fs where r: "cur_rest ?c = f # fs" "frag_visible f" "s \<le> cur_visible ?c + frag_len f"
    using True assms(2) le by (cases "cur_rest ?c") (auto simp: frag_end_def vis_len_def split: if_splits)
  let ?g = "f\<lparr>frag_len := ?m, frag_offset := frag_offset f + ?k,
      frag_id := between (fs_max_id (builder_summary (st_fragments st))) (frag_id f)\<rparr>"
  have m: "?k + ?m \<le> frag_len f" "?k + ?m = s - cur_visible ?c" using True r(3) le by simp_all
  have "drop ?k (cells (f # fs)) = cells_of ?g @ drop (?k + ?m) (cells (f # fs))" by (rule part_cells) (use m(1) in simp_all)
  then show ?thesis using True assms(3) r m(2) le
    by (intro exI [of _ "cells_of ?g"]) (auto simp: push_prefix_def Let_def frag_item_def loc_moved_def loc_rest_def loc_full_def)
next
  case False
  with assms have "st' = st" by (simp add: push_prefix_def)
  then show ?thesis using loc_moved_refl by blast
qed

lemma push_insertion_cells:
  assumes "length t \<le> MAX_INSERTION_LEN" "push_insertion t ts st = Some st'"
  shows "loc_moved st st' [] (new_cells ts (st_offset st) (length t)) \<and> st_cursor st' = st_cursor st \<and> st_ranges st' = st_ranges st"
proof (cases "t = []")
  case False
  then show ?thesis using assms(2)
    by (auto simp: push_insertion_def push_fragments_for_insertion_def insertion_loop_single [OF False assms(1)] Let_def
        loc_moved_def loc_rest_def loc_full_def cells_of_def new_cells_def)
qed (use assms in \<open>simp add: push_insertion_def new_cells_def\<close>)

lemma delete_step_cells:
  assumes "edit_inv ins V st" "st_start st < e" "cur_rest (st_cursor st) = f # fs"
  shows "\<exists>A. loc_moved st (delete_step ts e f st) A (map (delete_visible ts) A)"
proof -
  let ?c = "st_cursor st" and ?k = "st_start st - cur_visible (st_cursor st)"
  note h = edit_inv_head [OF assms(1,3)]
  have fe: "frag_end ?c = cur_visible ?c + vis_len f" and nx: "frag_next ?c = \<lparr>cur_visible = cur_visible ?c + vis_len f,
      cur_deleted = cur_deleted ?c + del_len f, cur_rest = fs\<rparr>"
    using assms(3) by (simp_all add: frag_end_def frag_next_def)
  show ?thesis
  proof (cases "frag_visible f")
    case False
    then have k: "cur_visible ?c = st_start st" using h(1,3) by auto
    have "map (delete_visible ts) (cells_of f) = cells_of f"
      using False by (intro map_idI) (auto simp: delete_visible_def dest: in_cells_of)
    then show ?thesis using False k assms(2,3) h(2) fe nx
      by (intro exI [of _ "cells_of f"])
        (simp add: delete_step_def Let_def loc_moved_def loc_rest_def loc_full_def vis_len_def del_len_def)
  next
    case vis: True
    let ?ie = "min e (frag_end ?c)" and ?g = "f\<lparr>frag_len := min e (frag_end ?c) - st_start st, frag_offset := frag_offset f + ?k,
        frag_id := between (fs_max_id (builder_summary (st_fragments st))) (frag_id f),
        frag_deletions := frag_deletions f @ [ts], frag_visible := False\<rparr>"
    let ?m = "?ie - st_start st"
    have fe': "frag_end ?c = cur_visible ?c + frag_len f" using fe vis by (simp add: vis_len_def)
    have sle: "st_start st \<le> frag_end ?c" using h(1,4) fe' by linarith
    have nx': "frag_next ?c = \<lparr>cur_visible = cur_visible ?c + frag_len f, cur_deleted = cur_deleted ?c, cur_rest = fs\<rparr>"
      using nx vis by (simp add: vis_len_def del_len_def)
    show ?thesis
    proof (cases "?m > 0")
      case True
      let ?A = "take ?m (drop ?k (cells_of f))"
      have m: "?k + ?m \<le> frag_len f" using fe' h(1) sle min.cobounded2 [of e "frag_end ?c"] by arith
      have "\<forall>c \<in> set ?A. cell_visible c" using vis by (auto dest!: in_set_takeD in_set_dropD in_cells_of)
      then have marks: "cells_of ?g = map (delete_visible ts) ?A"
        using cells_of_part_deleted [of ?g f ?k ?m ts] m by (simp add: part_of_def delete_visible_def)
      have cut: "drop ?k (cells (f # fs)) = ?A @ drop (?k + ?m) (cells (f # fs))"
        using m by simp (metis add.commute append_assoc append_take_drop_id drop_drop)
      have len: "length ?A = ?m" using m by simp
      show ?thesis
      proof (cases "frag_end ?c \<le> e")
        case full: True
        then have "?k + ?m = frag_len f" "st_start st + ?m = cur_visible ?c + frag_len f" using fe' h(1) sle by simp_all
        then have "drop ?k (cells (f # fs)) = ?A @ cells fs" using cut by simp
        with True full vis nx' fe' assms(3) marks len \<open>st_start st + ?m = _\<close> show ?thesis
          by (intro exI [of _ ?A]) (simp add: delete_step_def Let_def loc_moved_def loc_rest_def loc_full_def min_absorb2)
      next
        case part: False
        then have "?k + ?m = e - cur_visible ?c" "st_start st + ?m = e" using h(1) True by simp_all
        with True part vis assms(3) cut marks len show ?thesis
          by (intro exI [of _ ?A]) (simp add: delete_step_def Let_def loc_moved_def loc_rest_def loc_full_def min_absorb1)
      qed
    next
      case False
      then have full: "frag_end ?c = st_start st" "frag_end ?c \<le> e" using sle assms(2) by auto
      then have "?k = frag_len f" using fe' h(1) by simp
      with False full vis nx' fe' assms(2,3) show ?thesis
        by (intro exI [of _ "[]"]) (simp add: delete_step_def Let_def loc_moved_def loc_rest_def loc_full_def)
    qed
  qed
qed

lemma delete_loop_cells:
  "edit_inv ins V st \<Longrightarrow> st_start st \<le> e \<Longrightarrow> e \<le> length V \<Longrightarrow> delete_loop ts e st = Some st' \<Longrightarrow>
     \<exists>A. loc_moved st st' A (map (delete_visible ts) A)"
proof (induction "length (cur_rest (st_cursor st))" arbitrary: st rule: less_induct)
  case less
  show ?case
  proof (cases "st_start st < e")
    case True
    then obtain f fs where r: "cur_rest (st_cursor st) = f # fs"
      using less.prems editing_at_end by (cases "cur_rest (st_cursor st)") (fastforce simp: edit_inv_def)+
    let ?st = "delete_step ts e f st"
    from delete_step_ok [OF less.prems(1) True r, of ts] have step: "edit_inv ins V ?st"
      "st_start ?st \<le> e" "st_start ?st = e \<or> cur_rest (st_cursor ?st) = fs" by blast+
    from delete_step_cells [OF less.prems(1) True r] obtain A where A: "loc_moved st ?st A (map (delete_visible ts) A)" by blast
    have unfold: "delete_loop ts e ?st = Some st'" using less.prems(4) True r by (subst (asm) delete_loop.simps) (simp add: frag_item_def)
    show ?thesis
    proof (cases "st_start ?st = e")
      case True
      with unfold have "st' = ?st" by (subst (asm) delete_loop.simps) simp
      with A show ?thesis by blast
    next
      case False
      with step r have "length (cur_rest (st_cursor ?st)) < length (cur_rest (st_cursor st))" by simp
      from less.hyps [OF this step(1,2) less.prems(3) unfold] obtain B where "loc_moved ?st st' B (map (delete_visible ts) B)" by blast
      from loc_moved_trans [OF A this] show ?thesis by (metis map_append)
    qed
  next
    case False
    with less.prems(4) have "st' = st" by (subst (asm) delete_loop.simps) simp
    then show ?thesis using loc_moved_refl by (metis list.simps(8))
  qed
qed

subsection \<open>The recorded ranges\<close>

text \<open>\<open>off\<close> bytes have been inserted and \<open>pos\<close> consumed.\<close>

fun local_cells :: "lamport \<Rightarrow> nat \<Rightarrow> nat \<Rightarrow> remote_edit_list \<Rightarrow> cell list \<Rightarrow> cell list" where
  "local_cells ts off pos [] C = C"
| "local_cells ts off pos (((s, e), t) # es) C =
     take (s - pos) C @ new_cells ts off (length t) @ map (delete_visible ts) (take (e - s) (drop (s - pos) C))
       @ local_cells ts (off + length t) e es (drop (e - s) (drop (s - pos) C))"

lemma apply_one_edit_cells:
  assumes "edit_inv ins V st" "st_start st \<le> s" "s \<le> e" "e \<le> length V"
    and "length (normalize_text t) \<le> MAX_INSERTION_LEN" "ins ts = P @ normalize_text t @ Q" "length P = st_offset st"
    and "apply_one_edit ts ((s, e), t) st = Some st'"
  shows "\<exists>A D. loc_moved st st' (A @ D) (A @ new_cells ts (st_offset st) (length (normalize_text t)) @ map (delete_visible ts) D)
    \<and> st_ranges st' = st_ranges st @ [(loc_full st + length A, loc_full st + length A + length D)]"
proof -
  from assms have sV: "s \<le> length V" by simp
  from skip_to_ok [OF assms(1,2) sV] obtain st1 where s1: "skip_to s st = Some st1" "same_log st st1" "edit_inv ins V st1"
    "st_start st1 \<le> s" "s \<le> frag_end (st_cursor st1)" by blast
  from push_prefix_ok [OF s1(3,4,5)] obtain st2 where s2: "push_prefix s st1 = Some st2" "same_log st1 st2" "edit_inv ins V st2"
    "st_start st2 = s" "st_cursor st2 = st_cursor st1" by blast
  have "length P = st_offset st2" using assms(7) s1(2) s2(2) by (simp add: same_log_def)
  from push_insertion_ok [OF s2(3) assms(5,6) this] obtain st3 where s3: "push_insertion (normalize_text t) ts st2 = Some st3"
    "edit_inv ins V st3" "st_start st3 = st_start st2" by blast
  have le: "st_start st3 \<le> e" using s3(3) s2(4) assms(3) by simp
  from delete_loop_ok [OF s3(2) this assms(4), of ts] obtain st4 where s4: "delete_loop ts e st3 = Some st4" "same_log st3 st4" "st_start st4 = e" by blast
  from skip_to_cells [OF assms(1) s1(1)] obtain A1 where m1: "loc_moved st st1 A1 A1" by blast
  from push_prefix_cells [OF s1(3,5) s2(1)] obtain A2 where m2: "loc_moved st1 st2 A2 A2" by blast
  note m3 = push_insertion_cells [OF assms(5) s3(1)]
  from delete_loop_cells [OF s3(2) le assms(4) s4(1)] obtain D where m4: "loc_moved st3 st4 D (map (delete_visible ts) D)" by blast
  let ?A = "A1 @ A2"
  have m12: "loc_moved st st2 ?A ?A" using loc_moved_trans [OF m1 m2] .
  have "st_offset st2 = st_offset st" using s1(2) s2(2) by (simp add: same_log_def)
  then have "loc_moved st st4 (?A @ D) (?A @ new_cells ts (st_offset st) (length (normalize_text t)) @ map (delete_visible ts) D)"
    using loc_moved_trans [OF m12 loc_moved_trans [OF conjunct1 [OF m3] m4]] by simp
  moreover from this have "e + cur_deleted (st_cursor st4) = loc_full st + length ?A + length D" using s4(3) by (simp add: loc_moved_def loc_full_def)
  moreover have "s + cur_deleted (st_cursor st1) = loc_full st + length ?A" using m12 s2(4,5) by (simp add: loc_moved_def loc_full_def)
  moreover have "st_ranges st4 = st_ranges st" using s1(2) s2(2) m3 s4(2) by (simp add: same_log_def)
  moreover have "st' = st4\<lparr>st_ranges := st_ranges st4 @ [(s + cur_deleted (st_cursor st1), e + cur_deleted (st_cursor st4))],
      st_texts := st_texts st4 @ [normalize_text t]\<rparr>"
    using assms(8) s1(1) s2(1) s3(1) s4(1) by (simp add: apply_one_edit_def Let_def)
  ultimately show ?thesis
    by (intro exI [of _ ?A] exI [of _ D]) (simp add: loc_moved_def loc_rest_def loc_full_def)
qed

lemma apply_edits_cells:
  "edit_inv ins V st \<Longrightarrow> edits_ok (st_start st) es (length V) \<Longrightarrow> length (inserted es) \<le> MAX_INSERTION_LEN \<Longrightarrow>
     ins ts = P @ inserted es \<Longrightarrow> length P = st_offset st \<Longrightarrow> apply_edits ts es st = Some st' \<Longrightarrow>
     \<exists>rs. st_ranges st' = st_ranges st @ rs \<and> length rs = length es
       \<and> edits_ok (loc_full st) (zip rs (map (normalize_text \<circ> snd) es)) (loc_full st + length (loc_rest st))
       \<and> cells (st_fragments st') @ loc_rest st' =
         cells (st_fragments st) @ local_cells ts (st_offset st) (loc_full st) (zip rs (map (normalize_text \<circ> snd) es)) (loc_rest st)"
proof (induction es arbitrary: st P)
  case (Cons edit es)
  obtain s e t where edit: "edit = ((s, e), t)" by (metis surj_pair)
  let ?t = "normalize_text t" and ?ts = "map (normalize_text \<circ> snd) es"
  have ok: "st_start st \<le> s" "s \<le> e" "e \<le> length V" "edits_ok e es (length V)" "length ?t \<le> MAX_INSERTION_LEN"
    "ins ts = P @ ?t @ inserted es" using Cons.prems edit by auto
  from apply_one_edit_ok [OF Cons.prems(1) ok(1-3,5,6) Cons.prems(5)] obtain st1 where
    s1: "apply_one_edit ts ((s, e), t) st = Some st1" "edit_inv ins V st1" "st_start st1 = e" "st_offset st1 = st_offset st + length ?t" by blast
  from apply_one_edit_cells [OF Cons.prems(1) ok(1-3,5,6) Cons.prems(5) s1(1)] obtain A D where
    m: "loc_moved st st1 (A @ D) (A @ new_cells ts (st_offset st) (length ?t) @ map (delete_visible ts) D)"
      "st_ranges st1 = st_ranges st @ [(loc_full st + length A, loc_full st + length A + length D)]" by blast
  have "edits_ok (st_start st1) es (length V)" "length (inserted es) \<le> MAX_INSERTION_LEN" "ins ts = (P @ ?t) @ inserted es"
    "length (P @ ?t) = st_offset st1" "apply_edits ts es st1 = Some st'"
    using ok(4,6) s1(1,3,4) Cons.prems(3,5,6) edit by simp_all
  from Cons.IH [OF s1(2) this] obtain rs where
    r: "st_ranges st' = st_ranges st1 @ rs" "length rs = length es" "edits_ok (loc_full st1) (zip rs ?ts) (loc_full st1 + length (loc_rest st1))"
      "cells (st_fragments st') @ loc_rest st' = cells (st_fragments st1) @ local_cells ts (st_offset st1) (loc_full st1) (zip rs ?ts) (loc_rest st1)"
    by blast
  let ?rs = "(loc_full st + length A, loc_full st + length A + length D) # rs"
  have full: "loc_full st1 = loc_full st + length A + length D" and rest: "loc_rest st = A @ D @ loc_rest st1"
    using m(1) by (simp_all add: loc_moved_def)
  have "edits_ok (loc_full st) (zip ?rs (map (normalize_text \<circ> snd) (edit # es))) (loc_full st + length (loc_rest st))"
    using r(3) by (simp add: full rest edit add.assoc)
  moreover have "cells (st_fragments st') @ loc_rest st' =
      cells (st_fragments st) @ local_cells ts (st_offset st) (loc_full st) (zip ?rs (map (normalize_text \<circ> snd) (edit # es))) (loc_rest st)"
    using r(4) m(1) s1(4) by (simp add: full rest edit loc_moved_def)
  moreover have "st_ranges st' = st_ranges st @ ?rs" "length ?rs = length (edit # es)" using r(1,2) m(2) by simp_all
  ultimately show ?case by blast
qed (auto simp: loc_moved_def)

lemma local_cells_prefix:
  "edits_ok (length U) es n \<Longrightarrow> U @ local_cells ts off (length U) es C = local_cells ts off 0 es (U @ C)"
  by (cases "(ts, off, length U, es, C)" rule: local_cells.cases) auto

lemma apply_edit_internal_cells:
  assumes "snapshot_ok ins snap" "edits_ok 0 edits (length (visible_text snap))" "fresh ts (fragments snap)"
    and "length (inserted edits) \<le> MAX_INSERTION_LEN" "apply_edit_internal edits ts snap = Some (snap', op, p)"
  shows "length (edit_ranges op) = length (edit_new_text op) \<and> edits_ok 0 (edits_of op) (length (cells (fragments snap)))
    \<and> cells (fragments snap') = local_cells ts 0 0 (edits_of op) (cells (fragments snap))"
proof (cases edits)
  case Nil
  then show ?thesis using assms(5) by (auto simp: apply_edit_internal_def)
next
  case (Cons edit es)
  let ?V = "visible_text snap" and ?ins = "ins(ts := inserted edits)" and ?F = "fragments snap"
  obtain s e t where edits: "edits = ((s, e), t) # es" using Cons by (metis surj_pair)
  let ?st = "edit_start s snap"
  have "\<forall>f \<in> set ?F. frag_timestamp f \<noteq> ts" using assms(3) by (simp add: fresh_def)
  note start = edit_start_ok [OF snapshot_ok_fresh [OF assms(1) this, of "inserted edits"], of s]
  have ok: "edits_ok (st_start ?st) edits (length ?V)" using assms(2) start edits by simp
  from apply_edits_ok [OF _ ok assms(4), of ?ins ts "[]"] start obtain st where
    st: "apply_edits ts edits ?st = Some st" "edit_inv ?ins ?V st" "st_texts st = map (normalize_text \<circ> snd) edits" by auto
  obtain us c where sl: "frag_slice s (frag_cursor_new ?F) = (us, c)" by fastforce
  note sl_ok = slice_right_ok [OF sl [unfolded frag_slice_def]] slice_right_deleted [OF sl [unfolded frag_slice_def]]
  have s0: "st_fragments ?st = us" "loc_rest ?st = cells (cur_rest c)" "loc_full ?st = length (cells us)" "cells ?F = cells us @ cells (cur_rest c)"
    "st_ranges ?st = []" "st_offset ?st = 0"
    using sl sl_ok by (simp_all add: edit_start_def loc_rest_def loc_full_def length_cells frag_cursor_new_def)
  from apply_edits_cells [OF _ ok assms(4) _ _ st(1), of ?ins "[]"] start obtain rs where
    rs: "st_ranges st = rs" "length rs = length edits" "edits_ok (loc_full ?st) (zip rs (st_texts st)) (loc_full ?st + length (loc_rest ?st))"
      "cells (st_fragments st) @ loc_rest st = cells us @ local_cells ts 0 (loc_full ?st) (zip rs (st_texts st)) (loc_rest ?st)"
    using s0 st(3) by auto
  from push_suffix_ok [OF st(2)] obtain st1 where s1: "push_suffix st = Some st1" by blast
  from push_suffix_cells [OF st(2) s1] have "cells (st_fragments st1) @ cells (cur_rest (st_cursor st1)) = cells (st_fragments st) @ loc_rest st"
    by (auto simp: loc_moved_def loc_rest_def)
  moreover have "edit_finish st snap = Some snap'" "edit_ranges op = rs" "edit_new_text op = st_texts st"
    using assms(5) st(1) rs(1) unfolding apply_edit_internal_def edits
    by (simp_all del: apply_edits.simps) (auto split: bind_splits)
  moreover from this(1) have "fragments snap' = st_fragments st1 @ cur_rest (st_cursor st1)"
    using s1 by (auto simp: edit_finish_def Let_def split: prod.splits)
  moreover have "edits_ok 0 (zip rs (st_texts st)) (length (cells ?F))"
    using rs(3) s0 by (cases "zip rs (st_texts st)" rule: list.exhaust) (auto simp: case_prod_unfold)
  ultimately show ?thesis using rs(2-4) st(3) s0 local_cells_prefix [OF rs(3) [unfolded s0(3)], of ts 0 "cells (cur_rest c)"] by simp
qed

end
