(* ===== verification/Queue_Proofs.thy ===== *)
theory Queue_Proofs
  imports Apply_Ops Buffer_Invariant
begin

text \<open>
  The operation queue holds each operation once, in the order of timestamps, and never fails the assertions of its summaries.
\<close>

lemma set_dedup: "set (dedup_by_key key xs) \<subseteq> set xs" "key ` set (dedup_by_key key xs) = key ` set xs"
  by (induction key xs rule: dedup_by_key.induct) auto

lemma dedup_sorted: "sorted (map key xs) \<Longrightarrow> sorted_keys key (dedup_by_key key xs)"
proof (induction key xs rule: dedup_by_key.induct)
  case (1 key x y xs)
  show ?case
  proof (cases "key x = key y")
    case False
    then have lt: "key x < key y" using 1(3) by (auto simp: order.strict_iff_order)
    have "key x < key z" if "z \<in> set (dedup_by_key key (y # xs))" for z
    proof -
      have "z \<in> set (y # xs)" using that set_dedup(1) [of key "y # xs"] by blast
      then show ?thesis using lt 1(3) by auto
    qed
    with False 1 show ?thesis by simp
  qed (use 1 in simp)
qed simp_all

lemma sort_key_sorted_keys:
  assumes "sorted_keys key xs"
  shows "sort_key key xs = xs"
proof (rule sort_key_id_if_sorted)
  have "sorted_wrt (<) (map key xs)" using assms by (simp add: sorted_keys_def sorted_wrt_map)
  then show "sorted (map key xs)" by (simp add: strict_sorted_iff)
qed

lemma queue_insert_sorted:
  assumes "sorted_keys op_timestamp q"
  shows "sorted_keys op_timestamp (queue_insert ops q)"
proof -
  define xs where "xs = dedup_by_key op_timestamp (sort_key op_timestamp ops)"
  have so: "sorted_keys op_timestamp xs" unfolding xs_def by (rule dedup_sorted) simp
  then have "distinct (map op_timestamp xs)" by (simp add: sorted_keys_def sorted_wrt_map [symmetric] strict_sorted_iff)
  from edit_items_inserts(1) [OF assms this] sort_key_sorted_keys [OF so] show ?thesis
    by (simp add: queue_insert_def xs_def [symmetric])
qed

lemma queue_insert_ok:
  assumes "sorted_keys op_timestamp q" "inj_on op_timestamp (set ops \<union> set q)"
  shows "set (queue_insert ops q) = set ops \<union> set q"
proof -
  define xs where "xs = dedup_by_key op_timestamp (sort_key op_timestamp ops)"
  have sub: "set xs \<subseteq> set ops" "op_timestamp ` set xs = op_timestamp ` set ops"
    using set_dedup [of op_timestamp "sort_key op_timestamp ops"] by (simp_all add: xs_def)
  have "set ops \<subseteq> set xs"
  proof
    fix x assume x: "x \<in> set ops"
    then obtain y where "y \<in> set xs" "op_timestamp x = op_timestamp y" using sub(2) by (metis image_iff)
    then show "x \<in> set xs" using assms(2) sub(1) x by (auto simp: inj_on_def)
  qed
  with sub(1) have xs: "set xs = set ops" by simp
  have so: "sorted_keys op_timestamp xs" unfolding xs_def by (rule dedup_sorted) simp
  then have "distinct (map op_timestamp xs)" by (simp add: sorted_keys_def sorted_wrt_map [symmetric] strict_sorted_iff)
  from edit_items_inserts(2) [OF assms(1) this] sort_key_sorted_keys [OF so]
  have "set (queue_insert ops q) = set xs \<union> {x \<in> set q. op_timestamp x \<notin> op_timestamp ` set xs}"
    by (simp add: queue_insert_def xs_def [symmetric])
  also have "\<dots> = set ops \<union> set q"
    unfolding xs using assms(2) by (auto simp: inj_on_def image_iff)
  finally show ?thesis .
qed

lemma queue_summary_ok:
  "sorted_keys op_timestamp q \<Longrightarrow> \<forall>op \<in> set q. os_key s < op_timestamp op \<Longrightarrow>
     \<exists>k. queue_summary_from s q = Some \<lparr>os_key = k, os_len = os_len s + length q\<rparr>"
proof (induction q arbitrary: s)
  case Nil
  then show ?case by (cases s) simp
next
  case (Cons op q)
  then show ?case using Cons.IH [of "\<lparr>os_key = op_timestamp op, os_len = os_len s + 1\<rparr>"]
    by (simp add: operation_summary_add_def operation_summary_of_def rust_assert_def)
qed

end
