(* ===== verification/Stack_Edits.thy ===== *)
theory Stack_Edits
  imports History
begin

text \<open>
  The edits on the stacks of a history. Only \<open>push_undo\<close> and \<open>push_transaction\<close> put new edits on a stack; all other operations
  rearrange those that are there, without looking at the operations the history has recorded. So what holds of the edits on the
  stacks, such as that the buffer has observed them, is kept.
\<close>

inductive history_move :: "('base, 'text) history \<Rightarrow> ('base, 'text) history \<Rightarrow> bool" where
  start: "start_transaction v now clock h = (h1, clock1, tid) \<Longrightarrow> history_move h h1"
| finish: "end_transaction now h = Some (h1, e) \<Longrightarrow> history_move h h1"
| group: "group h = Some (h1, tid) \<Longrightarrow> history_move h h1"
| group_until: "group_until tid h = Some h1 \<Longrightarrow> history_move h h1"
| finalize: "finalize_last_transaction h = (h1, t) \<Longrightarrow> history_move h h1"
| push_empty: "push_empty_transaction v now clock h = Some (h1, clock1, tid) \<Longrightarrow> history_move h h1"
| pop_undo: "pop_undo h = Some (h1, e) \<Longrightarrow> history_move h h1"
| remove_undo: "remove_from_undo tid h = Some (h1, e) \<Longrightarrow> history_move h h1"
| remove_undo_until: "remove_from_undo_until tid h = Some (h1, es) \<Longrightarrow> history_move h h1"
| forget: "forget tid h = Some (h1, t) \<Longrightarrow> history_move h h1"
| merge: "merge_transactions tid dest h = Some h1 \<Longrightarrow> history_move h h1"
| pop_redo: "pop_redo h = Some (h1, e) \<Longrightarrow> history_move h h1"
| remove_redo: "remove_from_redo tid h = Some (h1, es) \<Longrightarrow> history_move h h1"

lemma history_move_step: "history_move h h1 \<Longrightarrow> history_step h h1"
  by (induction rule: history_move.induct) (auto intro: history_step.intros)

lemma end_transaction_operations:
  "end_transaction now (h\<lparr>operations := m\<rparr>) = map_option (\<lambda>(h, e). (h\<lparr>operations := m\<rparr>, e)) (end_transaction now h)"
  by (cases "vec_last (undo_stack h)") (simp_all add: end_transaction_def rust_assert_def Let_def)

lemma group_trailing_operations:
  "group_trailing n (h\<lparr>operations := m\<rparr>) = map_option (\<lambda>(h, t). (h\<lparr>operations := m\<rparr>, t)) (group_trailing n h)"
  by (simp add: group_trailing_def Let_def)

lemma forget_operations: "forget tid (h\<lparr>operations := m\<rparr>) = map_option (\<lambda>(h, t). (h\<lparr>operations := m\<rparr>, t)) (forget tid h)"
  by (auto simp: forget_def rust_assert_def split: option.split)

lemma transaction_mut_operations: "transaction_mut tid f (h\<lparr>operations := m\<rparr>) = (transaction_mut tid f h)\<lparr>operations := m\<rparr>"
  by (auto simp: transaction_mut_def split: option.split)

lemma history_move_operations: "history_move h h1 \<Longrightarrow> history_move (h\<lparr>operations := m\<rparr>) (h1\<lparr>operations := m\<rparr>)"
proof (induction rule: history_move.induct)
  case (start v now clock h h1 clock1 tid)
  then have "start_transaction v now clock (h\<lparr>operations := m\<rparr>) = (h1\<lparr>operations := m\<rparr>, clock1, tid)"
    by (auto simp: start_transaction_def Let_def split: if_splits prod.splits)
  then show ?case by (rule history_move.start)
next
  case (finish now h h1 e)
  then have "end_transaction now (h\<lparr>operations := m\<rparr>) = Some (h1\<lparr>operations := m\<rparr>, e)"
    by (simp add: end_transaction_operations)
  then show ?case by (rule history_move.finish)
next
  case (group h h1 tid)
  then have "group (h\<lparr>operations := m\<rparr>) = Some (h1\<lparr>operations := m\<rparr>, tid)"
    by (auto simp: group_def Let_def group_trailing_operations split: list.splits)
  then show ?case by (rule history_move.group)
next
  case (group_until tid h h1)
  then have "History.group_until tid (h\<lparr>operations := m\<rparr>) = Some (h1\<lparr>operations := m\<rparr>)"
    by (auto simp: group_until_def group_trailing_operations split: option.splits)
  then show ?case by (rule history_move.group_until)
next
  case (finalize h h1 t)
  then have "finalize_last_transaction (h\<lparr>operations := m\<rparr>) = (h1\<lparr>operations := m\<rparr>, t)"
    by (auto simp: finalize_last_transaction_def split: option.splits)
  then show ?case by (rule history_move.finalize)
next
  case (push_empty v now clock h h1 clock1 tid)
  then have "push_empty_transaction v now clock (h\<lparr>operations := m\<rparr>) = Some (h1\<lparr>operations := m\<rparr>, clock1, tid)"
    by (auto simp: push_empty_transaction_def rust_assert_def bind_eq_Some_conv split: prod.splits if_splits)
  then show ?case by (rule history_move.push_empty)
next
  case (pop_undo h h1 e)
  then have "History.pop_undo (h\<lparr>operations := m\<rparr>) = Some (h1\<lparr>operations := m\<rparr>, e)"
    by (auto simp: pop_undo_def rust_assert_def split: option.splits if_splits)
  then show ?case by (rule history_move.pop_undo)
next
  case (remove_undo tid h h1 e)
  then have "remove_from_undo tid (h\<lparr>operations := m\<rparr>) = Some (h1\<lparr>operations := m\<rparr>, e)"
    by (auto simp: remove_from_undo_def rust_assert_def split: option.splits if_splits)
  then show ?case by (rule history_move.remove_undo)
next
  case (remove_undo_until tid h h1 es)
  then have "remove_from_undo_until tid (h\<lparr>operations := m\<rparr>) = Some (h1\<lparr>operations := m\<rparr>, es)"
    by (auto simp: remove_from_undo_until_def rust_assert_def Let_def split: option.splits if_splits)
  then show ?case by (rule history_move.remove_undo_until)
next
  case (forget tid h h1 t)
  then have "History.forget tid (h\<lparr>operations := m\<rparr>) = Some (h1\<lparr>operations := m\<rparr>, t)" by (simp add: forget_operations)
  then show ?case by (rule history_move.forget)
next
  case (merge tid dest h h1)
  then obtain h2 t where "History.forget tid h = Some (h2, t)"
    "h1 = (case t of Some t \<Rightarrow> transaction_mut dest (\<lambda>d. d\<lparr>tr_edit_ids := tr_edit_ids d @ tr_edit_ids t\<rparr>) h2 | None \<Rightarrow> h2)"
    by (auto simp: merge_transactions_def bind_eq_Some_conv)
  then have "merge_transactions tid dest (h\<lparr>operations := m\<rparr>) = Some (h1\<lparr>operations := m\<rparr>)"
    by (simp add: merge_transactions_def forget_operations transaction_mut_operations split: option.split)
  then show ?case by (rule history_move.merge)
next
  case (pop_redo h h1 e)
  then have "History.pop_redo (h\<lparr>operations := m\<rparr>) = Some (h1\<lparr>operations := m\<rparr>, e)"
    by (auto simp: pop_redo_def rust_assert_def split: option.splits if_splits)
  then show ?case by (rule history_move.pop_redo)
next
  case (remove_redo tid h h1 es)
  then have "remove_from_redo tid (h\<lparr>operations := m\<rparr>) = Some (h1\<lparr>operations := m\<rparr>, es)"
    by (auto simp: remove_from_redo_def rust_assert_def Let_def split: option.splits if_splits)
  then show ?case by (rule history_move.remove_redo)
qed

text \<open>The edits on both stacks.\<close>

definition stack_edits :: "('base, 'text) history \<Rightarrow> lamport set" where
  "stack_edits h = (\<Union>e \<in> set (undo_stack h) \<union> set (redo_stack h). set (tr_edit_ids (he_transaction e)))"

definition known_map :: "lamport set \<Rightarrow> lamport \<Rightarrow> 'text operation option" where
  "known_map S i = (if i \<in> S then Some (Edit \<lparr>edit_timestamp = i, edit_version = [], edit_ranges = [], edit_new_text = []\<rparr>) else None)"

lemma known_map_entries:
  fixes h :: "('base, 'text) history" and m :: "lamport \<Rightarrow> 'text operation option"
  assumes "m = known_map S"
  shows "known_entries m (undo_stack h) \<and> known_entries m (redo_stack h) \<longleftrightarrow> stack_edits h \<subseteq> S"
proof -
  have "known_edits m ids \<longleftrightarrow> set ids \<subseteq> S" for ids using assms by (auto simp: known_edits_def known_map_def)
  then show ?thesis by (auto simp: known_entries_def stack_edits_def)
qed

lemma move_stack_edits:
  fixes h h1 :: "('base, 'text) history"
  assumes "history_move h h1" "history_ok h"
  shows "stack_edits h1 \<subseteq> stack_edits h"
proof -
  define m :: "lamport \<Rightarrow> 'text operation option" where "m = known_map (stack_edits h)"
  note known = known_map_entries [OF m_def]
  have "history_ok (h\<lparr>operations := m\<rparr>)" using assms(2) known [of h] by (simp add: history_ok_def)
  from history_step_ok [OF history_move_step [OF history_move_operations [OF assms(1)]] this]
  have "known_entries m (undo_stack h1) \<and> known_entries m (redo_stack h1)" by (simp add: history_ok_def)
  then show ?thesis unfolding known .
qed

lemma history_push_stack_edits [simp]: "stack_edits (history_push op h) = stack_edits h"
  by (simp add: stack_edits_def history_push_def)

lemma push_undo_stack_edits:
  assumes "push_undo i h = Some h1"
  shows "stack_edits h1 \<subseteq> insert i (stack_edits h)"
proof (cases "undo_stack h" rule: rev_cases)
  case Nil
  with assms show ?thesis by (auto simp: push_undo_def rust_assert_def split: if_splits option.splits operation.splits)
next
  case (snoc es e)
  with assms show ?thesis
    by (auto simp: push_undo_def rust_assert_def stack_edits_def Let_def split: if_splits option.splits operation.splits)
qed

end
