(* ===== verification/Buffer_Proofs.thy ===== *)
theory Buffer_Proofs
  imports Buffer Buffer_Invariant Stack_Edits
begin

text \<open>
  The invariant of a buffer, kept by its local operations, and what follows: edits, undo and redo always return, the buffer's own
  check of its invariants succeeds, undoing an edit restores the text it was made on, and redoing what was undone restores the text.
\<close>

subsection \<open>The invariant\<close>

text \<open>The timestamps the clock will not give any more: those of other replicas, and its own of the past.\<close>

definition below_clock :: "lamport \<Rightarrow> lamport \<Rightarrow> bool" where
  "below_clock clock ts \<longleftrightarrow> (lam_replica ts = lam_replica clock \<longrightarrow> lam_value ts < lam_value clock)"

definition timestamps_ok :: "buffer \<Rightarrow> bool" where
  "timestamps_ok b \<longleftrightarrow>
     (\<forall>c \<in> set (cells (fragments (buf_snapshot b))). \<forall>e \<in> cell_edits c. below_clock (lamport_clock b) e)
     \<and> (\<forall>e u. um_abs (snap_undo_map (buf_snapshot b)) (e, u) \<noteq> None \<longrightarrow> below_clock (lamport_clock b) e \<and> below_clock (lamport_clock b) u)
     \<and> (\<forall>ts op. operations (buf_history b) ts = Some op \<longrightarrow> below_clock (lamport_clock b) ts \<and> (is_edit op \<longrightarrow> ts \<noteq> base_timestamp))
     \<and> 1 \<le> lam_value (lamport_clock b) \<and> (transaction_depth (buf_history b) \<noteq> 0 \<longrightarrow> 2 \<le> lam_value (lamport_clock b))"

text \<open>The version has observed every edit that a cell or a stack mentions, and every undo operation that has been applied.\<close>

definition version_ok :: "buffer \<Rightarrow> bool" where
  "version_ok b \<longleftrightarrow>
     (\<forall>c \<in> set (cells (fragments (buf_snapshot b))). \<forall>e \<in> cell_edits c. global_observed (buffer_version b) e)
     \<and> (\<forall>e u. um_abs (snap_undo_map (buf_snapshot b)) (e, u) \<noteq> None \<longrightarrow>
          global_observed (buffer_version b) e \<and> global_observed (buffer_version b) u)
     \<and> stack_edits (buf_history b) \<subseteq> {e. global_observed (buffer_version b) e}"

definition buffer_inv :: "(lamport \<Rightarrow> bytes) \<Rightarrow> buffer \<Rightarrow> bool" where
  "buffer_inv ins b \<longleftrightarrow> snap_inv ins (buf_snapshot b) \<and> history_ok (buf_history b) \<and> timestamps_ok b
     \<and> version_ok b \<and> (\<forall>ts. CR \<notin> set (ins ts))"

text \<open>The clock can tick twice more without wrapping around.\<close>

definition clock_room :: "buffer \<Rightarrow> bool" where
  "clock_room b \<longleftrightarrow> unat (lam_value (lamport_clock b)) + 2 < 2 ^ 32"

lemma tick_below:
  assumes "unat (lam_value c) + 1 < 2 ^ 32"
  shows "below_clock (snd (tick c)) (fst (tick c))" "below_clock c e \<Longrightarrow> below_clock (snd (tick c)) e"
    "unat (lam_value (snd (tick c))) = unat (lam_value c) + 1"
proof -
  show v: "unat (lam_value (snd (tick c))) = unat (lam_value c) + 1" using assms by (simp add: tick_def unat_word_ariths)
  show "below_clock (snd (tick c)) (fst (tick c))" "below_clock c e \<Longrightarrow> below_clock (snd (tick c)) e"
    unfolding below_clock_def word_less_nat_alt v by (auto simp: tick_def)
qed

lemma one_le_word: "1 \<le> (x :: u32) \<longleftrightarrow> 1 \<le> unat x" "2 \<le> (x :: u32) \<longleftrightarrow> 2 \<le> unat x"
  by (simp_all add: word_le_nat_alt)

lemma not_below_self: "\<not> below_clock c c"
  by (simp add: below_clock_def)

lemma clock_not_recorded:
  assumes "timestamps_ok b"
  shows "operations (buf_history b) (lamport_clock b) = None" "um_abs (snap_undo_map (buf_snapshot b)) (e, lamport_clock b) = None"
proof -
  show "operations (buf_history b) (lamport_clock b) = None"
  proof (rule ccontr)
    assume "operations (buf_history b) (lamport_clock b) \<noteq> None"
    then have "below_clock (lamport_clock b) (lamport_clock b)" using assms unfolding timestamps_ok_def by blast
    then show False using not_below_self by blast
  qed
  show "um_abs (snap_undo_map (buf_snapshot b)) (e, lamport_clock b) = None"
    using assms not_below_self unfolding timestamps_ok_def by blast
qed

text \<open>Ticking the clock keeps everything below it.\<close>

lemma timestamps_ok_tick:
  assumes "timestamps_ok b" "unat (lam_value (lamport_clock b)) + 1 < 2 ^ 32" "lamport_clock b' = snd (tick (lamport_clock b))"
    and "buf_snapshot b' = buf_snapshot b" "operations (buf_history b') = operations (buf_history b)"
  shows "timestamps_ok b'"
proof -
  note t = tick_below [OF assms(2)]
  have "2 \<le> lam_value (lamport_clock b')" using assms(1,3) t(3) by (simp add: timestamps_ok_def one_le_word)
  moreover from this have "1 \<le> lam_value (lamport_clock b')" by (simp add: one_le_word)
  ultimately show ?thesis using assms(1) t(2) unfolding timestamps_ok_def assms(3-5) by simp
qed

text \<open>The steps of the history that rearrange its stacks.\<close>

lemma rearranging_steps:
  "finalize_last_transaction h = (h1, t) \<Longrightarrow> operations h1 = operations h \<and> transaction_depth h1 = transaction_depth h"
  "group_until tid h = Some h1 \<Longrightarrow> operations h1 = operations h \<and> transaction_depth h1 = transaction_depth h"
  "forget tid h = Some (h1, u) \<Longrightarrow> operations h1 = operations h \<and> transaction_depth h1 = transaction_depth h"
  "merge_transactions tid dest h = Some h1 \<Longrightarrow> operations h1 = operations h \<and> transaction_depth h1 = transaction_depth h"
proof -
  show "finalize_last_transaction h = (h1, t) \<Longrightarrow> operations h1 = operations h \<and> transaction_depth h1 = transaction_depth h"
    by (auto simp: finalize_last_transaction_def split: option.splits)
  show "group_until tid h = Some h1 \<Longrightarrow> operations h1 = operations h \<and> transaction_depth h1 = transaction_depth h"
    using group_until_edits [of tid h] by auto
  show "forget tid h = Some (h1, u) \<Longrightarrow> operations h1 = operations h \<and> transaction_depth h1 = transaction_depth h"
    by (auto simp: forget_def rust_assert_def bind_eq_Some_conv split: option.splits if_splits)
  show "merge_transactions tid dest h = Some h1 \<Longrightarrow> operations h1 = operations h \<and> transaction_depth h1 = transaction_depth h"
    by (auto simp: merge_transactions_def forget_def transaction_mut_def rust_assert_def bind_eq_Some_conv split: option.splits if_splits)
qed

lemma buffer_inv_history:
  assumes "buffer_inv ins b" "history_ok h" "operations h = operations (buf_history b)" "stack_edits h \<subseteq> stack_edits (buf_history b)"
    and "transaction_depth h \<noteq> 0 \<longrightarrow> 2 \<le> lam_value (lamport_clock b)"
  shows "buffer_inv ins (b\<lparr>buf_history := h\<rparr>)"
  using assms by (auto simp: buffer_inv_def timestamps_ok_def version_ok_def buffer_version_def)

lemma global_observed_observe: "global_observed g e \<Longrightarrow> global_observed (global_observe g t) e" "global_observed (global_observe g t) t"
  by (auto simp: global_observed_def global_get_gv le_max_iff_disj)

text \<open>Applying an operation and observing it.\<close>

lemma version_ok_observed:
  assumes "version_ok b" "buffer_version b' = global_observe (buffer_version b) ts" "stack_edits (buf_history b') \<subseteq> insert ts (stack_edits (buf_history b))"
    and "\<And>d e. d \<in> set (cells (fragments (buf_snapshot b'))) \<Longrightarrow> e \<in> cell_edits d \<Longrightarrow>
      e = ts \<or> (\<exists>c \<in> set (cells (fragments (buf_snapshot b))). e \<in> cell_edits c)"
    and "\<And>e u. um_abs (snap_undo_map (buf_snapshot b')) (e, u) \<noteq> None \<Longrightarrow>
      u = ts \<and> global_observed (buffer_version b) e \<or> um_abs (snap_undo_map (buf_snapshot b)) (e, u) \<noteq> None"
  shows "version_ok b'"
proof -
  note obs = global_observed_observe
  have "global_observed (buffer_version b') e" if "d \<in> set (cells (fragments (buf_snapshot b')))" "e \<in> cell_edits d" for d e
    using assms(4) [OF that] assms(1,2) obs by (auto simp: version_ok_def)
  moreover have "global_observed (buffer_version b') e \<and> global_observed (buffer_version b') u"
    if "um_abs (snap_undo_map (buf_snapshot b')) (e, u) \<noteq> None" for e u
    using assms(5) [OF that] assms(1) obs unfolding assms(2) version_ok_def by blast
  moreover have "stack_edits (buf_history b') \<subseteq> {e. global_observed (buffer_version b') e}"
  proof
    fix x assume "x \<in> stack_edits (buf_history b')"
    then have "x = ts \<or> global_observed (buffer_version b) x" using assms(1,3) by (auto simp: version_ok_def)
    then show "x \<in> {e. global_observed (buffer_version b') e}" using obs unfolding assms(2) by blast
  qed
  ultimately show ?thesis by (auto simp: version_ok_def)
qed

text \<open>Every edit of the two stacks is known, so it is not the insertion of the base text.\<close>

lemma stack_edit_known:
  assumes "buffer_inv ins b" "e \<in> set (undo_stack (buf_history b)) \<union> set (redo_stack (buf_history b))" "i \<in> set (tr_edit_ids (he_transaction e))"
  shows "i \<noteq> base_timestamp \<and> below_clock (lamport_clock b) i \<and> global_observed (buffer_version b) i"
proof -
  have "known_edits (operations (buf_history b)) (tr_edit_ids (he_transaction e))"
    using assms(1,2) by (auto simp: buffer_inv_def history_ok_def known_entries_def)
  then obtain x where "operations (buf_history b) i = Some (Edit x)" using assms(3) by (auto simp: known_edits_def)
  then have "i \<noteq> base_timestamp \<and> below_clock (lamport_clock b) i" using assms(1) unfolding buffer_inv_def timestamps_ok_def by fastforce
  moreover have "i \<in> stack_edits (buf_history b)" using assms(2,3) by (auto simp: stack_edits_def)
  ultimately show ?thesis using assms(1) by (auto simp: buffer_inv_def version_ok_def)
qed

subsection \<open>Creation\<close>

lemma base_fragments_single:
  assumes "base \<noteq> []" "length base \<le> MAX_INSERTION_LEN"
  shows "base_fragments base ts prev 0 [] = Some [\<lparr>frag_id = between prev locator_max, frag_timestamp = ts, frag_offset = 0,
     frag_len = length base, frag_visible = True, frag_deletions = [], frag_max_undos = global_new\<rparr>]"
proof -
  have "base_fragments base ts l (length base) fs = Some fs" for l fs by (subst base_fragments.simps) simp
  then show ?thesis using assms by (subst base_fragments.simps) (simp add: Let_def chunk_target_def min_absorb1)
qed

lemma um_new_good: "um_good um_new" "um_abs um_new k = None"
  by (simp_all add: um_good_def um_ok_def um_new_def um_abs_def) (simp_all add: tree_new_def STACK_CAP_def)

lemma not_undone_new: "\<not> undone um_new e"
  by (simp add: new_not_undone um_new_good)

lemma new_normalized_ok:
  assumes "length base \<le> MAX_INSERTION_LEN" "CR \<notin> set base"
  shows "\<exists>b. new_normalized replica le base = Some b \<and> buffer_inv (\<lambda>_. base) b \<and> visible_text (buf_snapshot b) = base
    \<and> transaction_depth (buf_history b) = 0"
proof (cases "base = []")
  case True
  have "base_fragments base ts l 0 [] = Some []" for ts l using True by (subst base_fragments.simps) simp
  then show ?thesis using True um_new_good
    by (simp add: new_normalized_def buffer_inv_def snap_inv_def snapshot_ok_def ids_ok_def index_ok_def timestamps_ok_def
        history_ok_def history_new_def lamport_new_def version_ok_def stack_edits_def)
next
  case False
  let ?f = "\<lparr>frag_id = between locator_min locator_max, frag_timestamp = lamport_new LOCAL, frag_offset = 0,
     frag_len = length base, frag_visible = True, frag_deletions = [], frag_max_undos = global_new\<rparr>"
  obtain b where b: "new_normalized replica le base = Some b" by (simp add: new_normalized_def base_fragments_single [OF False assms(1)] Let_def)
  then have s: "fragments (buf_snapshot b) = [?f]" "visible_text (buf_snapshot b) = base" "deleted_text (buf_snapshot b) = []"
      "insertions (buf_snapshot b) = [insertion_fragment_new ?f]" "insertion_slices (buf_snapshot b) = []"
      "snap_undo_map (buf_snapshot b) = um_new" "buf_history b = history_new base"
      "lamport_clock b = lamport_observe (lamport_new replica) (lamport_new LOCAL)"
    using False by (auto simp: new_normalized_def base_fragments_single [OF False assms(1)] Let_def)
  have "id_ok (between locator_min locator_max)"
    using lhs_less_between between_less_rhs [OF locator_ends] last_between by (simp add: id_ok_def)
  then have snap: "snapshot_ok (\<lambda>_. base) (buf_snapshot b)" using False by (simp add: snapshot_ok_def s frag_wf_def ids_ok_def content_def)
  have cell: "cell_ts c = base_timestamp \<and> cell_visible c \<and> cell_deletions c = []" if "c \<in> set (cells [?f])" for c
    using that by (auto simp: base_timestamp_def dest: in_cells_of)
  have min: "base_timestamp \<noteq> lamport_MIN" "lamport_new LOCAL \<noteq> lamport_MIN" by (simp_all add: base_timestamp_def lamport_new_def lamport_MIN_def)
  have "cell_ok (buf_snapshot b) c" if "c \<in> set (cells [?f])" for c
    using cell [OF that] min by (simp add: cell_ok_def s flag_cell_def sliced_def cell_edits_def not_undone_new)
  moreover have "distinct (map cell_key (cells [?f]))" by (simp add: cells_of_def cell_key_def comp_def distinct_map inj_on_def)
  ultimately have inv: "snap_inv (\<lambda>_. base) (buf_snapshot b)"
    using snap um_new_good by (simp only: snap_inv_def s index_ok_def) simp
  have v: "lam_value (lamport_clock b) = 2" by (simp add: s lamport_observe_def lamport_new_def)
  have "timestamps_ok b"
    unfolding timestamps_ok_def s(1,6,7) using cell v um_new_good(2)
    by (auto simp: below_clock_def history_new_def cell_edits_def base_timestamp_def lamport_new_def)
  moreover have "snap_version (buf_snapshot b) = global_observe global_new base_timestamp"
    using b False by (auto simp: new_normalized_def base_fragments_single [OF False assms(1)] Let_def base_timestamp_def)
  then have "version_ok b"
    unfolding version_ok_def buffer_version_def s(1,6,7) using cell um_new_good(2) global_observed_observe(2)
    by (auto simp: cell_edits_def history_new_def stack_edits_def)
  ultimately show ?thesis using inv b assms(2) by (simp add: buffer_inv_def s history_ok_def history_new_def)
qed

subsection \<open>Transactions\<close>

lemma start_transaction_at_ok:
  assumes "buffer_inv ins b" "unat (lam_value (lamport_clock b)) + 1 < 2 ^ 32" "start_transaction_at now b = (b1, tid)"
  shows "buffer_inv ins b1 \<and> buf_snapshot b1 = buf_snapshot b \<and> transaction_depth (buf_history b1) = transaction_depth (buf_history b) + 1
    \<and> 2 \<le> lam_value (lamport_clock b1) \<and> unat (lam_value (lamport_clock b1)) \<le> unat (lam_value (lamport_clock b)) + 1
    \<and> subscriptions b1 = subscriptions b \<and> redo_stack (buf_history b1) = redo_stack (buf_history b)"
proof -
  let ?h = "buf_history b" and ?c = "lamport_clock b"
  obtain h1 c1 where h1: "start_transaction (buffer_version b) now ?c ?h = (h1, c1, tid)" "b1 = b\<lparr>buf_history := h1, lamport_clock := c1\<rparr>"
    using assms(3) by (auto simp: start_transaction_at_def split: prod.splits)
  have ok: "history_ok h1" using history_step_ok [OF history_step.start [OF h1(1)]] assms(1) by (simp add: buffer_inv_def)
  have h: "operations h1 = operations ?h" "transaction_depth h1 = transaction_depth ?h + 1" "redo_stack h1 = redo_stack ?h"
      "c1 = (if transaction_depth ?h = 0 then snd (tick ?c) else ?c)"
    using h1(1) by (auto simp: start_transaction_def Let_def split: if_splits prod.splits)
  have ts: "timestamps_ok b1 \<and> 2 \<le> lam_value c1 \<and> unat (lam_value c1) \<le> unat (lam_value ?c) + 1"
  proof (cases "transaction_depth ?h = 0")
    case True
    then have c1: "c1 = snd (tick ?c)" using h(4) by simp
    have "timestamps_ok b" using assms(1) by (simp add: buffer_inv_def)
    from timestamps_ok_tick [OF this assms(2), of b1] have "timestamps_ok b1" by (simp add: h1(2) c1 h(1))
    moreover from this have "2 \<le> lam_value c1" using h(2) by (simp add: timestamps_ok_def h1(2))
    ultimately show ?thesis using tick_below(3) [OF assms(2)] by (simp add: c1)
  next
    case False
    then show ?thesis using assms(1) h h1(2) by (simp add: timestamps_ok_def buffer_inv_def)
  qed
  moreover have "stack_edits h1 \<subseteq> stack_edits ?h"
    using move_stack_edits [OF history_move.start [OF h1(1)]] assms(1) by (simp add: buffer_inv_def)
  then have "version_ok b1" using assms(1) h1(2) by (auto simp: buffer_inv_def version_ok_def buffer_version_def)
  ultimately show ?thesis using ok h h1(2) assms(1) by (simp add: buffer_inv_def)
qed

lemma end_transaction_at_ok:
  assumes "buffer_inv ins b" "transaction_depth (buf_history b) \<noteq> 0"
  shows "\<exists>b1 r. end_transaction_at now b = Some (b1, r) \<and> buffer_inv ins b1 \<and> buf_snapshot b1 = buf_snapshot b
    \<and> transaction_depth (buf_history b1) = transaction_depth (buf_history b) - 1 \<and> lamport_clock b1 = lamport_clock b
    \<and> subscriptions b1 = subscriptions b"
proof -
  let ?h = "buf_history b"
  have ok: "history_ok ?h" and ne: "undo_stack ?h \<noteq> []" and two: "2 \<le> lam_value (lamport_clock b)"
    using assms by (auto simp: buffer_inv_def history_ok_def timestamps_ok_def)
  obtain es e0 where st: "undo_stack ?h = es @ [e0]" using ne by (cases "undo_stack ?h" rule: rev_cases) auto
  have "\<exists>h1 r. end_transaction now ?h = Some (h1, r) \<and> operations h1 = operations ?h \<and> transaction_depth h1 = transaction_depth ?h - 1
      \<and> (r \<noteq> None \<longrightarrow> undo_stack h1 \<noteq> [])"
    using assms(2) st by (simp add: end_transaction_def rust_assert_def Let_def vec_last_def)
  then obtain h1 r where f: "end_transaction now ?h = Some (h1, r)" "operations h1 = operations ?h"
      "transaction_depth h1 = transaction_depth ?h - 1" "r \<noteq> None \<longrightarrow> undo_stack h1 \<noteq> []" by blast
  have ok1: "history_ok h1" using history_step_ok [OF history_step.finish [OF f(1)] ok] .
  have sub1: "stack_edits h1 \<subseteq> stack_edits ?h" using move_stack_edits [OF history_move.finish [OF f(1)] ok] .
  have inv: "buffer_inv ins (b\<lparr>buf_history := h\<rparr>)" if "history_ok h" "operations h = operations ?h" "stack_edits h \<subseteq> stack_edits ?h" for h
    using buffer_inv_history [OF assms(1) that] two by simp
  show ?thesis
  proof (cases r)
    case None
    then show ?thesis using f inv [OF ok1 _ sub1] by (simp add: end_transaction_at_def)
  next
    case (Some e)
    then have ne1: "undo_stack h1 \<noteq> []" using f(4) by simp
    from group_edits [of h1] obtain es where g: "group h1 = Some (h1\<lparr>undo_stack := es\<rparr>, map_option transaction_id_of (vec_last es))" "es \<noteq> []"
      using ne1 by auto
    have "history_ok (h1\<lparr>undo_stack := es\<rparr>)" using history_step_ok [OF history_step.group [OF g(1)] ok1] .
    moreover have "stack_edits (h1\<lparr>undo_stack := es\<rparr>) \<subseteq> stack_edits ?h" using move_stack_edits [OF history_move.group [OF g(1)] ok1] sub1 by blast
    ultimately have "buffer_inv ins (b\<lparr>buf_history := h1\<lparr>undo_stack := es\<rparr>\<rparr>)" using inv f(2) by simp
    with f g Some show ?thesis by (simp add: end_transaction_at_def vec_last_def)
  qed
qed

subsection \<open>Edits\<close>

lemma inserted_no_CR: "CR \<notin> set (inserted edits)"
  by (auto simp: inserted_def normalize_no_CR)

lemma local_edit_step:
  assumes "snap_inv ins snap" "edits_ok 0 edits (length (visible_text snap))" "new_timestamp ts snap" "length (inserted edits) \<le> MAX_INSERTION_LEN"
  shows "\<exists>snap' op p. apply_edit_internal edits ts snap = Some (snap', op, p) \<and> snap_inv (ins(ts := inserted edits)) snap'
    \<and> visible_text snap' = splice_from 0 (visible_text snap) edits \<and> describes p (visible_text snap) (visible_text snap') \<and> normal p
    \<and> edit_timestamp op = ts \<and> edited_cells ts (cells (fragments snap)) (cells (fragments snap')) \<and> snap_undo_map snap' = snap_undo_map snap
    \<and> snap_version snap' = snap_version snap"
proof (cases "edits = []")
  case True
  have fr: "fresh ts (fragments snap)" using assms(3) by (simp add: new_timestamp_def)
  have "snapshot_ok (ins(ts := [])) snap" using assms(1) fr by (intro snapshot_ok_fresh) (auto simp: snap_inv_def fresh_def)
  then have "snap_inv (ins(ts := inserted [])) snap" using assms(1) by (simp add: snap_inv_def)
  moreover have "describes [] (visible_text snap) (visible_text snap)" by (simp add: describes_def agree_def)
  moreover have "edited_cells ts (cells (fragments snap)) (cells (fragments snap))"
    using fresh_cell [OF fr] by (intro edited_cells_same) blast
  ultimately show ?thesis using True by (simp add: apply_edit_internal_def normal_def separated_def)
next
  case False
  have ok: "snapshot_ok ins snap" "\<forall>f \<in> set (fragments snap). frag_timestamp f \<noteq> ts"
    using assms(1,3) by (auto simp: snap_inv_def new_timestamp_def fresh_def)
  from apply_edit_internal_ok [OF ok(1) assms(2) False ok(2) assms(4)] obtain snap' op p where
    a: "apply_edit_internal edits ts snap = Some (snap', op, p)" "visible_text snap' = splice_from 0 (visible_text snap) edits"
      "snapshot_ok (ins(ts := inserted edits)) snap'" "describes p (visible_text snap) (visible_text snap')" "normal p" "edit_timestamp op = ts" by blast
  with edit_keeps_snap_inv [OF assms(1,2) False assms(3,4) a(1,3)] show ?thesis by blast
qed

lemma clock_is_new:
  assumes "timestamps_ok b" "2 \<le> lam_value (lamport_clock b)" "snap_inv ins (buf_snapshot b)"
  shows "new_timestamp (lamport_clock b) (buf_snapshot b)"
proof -
  let ?c = "lamport_clock b" and ?F = "fragments (buf_snapshot b)"
  have "frag_timestamp f \<noteq> ?c \<and> ?c \<notin> set (frag_deletions f)" if f: "f \<in> set ?F" for f
  proof -
    let ?d = "\<lparr>cell_ts = frag_timestamp f, cell_offset = frag_offset f, cell_visible = frag_visible f, cell_deletions = frag_deletions f\<rparr>"
    have "?d \<in> set (cells ?F)" using first_cell snap_inv_frag_len [OF assms(3) f] cells_mono [OF f] by blast
    then have "\<forall>e \<in> cell_edits ?d. below_clock ?c e" using assms(1) unfolding timestamps_ok_def by blast
    then show ?thesis using not_below_self by (auto simp: cell_edits_def)
  qed
  moreover have "um_abs (snap_undo_map (buf_snapshot b)) (?c, u) = None" for u
    using assms(1) not_below_self unfolding timestamps_ok_def by blast
  moreover have "?c \<noteq> lamport_MIN" "?c \<noteq> base_timestamp"
    using assms(2) by (auto simp: lamport_MIN_def base_timestamp_def lamport_new_def word_le_nat_alt)
  ultimately show ?thesis by (simp add: new_timestamp_def fresh_def)
qed

lemma edited_cell_edits:
  assumes "edited_cells ts C D" "d \<in> set D" "e \<in> cell_edits d"
  shows "e = ts \<or> (\<exists>c \<in> set C. e \<in> cell_edits c)"
  using assms(1,2)
proof (cases rule: edited_cell_cases)
  case (old c)
  with assms(3) show ?thesis by (auto simp: cell_edited_def delete_cell_def cell_edits_def)
qed (use assms(3) in \<open>auto simp: cell_edits_def\<close>)

lemma push_undo_known:
  assumes "transaction_depth h \<noteq> 0" "undo_stack h \<noteq> []" "operations h i = Some (Edit e)"
  shows "\<exists>h1. push_undo i h = Some h1 \<and> operations h1 = operations h \<and> transaction_depth h1 = transaction_depth h"
  using assms by (simp add: push_undo_def rust_assert_def vec_last_def Let_def)

lemma buffer_edit_ok:
  assumes "buffer_inv ins b" "clock_room b" "edits_ok 0 edits (length (visible_text (buf_snapshot b)))" "length (inserted edits) \<le> MAX_INSERTION_LEN"
  shows "\<exists>b' op. buffer_edit started ended edits b = Some (b', op) \<and> is_edit op \<and> buffer_inv (ins(op_timestamp op := inserted edits)) b'
    \<and> visible_text (buf_snapshot b') = splice_from 0 (visible_text (buf_snapshot b)) edits
    \<and> transaction_depth (buf_history b') = transaction_depth (buf_history b)
    \<and> edited_cells (op_timestamp op) (cells (fragments (buf_snapshot b))) (cells (fragments (buf_snapshot b')))
    \<and> snap_undo_map (buf_snapshot b') = snap_undo_map (buf_snapshot b) \<and> new_timestamp (op_timestamp op) (buf_snapshot b)
    \<and> unat (lam_value (lamport_clock b')) \<le> unat (lam_value (lamport_clock b)) + 2"
proof -
  let ?snap = "buf_snapshot b"
  have room: "unat (lam_value (lamport_clock b)) + 1 < 2 ^ 32" using assms(2) by (simp add: clock_room_def)
  obtain b1 tid where b1: "start_transaction_at started b = (b1, tid)" by fastforce
  note st = start_transaction_at_ok [OF assms(1) room b1]
  let ?ts = "lamport_clock b1"
  have room1: "unat (lam_value ?ts) + 1 < 2 ^ 32" using st assms(2) by (simp add: clock_room_def)
  have t1: "timestamps_ok b1" and hok: "history_ok (buf_history b1)" and sinv: "snap_inv ins ?snap"
    using st assms(1) by (simp_all add: buffer_inv_def)
  have new: "new_timestamp ?ts ?snap" using clock_is_new [OF t1, of ins] st sinv by simp
  from local_edit_step [OF sinv assms(3) new assms(4)] obtain snap' op p where
    e: "apply_edit_internal edits ?ts ?snap = Some (snap', op, p)" "snap_inv (ins(?ts := inserted edits)) snap'"
      "visible_text snap' = splice_from 0 (visible_text ?snap) edits" "edit_timestamp op = ?ts"
      "edited_cells ?ts (cells (fragments ?snap)) (cells (fragments snap'))" "snap_undo_map snap' = snap_undo_map ?snap"
      "snap_version snap' = snap_version ?snap" by blast
  define b2 where "b2 = b1\<lparr>lamport_clock := snd (tick ?ts), buf_snapshot := snap', subscriptions := publish p (subscriptions b1)\<rparr>"
  have al: "apply_local_edit edits ?ts (b1\<lparr>lamport_clock := snd (tick ?ts)\<rparr>) = Some (b2, op)"
    using e(1) st by (simp add: apply_local_edit_def b2_def)
  let ?h = "history_push (Edit op) (buf_history b1)"
  have none: "operations (buf_history b1) ?ts = None" by (rule clock_not_recorded [OF t1])
  then have hok1: "history_ok ?h" using hok e(4) by (intro history_ok_push) simp_all
  have d: "transaction_depth ?h \<noteq> 0" "operations ?h ?ts = Some (Edit op)" using st e(4) by (simp_all add: history_push_def)
  moreover have "undo_stack ?h \<noteq> []" using hok1 d(1) by (simp add: history_ok_def)
  ultimately obtain h1 where h1: "push_undo ?ts ?h = Some h1" "operations h1 = operations ?h" "transaction_depth h1 = transaction_depth ?h"
    using push_undo_known by blast
  have hok2: "history_ok h1" using history_step_ok [OF history_step.push_undo [OF h1(1)] hok1] .
  define b3 where "b3 = observe_version ?ts (b2\<lparr>buf_history := h1\<rparr>)"
  have b3: "buf_history b3 = h1" "lamport_clock b3 = snd (tick ?ts)" "fragments (buf_snapshot b3) = fragments snap'"
      "snap_undo_map (buf_snapshot b3) = snap_undo_map snap'" "visible_text (buf_snapshot b3) = visible_text snap'"
    and sv: "snap_inv i (buf_snapshot b3) = snap_inv i snap'" for i
    by (simp_all add: b3_def b2_def observe_version_def snap_inv_def snapshot_ok_def index_ok_def cell_ok_def)
  note tb = tick_below [OF room1]
  have "timestamps_ok b3"
  proof -
    have "2 \<le> lam_value (snd (tick ?ts))" "1 \<le> lam_value (snd (tick ?ts))" using tb(3) st by (simp_all add: one_le_word)
    moreover have "below_clock (snd (tick ?ts)) x" if "d \<in> set (cells (fragments snap'))" "x \<in> cell_edits d" for d x
      using edited_cell_edits [OF e(5) that] tb(1,2) t1 st by (auto simp: timestamps_ok_def tick_def)
    moreover have "below_clock (snd (tick ?ts)) i \<and> (is_edit x \<longrightarrow> i \<noteq> base_timestamp)" if "operations h1 i = Some x" for i x
      using that h1(2) e(4) t1 tb(1,2) new by (auto simp: history_push_def timestamps_ok_def new_timestamp_def tick_def split: if_splits)
    ultimately show ?thesis unfolding timestamps_ok_def b3 e(6) using t1 st tb(2) by (simp add: timestamps_ok_def)
  qed
  moreover have "version_ok b3"
  proof (rule version_ok_observed [where ts = ?ts and b = b1])
    show "version_ok b1" using st by (simp add: buffer_inv_def)
    show "buffer_version b3 = global_observe (buffer_version b1) ?ts"
      using e(7) st by (simp add: b3_def b2_def observe_version_def buffer_version_def)
    show "stack_edits (buf_history b3) \<subseteq> insert ?ts (stack_edits (buf_history b1))"
      using push_undo_stack_edits [OF h1(1)] by (simp add: b3(1))
    show "d \<in> set (cells (fragments (buf_snapshot b3))) \<Longrightarrow> x \<in> cell_edits d \<Longrightarrow>
      x = ?ts \<or> (\<exists>c \<in> set (cells (fragments (buf_snapshot b1))). x \<in> cell_edits c)" for d x
      using edited_cell_edits [OF e(5)] st unfolding b3(3) by simp
  qed (use e(6) st b3(4) in simp)
  ultimately have inv3: "buffer_inv (ins(?ts := inserted edits)) b3"
    using e(2) hok2 b3(1) sv assms(1) inserted_no_CR by (simp add: buffer_inv_def)
  have "transaction_depth (buf_history b3) \<noteq> 0" using b3(1) h1(3) d(1) by simp
  from end_transaction_at_ok [OF inv3 this, of ended] obtain b4 r where
    b4: "end_transaction_at ended b3 = Some (b4, r)" "buffer_inv (ins(?ts := inserted edits)) b4" "buf_snapshot b4 = buf_snapshot b3"
      "transaction_depth (buf_history b4) = transaction_depth (buf_history b3) - 1" "lamport_clock b4 = lamport_clock b3" by blast
  have "buf_history b2 = buf_history b1" by (simp add: b2_def)
  then have "buffer_edit started ended edits b = Some (b4, Edit op)"
    using b1 al h1(1) b4(1) e(4) by (simp add: buffer_edit_def b3_def tick_def Let_def)
  moreover have "transaction_depth (buf_history b4) = transaction_depth (buf_history b)"
    using b4(4) b3(1) h1(3) st by (simp add: history_push_def)
  moreover have "unat (lam_value (lamport_clock b4)) \<le> unat (lam_value (lamport_clock b)) + 2"
    using b4(5) b3(2) tb(3) st by simp
  ultimately show ?thesis using b4(2,3) b3(3-5) e(3-6) new by simp
qed

subsection \<open>Undo and redo\<close>

definition level :: "undo_map \<Rightarrow> lamport \<Rightarrow> u32" where
  "level m e = max_count (\<lambda>_. True) (um_abs m) e"

lemma undone_level: "undone m e \<longleftrightarrow> odd (level m e)"
  by (simp add: undone_def level_def odd_iff_mod_2_eq_one)

lemma level_insert:
  assumes "\<And>u. um_abs m1 (e, u) = (if u = ts then Some (level m e + 1) else um_abs m (e, u))" "um_abs m (e, ts) = None" "level m e \<noteq> - 1"
  shows "level m1 e = level m e + 1"
proof -
  let ?S = "{n. \<exists>u. um_abs m (e, u) = Some n}"
  have "{n. \<exists>u. um_abs m1 (e, u) = Some n} = insert (level m e + 1) ?S"
    using assms(1,2) by (auto split: if_splits) (metis option.distinct(1))+
  then have "level m1 e = Max (insert (level m e + 1) (insert 0 ?S))"
    by (simp add: level_def [of m1] max_count_def insert_commute)
  also have "\<dots> = max (level m e + 1) (level m e)" by (simp add: level_def max_count_def)
  also have "\<dots> = level m e + 1"
  proof -
    have "1 + level m e \<noteq> 0" using assms(3) by (metis add_eq_0_iff)
    from unatSuc [OF this] have "level m e \<le> level m e + 1" by (simp add: word_le_nat_alt add.commute)
    then show ?thesis by simp
  qed
  finally show ?thesis .
qed

lemma undo_count_level: "um_good m \<Longrightarrow> undo_count e m = Some (level m e)"
  using counted_entries [of m e "\<lambda>_. True"] by (auto simp: um_good_def undo_count_def level_def)

definition raised :: "undo_map \<Rightarrow> lamport list \<Rightarrow> (lamport \<times> u32) list" where
  "raised m ids = map (\<lambda>e. (e, level m e + 1)) (remdups ids)"

lemma next_counts_ok:
  assumes "um_good m" "\<forall>e \<in> set ids. level m e \<noteq> - 1"
  shows "next_counts m ids = Some (raised m ids)"
proof -
  have "\<forall>e \<in> set es. level m e \<noteq> - 1 \<Longrightarrow>
      those (map (\<lambda>e. map_option (\<lambda>n. (e, if n = - 1 then n else n + 1)) (undo_count e m)) es) = Some (map (\<lambda>e. (e, level m e + 1)) es)" for es
    by (induction es) (simp_all add: undo_count_level [OF assms(1)])
  from this [of "remdups ids"] assms(2) show ?thesis by (simp add: next_counts_def raised_def)
qed

text \<open>No edit of the transaction has been undone and redone \<open>2^32\<close> times, and the new undo map is one a cursor can search.\<close>

definition undo_possible :: "undo_sort \<Rightarrow> transaction \<Rightarrow> buffer \<Rightarrow> bool" where
  "undo_possible srt t b \<longleftrightarrow>
     (let m = snap_undo_map (buf_snapshot b)
      in list_all (\<lambda>e. undo_count e m \<noteq> Some (- 1)) (tr_edit_ids t)
         \<and> pred_option (\<lambda>m1. tree_height m1 < STACK_CAP)
             (Option.bind (next_counts m (tr_edit_ids t))
               (\<lambda>counts. um_insert srt \<lparr>undo_timestamp = lamport_clock b, undo_version = buffer_version b, undo_counts = counts\<rparr> m)))"

lemma undo_possible_levels:
  assumes "undo_possible srt t b" "um_good (snap_undo_map (buf_snapshot b))"
  defines "m \<equiv> snap_undo_map (buf_snapshot b)"
  shows "\<forall>e \<in> set (tr_edit_ids t). level m e \<noteq> - 1"
    "pred_option (\<lambda>m1. tree_height m1 < STACK_CAP) (um_insert srt
       \<lparr>undo_timestamp = lamport_clock b, undo_version = buffer_version b, undo_counts = raised m (tr_edit_ids t)\<rparr> m)"
proof -
  show lv: "\<forall>e \<in> set (tr_edit_ids t). level m e \<noteq> - 1"
    using assms(1,2) by (simp add: undo_possible_def Let_def list_all_iff m_def undo_count_level)
  from assms(1) next_counts_ok [OF assms(2) lv [unfolded m_def]]
  show "pred_option (\<lambda>m1. tree_height m1 < STACK_CAP) (um_insert srt
       \<lparr>undo_timestamp = lamport_clock b, undo_version = buffer_version b, undo_counts = raised m (tr_edit_ids t)\<rparr> m)"
    by (simp add: undo_possible_def Let_def m_def)
qed

lemma map_of_raised: "map_of (raised m ids) e = (if e \<in> set ids then Some (level m e + 1) else None)"
proof -
  have "map_of (map (\<lambda>e. (e, level m e + 1)) es) e = (if e \<in> set es then Some (level m e + 1) else None)" for es by (induction es) auto
  then show ?thesis by (simp add: raised_def)
qed

lemma raised_keys: "map fst (raised m ids) = remdups ids" "fst ` set (raised m ids) = set ids"
  by (simp_all add: raised_def comp_def image_image)

lemma skeleton_cell_edits:
  assumes "skeleton fs' = skeleton fs" "d \<in> set (cells fs')"
  shows "\<exists>c \<in> set (cells fs). cell_edits c = cell_edits d"
proof -
  have "d\<lparr>cell_visible := True\<rparr> \<in> set (skeleton fs')" using assms(2) by (auto simp: skeleton_def)
  then obtain c where c: "c \<in> set (cells fs)" "c\<lparr>cell_visible := True\<rparr> = d\<lparr>cell_visible := True\<rparr>"
    unfolding assms(1) by (auto simp: skeleton_def)
  from c(2) have "cell_edits c = cell_edits d" by (auto simp: cell_edits_def dest: arg_cong [of _ _ cell_ts] arg_cong [of _ _ cell_deletions])
  with c(1) show ?thesis by blast
qed

text \<open>What an undo operation that the buffer has made and applied changes.\<close>

definition undo_made :: "buffer \<Rightarrow> bytes operation \<Rightarrow> buffer \<Rightarrow> bool" where
  "undo_made b op b' \<longleftrightarrow> (\<exists>u. op = Undo u \<and> undo_timestamp u = lamport_clock b \<and> undo_version u = buffer_version b
     \<and> buffer_version b' = global_observe (buffer_version b) (undo_timestamp u)
     \<and> (\<forall>e w. um_abs (snap_undo_map (buf_snapshot b')) (e, w) =
           (if w = undo_timestamp u \<and> e \<in> undone_edits u then map_of (undo_counts u) e
            else um_abs (snap_undo_map (buf_snapshot b)) (e, w))))"

lemma undo_or_redo_ok:
  assumes "buffer_inv ins b" "unat (lam_value (lamport_clock b)) + 1 < 2 ^ 32" "sorts_edits srt" "undo_possible srt t b"
    and "\<forall>e \<in> set (tr_edit_ids t). e \<noteq> base_timestamp \<and> below_clock (lamport_clock b) e \<and> global_observed (buffer_version b) e"
  shows "\<exists>b' op. undo_or_redo srt t b = Some (b', op) \<and> buffer_inv ins b'
    \<and> skeleton (fragments (buf_snapshot b')) = skeleton (fragments (buf_snapshot b))
    \<and> (\<forall>e. level (snap_undo_map (buf_snapshot b')) e =
          level (snap_undo_map (buf_snapshot b)) e + (if e \<in> set (tr_edit_ids t) then 1 else 0))
    \<and> undo_stack (buf_history b') = undo_stack (buf_history b) \<and> redo_stack (buf_history b') = redo_stack (buf_history b)
    \<and> transaction_depth (buf_history b') = transaction_depth (buf_history b) \<and> lamport_clock b' = snd (tick (lamport_clock b))
    \<and> undo_made b op b'"
proof -
  let ?ids = "tr_edit_ids t" and ?m = "snap_undo_map (buf_snapshot b)" and ?ts = "lamport_clock b"
  let ?undo = "\<lparr>undo_timestamp = ?ts, undo_version = buffer_version b, undo_counts = raised ?m ?ids\<rparr>"
  have inv: "snap_inv ins (buf_snapshot b)" "history_ok (buf_history b)" "timestamps_ok b" using assms(1) by (simp_all add: buffer_inv_def)
  have good: "um_good ?m" using inv(1) by (simp add: snap_inv_def)
  note lv = undo_possible_levels(1) [OF assms(4) good]
  define b1 where "b1 = observe_version ?ts (b\<lparr>lamport_clock := snd (tick ?ts)\<rparr>)"
  let ?s1 = "buf_snapshot b1"
  have s1: "snap_undo_map ?s1 = ?m" "fragments ?s1 = fragments (buf_snapshot b)" "visible_text ?s1 = visible_text (buf_snapshot b)"
    and si: "snap_inv ins ?s1"
    using inv(1) by (simp_all add: b1_def observe_version_def snap_inv_def snapshot_ok_def index_ok_def cell_ok_def)
  have fits: "undo_fits srt ?undo (snap_undo_map ?s1)"
    using good undo_possible_levels(2) [OF assms(4) good] raised_keys(1) [of ?m ?ids] by (simp add: undo_fits_def s1)
  have base: "base_timestamp \<notin> undone_edits ?undo" using assms(5) raised_keys(2) [of ?m ?ids] by auto
  from undo_keeps_snap_inv [OF si assms(3) fits base] obtain snap' p where
    u: "apply_undo srt ?undo ?s1 = Some (snap', p)" "snap_inv ins snap'" "skeleton (fragments snap') = skeleton (fragments ?s1)"
      "\<forall>e u. um_abs (snap_undo_map snap') (e, u) = (if u = ?ts \<and> e \<in> set ?ids then map_of (raised ?m ?ids) e else um_abs ?m (e, u))"
      "snap_version snap' = snap_version ?s1"
    unfolding s1(1) by (auto simp: raised_keys)
  define b' where "b' = b1\<lparr>buf_snapshot := snap', subscriptions := publish p (subscriptions b1), buf_history := history_push (Undo ?undo) (buf_history b1)\<rparr>"
  have run: "undo_or_redo srt t b = Some (b', Undo ?undo)"
    using u(1) by (simp add: undo_or_redo_def next_counts_ok [OF good lv] undo_operations_def tick_def b1_def b'_def Let_def)
  note nots = clock_not_recorded(2) [OF inv(3)]
  have lev: "level (snap_undo_map snap') e = level ?m e + (if e \<in> set ?ids then 1 else 0)" for e
  proof (cases "e \<in> set ?ids")
    case True
    have "level (snap_undo_map snap') e = level ?m e + 1"
      using u(4) True lv nots by (intro level_insert [of _ _ ?ts]) (auto simp: map_of_raised)
    with True show ?thesis by simp
  next
    case False
    then show ?thesis using u(4) by (simp add: level_def max_count_def)
  qed
  note tb = tick_below [OF assms(2)]
  have hist: "operations (buf_history b') = (operations (buf_history b))(?ts \<mapsto> Undo ?undo)" "undo_stack (buf_history b') = undo_stack (buf_history b)"
      "redo_stack (buf_history b') = redo_stack (buf_history b)" "transaction_depth (buf_history b') = transaction_depth (buf_history b)"
      "lamport_clock b' = snd (tick ?ts)" "buf_snapshot b' = snap'"
    by (simp_all add: b'_def b1_def observe_version_def history_push_def)
  have none: "operations (buf_history b) ?ts = None" by (rule clock_not_recorded [OF inv(3)])
  have "buf_history b' = history_push (Undo ?undo) (buf_history b)" by (simp add: b'_def b1_def observe_version_def)
  then have hok: "history_ok (buf_history b')" using history_ok_push [OF inv(2), of "Undo ?undo"] none by simp
  have old: "\<exists>c \<in> set (cells (fragments (buf_snapshot b))). x \<in> cell_edits c" if "d \<in> set (cells (fragments snap'))" "x \<in> cell_edits d" for d x
    using skeleton_cell_edits [OF u(3) that(1)] that(2) s1(2) by auto
  have "timestamps_ok b'"
  proof -
    have "2 \<le> lam_value (snd (tick ?ts))" "1 \<le> lam_value (snd (tick ?ts))" using tb(3) inv(3) by (simp_all add: one_le_word timestamps_ok_def)
    moreover have "below_clock (snd (tick ?ts)) x" if "d \<in> set (cells (fragments snap'))" "x \<in> cell_edits d" for d x
      using old [OF that] inv(3) tb(2) by (auto simp: timestamps_ok_def)
    moreover have "below_clock (snd (tick ?ts)) e \<and> below_clock (snd (tick ?ts)) i" if "um_abs (snap_undo_map snap') (e, i) \<noteq> None" for e i
      using that u(4) inv(3) assms(5) tb(1,2) by (auto simp: timestamps_ok_def tick_def split: if_splits)
    moreover have "below_clock (snd (tick ?ts)) i \<and> (is_edit x \<longrightarrow> i \<noteq> base_timestamp)" if "operations (buf_history b') i = Some x" for i x
      using that hist(1) inv(3) tb(1,2) by (auto simp: timestamps_ok_def tick_def split: if_splits)
    ultimately show ?thesis unfolding timestamps_ok_def hist by blast
  qed
  moreover have "version_ok b'"
  proof (rule version_ok_observed [where ts = ?ts and b = b])
    show "version_ok b" using assms(1) by (simp add: buffer_inv_def)
    show "buffer_version b' = global_observe (buffer_version b) ?ts"
      using u(5) by (simp add: hist buffer_version_def b1_def observe_version_def)
    show "stack_edits (buf_history b') \<subseteq> insert ?ts (stack_edits (buf_history b))" by (auto simp: stack_edits_def hist)
    show "u = ?ts \<and> global_observed (buffer_version b) e \<or> um_abs ?m (e, u) \<noteq> None"
      if "um_abs (snap_undo_map (buf_snapshot b')) (e, u) \<noteq> None" for e u
      using that u(4) assms(5) by (auto simp: hist split: if_splits)
  qed (use old in \<open>auto simp: hist\<close>)
  ultimately have "buffer_inv ins b'" using u(2) hok hist(6) assms(1) by (simp add: buffer_inv_def)
  moreover have "undo_made b (Undo ?undo) b'"
    using u(4,5) raised_keys(2) [of ?m ?ids] by (simp add: undo_made_def hist buffer_version_def b1_def observe_version_def)
  ultimately show ?thesis using run u(3) lev hist s1(2) by simp
qed

lemma undo_possible_history [simp]: "undo_possible srt t (b\<lparr>buf_history := h\<rparr>) = undo_possible srt t b"
  by (simp add: undo_possible_def buffer_version_def)

lemma undo_made_history [simp]: "undo_made (b\<lparr>buf_history := h\<rparr>) op b' = undo_made b op b'"
  by (simp add: undo_made_def buffer_version_def)

text \<open>Moving an entry between the stacks and undoing or redoing its transaction.\<close>

lemma undo_entry_ok:
  assumes "buffer_inv ins b" "unat (lam_value (lamport_clock b)) + 1 < 2 ^ 32" "sorts_edits srt" "undo_possible srt (he_transaction e) b"
    and "history_move (buf_history b) h" "operations h = operations (buf_history b)" "transaction_depth h = transaction_depth (buf_history b)"
    and "e \<in> set (undo_stack (buf_history b)) \<union> set (redo_stack (buf_history b))"
  shows "\<exists>b' op. undo_or_redo srt (he_transaction e) (b\<lparr>buf_history := h\<rparr>) = Some (b', op) \<and> buffer_inv ins b'
    \<and> skeleton (fragments (buf_snapshot b')) = skeleton (fragments (buf_snapshot b))
    \<and> (\<forall>i. level (snap_undo_map (buf_snapshot b')) i =
          level (snap_undo_map (buf_snapshot b)) i + (if i \<in> set (tr_edit_ids (he_transaction e)) then 1 else 0))
    \<and> undo_stack (buf_history b') = undo_stack h \<and> redo_stack (buf_history b') = redo_stack h
    \<and> transaction_depth (buf_history b') = transaction_depth h \<and> lamport_clock b' = snd (tick (lamport_clock b))
    \<and> undo_made b op b'"
proof -
  have ok: "history_ok (buf_history b)" using assms(1) by (simp add: buffer_inv_def)
  note hok = history_step_ok [OF history_move_step [OF assms(5)] ok] and sub = move_stack_edits [OF assms(5) ok]
  have inv: "buffer_inv ins (b\<lparr>buf_history := h\<rparr>)"
    using assms(1,6,7) hok sub by (intro buffer_inv_history) (simp_all add: buffer_inv_def timestamps_ok_def)
  have "\<forall>i \<in> set (tr_edit_ids (he_transaction e)). i \<noteq> base_timestamp \<and> below_clock (lamport_clock b) i
      \<and> global_observed (buffer_version b) i"
    using stack_edit_known [OF assms(1,8)] by blast
  with undo_or_redo_ok [OF inv _ assms(3), of "he_transaction e"] assms(2,4) show ?thesis
    by (simp add: buffer_version_def)
qed

lemma buffer_undo_ok:
  assumes "buffer_inv ins b" "unat (lam_value (lamport_clock b)) + 1 < 2 ^ 32" "sorts_edits srt" "transaction_depth (buf_history b) = 0"
    and "undo_stack (buf_history b) = es @ [e]" "undo_possible srt (he_transaction e) b"
  shows "\<exists>b' op. buffer_undo srt b = Some (b', Some (transaction_id_of e, op)) \<and> buffer_inv ins b'
    \<and> skeleton (fragments (buf_snapshot b')) = skeleton (fragments (buf_snapshot b))
    \<and> (\<forall>i. level (snap_undo_map (buf_snapshot b')) i =
          level (snap_undo_map (buf_snapshot b)) i + (if i \<in> set (tr_edit_ids (he_transaction e)) then 1 else 0))
    \<and> undo_stack (buf_history b') = es \<and> redo_stack (buf_history b') = redo_stack (buf_history b) @ [e]
    \<and> transaction_depth (buf_history b') = 0 \<and> lamport_clock b' = snd (tick (lamport_clock b))
    \<and> undo_made b op b'"
proof -
  let ?h = "(buf_history b)\<lparr>undo_stack := es, redo_stack := redo_stack (buf_history b) @ [e]\<rparr>"
  have pop: "pop_undo (buf_history b) = Some (?h, Some e)" using assms(4,5) by (simp add: pop_undo_def rust_assert_def)
  from undo_entry_ok [OF assms(1-3,6) history_move.pop_undo [OF pop]] assms(4,5) pop show ?thesis by (auto simp: buffer_undo_def)
qed

lemma buffer_redo_ok:
  assumes "buffer_inv ins b" "unat (lam_value (lamport_clock b)) + 1 < 2 ^ 32" "sorts_edits srt" "transaction_depth (buf_history b) = 0"
    and "redo_stack (buf_history b) = es @ [e]" "undo_possible srt (he_transaction e) b"
  shows "\<exists>b' op. buffer_redo srt b = Some (b', Some (transaction_id_of e, op)) \<and> buffer_inv ins b'
    \<and> skeleton (fragments (buf_snapshot b')) = skeleton (fragments (buf_snapshot b))
    \<and> (\<forall>i. level (snap_undo_map (buf_snapshot b')) i =
          level (snap_undo_map (buf_snapshot b)) i + (if i \<in> set (tr_edit_ids (he_transaction e)) then 1 else 0))
    \<and> undo_stack (buf_history b') = undo_stack (buf_history b) @ [e] \<and> redo_stack (buf_history b') = es
    \<and> transaction_depth (buf_history b') = 0 \<and> lamport_clock b' = snd (tick (lamport_clock b))
    \<and> undo_made b op b'"
proof -
  let ?h = "(buf_history b)\<lparr>redo_stack := es, undo_stack := undo_stack (buf_history b) @ [e]\<rparr>"
  have pop: "pop_redo (buf_history b) = Some (?h, Some e)" using assms(4,5) by (simp add: pop_redo_def rust_assert_def)
  from undo_entry_ok [OF assms(1-3,6) history_move.pop_redo [OF pop]] assms(4,5) pop show ?thesis by (auto simp: buffer_redo_def)
qed

end
