(* ===== verification/Apply_Ops_Proofs.thy ===== *)
theory Apply_Ops_Proofs
  imports Queue_Proofs Buffer_Proofs Remote_Proofs
begin

text \<open>
  Operations from other replicas keep the invariant of the buffer, when they are operations another replica can have made:
  \<open>op_fits\<close> says so of one operation, \<open>ops_fit\<close> of the operations that a call of \<open>apply_ops\<close> applies.
\<close>

subsection \<open>Operations that fit\<close>

text \<open>The clock of the replica that made the operation was ahead of everything it had observed.\<close>

definition made_after :: "global \<Rightarrow> lamport \<Rightarrow> bool" where
  "made_after version ts \<longleftrightarrow> lam_value ts > 0 \<and> list_all (\<lambda>v. v < lam_value ts) version"

definition edit_fits :: "bytes edit_operation \<Rightarrow> snapshot \<Rightarrow> bool" where
  "edit_fits e snap \<longleftrightarrow> made_after (edit_version e) (edit_timestamp e) \<and> edit_timestamp e \<noteq> base_timestamp
     \<and> length (edit_ranges e) = length (edit_new_text e)
     \<and> edits_ok 0 (zip (edit_ranges e) (edit_new_text e)) (sum_list (map (versioned_len (edit_version e)) (fragments snap)))
     \<and> length (concat (edit_new_text e)) \<le> MAX_INSERTION_LEN \<and> CR \<notin> set (concat (edit_new_text e))"

definition undo_op_fits :: "undo_sort \<Rightarrow> undo_operation \<Rightarrow> snapshot \<Rightarrow> bool" where
  "undo_op_fits srt u snap \<longleftrightarrow> undo_fits srt u (snap_undo_map snap)
     \<and> list_all (\<lambda>(e, n). global_observed (snap_version snap) e \<and> e \<noteq> base_timestamp) (undo_counts u)"

definition op_fits :: "undo_sort \<Rightarrow> bytes operation \<Rightarrow> buffer \<Rightarrow> bool" where
  "op_fits srt op b \<longleftrightarrow> unat (lam_value (op_timestamp op)) + 1 < 2 ^ 32
     \<and> (case op of Edit e \<Rightarrow> edit_fits e (buf_snapshot b) | Undo u \<Rightarrow> undo_op_fits srt u (buf_snapshot b))"

lemma made_after_older: "made_after version ts \<Longrightarrow> global_observed version e \<Longrightarrow> e < ts"
  by (cases "unat (lam_replica e) < length version")
    (auto simp: made_after_def global_observed_def global_get_gv gv_def less_lamport_iff list_all_length dest: order.strict_trans1)

lemma observe_op_simps [simp]:
  "fragments (buf_snapshot (observe_op ts b)) = fragments (buf_snapshot b)" "buf_history (observe_op ts b) = buf_history b"
  "snap_undo_map (buf_snapshot (observe_op ts b)) = snap_undo_map (buf_snapshot b)"
  "visible_text (buf_snapshot (observe_op ts b)) = visible_text (buf_snapshot b)"
  "lamport_clock (observe_op ts b) = lamport_observe (lamport_clock b) ts" "buffer_version (observe_op ts b) = global_observe (buffer_version b) ts"
  "deferred_ops (observe_op ts b) = deferred_ops b" "deferred_replicas (observe_op ts b) = deferred_replicas b"
  "snap_inv ins (buf_snapshot (observe_op ts b)) = snap_inv ins (buf_snapshot b)"
  by (simp_all add: observe_op_def observe_version_def buffer_version_def snap_inv_def snapshot_ok_def index_ok_def cell_ok_def)

lemma lamport_observe_below:
  assumes "unat (lam_value c) + 1 < 2 ^ 32" "unat (lam_value ts) + 1 < 2 ^ 32"
  shows "below_clock c e \<Longrightarrow> below_clock (lamport_observe c ts) e" "below_clock (lamport_observe c ts) ts"
    "lam_value c < lam_value (lamport_observe c ts)"
proof -
  have "unat (lam_value (lamport_observe c ts)) = max (unat (lam_value c)) (unat (lam_value ts)) + 1"
    using assms by (auto simp: lamport_observe_def unat_word_ariths max_def word_le_nat_alt)
  moreover have "lam_replica (lamport_observe c ts) = lam_replica c" by (simp add: lamport_observe_def)
  ultimately show "below_clock c e \<Longrightarrow> below_clock (lamport_observe c ts) e" "below_clock (lamport_observe c ts) ts"
    "lam_value c < lam_value (lamport_observe c ts)"
    by (auto simp: below_clock_def word_less_nat_alt)
qed

text \<open>Observing an operation after it has been applied to the snapshot.\<close>

lemma observed_inv:
  assumes "buffer_inv ins b" "unat (lam_value (lamport_clock b)) + 1 < 2 ^ 32" "unat (lam_value ts) + 1 < 2 ^ 32"
    and "snap_inv ins' snap" "\<forall>t. CR \<notin> set (ins' t)" "snap_version snap = buffer_version b"
    and "\<And>d e. d \<in> set (cells (fragments snap)) \<Longrightarrow> e \<in> cell_edits d \<Longrightarrow>
      e = ts \<or> (\<exists>c \<in> set (cells (fragments (buf_snapshot b))). e \<in> cell_edits c)"
    and "\<And>e u. um_abs (snap_undo_map snap) (e, u) \<noteq> None \<Longrightarrow>
      u = ts \<and> global_observed (buffer_version b) e \<and> below_clock (lamport_clock b) e \<or> um_abs (snap_undo_map (buf_snapshot b)) (e, u) \<noteq> None"
    and "b1 = observe_op ts (b\<lparr>buf_snapshot := snap, subscriptions := subs\<rparr>)"
  shows "buffer_inv ins' b1"
proof -
  let ?c = "lamport_observe (lamport_clock b) ts"
  note below = lamport_observe_below [OF assms(2,3)]
  have inv: "history_ok (buf_history b)" "timestamps_ok b" "version_ok b" using assms(1) by (simp_all add: buffer_inv_def)
  have b1: "buf_history b1 = buf_history b" "fragments (buf_snapshot b1) = fragments snap" "snap_undo_map (buf_snapshot b1) = snap_undo_map snap"
    "lamport_clock b1 = ?c" "snap_inv ins' (buf_snapshot b1)"
    using assms(4) unfolding assms(9) by simp_all
  have ver: "buffer_version b1 = global_observe (buffer_version b) ts"
    unfolding assms(9) observe_op_simps using assms(6) by (simp add: buffer_version_def)
  have "version_ok b1"
  proof (rule version_ok_observed [where ts = ts and b = b])
    show "stack_edits (buf_history b1) \<subseteq> insert ts (stack_edits (buf_history b))" by (auto simp: b1)
    show "u = ts \<and> global_observed (buffer_version b) e \<or> um_abs (snap_undo_map (buf_snapshot b)) (e, u) \<noteq> None"
      if "um_abs (snap_undo_map (buf_snapshot b1)) (e, u) \<noteq> None" for e u using assms(8) [of e u] that by (auto simp: b1)
  qed (use inv b1 ver assms(7) in simp_all)
  moreover have "timestamps_ok b1"
  proof -
    have "below_clock ?c e" if "d \<in> set (cells (fragments snap))" "e \<in> cell_edits d" for d e
      using assms(7) [OF that] inv(2) below(1,2) by (auto simp: timestamps_ok_def)
    moreover have "below_clock ?c e \<and> below_clock ?c u" if "um_abs (snap_undo_map snap) (e, u) \<noteq> None" for e u
      using assms(8) [OF that] inv(2) below(1,2) unfolding timestamps_ok_def by blast
    moreover have "below_clock ?c t \<and> (is_edit op \<longrightarrow> t \<noteq> base_timestamp)" if "operations (buf_history b) t = Some op" for t op
      using that inv(2) below(1) by (auto simp: timestamps_ok_def)
    moreover have "1 \<le> lam_value ?c" "transaction_depth (buf_history b) \<noteq> 0 \<longrightarrow> 2 \<le> lam_value ?c"
      using inv(2) below(3) by (auto simp: timestamps_ok_def)
    ultimately show ?thesis unfolding timestamps_ok_def b1 by blast
  qed
  ultimately show ?thesis using b1(1,5) inv(1) assms(5) by (simp add: buffer_inv_def)
qed

text \<open>What only concerns the channels of a buffer.\<close>

lemma notify_same:
  "buf_snapshot (notify_versions b) = buf_snapshot b" "buf_history (notify_versions b) = buf_history b"
  "lamport_clock (notify_versions b) = lamport_clock b" "deferred_ops (notify_versions b) = deferred_ops b"
  "deferred_replicas (notify_versions b) = deferred_replicas b"
  by (simp_all add: notify_versions_def)

lemma resolve_same:
  "buf_snapshot (resolve_edit e b) = buf_snapshot b" "buf_history (resolve_edit e b) = buf_history b"
  "lamport_clock (resolve_edit e b) = lamport_clock b" "deferred_ops (resolve_edit e b) = deferred_ops b"
  "deferred_replicas (resolve_edit e b) = deferred_replicas b"
  by (simp_all add: resolve_edit_def)

lemma buffer_inv_same:
  assumes "buffer_inv ins b" "buf_snapshot b1 = buf_snapshot b" "buf_history b1 = buf_history b" "lamport_clock b1 = lamport_clock b"
  shows "buffer_inv ins b1"
  using assms by (simp add: buffer_inv_def timestamps_ok_def version_ok_def buffer_version_def)

lemma not_observed_new:
  assumes "version_ok b" "snap_inv ins (buf_snapshot b)" "\<not> global_observed (buffer_version b) ts" "ts \<noteq> base_timestamp"
  shows "new_timestamp ts (buf_snapshot b)"
proof -
  let ?F = "fragments (buf_snapshot b)"
  have "frag_timestamp f \<noteq> ts \<and> ts \<notin> set (frag_deletions f)" if f: "f \<in> set ?F" for f
  proof -
    let ?d = "\<lparr>cell_ts = frag_timestamp f, cell_offset = frag_offset f, cell_visible = frag_visible f, cell_deletions = frag_deletions f\<rparr>"
    have "?d \<in> set (cells ?F)" using first_cell snap_inv_frag_len [OF assms(2) f] cells_mono [OF f] by blast
    then have "\<forall>e \<in> cell_edits ?d. global_observed (buffer_version b) e" using assms(1) unfolding version_ok_def by blast
    then show ?thesis using assms(3) by (auto simp: cell_edits_def)
  qed
  moreover have "um_abs (snap_undo_map (buf_snapshot b)) (ts, u) = None" for u using assms(1,3) unfolding version_ok_def by blast
  moreover have "ts \<noteq> lamport_MIN" using assms(3) by (auto simp: global_observed_def lamport_MIN_def)
  ultimately show ?thesis using assms(4) by (simp add: new_timestamp_def fresh_def)
qed

lemma apply_edit_op_ok:
  assumes "buffer_inv ins b" "unat (lam_value (lamport_clock b)) + 1 < 2 ^ 32" "unat (lam_value (edit_timestamp e)) + 1 < 2 ^ 32"
    and "edit_fits e (buf_snapshot b)" "\<not> global_observed (buffer_version b) (edit_timestamp e)"
  shows "\<exists>b1. apply_edit_op e b = Some b1 \<and> buffer_inv (ins(edit_timestamp e := concat (edit_new_text e))) b1
    \<and> buf_history b1 = buf_history b \<and> lamport_clock b1 = lamport_observe (lamport_clock b) (edit_timestamp e)
    \<and> buffer_version b1 = global_observe (buffer_version b) (edit_timestamp e)
    \<and> deferred_ops b1 = deferred_ops b \<and> deferred_replicas b1 = deferred_replicas b
    \<and> cells (fragments (buf_snapshot b1)) = remote_cells (edit_version e) (snap_undo_map (buf_snapshot b)) (edit_timestamp e) 0 0
        (zip (edit_ranges e) (edit_new_text e)) (cells (fragments (buf_snapshot b)))
    \<and> snap_undo_map (buf_snapshot b1) = snap_undo_map (buf_snapshot b)"
proof -
  let ?snap = "buf_snapshot b" and ?ts = "edit_timestamp e" and ?ins = "ins(edit_timestamp e := concat (edit_new_text e))"
  let ?C = "remote_cells (edit_version e) (snap_undo_map ?snap) ?ts 0 0 (zip (edit_ranges e) (edit_new_text e)) (cells (fragments ?snap))"
  have inv: "snap_inv ins ?snap" "version_ok b" and nocr: "\<forall>t. CR \<notin> set (ins t)" using assms(1) by (simp_all add: buffer_inv_def)
  have fits: "made_after (edit_version e) ?ts" "?ts \<noteq> base_timestamp" "length (edit_ranges e) = length (edit_new_text e)"
    "edits_ok 0 (zip (edit_ranges e) (edit_new_text e)) (length (filter (observed_cell (edit_version e)) (cells (fragments ?snap))))"
    "length (concat (edit_new_text e)) \<le> MAX_INSERTION_LEN" "CR \<notin> set (concat (edit_new_text e))"
    using assms(4) by (simp_all add: edit_fits_def observed_cells)
  note new = not_observed_new [OF inv(2,1) assms(5) fits(2)]
  have "\<exists>snap' p. apply_remote_edit (edit_version e) (edit_ranges e) (edit_new_text e) ?ts ?snap = Some (snap', p)
    \<and> snap_inv ?ins snap' \<and> edited_cells ?ts (cells (fragments ?snap)) (cells (fragments snap'))
    \<and> cells (fragments snap') = ?C \<and> snap_undo_map snap' = snap_undo_map ?snap \<and> snap_version snap' = snap_version ?snap"
  proof (cases "edit_ranges e = []")
    case True
    have fr: "fresh ?ts (fragments ?snap)" using new by (simp add: new_timestamp_def)
    have "snapshot_ok (ins(?ts := [])) ?snap" using inv(1) fr by (intro snapshot_ok_fresh) (auto simp: snap_inv_def fresh_def)
    then have "snap_inv ?ins ?snap" using inv(1) True fits(3) by (simp add: snap_inv_def)
    moreover have "edited_cells ?ts (cells (fragments ?snap)) (cells (fragments ?snap))"
      using fresh_cell [OF fr] by (intro edited_cells_same) blast
    ultimately show ?thesis using True by (simp add: apply_remote_edit_def)
  next
    case False
    have "\<forall>f \<in> set (fragments ?snap). global_observed (edit_version e) (frag_timestamp f) \<longrightarrow> frag_timestamp f < ?ts"
      using made_after_older [OF fits(1)] by blast
    from apply_remote_edit_ok [OF inv(1) new False fits(3) this fits(4,5)] show ?thesis by blast
  qed
  then obtain snap' p where s: "apply_remote_edit (edit_version e) (edit_ranges e) (edit_new_text e) ?ts ?snap = Some (snap', p)"
    "snap_inv ?ins snap'" "edited_cells ?ts (cells (fragments ?snap)) (cells (fragments snap'))" "cells (fragments snap') = ?C"
    "snap_undo_map snap' = snap_undo_map ?snap" "snap_version snap' = snap_version ?snap" by blast
  define b1 where "b1 = observe_op ?ts (b\<lparr>buf_snapshot := snap',
    subscriptions := (case p of Some p \<Rightarrow> publish p (subscriptions b) | None \<Rightarrow> subscriptions b)\<rparr>)"
  have "buffer_inv ?ins b1"
  proof (rule observed_inv [OF assms(1-3) s(2) _ _ _ _ b1_def])
    show "\<forall>t. CR \<notin> set (?ins t)" using nocr fits(6) by simp
    show "snap_version snap' = buffer_version b" using s(6) by (simp add: buffer_version_def)
    show "x = ?ts \<or> (\<exists>c \<in> set (cells (fragments ?snap)). x \<in> cell_edits c)"
      if "d \<in> set (cells (fragments snap'))" "x \<in> cell_edits d" for d x using edited_cell_edits [OF s(3) that] .
  qed (use s(5) in simp)
  moreover have "apply_edit_op e b = Some (resolve_edit ?ts b1)" using s(1) assms(5) by (simp add: apply_edit_op_def b1_def Let_def)
  moreover have "buffer_version (resolve_edit ?ts b1) = global_observe (buffer_version b) ?ts"
    using s(6) by (simp add: buffer_version_def resolve_same) (simp add: b1_def observe_op_def observe_version_def buffer_version_def)
  ultimately show ?thesis using buffer_inv_same [OF _ resolve_same(1-3)] s(4,5) by (auto simp: resolve_same) (simp_all add: b1_def)
qed

lemma apply_undo_op_ok:
  assumes "buffer_inv ins b" "unat (lam_value (lamport_clock b)) + 1 < 2 ^ 32" "unat (lam_value (undo_timestamp u)) + 1 < 2 ^ 32"
    and "sorts_edits srt" "undo_op_fits srt u (buf_snapshot b)" "\<forall>e \<in> undone_edits u. below_clock (lamport_clock b) e"
    and "\<not> global_observed (buffer_version b) (undo_timestamp u)"
  shows "\<exists>b1. apply_undo_op srt u b = Some b1 \<and> buffer_inv ins b1
    \<and> buf_history b1 = buf_history b \<and> lamport_clock b1 = lamport_observe (lamport_clock b) (undo_timestamp u)
    \<and> buffer_version b1 = global_observe (buffer_version b) (undo_timestamp u)
    \<and> deferred_ops b1 = deferred_ops b \<and> deferred_replicas b1 = deferred_replicas b
    \<and> skeleton (fragments (buf_snapshot b1)) = skeleton (fragments (buf_snapshot b))
    \<and> (\<forall>e w. um_abs (snap_undo_map (buf_snapshot b1)) (e, w) = (if w = undo_timestamp u \<and> e \<in> undone_edits u then map_of (undo_counts u) e
          else um_abs (snap_undo_map (buf_snapshot b)) (e, w)))"
proof -
  let ?snap = "buf_snapshot b" and ?ts = "undo_timestamp u"
  have inv: "snap_inv ins ?snap" and nocr: "\<forall>t. CR \<notin> set (ins t)" using assms(1) by (simp_all add: buffer_inv_def)
  have fits: "undo_fits srt u (snap_undo_map ?snap)" "\<forall>e \<in> undone_edits u. global_observed (buffer_version b) e \<and> e \<noteq> base_timestamp"
    using assms(5) by (auto simp: undo_op_fits_def list_all_iff buffer_version_def)
  then have "base_timestamp \<notin> undone_edits u" by blast
  from undo_keeps_snap_inv [OF inv assms(4) fits(1) this] obtain snap' p where
    s: "apply_undo srt u ?snap = Some (snap', p)" "snap_inv ins snap'" "snap_version snap' = snap_version ?snap"
      "skeleton (fragments snap') = skeleton (fragments ?snap)"
      "\<forall>e w. um_abs (snap_undo_map snap') (e, w) = (if w = ?ts \<and> e \<in> undone_edits u then map_of (undo_counts u) e else um_abs (snap_undo_map ?snap) (e, w))"
    by blast
  define b1 where "b1 = observe_op ?ts (b\<lparr>buf_snapshot := snap', subscriptions := publish p (subscriptions b)\<rparr>)"
  have "buffer_inv ins b1"
  proof (rule observed_inv [OF assms(1-3) s(2) nocr _ _ _ b1_def])
    show "snap_version snap' = buffer_version b" using s(3) by (simp add: buffer_version_def)
    show "x = ?ts \<or> (\<exists>c \<in> set (cells (fragments ?snap)). x \<in> cell_edits c)"
      if "d \<in> set (cells (fragments snap'))" "x \<in> cell_edits d" for d x
      using skeleton_cell_edits [OF s(4) that(1)] that(2) by auto
    show "w = ?ts \<and> global_observed (buffer_version b) e \<and> below_clock (lamport_clock b) e \<or> um_abs (snap_undo_map ?snap) (e, w) \<noteq> None"
      if "um_abs (snap_undo_map snap') (e, w) \<noteq> None" for e w
      using that s(5) fits(2) assms(6) by (auto split: if_splits)
  qed
  moreover have "apply_undo_op srt u b = Some b1" using s(1) assms(7) by (simp add: apply_undo_op_def b1_def)
  moreover have "buffer_version b1 = global_observe (buffer_version b) ?ts"
    using s(3) by (simp add: b1_def observe_op_def observe_version_def buffer_version_def)
  ultimately show ?thesis using s(4,5) by (auto simp: b1_def)
qed

end
