(* ===== verification/Buffer_Run.thy ===== *)
theory Buffer_Run
  imports Local_Cells Apply_Ops_Proofs
begin

text \<open>
  The operations a buffer makes and applies. \<open>run_inv\<close> says of the operations \<open>ops\<close>, in the order in which a buffer that began with
  the text \<open>base\<close> has made or applied them, that none came before one it knows of, and that the document of the buffer is the one they
  lead to.
\<close>

subsection \<open>Effects of the operations\<close>

definition doc_of :: "snapshot \<Rightarrow> doc" where
  "doc_of snap = (cells (fragments snap), um_abs (snap_undo_map snap))"

lemma split_observed_all: "\<forall>c \<in> set C. P c \<Longrightarrow> split_observed P n C = (take n C, drop n C)"
proof (induction n arbitrary: C)
  case (Suc n)
  then show ?case by (cases C) simp_all
qed simp

lemma local_cells_remote:
  "\<forall>c \<in> set C. observed_cell v c \<and> cell_ts c < ts \<and> mark_cell v m ts c = delete_visible ts c \<Longrightarrow>
     local_cells ts off pos es C = remote_cells v m ts off pos es C"
proof (induction es arbitrary: off pos C)
  case (Cons x es)
  obtain s e t where x: "x = ((s, e), t)" by (metis surj_pair)
  let ?B = "drop (s - pos) C"
  have sub: "set (drop n ?B) \<subseteq> set C" "set ?B \<subseteq> set C" "set (take n ?B) \<subseteq> set C" for n
    by (auto dest!: in_set_dropD in_set_takeD)
  have "\<forall>c \<in> set ?B. \<not> ts < cell_ts c" using Cons.prems sub(2) by (meson order.asym subsetD)
  then have H: "takeWhile (\<lambda>c. ts < cell_ts c) ?B = []" by (cases ?B) simp_all
  have "split_observed (observed_cell v) (s - pos) C = (take (s - pos) C, ?B)" using Cons.prems by (intro split_observed_all) blast
  moreover have "split_observed (observed_cell v) (e - s) ?B = (take (e - s) ?B, drop (e - s) ?B)"
    using Cons.prems sub(2) by (intro split_observed_all) blast
  moreover have "map (delete_visible ts) (take (e - s) ?B) = map (mark_cell v m ts) (take (e - s) ?B)"
    using Cons.prems sub(3) [of "e - s"] by (intro map_cong) (auto simp del: take_drop drop_drop)
  moreover have "local_cells ts (off + length t) e es (drop (e - s) ?B) = remote_cells v m ts (off + length t) e es (drop (e - s) ?B)"
    using Cons.prems sub(1) [of "e - s"] by (intro Cons.IH) blast
  ultimately show ?case by (simp add: x H del: drop_drop)
qed simp

lemma remote_edit_effect:
  assumes "edits_ok 0 (edits_of e) (length (filter (observed_cell (edit_version e)) C))"
    and "\<forall>c \<in> set C. observed_cell (edit_version e) c \<longrightarrow> cell_ts c < edit_timestamp e"
  shows "fits_doc (Edit e) (C, um_abs m)"
    "effect (Edit e) (C, um_abs m) = (remote_cells (edit_version e) m (edit_timestamp e) 0 0 (edits_of e) C, um_abs m)"
  using assms remote_cells_place [of 0 "edits_of e" "edit_version e" C "edit_timestamp e" m 0] by simp_all

lemma observed_older: "made_after v ts \<Longrightarrow> observed_cell v c \<Longrightarrow> cell_ts c < ts"
  using made_after_older by (simp add: observed_cell_def)

text \<open>With everything observed, an edit deletes what is visible.\<close>

lemma undone_at_all: "\<forall>e u. um_abs m (e, u) \<noteq> None \<longrightarrow> global_observed v u \<Longrightarrow> undone_at v m e = undone m e"
proof -
  assume a: "\<forall>e u. um_abs m (e, u) \<noteq> None \<longrightarrow> global_observed v u"
  have "{n. \<exists>u. global_observed v u \<and> um_abs m (e, u) = Some n} = {n. \<exists>u. True \<and> um_abs m (e, u) = Some n}"
    using a by (metis (no_types) option.distinct(1))
  then show ?thesis by (simp only: undone_at_def undone_def max_count_def)
qed

lemma local_edit_effect:
  assumes "snap_inv ins snap" "edits_ok 0 edits (length (visible_text snap))" "new_timestamp ts snap"
    and "length (inserted edits) \<le> MAX_INSERTION_LEN" "apply_edit_internal edits ts snap = Some (snap', e, p)"
    and "edit_timestamp e = ts" "edit_version e = v" "snap_undo_map snap' = snap_undo_map snap" "made_after v ts"
    and "\<forall>c \<in> set (cells (fragments snap)). \<forall>e \<in> cell_edits c. global_observed v e"
    and "\<forall>e u. um_abs (snap_undo_map snap) (e, u) \<noteq> None \<longrightarrow> global_observed v u"
  shows "fits_doc (Edit e) (doc_of snap) \<and> effect (Edit e) (doc_of snap) = doc_of snap'"
proof -
  let ?C = "cells (fragments snap)" and ?m = "snap_undo_map snap"
  have ok: "snapshot_ok ins snap" "fresh ts (fragments snap)" using assms(1,3) by (simp_all add: snap_inv_def new_timestamp_def)
  note c = apply_edit_internal_cells [OF ok(1) assms(2) ok(2) assms(4,5)]
  have obs: "\<forall>c \<in> set ?C. observed_cell v c" using assms(10) by (auto simp: observed_cell_def cell_edits_def)
  have old: "\<forall>c \<in> set ?C. cell_ts c < ts" using obs observed_older [OF assms(9)] by blast
  have "mark_cell v ?m ts c = delete_visible ts c" if "c \<in> set ?C" for c
  proof -
    have "cell_visible c = flag_cell ?m c" using assms(1) that by (simp add: snap_inv_def cell_ok_def)
    moreover have "global_observed v (cell_ts c)" "\<forall>d \<in> set (cell_deletions c). global_observed v d"
      using assms(10) that by (auto simp: cell_edits_def)
    ultimately show ?thesis using undone_at_all [OF assms(11)]
      by (simp add: mark_cell_def delete_visible_def visible_at_def flag_cell_def)
  qed
  with obs old have "local_cells ts 0 0 (edits_of e) ?C = remote_cells v ?m ts 0 0 (edits_of e) ?C" by (intro local_cells_remote) blast
  moreover have "filter (observed_cell v) ?C = ?C" using obs by (simp add: filter_id_conv)
  ultimately show ?thesis using remote_edit_effect [of e ?C ?m] c old assms(6-8) by (simp add: doc_of_def)
qed

lemma skeleton_view: "skeleton fs = skeleton gs \<Longrightarrow> map cell_view (cells fs) = map cell_view (cells gs)"
proof -
  assume "skeleton fs = skeleton gs"
  then have "map cell_view (skeleton fs) = map cell_view (skeleton gs)" by simp
  then show ?thesis by (simp add: skeleton_def cell_view_def [abs_def] comp_def)
qed

lemma undo_effect:
  assumes "skeleton (fragments snap') = skeleton (fragments snap)"
    and "\<forall>e w. um_abs (snap_undo_map snap') (e, w) = (if w = undo_timestamp u \<and> e \<in> undone_edits u then map_of (undo_counts u) e
          else um_abs (snap_undo_map snap) (e, w))"
  shows "same_doc (doc_of snap') (effect (Undo u) (doc_of snap))"
  using skeleton_view [OF assms(1)] assms(2) by (auto simp: same_doc_def doc_of_def)

subsection \<open>Versions and clocks\<close>

lemma observed_all_observed: "observed_all a b \<Longrightarrow> global_observed b e \<Longrightarrow> global_observed a e"
  by (auto simp: observed_all_iff global_observed_def global_get_gv intro: order_trans)

lemma observed_all_refl: "observed_all a a"
  by (simp add: observed_all_iff)

lemma observed_all_trans: "observed_all a b \<Longrightarrow> observed_all b c \<Longrightarrow> observed_all a c"
  by (auto simp: observed_all_iff intro: order_trans)

lemma not_observed_ahead: "made_after v c \<Longrightarrow> \<not> global_observed v c"
  by (cases "unat (lam_replica c) < length v")
    (auto simp: made_after_def global_observed_def global_get_gv gv_def list_all_length not_le word_gt_0 dest: leD)

lemma made_after_gv: "made_after v c \<longleftrightarrow> lam_value c > 0 \<and> (\<forall>n. gv v n < lam_value c)"
  by (auto simp: made_after_def list_all_length gv_def)

lemma observed_all_observe: "observed_all (global_observe v t) v"
  by (auto simp: observed_all_iff length_observe)

lemma made_after_later: "made_after v c \<Longrightarrow> lam_value c \<le> lam_value c' \<Longrightarrow> made_after v c'"
  by (auto simp: made_after_gv intro: order.strict_trans2)

lemma made_after_tick:
  assumes "made_after v c" "unat (lam_value c) + 1 < 2 ^ 32"
  shows "made_after v (snd (tick c))" "made_after (global_observe v c) (snd (tick c))"
proof -
  have lt: "lam_value c < lam_value (snd (tick c))" using tick_below(3) [OF assms(2)] by (simp add: word_less_nat_alt)
  then show "made_after v (snd (tick c))" using made_after_later [OF assms(1)] by simp
  then show "made_after (global_observe v c) (snd (tick c))" using lt assms(1) by (auto simp: made_after_gv)
qed

lemma made_after_observe:
  assumes "made_after v c" "unat (lam_value c) + 1 < 2 ^ 32" "unat (lam_value t) + 1 < 2 ^ 32"
  shows "made_after (global_observe v t) (lamport_observe c t)"
proof -
  have "unat (lam_value (lamport_observe c t)) = max (unat (lam_value c)) (unat (lam_value t)) + 1"
    using assms by (auto simp: lamport_observe_def unat_word_ariths max_def word_le_nat_alt)
  then have lt: "lam_value c < lam_value (lamport_observe c t)" "lam_value t < lam_value (lamport_observe c t)"
    by (simp_all add: word_less_nat_alt)
  then have "made_after v (lamport_observe c t)" using made_after_later [OF assms(1)] by simp
  then show ?thesis using lt(2) by (auto simp: made_after_gv)
qed

lemma observed_below: "made_after v c \<Longrightarrow> global_observed v e \<Longrightarrow> below_clock c e"
  by (auto simp: made_after_gv global_observed_def global_get_gv below_clock_def intro: order.strict_trans1)

subsection \<open>The invariant of a run\<close>

fun text_of_op :: "bytes operation \<Rightarrow> (lamport \<Rightarrow> bytes) \<Rightarrow> lamport \<Rightarrow> bytes" where
  "text_of_op (Edit e) ins = ins(edit_timestamp e := concat (edit_new_text e))"
| "text_of_op (Undo u) ins = ins"

definition ins_of :: "bytes \<Rightarrow> bytes operation list \<Rightarrow> lamport \<Rightarrow> bytes" where
  "ins_of base ops = fold text_of_op ops (\<lambda>_. normalize_text base)"

lemma ins_of_snoc [simp]: "ins_of base [] = (\<lambda>_. normalize_text base)" "ins_of base (ops @ [op]) = text_of_op op (ins_of base ops)"
  by (simp_all add: ins_of_def)

text \<open>The document of a new buffer, which no replica has edited.\<close>

definition doc_new :: "bytes \<Rightarrow> doc" where
  "doc_new base = (new_cells base_timestamp 0 (length (normalize_text base)), Map.empty)"

definition knows :: "global \<Rightarrow> bytes operation list \<Rightarrow> bool" where
  "knows v ops \<longleftrightarrow> (\<forall>op \<in> set ops. observed_all v (op_version op) \<and> global_observed v (op_timestamp op))"

text \<open>The version is the one the operations lead to.\<close>

definition version_of :: "bytes \<Rightarrow> bytes operation list \<Rightarrow> global" where
  "version_of base ops = fold (\<lambda>op v. global_observe v (op_timestamp op)) ops
     (if normalize_text base = [] then global_new else global_observe global_new base_timestamp)"

definition run_inv :: "bytes \<Rightarrow> bytes operation list \<Rightarrow> buffer \<Rightarrow> bool" where
  "run_inv base ops b \<longleftrightarrow> buffer_inv (ins_of base ops) b \<and> made_after (buffer_version b) (lamport_clock b)
     \<and> version_of base ops = buffer_version b \<and> in_order ops \<and> knows (buffer_version b) ops \<and> all_fit ops (doc_new base)
     \<and> same_doc (run_doc ops (doc_new base)) (doc_of (buf_snapshot b))"

text \<open>The next operation.\<close>

lemma run_inv_snoc:
  assumes "run_inv base ops b" "fits_doc op (doc_of (buf_snapshot b))" "same_doc (effect op (doc_of (buf_snapshot b))) (doc_of (buf_snapshot b1))"
    and "\<not> global_observed (buffer_version b) (op_timestamp op)" "observed_all (buffer_version b) (op_version op)"
    and "buffer_version b1 = global_observe (buffer_version b) (op_timestamp op)" "made_after (buffer_version b1) (lamport_clock b1)"
    and "buffer_inv (ins_of base (ops @ [op])) b1"
  shows "run_inv base (ops @ [op]) b1"
proof -
  let ?v = "buffer_version b" and ?d = "doc_new base"
  have r: "in_order ops" "knows ?v ops" "all_fit ops ?d" "same_doc (run_doc ops ?d) (doc_of (buf_snapshot b))"
    using assms(1) by (simp_all add: run_inv_def)
  have later: "observed_all (buffer_version b1) ?v" "global_observed (buffer_version b1) (op_timestamp op)"
    unfolding assms(6) using observed_all_observe global_observed_observe(2) by blast+
  have "knows (buffer_version b1) (ops @ [op])"
    using r(2) later assms(5) observed_all_trans observed_all_observed by (auto simp: knows_def)
  moreover have "\<not> global_observed (op_version x) (op_timestamp op)" "op_timestamp op \<noteq> op_timestamp x" if "x \<in> set ops" for x
    using that r(2) assms(4) observed_all_observed by (auto simp: knows_def)
  then have "in_order (ops @ [op])" using r(1) by (simp add: in_order_append)
  moreover have "all_fit (ops @ [op]) ?d" using r(3) fits_same [OF r(4)] assms(2) by simp
  moreover have "same_doc (run_doc (ops @ [op]) ?d) (doc_of (buf_snapshot b1))"
    using same_doc_trans [OF effect_same [OF r(4)] assms(3)] by simp
  moreover have "version_of base (ops @ [op]) = buffer_version b1" using assms(1,6) by (simp add: run_inv_def version_of_def)
  ultimately show ?thesis using assms(7,8) by (simp add: run_inv_def)
qed

text \<open>What changes neither document nor version.\<close>

lemma run_inv_same:
  assumes "run_inv base ops b" "buf_snapshot b1 = buf_snapshot b" "lam_value (lamport_clock b) \<le> lam_value (lamport_clock b1)"
    and "buffer_inv (ins_of base ops) b1"
  shows "run_inv base ops b1"
  using assms made_after_later by (auto simp: run_inv_def buffer_version_def)

lemma new_run_inv:
  assumes "buffer_new platform replica base = Some b" "length (normalize_text base) \<le> MAX_INSERTION_LEN"
  shows "run_inv base [] b"
proof -
  let ?t = "normalize_text base"
  from new_normalized_ok [OF assms(2) normalize_no_CR, of replica "detect platform base"] assms(1)
  have inv: "buffer_inv (\<lambda>_. ?t) b" by (auto simp: buffer_new_def)
  have b: "new_normalized replica (detect platform base) ?t = Some b" using assms(1) by (simp add: buffer_new_def)
  have um: "um_abs um_new = Map.empty" using um_new_good(2) by (simp add: fun_eq_iff)
  have "made_after (buffer_version b) (lamport_clock b) \<and> doc_of (buf_snapshot b) = doc_new base
      \<and> version_of base [] = buffer_version b"
  proof (cases "?t = []")
    case True
    have "base_fragments ?t ts l 0 [] = Some []" for ts l using True by (subst base_fragments.simps) simp
    then show ?thesis using b True um by (auto simp: new_normalized_def buffer_version_def doc_of_def doc_new_def
          new_cells_def made_after_def lamport_new_def global_new_def version_of_def)
  next
    case False
    have "made_after (global_observe global_new (lamport_new LOCAL)) (lamport_observe (lamport_new replica) (lamport_new LOCAL))"
      by (intro made_after_observe) (simp_all add: made_after_def lamport_new_def global_new_def)
    then show ?thesis using b um False
      by (auto simp: new_normalized_def base_fragments_single [OF False assms(2)] Let_def buffer_version_def doc_of_def doc_new_def
          new_cells_def cells_of_def base_timestamp_def version_of_def)
  qed
  then show ?thesis using inv by (simp add: run_inv_def knows_def)
qed

subsection \<open>Local operations\<close>

lemma start_transaction_clock:
  assumes "start_transaction_at now b = (b1, tid)"
  shows "buf_snapshot b1 = buf_snapshot b \<and> (lamport_clock b1 = lamport_clock b \<or> lamport_clock b1 = snd (tick (lamport_clock b)))"
  using assms by (auto simp: start_transaction_at_def start_transaction_def tick_def Let_def split: if_splits)

lemma end_transaction_same:
  "end_transaction_at now b = Some (b1, r) \<Longrightarrow> buf_snapshot b1 = buf_snapshot b \<and> lamport_clock b1 = lamport_clock b"
  by (auto simp: end_transaction_at_def bind_eq_Some_conv split: prod.splits option.splits)

lemma buffer_edit_parts:
  assumes "buffer_edit started ended edits b = Some (b', op)" "start_transaction_at started b = (b1, tid)"
  shows "\<exists>snap' e p. apply_edit_internal edits (lamport_clock b1) (buf_snapshot b1) = Some (snap', e, p) \<and> op = Edit e
    \<and> fragments (buf_snapshot b') = fragments snap' \<and> snap_undo_map (buf_snapshot b') = snap_undo_map snap'
    \<and> buffer_version b' = global_observe (snap_version snap') (edit_timestamp e) \<and> lamport_clock b' = snd (tick (lamport_clock b1))"
  using assms by (auto simp: buffer_edit_def apply_local_edit_def tick_def Let_def bind_eq_Some_conv observe_version_def buffer_version_def
      dest!: end_transaction_same)

text \<open>What every replica relies on in an edit operation.\<close>

definition edit_made :: "buffer \<Rightarrow> bytes edit_operation \<Rightarrow> bool" where
  "edit_made b e \<longleftrightarrow> edit_version e = buffer_version b \<and> made_after (edit_version e) (edit_timestamp e) \<and> edit_timestamp e \<noteq> base_timestamp
     \<and> length (edit_ranges e) = length (edit_new_text e) \<and> length (concat (edit_new_text e)) \<le> MAX_INSERTION_LEN
     \<and> CR \<notin> set (concat (edit_new_text e)) \<and> unat (lam_value (edit_timestamp e)) + 1 < 2 ^ 32"

lemma edit_run_inv:
  assumes "run_inv base ops b" "clock_room b" "edits_ok 0 edits (length (visible_text (buf_snapshot b)))"
    and "length (inserted edits) \<le> MAX_INSERTION_LEN"
  shows "\<exists>b' op. buffer_edit started ended edits b = Some (b', op) \<and> run_inv base (ops @ [op]) b' \<and> (\<exists>e. op = Edit e \<and> edit_made b e)"
proof -
  let ?snap = "buf_snapshot b" and ?v = "buffer_version b"
  have inv: "buffer_inv (ins_of base ops) b" and ahead: "made_after ?v (lamport_clock b)" using assms(1) by (simp_all add: run_inv_def)
  then have sinv: "snap_inv (ins_of base ops) ?snap" and ver: "version_ok b" by (simp_all add: buffer_inv_def)
  from buffer_edit_ok [OF inv assms(2-4), of started ended] obtain b' op where
    e: "buffer_edit started ended edits b = Some (b', op)" "buffer_inv ((ins_of base ops)(op_timestamp op := inserted edits)) b'"
      "snap_undo_map (buf_snapshot b') = snap_undo_map ?snap" "new_timestamp (op_timestamp op) ?snap" by blast
  obtain b1 tid where b1: "start_transaction_at started b = (b1, tid)" by fastforce
  let ?ts = "lamport_clock b1"
  have room: "unat (lam_value (lamport_clock b)) + 1 < 2 ^ 32" using assms(2) by (simp add: clock_room_def)
  have c: "buf_snapshot b1 = ?snap" "?ts = lamport_clock b \<or> ?ts = snd (tick (lamport_clock b))"
    using start_transaction_clock [OF b1] by blast+
  then have ts: "made_after ?v ?ts" "unat (lam_value ?ts) + 1 < 2 ^ 32"
    using ahead made_after_tick(1) [OF ahead room] tick_below(3) [OF room] assms(2) by (auto simp: clock_room_def)
  from buffer_edit_parts [OF e(1) b1] obtain snap' x p where
    x: "apply_edit_internal edits ?ts ?snap = Some (snap', x, p)" "op = Edit x" "fragments (buf_snapshot b') = fragments snap'"
      "snap_undo_map (buf_snapshot b') = snap_undo_map snap'" "buffer_version b' = global_observe (snap_version snap') (edit_timestamp x)"
      "lamport_clock b' = snd (tick ?ts)" unfolding c(1) by blast
  have "edit_timestamp x = ?ts \<and> edit_version x = ?v \<and> snap_version snap' = ?v \<and> edit_new_text x = map (normalize_text \<circ> snd) edits"
  proof (cases "edits = []")
    case True
    then show ?thesis using x(1) by (auto simp: apply_edit_internal_def buffer_version_def)
  next
    case False
    have "new_timestamp ?ts ?snap" using clock_is_new start_transaction_at_ok [OF inv room b1] sinv c(1) by (metis buffer_inv_def)
    then have fr: "\<forall>f \<in> set (fragments ?snap). frag_timestamp f \<noteq> ?ts" "snapshot_ok (ins_of base ops) ?snap"
      using sinv by (auto simp: new_timestamp_def fresh_def snap_inv_def)
    from apply_edit_internal_ok [OF fr(2) assms(3) False fr(1) assms(4)] x(1)
      local_edit_step [OF sinv assms(3) \<open>new_timestamp ?ts ?snap\<close> assms(4)] show ?thesis by (auto simp: buffer_version_def)
  qed
  then have y: "edit_timestamp x = ?ts" "edit_version x = ?v" "snap_version snap' = ?v" "edit_new_text x = map (normalize_text \<circ> snd) edits"
    by blast+
  have op: "op_timestamp op = ?ts" "op_version op = ?v" using x(2) y by simp_all
  have "fits_doc op (doc_of ?snap) \<and> effect op (doc_of ?snap) = doc_of snap'"
    unfolding x(2)
  proof (rule local_edit_effect [OF sinv assms(3) _ assms(4) x(1) y(1,2) _ ts(1)])
    show "new_timestamp ?ts ?snap" using e(4) op(1) by simp
    show "snap_undo_map snap' = snap_undo_map ?snap" using e(3) x(4) by simp
  qed (use ver in \<open>auto simp: version_ok_def\<close>)
  moreover have "doc_of snap' = doc_of (buf_snapshot b')" using x(3,4) by (simp add: doc_of_def)
  moreover have "inserted edits = concat (edit_new_text x)" using y(4) by (simp add: inserted_def)
  then have "buffer_inv (ins_of base (ops @ [op])) b'" using e(2) x(2) by simp
  ultimately have "run_inv base (ops @ [op]) b'"
    using not_observed_ahead [OF ts(1)] observed_all_refl x(5,6) y(1,3) made_after_tick(2) [OF ts]
    by (intro run_inv_snoc [OF assms(1)]) (simp_all add: op)
  moreover have "edit_made b x"
  proof -
    have "snapshot_ok (ins_of base ops) ?snap" "fresh ?ts (fragments ?snap)"
      using sinv e(4) op(1) by (simp_all add: snap_inv_def new_timestamp_def)
    from apply_edit_internal_cells [OF this(1) assms(3) this(2) assms(4) x(1)]
    have "length (edit_ranges x) = length (edit_new_text x)" by blast
    moreover have "length (concat (edit_new_text x)) \<le> MAX_INSERTION_LEN" "CR \<notin> set (concat (edit_new_text x))"
      unfolding \<open>inserted edits = concat (edit_new_text x)\<close> [symmetric] by (rule assms(4), rule inserted_no_CR)
    moreover have "edit_timestamp x \<noteq> base_timestamp" using e(4) op(1) y(1) by (simp add: new_timestamp_def)
    ultimately show ?thesis unfolding edit_made_def y(1,2) using ts by blast
  qed
  ultimately show ?thesis using e(1) x(2) by blast
qed

lemma undo_run_inv:
  assumes "run_inv base ops b" "unat (lam_value (lamport_clock b)) + 1 < 2 ^ 32" "buffer_inv (ins_of base ops) b'"
    and "skeleton (fragments (buf_snapshot b')) = skeleton (fragments (buf_snapshot b))" "undo_made b op b'"
    and "lamport_clock b' = snd (tick (lamport_clock b))"
  shows "run_inv base (ops @ [op]) b'"
proof -
  have ahead: "made_after (buffer_version b) (lamport_clock b)" using assms(1) by (simp add: run_inv_def)
  from assms(5) obtain u where u: "op = Undo u" "undo_timestamp u = lamport_clock b" "undo_version u = buffer_version b"
    "buffer_version b' = global_observe (buffer_version b) (undo_timestamp u)"
    "\<forall>e w. um_abs (snap_undo_map (buf_snapshot b')) (e, w) = (if w = undo_timestamp u \<and> e \<in> undone_edits u then map_of (undo_counts u) e
        else um_abs (snap_undo_map (buf_snapshot b)) (e, w))"
    unfolding undo_made_def by blast
  have "same_doc (effect op (doc_of (buf_snapshot b))) (doc_of (buf_snapshot b'))"
    using undo_effect [OF assms(4) u(5)] u(1) same_doc_sym by blast
  then show ?thesis
    using not_observed_ahead [OF ahead] observed_all_refl u(2-4) made_after_tick(2) [OF ahead assms(2)] assms(3,6)
    by (intro run_inv_snoc [OF assms(1)]) (simp_all add: u(1) doc_of_def)
qed

subsection \<open>Operations of other replicas\<close>

lemma apply_edit_op_run:
  assumes "run_inv base ops b" "clock_room b" "op_fits srt (Edit e) b" "\<not> global_observed (buffer_version b) (edit_timestamp e)"
    and "observed_all (buffer_version b) (edit_version e)"
  shows "\<exists>b1. apply_edit_op e b = Some b1 \<and> run_inv base (ops @ [Edit e]) b1 \<and> buf_history b1 = buf_history b
    \<and> deferred_ops b1 = deferred_ops b \<and> deferred_replicas b1 = deferred_replicas b"
proof -
  have inv: "buffer_inv (ins_of base ops) b" and ahead: "made_after (buffer_version b) (lamport_clock b)"
    using assms(1) by (simp_all add: run_inv_def)
  have room: "unat (lam_value (lamport_clock b)) + 1 < 2 ^ 32" using assms(2) by (simp add: clock_room_def)
  have fits: "unat (lam_value (edit_timestamp e)) + 1 < 2 ^ 32" "edit_fits e (buf_snapshot b)" using assms(3) by (simp_all add: op_fits_def)
  from apply_edit_op_ok [OF inv room fits assms(4)] obtain b1 where
    b1: "apply_edit_op e b = Some b1" "buffer_inv ((ins_of base ops)(edit_timestamp e := concat (edit_new_text e))) b1"
      "buf_history b1 = buf_history b" "lamport_clock b1 = lamport_observe (lamport_clock b) (edit_timestamp e)"
      "buffer_version b1 = global_observe (buffer_version b) (edit_timestamp e)"
      "deferred_ops b1 = deferred_ops b" "deferred_replicas b1 = deferred_replicas b"
      "cells (fragments (buf_snapshot b1)) = remote_cells (edit_version e) (snap_undo_map (buf_snapshot b)) (edit_timestamp e) 0 0
        (edits_of e) (cells (fragments (buf_snapshot b)))" "snap_undo_map (buf_snapshot b1) = snap_undo_map (buf_snapshot b)" by blast
  let ?C = "cells (fragments (buf_snapshot b))"
  have eff: "fits_doc (Edit e) (doc_of (buf_snapshot b)) \<and> effect (Edit e) (doc_of (buf_snapshot b)) = doc_of (buf_snapshot b1)"
    using remote_edit_effect [of e ?C "snap_undo_map (buf_snapshot b)"] fits(2) observed_older [of "edit_version e" "edit_timestamp e"] b1(8,9)
    by (simp add: edit_fits_def observed_cells doc_of_def)
  have "run_inv base (ops @ [Edit e]) b1"
    using eff assms(4,5) b1(2,4,5) made_after_observe [OF ahead room fits(1)] by (intro run_inv_snoc [OF assms(1)]) simp_all
  with b1(1,3,6,7) show ?thesis by blast
qed

lemma apply_undo_op_run:
  assumes "run_inv base ops b" "clock_room b" "sorts_edits srt" "op_fits srt (Undo u) b" "\<not> global_observed (buffer_version b) (undo_timestamp u)"
    and "observed_all (buffer_version b) (undo_version u)"
  shows "\<exists>b1. apply_undo_op srt u b = Some b1 \<and> run_inv base (ops @ [Undo u]) b1 \<and> buf_history b1 = buf_history b
    \<and> deferred_ops b1 = deferred_ops b \<and> deferred_replicas b1 = deferred_replicas b"
proof -
  have inv: "buffer_inv (ins_of base ops) b" and ahead: "made_after (buffer_version b) (lamport_clock b)"
    using assms(1) by (simp_all add: run_inv_def)
  have room: "unat (lam_value (lamport_clock b)) + 1 < 2 ^ 32" using assms(2) by (simp add: clock_room_def)
  have fits: "unat (lam_value (undo_timestamp u)) + 1 < 2 ^ 32" "undo_op_fits srt u (buf_snapshot b)" using assms(4) by (simp_all add: op_fits_def)
  have "\<forall>e \<in> undone_edits u. global_observed (buffer_version b) e"
    using fits(2) by (auto simp: undo_op_fits_def buffer_version_def list_all_iff)
  then have "\<forall>e \<in> undone_edits u. below_clock (lamport_clock b) e" using observed_below [OF ahead] by blast
  from apply_undo_op_ok [OF inv room fits(1) assms(3) fits(2) this assms(5)] obtain b1 where
    b1: "apply_undo_op srt u b = Some b1" "buffer_inv (ins_of base ops) b1" "buf_history b1 = buf_history b"
      "lamport_clock b1 = lamport_observe (lamport_clock b) (undo_timestamp u)"
      "buffer_version b1 = global_observe (buffer_version b) (undo_timestamp u)"
      "deferred_ops b1 = deferred_ops b" "deferred_replicas b1 = deferred_replicas b"
      "skeleton (fragments (buf_snapshot b1)) = skeleton (fragments (buf_snapshot b))"
      "\<forall>e w. um_abs (snap_undo_map (buf_snapshot b1)) (e, w) = (if w = undo_timestamp u \<and> e \<in> undone_edits u then map_of (undo_counts u) e
          else um_abs (snap_undo_map (buf_snapshot b)) (e, w))" by blast
  have "run_inv base (ops @ [Undo u]) b1"
    using same_doc_sym [OF undo_effect [OF b1(8,9)]] assms(5,6) b1(2,4,5) made_after_observe [OF ahead room fits(1)]
    by (intro run_inv_snoc [OF assms(1)]) (simp_all add: doc_of_def)
  with b1(1,3,6,7) show ?thesis by blast
qed

end
