(* ===== verification/Remote_Calls.thy ===== *)
theory Remote_Calls
  imports Buffer_Run
begin

text \<open>
  Calls of \<^verbatim>\<open>apply_ops\<close>. When its operations are ones other replicas can have made (\<open>ops_fit\<close>), a call returns and applies some of them
  in an order that keeps the invariant of the run; none is lost; and one pass over the queue is enough.
\<close>

subsection \<open>One operation\<close>

text \<open>The operation itself is recorded by the history, under a timestamp that is not one of this replica's future ones.\<close>

definition recordable :: "bytes operation \<Rightarrow> buffer \<Rightarrow> bool" where
  "recordable op b \<longleftrightarrow> (case operations (buf_history b) (op_timestamp op) of None \<Rightarrow> True | Some op' \<Rightarrow> op' = op)
     \<and> below_clock (lamport_clock b) (op_timestamp op) \<and> (is_edit op \<longrightarrow> op_timestamp op \<noteq> base_timestamp)"

definition record_op :: "bytes operation \<Rightarrow> buffer \<Rightarrow> buffer" where
  "record_op op b = b\<lparr>buf_history := history_push op (buf_history b)\<rparr>"

lemma record_op_inv:
  assumes "buffer_inv ins b" "recordable op b"
  shows "buffer_inv ins (record_op op b)"
proof -
  let ?h = "buf_history b"
  have ok: "history_ok ?h" using assms(1) by (simp add: buffer_inv_def)
  have "history_ok (history_push op ?h)"
  proof (cases "operations ?h (op_timestamp op)")
    case None
    then show ?thesis by (rule history_ok_push [OF ok])
  next
    case (Some op')
    then have "history_push op ?h = ?h" using assms(2) by (simp add: recordable_def history_push_def fun_upd_idem)
    with ok show ?thesis by simp
  qed
  then show ?thesis using assms
    by (auto simp: buffer_inv_def record_op_def timestamps_ok_def version_ok_def buffer_version_def recordable_def history_push_def
        stack_edits_def split: if_splits)
qed

lemma record_op_run: "run_inv base ds b \<Longrightarrow> recordable op b \<Longrightarrow> run_inv base ds (record_op op b)"
  by (rule run_inv_same) (auto simp: record_op_def [abs_def] run_inv_def intro: record_op_inv [unfolded record_op_def])

definition op_applies :: "undo_sort \<Rightarrow> bytes operation \<Rightarrow> buffer \<Rightarrow> bool" where
  "op_applies srt op b \<longleftrightarrow> clock_room b \<and> (global_observed (buffer_version b) (op_timestamp op) \<or> op_fits srt op b)"

definition new_op :: "bytes operation \<Rightarrow> buffer \<Rightarrow> bytes operation list" where
  "new_op op b = (if global_observed (buffer_version b) (op_timestamp op) then [] else [op])"

lemma run_inv_channels:
  "run_inv base ds b \<Longrightarrow> buf_snapshot b1 = buf_snapshot b \<Longrightarrow> buf_history b1 = buf_history b \<Longrightarrow> lamport_clock b1 = lamport_clock b \<Longrightarrow>
     run_inv base ds b1"
  by (rule run_inv_same) (auto simp: run_inv_def intro: buffer_inv_same)

lemma apply_op_run:
  assumes "run_inv base ds b" "sorts_edits srt" "can_apply_op op b" "op_applies srt op b"
  shows "\<exists>b1. apply_op srt op b = Some b1 \<and> run_inv base (ds @ new_op op b) b1 \<and> buf_history b1 = buf_history b
    \<and> deferred_ops b1 = deferred_ops b \<and> deferred_replicas b1 = deferred_replicas b"
proof -
  have notify: "run_inv base ds (notify_versions b2)" if "run_inv base ds b2" for ds b2 using run_inv_channels [OF that notify_same(1-3)] .
  show ?thesis
  proof (cases "global_observed (buffer_version b) (op_timestamp op)")
    case True
    then have "apply_op srt op b = Some (notify_versions b)"
      by (cases op) (simp_all add: apply_op_def apply_edit_op_def apply_undo_op_def)
    with True notify [OF assms(1)] show ?thesis by (simp add: new_op_def notify_same)
  next
    case False
    then have room: "clock_room b" and fits: "op_fits srt op b" using assms(4) by (simp_all add: op_applies_def)
    have known: "observed_all (buffer_version b) (op_version op)" using assms(3) by (simp add: can_apply_op_def split: if_splits)
    obtain b2 where b2: "(case op of Edit e \<Rightarrow> apply_edit_op e b | Undo u \<Rightarrow> apply_undo_op srt u b) = Some b2" "run_inv base (ds @ [op]) b2"
      "buf_history b2 = buf_history b" "deferred_ops b2 = deferred_ops b" "deferred_replicas b2 = deferred_replicas b"
    proof (cases op)
      case (Edit e)
      with that apply_edit_op_run [OF assms(1) room, of srt e] fits False known show thesis by auto
    next
      case (Undo u)
      with that apply_undo_op_run [OF assms(1) room assms(2), of u] fits False known show thesis by auto
    qed
    then have "apply_op srt op b = Some (notify_versions b2)" by (simp add: apply_op_def)
    with notify [OF b2(2)] b2(3-5) False show ?thesis by (simp add: new_op_def notify_same)
  qed
qed

subsection \<open>The loops\<close>

text \<open>Every operation that the loop applies fits the buffer it is applied to.\<close>

fun flush_fits :: "undo_sort \<Rightarrow> bytes operation list \<Rightarrow> buffer \<Rightarrow> bool" where
  "flush_fits srt [] b \<longleftrightarrow> True"
| "flush_fits srt (op # ops) b \<longleftrightarrow>
     (if can_apply_op op b then op_applies srt op b \<and> pred_option (flush_fits srt ops) (apply_op srt op b)
      else flush_fits srt ops (defer_replica op b))"

fun record_fits :: "undo_sort \<Rightarrow> bytes operation list \<Rightarrow> buffer \<Rightarrow> bool" where
  "record_fits srt [] b \<longleftrightarrow> True"
| "record_fits srt (op # ops) b \<longleftrightarrow> recordable op b \<and>
     (if can_apply_op op (record_op op b)
      then op_applies srt op (record_op op b) \<and> pred_option (record_fits srt ops) (apply_op srt op (record_op op b))
      else record_fits srt ops (defer_replica op (record_op op b)))"

definition emptied :: "buffer \<Rightarrow> buffer" where
  "emptied b = b\<lparr>deferred_replicas := [], deferred_ops := []\<rparr>"

definition ops_fit :: "undo_sort \<Rightarrow> bytes operation list \<Rightarrow> buffer \<Rightarrow> bool" where
  "ops_fit srt ops b \<longleftrightarrow> record_fits srt ops b
     \<and> pred_option (\<lambda>(b1, deferred). flush_fits srt (queue_insert deferred (deferred_ops b1)) (emptied b1)) (record_and_apply srt ops b)"

text \<open>The operations that the loops apply, in their order.\<close>

fun flushed :: "undo_sort \<Rightarrow> bytes operation list \<Rightarrow> buffer \<Rightarrow> bytes operation list" where
  "flushed srt [] b = []"
| "flushed srt (op # ops) b =
     (if can_apply_op op b then new_op op b @ (case apply_op srt op b of Some b1 \<Rightarrow> flushed srt ops b1 | None \<Rightarrow> [])
      else flushed srt ops (defer_replica op b))"

fun recorded :: "undo_sort \<Rightarrow> bytes operation list \<Rightarrow> buffer \<Rightarrow> bytes operation list" where
  "recorded srt [] b = []"
| "recorded srt (op # ops) b =
     (let b0 = record_op op b
      in if can_apply_op op b0 then new_op op b0 @ (case apply_op srt op b0 of Some b1 \<Rightarrow> recorded srt ops b1 | None \<Rightarrow> [])
         else recorded srt ops (defer_replica op b0))"

definition applied_ops :: "undo_sort \<Rightarrow> bytes operation list \<Rightarrow> buffer \<Rightarrow> bytes operation list" where
  "applied_ops srt ops b = recorded srt ops b
     @ (case record_and_apply srt ops b of
          Some (b1, deferred) \<Rightarrow> flushed srt (queue_insert deferred (deferred_ops b1)) (emptied b1)
        | None \<Rightarrow> [])"

lemma defer_replica_run: "run_inv base ds b \<Longrightarrow> run_inv base ds (defer_replica op b)"
  by (rule run_inv_channels) (simp_all add: defer_replica_def)

lemma apply_or_defer_run:
  "run_inv base ds b \<Longrightarrow> sorts_edits srt \<Longrightarrow> flush_fits srt ops b \<Longrightarrow>
     \<exists>b1 deferred. apply_or_defer srt ops b = Some (b1, deferred) \<and> run_inv base (ds @ flushed srt ops b) b1
       \<and> deferred_ops b1 = deferred_ops b \<and> buf_history b1 = buf_history b"
proof (induction ops arbitrary: b ds)
  case (Cons op ops)
  show ?case
  proof (cases "can_apply_op op b")
    case True
    then have fit: "op_applies srt op b" using Cons.prems(3) by simp
    from apply_op_run [OF Cons.prems(1,2) True fit] obtain b1 where b1: "apply_op srt op b = Some b1"
      "run_inv base (ds @ new_op op b) b1" "deferred_ops b1 = deferred_ops b" "buf_history b1 = buf_history b" by blast
    have "flush_fits srt ops b1" using Cons.prems(3) True b1(1) by simp
    from Cons.IH [OF b1(2) Cons.prems(2) this] True b1(1,3,4) show ?thesis by simp
  next
    case False
    then have "flush_fits srt ops (defer_replica op b)" using Cons.prems(3) by simp
    from Cons.IH [OF defer_replica_run [OF Cons.prems(1)] Cons.prems(2) this] False show ?thesis by (auto simp: defer_replica_def)
  qed
qed simp

lemma record_and_apply_step:
  "record_and_apply srt (op # ops) b =
     (let b0 = record_op op b
      in if can_apply_op op b0 then Option.bind (apply_op srt op b0) (record_and_apply srt ops)
         else Option.bind (record_and_apply srt ops (defer_replica op b0)) (\<lambda>(b1, deferred). Some (b1, op # deferred)))"
  by (simp add: record_op_def Let_def)

lemma record_and_apply_run:
  "run_inv base ds b \<Longrightarrow> sorts_edits srt \<Longrightarrow> record_fits srt ops b \<Longrightarrow>
     \<exists>b1 deferred. record_and_apply srt ops b = Some (b1, deferred) \<and> run_inv base (ds @ recorded srt ops b) b1
       \<and> deferred_ops b1 = deferred_ops b"
proof (induction ops arbitrary: b ds)
  case (Cons op ops)
  define b0 where "b0 = record_op op b"
  have inv: "run_inv base ds b0" using record_op_run [OF Cons.prems(1)] Cons.prems(3) by (simp add: b0_def)
  have q: "deferred_ops b0 = deferred_ops b" by (simp add: b0_def record_op_def)
  have fits: "if can_apply_op op b0 then op_applies srt op b0 \<and> pred_option (record_fits srt ops) (apply_op srt op b0)
      else record_fits srt ops (defer_replica op b0)" using Cons.prems(3) by (simp add: b0_def)
  note step = record_and_apply_step [of srt op ops b, folded b0_def, unfolded Let_def]
  show ?case
  proof (cases "can_apply_op op b0")
    case True
    then have fit: "op_applies srt op b0" using fits by simp
    from apply_op_run [OF inv Cons.prems(2) True fit] obtain b1 where b1: "apply_op srt op b0 = Some b1"
      "run_inv base (ds @ new_op op b0) b1" "deferred_ops b1 = deferred_ops b0" by blast
    have "record_fits srt ops b1" using fits True b1(1) by simp
    from Cons.IH [OF b1(2) Cons.prems(2) this] True b1(1,3) q show ?thesis unfolding step by (simp add: b0_def Let_def)
  next
    case False
    then have "record_fits srt ops (defer_replica op b0)" using fits by simp
    from Cons.IH [OF defer_replica_run [OF inv] Cons.prems(2) this] False q show ?thesis unfolding step
      by (auto simp: b0_def Let_def defer_replica_def)
  qed
qed simp

lemma apply_ops_parts:
  assumes "record_and_apply srt ops b = Some (b1, deferred)"
    and "apply_or_defer srt (queue_insert deferred (deferred_ops b1)) (emptied b1) = Some (b2, left)"
  shows "apply_ops srt ops b = Some (b2\<lparr>deferred_ops := queue_insert left (deferred_ops b2)\<rparr>)"
  using assms by (simp add: apply_ops_def flush_deferred_ops_def queue_drain_def Let_def emptied_def)

lemma apply_ops_run:
  assumes "run_inv base ds b" "sorts_edits srt" "ops_fit srt ops b"
  shows "\<exists>b1. apply_ops srt ops b = Some b1 \<and> run_inv base (ds @ applied_ops srt ops b) b1"
proof -
  have fits: "record_fits srt ops b" using assms(3) by (simp add: ops_fit_def)
  from record_and_apply_run [OF assms(1,2) this] obtain b1 deferred where
    r: "record_and_apply srt ops b = Some (b1, deferred)" "run_inv base (ds @ recorded srt ops b) b1" by blast
  let ?q = "queue_insert deferred (deferred_ops b1)"
  have "flush_fits srt ?q (emptied b1)" using assms(3) r(1) by (simp add: ops_fit_def)
  moreover have "run_inv base (ds @ recorded srt ops b) (emptied b1)" using run_inv_channels [OF r(2)] by (simp add: emptied_def)
  ultimately obtain b2 left where
    f: "apply_or_defer srt ?q (emptied b1) = Some (b2, left)" "run_inv base ((ds @ recorded srt ops b) @ flushed srt ?q (emptied b1)) b2"
    using apply_or_defer_run assms(2) by blast
  have "run_inv base (ds @ applied_ops srt ops b) (b2\<lparr>deferred_ops := queue_insert left (deferred_ops b2)\<rparr>)"
    using run_inv_channels [OF f(2)] r(1) by (simp add: applied_ops_def)
  with apply_ops_parts [OF r(1) f(1)] show ?thesis by blast
qed

end
