(* ===== verification/Delivery.thy ===== *)
theory Delivery
  imports Remote_Calls Queue_Proofs
begin

text \<open>
  Delivery of operations: a call of \<^verbatim>\<open>apply_ops\<close> loses none, the queue stays sorted, and its one pass over the queue applies
  everything that can be applied.
\<close>

subsection \<open>What applying an operation leaves alone\<close>

lemma apply_op_version:
  assumes "apply_op srt op b = Some b1"
  shows "buffer_version b1 = (if global_observed (buffer_version b) (op_timestamp op) then buffer_version b
      else global_observe (buffer_version b) (op_timestamp op))
    \<and> deferred_ops b1 = deferred_ops b \<and> deferred_replicas b1 = deferred_replicas b \<and> buf_history b1 = buf_history b"
proof -
  have remote: "snap_version s' = snap_version s" if "apply_remote_edit v rs ts t s = Some (s', p)" for v rs ts t s s' p
    using that by (auto simp: apply_remote_edit_def remote_finish_def Let_def bind_eq_Some_conv case_prod_beta split: list.splits)
  have undo: "snap_version s' = snap_version s" if "apply_undo srt u s = Some (s', p)" for u s s' p
    using that by (auto simp: apply_undo_def Let_def bind_eq_Some_conv case_prod_beta)
  show ?thesis
    using assms
    by (cases op) (auto simp: apply_op_def apply_edit_op_def apply_undo_op_def Let_def bind_eq_Some_conv observe_op_def observe_version_def
        buffer_version_def notify_same resolve_same dest: remote undo split: if_splits prod.splits)
qed

text \<open>A call with one operation that can be applied.\<close>

lemma single_fits:
  assumes "recordable op b" "can_apply_op op b" "clock_room b" "op_fits srt op b" "deferred_ops b = []"
  shows "ops_fit srt [op] b"
proof -
  have b0: "can_apply_op op (record_op op b)" "op_applies srt op (record_op op b)"
    using assms(2-4) by (auto simp: record_op_def can_apply_op_def op_applies_def op_fits_def clock_room_def buffer_version_def
        split: operation.splits)
  then have rec: "record_and_apply srt [op] b = Option.bind (apply_op srt op (record_op op b)) (\<lambda>b1. Some (b1, []))"
    unfolding record_and_apply_step Let_def by (cases "apply_op srt op (record_op op b)") simp_all
  have q: "queue_insert [] [] = ([] :: bytes operation list)" by code_simp
  have "deferred_ops b1 = []" if "apply_op srt op (record_op op b) = Some b1" for b1
    using apply_op_version [OF that] assms(5) by (simp add: record_op_def)
  then show ?thesis using b0 assms(1) q
    by (cases "apply_op srt op (record_op op b)") (simp_all add: ops_fit_def rec del: record_and_apply.simps(2))
qed

definition handed :: "bytes operation list \<Rightarrow> bytes operation list \<Rightarrow> buffer \<Rightarrow> buffer \<Rightarrow> bool" where
  "handed ops left b b1 \<longleftrightarrow> observed_all (buffer_version b1) (buffer_version b) \<and> set left \<subseteq> set ops
     \<and> (\<forall>op \<in> set ops. op \<in> set left \<or> global_observed (buffer_version b1) (op_timestamp op))"

lemma handed_applied:
  assumes "apply_op srt op b = Some b1" "handed ops left b1 b2"
  shows "handed (op # ops) left b b2"
proof -
  have "observed_all (buffer_version b1) (buffer_version b) \<and> global_observed (buffer_version b1) (op_timestamp op)"
    using apply_op_version [OF assms(1)] observed_all_observe observed_all_refl global_observed_observe(2) by auto
  with assms(2) show ?thesis using observed_all_trans observed_all_observed unfolding handed_def by (auto 4 3)
qed

lemma apply_or_defer_handed:
  "apply_or_defer srt ops b = Some (b1, left) \<Longrightarrow> handed ops left b b1 \<and> deferred_ops b1 = deferred_ops b"
proof (induction ops arbitrary: b left)
  case Nil
  then show ?case using observed_all_refl by (auto simp: handed_def)
next
  case (Cons op ops)
  show ?case
  proof (cases "can_apply_op op b")
    case True
    with Cons.prems obtain b2 where b2: "apply_op srt op b = Some b2" "apply_or_defer srt ops b2 = Some (b1, left)"
      by (auto simp: bind_eq_Some_conv)
    with handed_applied [OF b2(1)] Cons.IH [OF b2(2)] apply_op_version [OF b2(1)] show ?thesis by simp
  next
    case False
    with Cons.prems obtain l where l: "apply_or_defer srt ops (defer_replica op b) = Some (b1, l)" "left = op # l"
      by (auto simp: bind_eq_Some_conv)
    from Cons.IH [OF l(1)] show ?thesis by (auto simp: handed_def l(2) defer_replica_def buffer_version_def)
  qed
qed

lemma record_and_apply_handed:
  "record_and_apply srt ops b = Some (b1, left) \<Longrightarrow> handed ops left b b1 \<and> deferred_ops b1 = deferred_ops b"
proof (induction ops arbitrary: b left)
  case Nil
  then show ?case using observed_all_refl by (auto simp: handed_def)
next
  case (Cons op ops)
  define b0 where "b0 = record_op op b"
  have b0: "buffer_version b0 = buffer_version b" "deferred_ops b0 = deferred_ops b" by (simp_all add: b0_def record_op_def buffer_version_def)
  note step = record_and_apply_step [of srt op ops b, folded b0_def, unfolded Let_def]
  show ?case
  proof (cases "can_apply_op op b0")
    case True
    with Cons.prems obtain b2 where b2: "apply_op srt op b0 = Some b2" "record_and_apply srt ops b2 = Some (b1, left)"
      unfolding step by (auto simp: bind_eq_Some_conv)
    have "handed (op # ops) left b0 b1" using handed_applied [OF b2(1)] Cons.IH [OF b2(2)] by blast
    then have "handed (op # ops) left b b1" unfolding handed_def b0(1) .
    with Cons.IH [OF b2(2)] apply_op_version [OF b2(1)] b0(2) show ?thesis by simp
  next
    case False
    with Cons.prems obtain l where l: "record_and_apply srt ops (defer_replica op b0) = Some (b1, l)" "left = op # l"
      unfolding step by (auto simp: bind_eq_Some_conv)
    from Cons.IH [OF l(1)] b0 show ?thesis by (auto simp: handed_def l(2) defer_replica_def buffer_version_def)
  qed
qed

lemma apply_ops_cases:
  assumes "apply_ops srt ops b = Some b2"
  obtains b1 deferred b' left where "record_and_apply srt ops b = Some (b1, deferred)"
    "apply_or_defer srt (queue_insert deferred (deferred_ops b1)) (emptied b1) = Some (b', left)"
    "b2 = b'\<lparr>deferred_ops := queue_insert left (deferred_ops b')\<rparr>"
  using assms by (auto simp: apply_ops_def flush_deferred_ops_def queue_drain_def Let_def emptied_def bind_eq_Some_conv)

lemma apply_ops_queue:
  assumes "apply_ops srt ops b = Some b2" "sorted_keys op_timestamp (deferred_ops b)" "inj_on op_timestamp (set ops \<union> set (deferred_ops b))"
  shows "\<exists>b1 q b' left. set q \<subseteq> set ops \<union> set (deferred_ops b) \<and> sorted_keys op_timestamp q \<and> deferred_replicas b1 = []
    \<and> apply_or_defer srt q b1 = Some (b', left) \<and> set (deferred_ops b2) = set left \<and> buffer_version b2 = buffer_version b'
    \<and> sorted_keys op_timestamp (deferred_ops b2)
    \<and> (\<forall>op \<in> set ops \<union> set (deferred_ops b). op \<in> set (deferred_ops b2) \<or> global_observed (buffer_version b2) (op_timestamp op))"
proof -
  from apply_ops_cases [OF assms(1)] obtain b1 deferred b' left where
    r: "record_and_apply srt ops b = Some (b1, deferred)"
      "apply_or_defer srt (queue_insert deferred (deferred_ops b1)) (emptied b1) = Some (b', left)"
      "b2 = b'\<lparr>deferred_ops := queue_insert left (deferred_ops b')\<rparr>" by blast
  let ?q = "queue_insert deferred (deferred_ops b1)"
  have h1: "handed ops deferred b b1" "deferred_ops b1 = deferred_ops b" using record_and_apply_handed [OF r(1)] by blast+
  have h2: "handed ?q left (emptied b1) b'" "deferred_ops b' = []" using apply_or_defer_handed [OF r(2)] by (simp_all add: emptied_def)
  have "inj_on op_timestamp (set deferred \<union> set (deferred_ops b1))"
    using h1 by (intro inj_on_subset [OF assms(3)]) (auto simp: handed_def)
  note q = queue_insert_sorted [OF assms(2) [folded h1(2)], of deferred] queue_insert_ok [OF assms(2) [folded h1(2)] this]
  have "inj_on op_timestamp (set left \<union> set [])"
    using h1 h2(1) q(2) by (intro inj_on_subset [OF assms(3)]) (auto simp: handed_def)
  from queue_insert_ok [OF _ this] queue_insert_sorted [of "[]" left]
  have final: "sorted_keys op_timestamp (deferred_ops b2)" "set (deferred_ops b2) = set left"
    by (simp_all add: r(3) h2(2) sorted_keys_def)
  have ver: "buffer_version b2 = buffer_version b'" "buffer_version (emptied b1) = buffer_version b1"
    by (simp_all add: r(3) emptied_def buffer_version_def)
  have "op \<in> set (deferred_ops b2) \<or> global_observed (buffer_version b2) (op_timestamp op)" if "op \<in> set ops \<union> set (deferred_ops b)" for op
    using that h1 h2(1) q(2) ver observed_all_observed unfolding handed_def final(2) by (metis Un_iff)
  moreover have "set ?q \<subseteq> set ops \<union> set (deferred_ops b)" using q(2) h1 by (auto simp: handed_def)
  moreover have "deferred_replicas (emptied b1) = []" by (simp add: emptied_def)
  ultimately show ?thesis using q(1) r(2) final ver(1) by blast
qed

lemma apply_ops_sorted: "apply_ops srt ops b = Some b2 \<Longrightarrow> sorted_keys op_timestamp (deferred_ops b2)"
proof (erule apply_ops_cases)
  fix b1 deferred b' left
  assume f: "apply_or_defer srt (queue_insert deferred (deferred_ops b1)) (emptied b1) = Some (b', left)"
    and b2: "b2 = b'\<lparr>deferred_ops := queue_insert left (deferred_ops b')\<rparr>"
  have "deferred_ops b' = []" using apply_or_defer_handed [OF f] by (simp add: emptied_def)
  then show ?thesis using queue_insert_sorted [of "[]" left] by (simp add: b2 sorted_keys_def)
qed

subsection \<open>One pass is enough\<close>

text \<open>A version vector that knows of an operation of a replica knows of the earlier ones, because every operation knows of the earlier ones
  of its replica; clocks are ahead of what has been observed.\<close>

definition own_history :: "bytes operation list \<Rightarrow> bool" where
  "own_history ops \<longleftrightarrow> list_all (\<lambda>op. canonical (op_version op) \<and> made_after (op_version op) (op_timestamp op)
     \<and> list_all (\<lambda>op'. gv (op_version op) (unat (op_replica op')) < lam_value (op_timestamp op') \<longrightarrow>
          gv (op_version op) (unat (op_replica op')) \<le> gv (op_version op') (unat (op_replica op'))) ops) ops"

lemma still_missing:
  assumes "own_history all" "x \<in> set all"
  shows "apply_or_defer srt ops b = Some (b1, left) \<Longrightarrow> set ops \<subseteq> set all \<Longrightarrow> \<forall>op \<in> set ops. op_timestamp x < op_timestamp op \<Longrightarrow>
    gv (buffer_version b) n < gv (op_version x) n \<Longrightarrow> gv (buffer_version b1) n < gv (op_version x) n"
proof (induction ops arbitrary: b left)
  case (Cons op ops)
  show ?case
  proof (cases "can_apply_op op b")
    case True
    with Cons.prems(1) obtain b2 where b2: "apply_op srt op b = Some b2" "apply_or_defer srt ops b2 = Some (b1, left)"
      by (auto simp: bind_eq_Some_conv)
    have "gv (buffer_version b2) n < gv (op_version x) n"
    proof (cases "n = unat (op_replica op)")
      case n: True
      have own: "gv (op_version x) n < lam_value (op_timestamp op) \<longrightarrow> gv (op_version x) n \<le> gv (op_version op) n"
        "made_after (op_version x) (op_timestamp x)"
        using assms Cons.prems(2) by (auto simp: own_history_def list_all_iff n)
      have "gv (op_version x) n < lam_value (op_timestamp x)" using own(2) by (simp add: made_after_gv)
      also have "\<dots> \<le> lam_value (op_timestamp op)" using Cons.prems(3) by (auto simp: less_lamport_iff)
      finally have "gv (op_version x) n \<le> gv (op_version op) n" using own(1) by blast
      moreover have "gv (op_version op) n \<le> gv (buffer_version b) n" using True by (auto simp: can_apply_op_def observed_all_iff split: if_splits)
      ultimately show ?thesis using Cons.prems(4) by simp
    next
      case False
      then show ?thesis using apply_op_version [OF b2(1)] Cons.prems(4) by (simp add: op_replica_def)
    qed
    from Cons.IH [OF b2(2) _ _ this] Cons.prems(2,3) show ?thesis by simp
  next
    case False
    with Cons.prems(1) obtain l where l: "apply_or_defer srt ops (defer_replica op b) = Some (b1, l)" by (auto simp: bind_eq_Some_conv)
    from Cons.IH [OF l] Cons.prems(2-4) show ?thesis by (simp add: defer_replica_def buffer_version_def)
  qed
qed simp

lemma flush_complete:
  assumes "own_history all"
  shows "apply_or_defer srt ops b = Some (b1, left) \<Longrightarrow> set ops \<subseteq> set all \<Longrightarrow> sorted_keys op_timestamp ops \<Longrightarrow>
    \<forall>op \<in> set left. op_replica op \<in> set (deferred_replicas b) \<or> \<not> observed_all (buffer_version b1) (op_version op)
      \<or> (\<exists>x \<in> set left. op_replica x = op_replica op \<and> op_timestamp x < op_timestamp op)"
proof (induction ops arbitrary: b left)
  case (Cons op ops)
  have later: "\<forall>x \<in> set ops. op_timestamp op < op_timestamp x" "sorted_keys op_timestamp ops" using Cons.prems(3) by (simp_all add: sorted_keys_def)
  show ?case
  proof (cases "can_apply_op op b")
    case True
    with Cons.prems(1) obtain b2 where b2: "apply_op srt op b = Some b2" "apply_or_defer srt ops b2 = Some (b1, left)"
      by (auto simp: bind_eq_Some_conv)
    with Cons.IH [OF b2(2)] later Cons.prems(2) apply_op_version [OF b2(1)] show ?thesis by simp
  next
    case False
    with Cons.prems(1) obtain l where l: "apply_or_defer srt ops (defer_replica op b) = Some (b1, l)" "left = op # l"
      by (auto simp: bind_eq_Some_conv)
    have sub: "set l \<subseteq> set ops" using apply_or_defer_handed [OF l(1)] by (auto simp: handed_def)
    have "op_replica op \<in> set (deferred_replicas b) \<or> \<not> observed_all (buffer_version b1) (op_version op)"
    proof (rule ccontr)
      assume no: "\<not> ?thesis"
      then have "\<not> observed_all (buffer_version b) (op_version op)" using False by (simp add: can_apply_op_def split: if_splits)
      moreover have op: "op \<in> set all" "canonical (op_version op)" using assms Cons.prems(2) by (auto simp: own_history_def list_all_iff)
      ultimately obtain n where "gv (buffer_version b) n < gv (op_version op) n" by (auto simp: canonical_observed_all not_le)
      then have "gv (buffer_version (defer_replica op b)) n < gv (op_version op) n" by (simp add: defer_replica_def buffer_version_def)
      from still_missing [OF assms op(1) l(1) _ later(1) this] Cons.prems(2) no op(2) show False
        by (auto simp: canonical_observed_all not_le [symmetric])
    qed
    moreover have "\<forall>y \<in> set l. op_replica y \<in> set (deferred_replicas (defer_replica op b)) \<or> \<not> observed_all (buffer_version b1) (op_version y)
        \<or> (\<exists>x \<in> set l. op_replica x = op_replica y \<and> op_timestamp x < op_timestamp y)"
      using Cons.IH [OF l(1)] later(2) Cons.prems(2) by simp
    then have "\<forall>y \<in> set l. op_replica y \<in> set (deferred_replicas b) \<or> \<not> observed_all (buffer_version b1) (op_version y)
        \<or> (\<exists>x \<in> set left. op_replica x = op_replica y \<and> op_timestamp x < op_timestamp y)"
      using later(1) sub by (fastforce simp: l(2) defer_replica_def)
    ultimately show ?thesis by (auto simp: l(2))
  qed
qed simp

end
