(* ===== verification/Buffer_Correct.thy ===== *)
theory Buffer_Correct
  imports Delivery
begin

text \<open>
  The buffers that local operations and the operations of other replicas can reach, and their properties: the check the buffer makes
  of itself succeeds and its operations return, undo inverts edits, and redo inverts undo.
\<close>

subsection \<open>The buffer's own check\<close>

lemma check_fragments_ok:
  assumes "sorted_keys if_key index" "\<forall>f \<in> set fs. insertion_fragment_new f \<in> set index" "sorted_wrt (\<lambda>f g. frag_id f < frag_id g) fs"
    and "\<forall>f \<in> set fs. prev < frag_id f"
  shows "check_fragments prev index fs"
  using assms
proof (induction fs arbitrary: prev)
  case (Cons f fs)
  have "lookup if_key index (frag_timestamp f, frag_offset f) = Some (insertion_fragment_new f)"
    using lookup_mem [OF Cons.prems(1), of "insertion_fragment_new f"] Cons.prems(2) by (simp add: frag_key_def)
  with Cons show ?case by (simp add: insertion_fragment_new_def)
qed simp

lemma check_insertion_ok:
  assumes "ids_ok fs" "f \<in> set fs"
  shows "check_insertion fs (insertion_fragment_new f)"
proof -
  from assms(2) obtain us vs where fs: "fs = us @ f # vs" by (auto dest: split_list)
  then have "\<forall>g \<in> set us. frag_id g < frag_id f" using assms(1) by (auto simp: ids_ok_def sorted_wrt_append)
  then have "dropWhile (\<lambda>g. frag_id g < frag_id f) fs = f # vs" unfolding fs by (simp add: dropWhile_append2)
  then show ?thesis by (simp add: check_insertion_def insertion_fragment_new_def)
qed

lemma contains_crlf_CR: "contains_crlf t \<Longrightarrow> CR \<in> set t"
  by (induction t rule: contains_crlf.induct) auto

lemma check_invariants_ok:
  assumes "buffer_inv ins b"
  shows "check_invariants b"
proof -
  let ?s = "buf_snapshot b"
  have ok: "snapshot_ok ins ?s" "index_ok ?s" "\<forall>ts. CR \<notin> set (ins ts)" using assms by (auto simp: buffer_inv_def snap_inv_def)
  then have frags: "\<forall>f \<in> set (fragments ?s). frag_wf ins f" "ids_ok (fragments ?s)" "sorted_keys if_key (insertions ?s)"
      "set (insertions ?s) = insertion_fragment_new ` set (fragments ?s)" by (auto simp: snapshot_ok_def index_ok_def)
  have "check_fragments locator_min (insertions ?s) (fragments ?s)"
    using frags by (intro check_fragments_ok) (auto simp: ids_ok_def id_ok_def)
  moreover have "list_all (check_insertion (fragments ?s)) (insertions ?s)"
    using frags(2,4) check_insertion_ok by (auto simp: list_all_iff)
  moreover have "CR \<notin> set (vis_text ins fs)" for fs
    using ok(3) by (auto simp: vis_text_def content_def dest: in_set_takeD in_set_dropD)
  then have "\<not> contains_crlf (visible_text ?s)" using contains_crlf_CR ok(1) by (auto simp: snapshot_ok_def)
  ultimately show ?thesis using length_texts [OF frags(1)] ok(1) by (simp add: check_invariants_def snapshot_ok_def Let_def)
qed

subsection \<open>Reachable buffers\<close>

definition entry_possible :: "undo_sort \<Rightarrow> history_entry option \<Rightarrow> buffer \<Rightarrow> bool" where
  "entry_possible srt e b \<longleftrightarrow> pred_option (\<lambda>e. undo_possible srt (he_transaction e) b) e"

text \<open>The entries of a list, undone or redone one after the other.\<close>

fun entries_possible :: "undo_sort \<Rightarrow> history_entry list \<Rightarrow> buffer \<Rightarrow> bool" where
  "entries_possible srt [] b \<longleftrightarrow> True"
| "entries_possible srt (e # es) b \<longleftrightarrow> clock_room b \<and> undo_possible srt (he_transaction e) b
     \<and> pred_option (\<lambda>(b1, op). entries_possible srt es b1) (undo_or_redo srt (he_transaction e) b)"

fun sent_op :: "('id \<times> bytes operation) option \<Rightarrow> bytes operation list" where
  "sent_op None = []"
| "sent_op (Some (tid, op)) = [op]"

text \<open>\<open>ops\<close> are the operations the buffer has made or applied since it was created from the text \<open>base\<close>, in their order. A transaction that
  is pushed from elsewhere consists of edits the history knows and the version has observed; undoing it is then like undoing others.\<close>

inductive buffer_run :: "undo_sort \<Rightarrow> bytes \<Rightarrow> bytes operation list \<Rightarrow> buffer \<Rightarrow> bool" for srt base where
  new: "buffer_new platform replica base = Some b \<Longrightarrow> length (normalize_text base) \<le> MAX_INSERTION_LEN \<Longrightarrow> buffer_run srt base [] b"
| edit: "buffer_run srt base ops b \<Longrightarrow> clock_room b \<Longrightarrow> edits_ok 0 edits (length (visible_text (buf_snapshot b))) \<Longrightarrow>
    length (inserted edits) \<le> MAX_INSERTION_LEN \<Longrightarrow> buffer_edit started ended edits b = Some (b1, op) \<Longrightarrow> buffer_run srt base (ops @ [op]) b1"
| start: "buffer_run srt base ops b \<Longrightarrow> clock_room b \<Longrightarrow> start_transaction_at now b = (b1, tid) \<Longrightarrow> buffer_run srt base ops b1"
| finish: "buffer_run srt base ops b \<Longrightarrow> end_transaction_at now b = Some (b1, r) \<Longrightarrow> buffer_run srt base ops b1"
| finalize: "buffer_run srt base ops b \<Longrightarrow> buffer_finalize_last_transaction b = (b1, t) \<Longrightarrow> buffer_run srt base ops b1"
| group_until: "buffer_run srt base ops b \<Longrightarrow> group_until_transaction tid b = Some b1 \<Longrightarrow> buffer_run srt base ops b1"
| forget: "buffer_run srt base ops b \<Longrightarrow> forget_transaction tid b = Some (b1, t) \<Longrightarrow> buffer_run srt base ops b1"
| merge: "buffer_run srt base ops b \<Longrightarrow> buffer_merge_transactions tid dest b = Some b1 \<Longrightarrow> buffer_run srt base ops b1"
| push_empty: "buffer_run srt base ops b \<Longrightarrow> clock_room b \<Longrightarrow> buffer_push_empty_transaction now b = Some (b1, tid) \<Longrightarrow>
    buffer_run srt base ops b1"
| undo: "buffer_run srt base ops b \<Longrightarrow> clock_room b \<Longrightarrow> entry_possible srt (vec_last (undo_stack (buf_history b))) b \<Longrightarrow>
    buffer_undo srt b = Some (b1, r) \<Longrightarrow> buffer_run srt base (ops @ sent_op r) b1"
| redo: "buffer_run srt base ops b \<Longrightarrow> clock_room b \<Longrightarrow> entry_possible srt (vec_last (redo_stack (buf_history b))) b \<Longrightarrow>
    buffer_redo srt b = Some (b1, r) \<Longrightarrow> buffer_run srt base (ops @ sent_op r) b1"
| undo_transaction: "buffer_run srt base ops b \<Longrightarrow> clock_room b \<Longrightarrow>
    pred_option (\<lambda>(h, e). entry_possible srt e b) (remove_from_undo tid (buf_history b)) \<Longrightarrow>
    undo_transaction srt tid b = Some (b1, r) \<Longrightarrow> buffer_run srt base (ops @ sent_op (map_option (Pair tid) r)) b1"
| undo_to: "buffer_run srt base ops b \<Longrightarrow>
    pred_option (\<lambda>(h, es). entries_possible srt es (b\<lparr>buf_history := h\<rparr>)) (remove_from_undo_until tid (buf_history b)) \<Longrightarrow>
    undo_to_transaction srt tid b = Some (b1, made) \<Longrightarrow> buffer_run srt base (ops @ made) b1"
| redo_to: "buffer_run srt base ops b \<Longrightarrow>
    pred_option (\<lambda>(h, es). entries_possible srt es (b\<lparr>buf_history := h\<rparr>)) (remove_from_redo tid (buf_history b)) \<Longrightarrow>
    redo_to_transaction srt tid b = Some (b1, made) \<Longrightarrow> buffer_run srt base (ops @ made) b1"
| push: "buffer_run srt base ops b \<Longrightarrow> known_edits (operations (buf_history b)) (tr_edit_ids t) \<Longrightarrow>
    list_all (global_observed (buffer_version b)) (tr_edit_ids t) \<Longrightarrow> buffer_push_transaction t now b = Some b1 \<Longrightarrow> buffer_run srt base ops b1"
| copy: "buffer_run srt base ops b \<Longrightarrow> clock_room b \<Longrightarrow> snapshot_with_edits edits b = Some (b1, e) \<Longrightarrow> buffer_run srt base ops b1"
| line_ending: "buffer_run srt base ops b \<Longrightarrow> buffer_run srt base ops (set_line_ending le b)"
| subscribe: "buffer_run srt base ops b \<Longrightarrow> buffer_subscribe b = (b1, a) \<Longrightarrow> buffer_run srt base ops b1"
| wait_edits: "buffer_run srt base ops b \<Longrightarrow> wait_for_edits es b = (b1, rxs) \<Longrightarrow> buffer_run srt base ops b1"
| wait_version: "buffer_run srt base ops b \<Longrightarrow> wait_for_version v b = (b1, rx) \<Longrightarrow> buffer_run srt base ops b1"
| give_up: "buffer_run srt base ops b \<Longrightarrow> buffer_run srt base ops (give_up_waiting b)"
| remote: "buffer_run srt base ops b \<Longrightarrow> ops_fit srt received b \<Longrightarrow> apply_ops srt received b = Some b1 \<Longrightarrow>
    buffer_run srt base (ops @ applied_ops srt received b) b1"

lemma wait_for_edits_same:
  "wait_for_edits es b = (b1, rxs) \<Longrightarrow> buf_snapshot b1 = buf_snapshot b \<and> buf_history b1 = buf_history b \<and> lamport_clock b1 = lamport_clock b
     \<and> deferred_ops b1 = deferred_ops b"
proof (induction es b arbitrary: b1 rxs rule: wait_for_edits.induct)
  case (2 e es b)
  show ?case
  proof (cases "global_observed (buffer_version b) e")
    case True
    with 2 show ?thesis by simp
  next
    case False
    let ?b = "b\<lparr>edit_id_resolvers := (edit_id_resolvers b)(e \<mapsto> (case edit_id_resolvers b e of Some txs \<Rightarrow> txs | None \<Rightarrow> []) @ [next_channel b]),
      next_channel := next_channel b + 1\<rparr>"
    obtain b2 rxs2 where r: "wait_for_edits es ?b = (b2, rxs2)" by fastforce
    with 2(3) False have "b1 = b2" by (simp add: Let_def)
    with 2(1) [OF False refl refl refl r] show ?thesis by simp
  qed
qed simp

text \<open>A step of the history that rearranges its stacks.\<close>

lemma buffer_inv_rearranged:
  assumes "buffer_inv ins b" "history_move (buf_history b) h"
    and "operations h = operations (buf_history b) \<and> transaction_depth h = transaction_depth (buf_history b)"
  shows "buffer_inv ins (b\<lparr>buf_history := h\<rparr>)"
proof (rule buffer_inv_history [OF assms(1)])
  have ok: "history_ok (buf_history b)" using assms(1) by (simp add: buffer_inv_def)
  show "history_ok h" "stack_edits h \<subseteq> stack_edits (buf_history b)"
    using history_step_ok [OF history_move_step [OF assms(2)] ok] move_stack_edits [OF assms(2) ok] by simp_all
qed (use assms in \<open>auto simp: buffer_inv_def timestamps_ok_def\<close>)

lemma rearranged_run:
  "run_inv base ops b \<Longrightarrow> history_move (buf_history b) h \<Longrightarrow>
     operations h = operations (buf_history b) \<and> transaction_depth h = transaction_depth (buf_history b) \<Longrightarrow> run_inv base ops (b\<lparr>buf_history := h\<rparr>)"
  by (rule run_inv_same) (auto simp: run_inv_def intro: buffer_inv_rearranged)

lemma push_empty_ok:
  assumes "buffer_inv ins b" "clock_room b" "buffer_push_empty_transaction now b = Some (b1, tid)"
  shows "buffer_inv ins b1 \<and> buf_snapshot b1 = buf_snapshot b \<and> lam_value (lamport_clock b) \<le> lam_value (lamport_clock b1)"
proof -
  obtain h clock where p: "push_empty_transaction (buffer_version b) now (lamport_clock b) (buf_history b) = Some (h, clock, tid)"
      "b1 = b\<lparr>buf_history := h, lamport_clock := clock\<rparr>"
    using assms(3) by (auto simp: buffer_push_empty_transaction_def)
  then have h: "operations h = operations (buf_history b)" "clock = snd (tick (lamport_clock b))"
    by (auto simp: push_empty_transaction_def tick_def rust_assert_def bind_eq_Some_conv split: if_splits)
  have "history_ok h" using history_step_ok [OF history_step.push_empty [OF p(1)]] assms(1) by (simp add: buffer_inv_def)
  moreover have "timestamps_ok b" "unat (lam_value (lamport_clock b)) + 1 < 2 ^ 32" using assms(1,2) by (simp_all add: buffer_inv_def clock_room_def)
  from timestamps_ok_tick [OF this, of b1] h have "timestamps_ok b1" by (simp add: p(2))
  moreover have "stack_edits h \<subseteq> stack_edits (buf_history b)"
    using move_stack_edits [OF history_move.push_empty [OF p(1)]] assms(1) by (simp add: buffer_inv_def)
  then have "version_ok b1" using assms(1) p(2) by (auto simp: buffer_inv_def version_ok_def buffer_version_def)
  moreover have "lam_value (lamport_clock b) \<le> lam_value clock"
    using h(2) tick_below(3) [of "lamport_clock b"] assms(2) by (simp add: clock_room_def word_le_nat_alt)
  ultimately show ?thesis using assms(1) p(2) by (simp add: buffer_inv_def)
qed

lemma buffer_undo_run:
  assumes "run_inv base ops b" "clock_room b" "sorts_edits srt" "entry_possible srt (vec_last (undo_stack (buf_history b))) b"
    and "buffer_undo srt b = Some (b1, r)"
  shows "run_inv base (ops @ sent_op r) b1"
proof -
  have d: "transaction_depth (buf_history b) = 0" using assms(5) by (auto simp: buffer_undo_def pop_undo_def rust_assert_def split: if_splits)
  show ?thesis
  proof (cases "undo_stack (buf_history b)" rule: rev_cases)
    case Nil
    then have "b1 = b" "r = None" using assms(5) d by (auto simp: buffer_undo_def pop_undo_def rust_assert_def)
    with assms(1) show ?thesis by simp
  next
    case (snoc es e)
    with assms(4) have "undo_possible srt (he_transaction e) b" by (simp add: entry_possible_def)
    moreover have "buffer_inv (ins_of base ops) b" "unat (lam_value (lamport_clock b)) + 1 < 2 ^ 32"
      using assms(1,2) by (simp_all add: run_inv_def clock_room_def)
    ultimately show ?thesis
      using buffer_undo_ok [OF _ _ assms(3) d snoc] assms(5) undo_run_inv [OF assms(1)] by fastforce
  qed
qed

lemma buffer_redo_run:
  assumes "run_inv base ops b" "clock_room b" "sorts_edits srt" "entry_possible srt (vec_last (redo_stack (buf_history b))) b"
    and "buffer_redo srt b = Some (b1, r)"
  shows "run_inv base (ops @ sent_op r) b1"
proof -
  have d: "transaction_depth (buf_history b) = 0" using assms(5) by (auto simp: buffer_redo_def pop_redo_def rust_assert_def split: if_splits)
  show ?thesis
  proof (cases "redo_stack (buf_history b)" rule: rev_cases)
    case Nil
    then have "b1 = b" "r = None" using assms(5) d by (auto simp: buffer_redo_def pop_redo_def rust_assert_def)
    with assms(1) show ?thesis by simp
  next
    case (snoc es e)
    with assms(4) have "undo_possible srt (he_transaction e) b" by (simp add: entry_possible_def)
    moreover have "buffer_inv (ins_of base ops) b" "unat (lam_value (lamport_clock b)) + 1 < 2 ^ 32"
      using assms(1,2) by (simp_all add: run_inv_def clock_room_def)
    ultimately show ?thesis
      using buffer_redo_ok [OF _ _ assms(3) d snoc] assms(5) undo_run_inv [OF assms(1)] by fastforce
  qed
qed

text \<open>Undoing or redoing entries of the stacks by their identifiers.\<close>

lemma undo_or_redo_run:
  assumes "run_inv base ops b" "clock_room b" "sorts_edits srt" "undo_possible srt (he_transaction e) b"
    and "e \<in> set (undo_stack (buf_history b)) \<union> set (redo_stack (buf_history b))" "undo_or_redo srt (he_transaction e) b = Some (b1, op)"
  shows "run_inv base (ops @ [op]) b1 \<and> undo_stack (buf_history b1) = undo_stack (buf_history b)
    \<and> redo_stack (buf_history b1) = redo_stack (buf_history b)"
proof -
  have inv: "buffer_inv (ins_of base ops) b" and room: "unat (lam_value (lamport_clock b)) + 1 < 2 ^ 32"
    using assms(1,2) by (simp_all add: run_inv_def clock_room_def)
  have "\<forall>i \<in> set (tr_edit_ids (he_transaction e)). i \<noteq> base_timestamp \<and> below_clock (lamport_clock b) i
      \<and> global_observed (buffer_version b) i"
    using stack_edit_known [OF inv assms(5)] by blast
  from undo_or_redo_ok [OF inv room assms(3,4) this] assms(6) undo_run_inv [OF assms(1) room] show ?thesis by auto
qed

lemma undo_or_redo_all_run:
  "run_inv base ops b \<Longrightarrow> sorts_edits srt \<Longrightarrow> entries_possible srt es b \<Longrightarrow>
   set es \<subseteq> set (undo_stack (buf_history b)) \<union> set (redo_stack (buf_history b)) \<Longrightarrow>
   undo_or_redo_all srt es b = Some (b1, made) \<Longrightarrow> run_inv base (ops @ made) b1"
proof (induction es arbitrary: b ops made)
  case (Cons e es)
  obtain b2 op where u: "undo_or_redo srt (he_transaction e) b = Some (b2, op)" using Cons.prems(5) by (auto simp: bind_eq_Some_conv)
  then obtain made' where rest: "undo_or_redo_all srt es b2 = Some (b1, made')" "made = op # made'"
    using Cons.prems(5) by (auto simp: bind_eq_Some_conv)
  have "clock_room b" "undo_possible srt (he_transaction e) b" "entries_possible srt es b2" using Cons.prems(3) u by simp_all
  with undo_or_redo_run [OF Cons.prems(1) _ Cons.prems(2) _ _ u] Cons.prems(4)
  have "run_inv base (ops @ [op]) b2" "set es \<subseteq> set (undo_stack (buf_history b2)) \<union> set (redo_stack (buf_history b2))" by auto
  from Cons.IH [OF this(1) Cons.prems(2) \<open>entries_possible srt es b2\<close> this(2) rest(1)] show ?case by (simp add: rest(2))
qed simp

lemma remove_moves:
  "remove_from_undo tid h = Some (h1, e) \<Longrightarrow> operations h1 = operations h \<and> transaction_depth h1 = transaction_depth h
     \<and> pred_option (\<lambda>e. e \<in> set (redo_stack h1)) e"
  "remove_from_undo_until tid h = Some (h1, es) \<Longrightarrow> operations h1 = operations h \<and> transaction_depth h1 = transaction_depth h
     \<and> set es \<subseteq> set (redo_stack h1)"
  "remove_from_redo tid h = Some (h1, es) \<Longrightarrow> operations h1 = operations h \<and> transaction_depth h1 = transaction_depth h
     \<and> set es \<subseteq> set (undo_stack h1)"
  by (auto simp: remove_from_undo_def remove_from_undo_until_def remove_from_redo_def rust_assert_def Let_def
      split: option.splits if_splits dest: in_set_dropD)

lemma undo_transaction_run:
  assumes "run_inv base ops b" "clock_room b" "sorts_edits srt"
    and "pred_option (\<lambda>(h, e). entry_possible srt e b) (remove_from_undo tid (buf_history b))"
    and "undo_transaction srt tid b = Some (b1, r)"
  shows "run_inv base (ops @ sent_op (map_option (Pair tid) r)) b1"
proof -
  obtain h e where rm: "remove_from_undo tid (buf_history b) = Some (h, e)" using assms(5) by (auto simp: undo_transaction_def bind_eq_Some_conv)
  note moved = remove_moves(1) [OF rm] and run = rearranged_run [OF assms(1) history_move.remove_undo [OF rm]]
  show ?thesis
  proof (cases e)
    case None
    then show ?thesis using assms(5) rm run moved by (auto simp: undo_transaction_def)
  next
    case (Some entry)
    then obtain op where u: "undo_or_redo srt (he_transaction entry) (b\<lparr>buf_history := h\<rparr>) = Some (b1, op)" "r = Some op"
      using assms(5) rm by (auto simp: undo_transaction_def bind_eq_Some_conv)
    have "undo_possible srt (he_transaction entry) b" using assms(4) rm Some by (simp add: entry_possible_def)
    with undo_or_redo_run [OF run _ assms(3) _ _ u(1)] assms(2) moved u(2) Some show ?thesis by (simp add: clock_room_def)
  qed
qed

lemma to_transaction_run:
  assumes "run_inv base ops b" "sorts_edits srt" "history_move (buf_history b) h"
    and "operations h = operations (buf_history b) \<and> transaction_depth h = transaction_depth (buf_history b)"
    and "set es \<subseteq> set (undo_stack h) \<union> set (redo_stack h)" "entries_possible srt es (b\<lparr>buf_history := h\<rparr>)"
    and "undo_or_redo_all srt es (b\<lparr>buf_history := h\<rparr>) = Some (b1, made)"
  shows "run_inv base (ops @ made) b1"
  using undo_or_redo_all_run [OF rearranged_run [OF assms(1,3,4)] assms(2,6) _ assms(7)] assms(5) by simp

lemma push_transaction_run:
  assumes "run_inv base ops b" "known_edits (operations (buf_history b)) (tr_edit_ids t)"
    and "list_all (global_observed (buffer_version b)) (tr_edit_ids t)" "buffer_push_transaction t now b = Some b1"
  shows "run_inv base ops b1"
proof -
  obtain h where p: "push_transaction t now (buf_history b) = Some h" "b1 = b\<lparr>buf_history := h\<rparr>"
    using assms(4) by (auto simp: buffer_push_transaction_def)
  have inv: "buffer_inv (ins_of base ops) b" using assms(1) by (simp add: run_inv_def)
  then have "history_ok h" using history_step_ok [OF history_step.push_transaction [OF p(1) assms(2)]] by (simp add: buffer_inv_def)
  moreover have h: "operations h = operations (buf_history b)" "transaction_depth h = transaction_depth (buf_history b)"
    "stack_edits h \<subseteq> stack_edits (buf_history b) \<union> set (tr_edit_ids t)"
    using p(1) by (auto simp: push_transaction_def rust_assert_def new_entry_def stack_edits_def split: if_splits)
  have "version_ok b1" using inv assms(3) h(3) by (auto simp: p(2) buffer_inv_def version_ok_def buffer_version_def list_all_iff)
  moreover have "timestamps_ok b1" using inv h(1,2) by (simp add: p(2) buffer_inv_def timestamps_ok_def)
  ultimately have "buffer_inv (ins_of base ops) b1" using inv by (simp add: p(2) buffer_inv_def)
  then show ?thesis by (intro run_inv_same [OF assms(1)]) (simp_all add: p(2))
qed

lemma snapshot_with_edits_run:
  assumes "run_inv base ops b" "clock_room b" "snapshot_with_edits edits b = Some (b1, e)"
  shows "run_inv base ops b1"
proof (cases "edits = []")
  case True
  with assms(1,3) show ?thesis by (simp add: snapshot_with_edits_def)
next
  case False
  then have b1: "b1 = b\<lparr>lamport_clock := snd (tick (lamport_clock b))\<rparr>"
    using assms(3) by (auto simp: snapshot_with_edits_def tick_def Let_def bind_eq_Some_conv)
  have room: "unat (lam_value (lamport_clock b)) + 1 < 2 ^ 32" and inv: "buffer_inv (ins_of base ops) b"
    using assms(1,2) by (simp_all add: run_inv_def clock_room_def)
  have "timestamps_ok b1" using timestamps_ok_tick [OF _ room, of b1] inv by (simp add: b1 buffer_inv_def)
  with inv have "buffer_inv (ins_of base ops) b1" by (simp add: b1 buffer_inv_def version_ok_def buffer_version_def)
  then show ?thesis using tick_below(3) [OF room] by (intro run_inv_same [OF assms(1)]) (simp_all add: b1 word_le_nat_alt)
qed

lemma buffer_run_inv:
  assumes "buffer_run srt base ops b" "sorts_edits srt"
  shows "run_inv base ops b"
  using assms(1)
proof (induction rule: buffer_run.induct)
  case (new platform replica b)
  then show ?case by (rule new_run_inv)
next
  case (edit ops b edits started ended b1 op)
  from edit_run_inv [OF edit(6,2-4), of started ended] edit(5) show ?case by auto
next
  case (start ops b now b1 tid)
  then have inv: "buffer_inv (ins_of base ops) b" and room: "unat (lam_value (lamport_clock b)) + 1 < 2 ^ 32"
    by (simp_all add: run_inv_def clock_room_def)
  have "lam_value (lamport_clock b) \<le> lam_value (lamport_clock b1)"
    using start_transaction_clock [OF start(3)] tick_below(3) [OF room] by (auto simp: word_le_nat_alt)
  with start_transaction_at_ok [OF inv room start(3)] run_inv_same [OF start.IH] show ?case by blast
next
  case (finish ops b now b1 r)
  then have inv: "buffer_inv (ins_of base ops) b" by (simp add: run_inv_def)
  have "transaction_depth (buf_history b) \<noteq> 0"
    using finish(2) by (auto simp: end_transaction_at_def end_transaction_def rust_assert_def split: if_splits)
  from end_transaction_at_ok [OF inv this, of now] finish(2) run_inv_same [OF finish.IH] show ?case by auto
next
  case (finalize ops b b1 t)
  then obtain h where "finalize_last_transaction (buf_history b) = (h, t)" "b1 = b\<lparr>buf_history := h\<rparr>"
    by (auto simp: buffer_finalize_last_transaction_def split: prod.splits)
  then show ?case using rearranged_run [OF finalize.IH history_move.finalize rearranging_steps(1)] by blast
next
  case (group_until ops b tid b1)
  then obtain h where "History.group_until tid (buf_history b) = Some h" "b1 = b\<lparr>buf_history := h\<rparr>"
    by (auto simp: group_until_transaction_def)
  then show ?case using rearranged_run [OF group_until.IH history_move.group_until rearranging_steps(2)] by blast
next
  case (forget ops b tid b1 t)
  then obtain h where "History.forget tid (buf_history b) = Some (h, t)" "b1 = b\<lparr>buf_history := h\<rparr>"
    by (auto simp: forget_transaction_def)
  then show ?case using rearranged_run [OF forget.IH history_move.forget rearranging_steps(3)] by blast
next
  case (merge ops b tid dest b1)
  then obtain h where "merge_transactions tid dest (buf_history b) = Some h" "b1 = b\<lparr>buf_history := h\<rparr>"
    by (auto simp: buffer_merge_transactions_def)
  then show ?case using rearranged_run [OF merge.IH history_move.merge rearranging_steps(4)] by blast
next
  case (push_empty ops b now b1 tid)
  then have "buffer_inv (ins_of base ops) b" by (simp add: run_inv_def)
  from push_empty_ok [OF this push_empty(2,3)] run_inv_same [OF push_empty.IH] show ?case by blast
next
  case (undo ops b b1 r)
  then show ?case using buffer_undo_run assms(2) by blast
next
  case (redo ops b b1 r)
  then show ?case using buffer_redo_run assms(2) by blast
next
  case (undo_transaction ops b tid b1 r)
  then show ?case using undo_transaction_run assms(2) by blast
next
  case (undo_to ops b tid b1 made)
  then obtain h es where rm: "remove_from_undo_until tid (buf_history b) = Some (h, es)"
      "undo_or_redo_all srt es (b\<lparr>buf_history := h\<rparr>) = Some (b1, made)" by (auto simp: undo_to_transaction_def bind_eq_Some_conv)
  with to_transaction_run [OF undo_to.IH assms(2) history_move.remove_undo_until [OF rm(1)]] remove_moves(2) [OF rm(1)] undo_to(2)
  show ?case by auto
next
  case (redo_to ops b tid b1 made)
  then obtain h es where rm: "remove_from_redo tid (buf_history b) = Some (h, es)"
      "undo_or_redo_all srt es (b\<lparr>buf_history := h\<rparr>) = Some (b1, made)" by (auto simp: redo_to_transaction_def bind_eq_Some_conv)
  with to_transaction_run [OF redo_to.IH assms(2) history_move.remove_redo [OF rm(1)]] remove_moves(3) [OF rm(1)] redo_to(2)
  show ?case by auto
next
  case (push ops b t now b1)
  then show ?case using push_transaction_run by blast
next
  case (copy ops b edits b1 e)
  then show ?case using snapshot_with_edits_run by blast
next
  case (line_ending ops b le)
  then show ?case using run_inv_channels [OF line_ending.IH] by (simp add: set_line_ending_def)
next
  case (subscribe ops b b1 a)
  then show ?case using run_inv_channels [OF subscribe.IH] by (auto simp: buffer_subscribe_def split: prod.splits)
next
  case (wait_edits ops b es b1 rxs)
  then show ?case using wait_for_edits_same [OF wait_edits(2)] run_inv_channels [OF wait_edits.IH] by blast
next
  case (wait_version ops b v b1 rx)
  then show ?case using run_inv_channels [OF wait_version.IH] by (auto simp: wait_for_version_def split: if_splits)
next
  case (give_up ops b)
  then show ?case using run_inv_channels [OF give_up.IH] by (simp add: give_up_waiting_def)
next
  case (remote ops b received b1)
  from apply_ops_run [OF remote(4) assms(2) remote(2)] remote(3) show ?case by auto
qed

lemma reachable_inv: "buffer_run srt base ops b \<Longrightarrow> sorts_edits srt \<Longrightarrow> buffer_inv (ins_of base ops) b"
  using buffer_run_inv by (simp add: run_inv_def)

text \<open>Local operations do not touch the queue.\<close>

lemma start_transaction_queue: "start_transaction_at now b = (b1, tid) \<Longrightarrow> deferred_ops b1 = deferred_ops b"
  by (auto simp: start_transaction_at_def split: prod.splits)

lemma end_transaction_queue: "end_transaction_at now b = Some (b1, r) \<Longrightarrow> deferred_ops b1 = deferred_ops b"
  by (auto simp: end_transaction_at_def bind_eq_Some_conv split: prod.splits option.splits)

lemma edit_queue: "buffer_edit started ended edits b = Some (b1, op) \<Longrightarrow> deferred_ops b1 = deferred_ops b"
  by (auto simp: buffer_edit_def apply_local_edit_def Let_def bind_eq_Some_conv observe_version_def case_prod_beta
      dest!: end_transaction_queue) (simp add: start_transaction_at_def case_prod_beta)

lemma undo_or_redo_queue: "undo_or_redo srt t b = Some (b1, op) \<Longrightarrow> deferred_ops b1 = deferred_ops b"
  by (auto simp: undo_or_redo_def undo_operations_def Let_def bind_eq_Some_conv observe_version_def case_prod_beta)

lemma undo_redo_queue:
  "buffer_undo srt b = Some (b1, r) \<Longrightarrow> deferred_ops b1 = deferred_ops b"
  "buffer_redo srt b = Some (b1, r) \<Longrightarrow> deferred_ops b1 = deferred_ops b"
  by (auto simp: buffer_undo_def buffer_redo_def bind_eq_Some_conv dest!: undo_or_redo_queue split: option.splits)

lemma undo_or_redo_all_queue: "undo_or_redo_all srt es b = Some (b1, made) \<Longrightarrow> deferred_ops b1 = deferred_ops b"
  by (induction es arbitrary: b made) (auto simp: bind_eq_Some_conv dest!: undo_or_redo_queue)

lemma by_transaction_queue:
  "undo_transaction srt tid b = Some (b1, r') \<Longrightarrow> deferred_ops b1 = deferred_ops b"
  "undo_to_transaction srt tid b = Some (b1, made) \<Longrightarrow> deferred_ops b1 = deferred_ops b"
  "redo_to_transaction srt tid b = Some (b1, made) \<Longrightarrow> deferred_ops b1 = deferred_ops b"
  "buffer_push_transaction t now b = Some b1 \<Longrightarrow> deferred_ops b1 = deferred_ops b"
  "snapshot_with_edits edits b = Some (b1, e) \<Longrightarrow> deferred_ops b1 = deferred_ops b"
  by (auto simp: undo_transaction_def undo_to_transaction_def redo_to_transaction_def buffer_push_transaction_def snapshot_with_edits_def
      tick_def Let_def bind_eq_Some_conv dest!: undo_or_redo_queue undo_or_redo_all_queue split: option.splits if_splits)

lemma run_queue_sorted: "buffer_run srt base ops b \<Longrightarrow> sorted_keys op_timestamp (deferred_ops b)"
proof (induction rule: buffer_run.induct)
  case (new platform replica b)
  then show ?case by (auto simp: buffer_new_def new_normalized_def Let_def bind_eq_Some_conv sorted_keys_def)
qed (auto dest: start_transaction_queue end_transaction_queue edit_queue undo_redo_queue by_transaction_queue wait_for_edits_same apply_ops_sorted
    simp: buffer_finalize_last_transaction_def group_until_transaction_def forget_transaction_def buffer_merge_transactions_def
      buffer_push_empty_transaction_def set_line_ending_def buffer_subscribe_def wait_for_version_def give_up_waiting_def
    split: prod.splits if_splits)

subsection \<open>Undoing an edit, redoing what was undone\<close>

lemma byte_of_fresh:
  assumes "fresh ts fs" "c \<in> set (cells fs)"
  shows "byte_of (ins(ts := t)) c = byte_of ins c"
  using fresh_cell [OF assms] by (simp add: byte_of_def)

lemma skeleton_text:
  assumes "snap_inv ins snap" "skeleton (fragments snap) = skeleton fs"
  shows "visible_text snap = map (byte_of ins) (filter (flag_cell (snap_undo_map snap)) (cells fs))"
proof -
  have "map (byte_of ins) (filter (flag_cell m) (cells gs)) = map (byte_of ins) (filter (flag_cell m) (skeleton gs))" for m gs
    by (simp add: skeleton_def filter_map comp_def flag_cell_def [abs_def] byte_of_def [abs_def])
  with visible_text_cells [OF assms(1)] assms(2) show ?thesis by simp
qed

lemma edit_undone_text:
  assumes "snap_inv ins snap" "snap_inv (ins(ts := t)) snap2" "new_timestamp ts snap"
    and "edited_cells ts (cells (fragments snap)) (cells fs)" "skeleton (fragments snap2) = skeleton fs"
    and "undone (snap_undo_map snap2) ts" "\<And>e. e \<noteq> ts \<Longrightarrow> undone (snap_undo_map snap2) e = undone (snap_undo_map snap) e"
  shows "visible_text snap2 = visible_text snap"
proof -
  have fr: "fresh ts (fragments snap)" using assms(3) by (simp add: new_timestamp_def)
  have "visible_text snap2 = map (byte_of (ins(ts := t))) (filter (flag_cell (snap_undo_map snap2)) (cells fs))"
    by (rule skeleton_text [OF assms(2,5)])
  also have "\<dots> = map (byte_of (ins(ts := t))) (filter (flag_cell (snap_undo_map snap)) (cells (fragments snap)))"
    using fresh_cell [OF fr] by (intro edited_cells_undone [OF assms(4)] assms(6,7)) (auto simp: cell_edits_def)
  also have "\<dots> = visible_text snap"
    using byte_of_fresh [OF fr] by (simp add: visible_text_cells [OF assms(1)])
  finally show ?thesis .
qed

text \<open>A concrete run: a new buffer, an edit, an undo.\<close>

definition example_sort :: undo_sort where
  "example_sort = sort_key (edit_key um_key)"

definition example_edits :: text_edits where
  "example_edits = [((1, 2), [33])]"

definition example_buffer :: buffer where
  "example_buffer = the (buffer_new Unix 1 [104, 105])"

definition example_edited :: "buffer \<times> bytes operation" where
  "example_edited = the (buffer_edit 0 0 example_edits example_buffer)"

definition example_remote_edit :: "bytes edit_operation" where
  "example_remote_edit = \<lparr>edit_timestamp = Lamport 3 2, edit_version = [1], edit_ranges = [(1, 2)], edit_new_text = [[63]]\<rparr>"

definition example_remote :: "bytes operation" where
  "example_remote = Edit example_remote_edit"

lemma example_sorts: "sorts_edits example_sort"
  by (simp add: sorts_edits_def example_sort_def)

lemma example_new: "buffer_new Unix 1 [104, 105] = Some example_buffer"
proof -
  have "\<not> Option.is_none (buffer_new Unix 1 [104, 105])" by code_simp
  then show ?thesis by (simp add: example_buffer_def Option.is_none_def)
qed

lemma example_edit: "buffer_edit 0 0 example_edits example_buffer = Some example_edited"
proof -
  have "\<not> Option.is_none (buffer_edit 0 0 example_edits example_buffer)" by code_simp
  then show ?thesis by (simp add: example_edited_def Option.is_none_def)
qed

lemma example_facts:
  "visible_text (buf_snapshot example_buffer) = [104, 105]" "lam_value (lamport_clock example_buffer) = 2"
  by code_simp+

lemma example_edited_facts:
  "transaction_depth (buf_history (fst example_edited)) = 0" "lam_value (lamport_clock (fst example_edited)) = 4"
  "op_timestamp (snd example_edited) = Lamport 3 1"
  by code_simp+

lemma example_stack:
  "undo_stack (buf_history (fst example_edited)) = [] @
     [\<lparr>he_transaction = \<lparr>tr_id = Lamport 2 1, tr_edit_ids = [Lamport 3 1], tr_start = [1]\<rparr>, first_edit_at = 0, last_edit_at = 0,
       suppress_grouping = False\<rparr>]"
  by code_simp

lemma example_possible: "undo_possible example_sort \<lparr>tr_id = Lamport 2 1, tr_edit_ids = [Lamport 3 1], tr_start = [1]\<rparr> (fst example_edited)"
  by code_simp

lemma example_remote_recordable: "recordable example_remote example_buffer"
proof -
  have "list_all (\<lambda>P. P) [Option.is_none (operations (buf_history example_buffer) (op_timestamp example_remote)),
      below_clock (lamport_clock example_buffer) (op_timestamp example_remote), op_timestamp example_remote \<noteq> base_timestamp]"
    by code_simp
  then show ?thesis by (auto simp: recordable_def is_none_simps split: option.split)
qed

lemma example_remote_edit_fits: "edit_fits example_remote_edit (buf_snapshot example_buffer)"
proof -
  have "made_after [1] (Lamport 3 2)" "Lamport 3 2 \<noteq> base_timestamp"
    "edits_ok 0 [((1, 2), [63])] (sum_list (map (versioned_len [1]) (fragments (buf_snapshot example_buffer))))" by code_simp+
  then show ?thesis by (simp add: edit_fits_def example_remote_edit_def MAX_INSERTION_LEN_def CR_def)
qed

lemma example_remote_fits: "ops_fit example_sort [example_remote] example_buffer"
proof (rule single_fits [OF example_remote_recordable])
  show "can_apply_op example_remote example_buffer" "deferred_ops example_buffer = []" by code_simp+
  show "clock_room example_buffer" by (simp add: clock_room_def example_facts)
  show "op_fits example_sort example_remote example_buffer"
    using example_remote_edit_fits by (simp add: op_fits_def example_remote_def) (simp add: example_remote_edit_def)
qed

lemma example_reachable: "buffer_run example_sort [104, 105] [] example_buffer"
proof (rule buffer_run.new [OF example_new])
  show "length (normalize_text [104, 105]) \<le> MAX_INSERTION_LEN" by (simp add: MAX_INSERTION_LEN_def CR_def)
qed

lemma example_valid:
  "edits_ok 0 example_edits (length (visible_text (buf_snapshot example_buffer)))" "length (inserted example_edits) \<le> MAX_INSERTION_LEN"
  by (simp_all add: example_facts example_edits_def CR_def MAX_INSERTION_LEN_def)

lemma example_edited_reachable: "buffer_run example_sort [104, 105] [snd example_edited] (fst example_edited)"
proof -
  have "clock_room example_buffer" by (simp add: clock_room_def example_facts)
  moreover have "buffer_edit 0 0 example_edits example_buffer = Some (fst example_edited, snd example_edited)" by (simp add: example_edit)
  ultimately have "buffer_run example_sort [104, 105] ([] @ [snd example_edited]) (fst example_edited)"
    by (rule buffer_run.edit [OF example_reachable _ example_valid])
  then show ?thesis by simp
qed

subsection \<open>Properties\<close>

text \<open>(C3) In every buffer that local operations and operations of other replicas can reach from a new one, the buffer's own check of its
  invariants succeeds; an edit of ordered ranges inside the text returns and replaces exactly these ranges; an open transaction can be
  ended; without an open transaction, undo and redo return; and operations that other replicas can have made can be applied, at once
  or later. Clocks and undo counts that would wrap around, and undo maps deeper than the stack of a cursor,
  are excluded.\<close>

theorem reachable_buffers_are_sound:
  assumes "buffer_run srt base ops b" "sorts_edits srt" "clock_room b"
  shows "check_invariants b
    \<and> (edits_ok 0 edits (length (visible_text (buf_snapshot b))) \<and> length (inserted edits) \<le> MAX_INSERTION_LEN \<longrightarrow>
        (\<exists>b1 op. buffer_edit started ended edits b = Some (b1, op)
           \<and> visible_text (buf_snapshot b1) = splice_from 0 (visible_text (buf_snapshot b)) edits))
    \<and> (transaction_depth (buf_history b) \<noteq> 0 \<longrightarrow> end_transaction_at now b \<noteq> None)
    \<and> (transaction_depth (buf_history b) = 0 \<and> entry_possible srt (vec_last (undo_stack (buf_history b))) b \<longrightarrow> buffer_undo srt b \<noteq> None)
    \<and> (transaction_depth (buf_history b) = 0 \<and> entry_possible srt (vec_last (redo_stack (buf_history b))) b \<longrightarrow> buffer_redo srt b \<noteq> None)
    \<and> (ops_fit srt received b \<longrightarrow> apply_ops srt received b \<noteq> None)"
proof -
  let ?ins = "ins_of base ops"
  have inv: "buffer_inv ?ins b" by (rule reachable_inv [OF assms(1,2)])
  have room: "unat (lam_value (lamport_clock b)) + 1 < 2 ^ 32" using assms(3) by (simp add: clock_room_def)
  have "buffer_undo srt b \<noteq> None"
    if "transaction_depth (buf_history b) = 0" "entry_possible srt (vec_last (undo_stack (buf_history b))) b"
  proof (cases "undo_stack (buf_history b)" rule: rev_cases)
    case Nil
    with that(1) show ?thesis by (simp add: buffer_undo_def pop_undo_def rust_assert_def)
  next
    case (snoc es e)
    with buffer_undo_ok [OF inv room assms(2) that(1) snoc] that(2) show ?thesis by (auto simp: entry_possible_def)
  qed
  moreover have "buffer_redo srt b \<noteq> None"
    if "transaction_depth (buf_history b) = 0" "entry_possible srt (vec_last (redo_stack (buf_history b))) b"
  proof (cases "redo_stack (buf_history b)" rule: rev_cases)
    case Nil
    with that(1) show ?thesis by (simp add: buffer_redo_def pop_redo_def rust_assert_def)
  next
    case (snoc es e)
    with buffer_redo_ok [OF inv room assms(2) that(1) snoc] that(2) show ?thesis by (auto simp: entry_possible_def)
  qed
  moreover have "apply_ops srt received b \<noteq> None" if "ops_fit srt received b"
    using apply_ops_run [OF buffer_run_inv [OF assms(1,2)] assms(2) that] by auto
  moreover have "end_transaction_at now b \<noteq> None" if "transaction_depth (buf_history b) \<noteq> 0"
    using end_transaction_at_ok [OF inv that, of now] by auto
  moreover have "\<exists>b1 op. buffer_edit started ended edits b = Some (b1, op)
      \<and> visible_text (buf_snapshot b1) = splice_from 0 (visible_text (buf_snapshot b)) edits"
    if "edits_ok 0 edits (length (visible_text (buf_snapshot b)))" "length (inserted edits) \<le> MAX_INSERTION_LEN"
    using buffer_edit_ok [OF inv assms(3) that, of started ended] by blast
  ultimately show ?thesis using check_invariants_ok [OF inv] by blast
qed

theorem reachable_buffers_are_sound_witness:
  "check_invariants example_buffer \<and> (\<exists>b1 op. buffer_edit 0 0 example_edits example_buffer = Some (b1, op)
     \<and> visible_text (buf_snapshot b1) = [104, 33])
     \<and> apply_ops example_sort [example_remote] example_buffer \<noteq> None"
proof -
  have "clock_room example_buffer" by (simp add: clock_room_def example_facts)
  moreover have "splice_from 0 (visible_text (buf_snapshot example_buffer)) example_edits = [104, 33]"
    by (simp add: example_facts example_edits_def CR_def)
  ultimately show ?thesis
    using reachable_buffers_are_sound [OF example_reachable example_sorts, of example_edits 0 0 _ "[example_remote]"] example_valid
      example_remote_fits by simp
qed

text \<open>(C4) Undo inverts an edit: after an edit that is alone in the last transaction, undo returns and the visible text is again the one the edit
  was made on.\<close>

theorem undo_inverts_edit:
  assumes "buffer_run srt base ops b" "sorts_edits srt" "unat (lam_value (lamport_clock b)) + 3 < 2 ^ 32"
    and "edits_ok 0 edits (length (visible_text (buf_snapshot b)))" "length (inserted edits) \<le> MAX_INSERTION_LEN"
    and "buffer_edit started ended edits b = Some (b1, op)" "transaction_depth (buf_history b1) = 0"
    and "undo_stack (buf_history b1) = es @ [e]" "tr_edit_ids (he_transaction e) = [op_timestamp op]" "undo_possible srt (he_transaction e) b1"
  shows "\<exists>b2 undo. buffer_undo srt b1 = Some (b2, Some (transaction_id_of e, undo))
    \<and> visible_text (buf_snapshot b2) = visible_text (buf_snapshot b) \<and> check_invariants b2"
proof -
  let ?ins = "ins_of base ops"
  have inv: "buffer_inv ?ins b" by (rule reachable_inv [OF assms(1,2)])
  have room: "clock_room b" using assms(3) by (simp add: clock_room_def)
  let ?ts = "op_timestamp op"
  from buffer_edit_ok [OF inv room assms(4,5), of started ended] assms(6)
  have e: "buffer_inv (?ins(?ts := inserted edits)) b1" "edited_cells ?ts (cells (fragments (buf_snapshot b))) (cells (fragments (buf_snapshot b1)))"
      "snap_undo_map (buf_snapshot b1) = snap_undo_map (buf_snapshot b)" "new_timestamp ?ts (buf_snapshot b)"
      "unat (lam_value (lamport_clock b1)) \<le> unat (lam_value (lamport_clock b)) + 2" by auto
  have "unat (lam_value (lamport_clock b1)) + 1 < 2 ^ 32" using e(5) assms(3) by simp
  from buffer_undo_ok [OF e(1) this assms(2,7,8,10)] obtain b2 undo where
    u: "buffer_undo srt b1 = Some (b2, Some (transaction_id_of e, undo))" "buffer_inv (?ins(?ts := inserted edits)) b2"
      "skeleton (fragments (buf_snapshot b2)) = skeleton (fragments (buf_snapshot b1))"
      "\<forall>i. level (snap_undo_map (buf_snapshot b2)) i = level (snap_undo_map (buf_snapshot b)) i + (if i = ?ts then 1 else 0)"
    using assms(9) e(3) by auto
  have "level (snap_undo_map (buf_snapshot b)) ?ts = 0" using e(4) by (simp add: new_timestamp_def level_def max_count_def)
  then have "undone (snap_undo_map (buf_snapshot b2)) ?ts" using u(4) by (simp add: undone_level)
  moreover have "undone (snap_undo_map (buf_snapshot b2)) i = undone (snap_undo_map (buf_snapshot b)) i" if "i \<noteq> ?ts" for i
    using u(4) that by (simp add: undone_level)
  ultimately have "visible_text (buf_snapshot b2) = visible_text (buf_snapshot b)"
    using inv u(2,3) e(2,4) by (intro edit_undone_text [of ?ins _ ?ts "inserted edits"]) (simp_all add: buffer_inv_def)
  with u(1) check_invariants_ok [OF u(2)] show ?thesis by blast
qed

theorem undo_inverts_edit_witness:
  "\<exists>b2 r. buffer_undo example_sort (fst example_edited) = Some (b2, Some r) \<and> visible_text (buf_snapshot b2) = [104, 105]"
proof -
  let ?e = "\<lparr>he_transaction = \<lparr>tr_id = Lamport 2 1, tr_edit_ids = [Lamport 3 1], tr_start = [1]\<rparr>, first_edit_at = 0, last_edit_at = 0,
       suppress_grouping = False\<rparr>"
  have "unat (lam_value (lamport_clock example_buffer)) + 3 < 2 ^ 32" by (simp add: example_facts)
  moreover have "buffer_edit 0 0 example_edits example_buffer = Some (fst example_edited, snd example_edited)" by (simp add: example_edit)
  ultimately have "\<exists>b2 undo. buffer_undo example_sort (fst example_edited) = Some (b2, Some (transaction_id_of ?e, undo))
      \<and> visible_text (buf_snapshot b2) = visible_text (buf_snapshot example_buffer) \<and> check_invariants b2"
    by (rule undo_inverts_edit [OF example_reachable example_sorts _ example_valid _ example_edited_facts(1) example_stack])
      (simp_all add: example_edited_facts(3) example_possible)
  then show ?thesis unfolding example_facts by blast
qed

text \<open>(C5) Redo inverts undo: redoing what was just undone returns, restores the visible text and the two stacks, whatever transaction it was.\<close>

theorem redo_inverts_undo:
  assumes "buffer_run srt base ops b" "sorts_edits srt" "clock_room b" "transaction_depth (buf_history b) = 0"
    and "undo_stack (buf_history b) = es @ [e]" "undo_possible srt (he_transaction e) b"
    and "buffer_undo srt b = Some (b1, r)" "undo_possible srt (he_transaction e) b1"
  shows "\<exists>b2 redo. buffer_redo srt b1 = Some (b2, Some (transaction_id_of e, redo))
    \<and> visible_text (buf_snapshot b2) = visible_text (buf_snapshot b)
    \<and> undo_stack (buf_history b2) = undo_stack (buf_history b) \<and> redo_stack (buf_history b2) = redo_stack (buf_history b)"
proof -
  let ?ins = "ins_of base ops"
  have inv: "buffer_inv ?ins b" by (rule reachable_inv [OF assms(1,2)])
  have room: "unat (lam_value (lamport_clock b)) + 1 < 2 ^ 32" using assms(3) by (simp add: clock_room_def)
  let ?ids = "set (tr_edit_ids (he_transaction e))"
  from buffer_undo_ok [OF inv room assms(2,4,5,6)] assms(7) have
    u: "buffer_inv ?ins b1" "skeleton (fragments (buf_snapshot b1)) = skeleton (fragments (buf_snapshot b))"
      "\<forall>i. level (snap_undo_map (buf_snapshot b1)) i = level (snap_undo_map (buf_snapshot b)) i + (if i \<in> ?ids then 1 else 0)"
      "undo_stack (buf_history b1) = es" "redo_stack (buf_history b1) = redo_stack (buf_history b) @ [e]"
      "transaction_depth (buf_history b1) = 0" "lamport_clock b1 = snd (tick (lamport_clock b))" by auto
  have "unat (lam_value (lamport_clock b1)) + 1 < 2 ^ 32" using tick_below(3) [OF room] assms(3) u(7) by (simp add: clock_room_def)
  from buffer_redo_ok [OF u(1) this assms(2) u(6,5) assms(8)] obtain b2 redo where
    d: "buffer_redo srt b1 = Some (b2, Some (transaction_id_of e, redo))" "buffer_inv ?ins b2"
      "skeleton (fragments (buf_snapshot b2)) = skeleton (fragments (buf_snapshot b1))"
      "\<forall>i. level (snap_undo_map (buf_snapshot b2)) i = level (snap_undo_map (buf_snapshot b1)) i + (if i \<in> ?ids then 1 else 0)"
      "undo_stack (buf_history b2) = undo_stack (buf_history b1) @ [e]" "redo_stack (buf_history b2) = redo_stack (buf_history b)" by blast
  have "undone (snap_undo_map (buf_snapshot b2)) i = undone (snap_undo_map (buf_snapshot b)) i" for i
    using u(3) d(4) by (simp add: undone_level)
  then have "visible_text (buf_snapshot b2) = visible_text (buf_snapshot b)"
    using inv d(2,3) u(2) by (intro visible_text_determined [of ?ins]) (simp_all add: buffer_inv_def)
  with d(1,5,6) u(4) assms(5) show ?thesis by simp
qed

theorem redo_inverts_undo_witness:
  "\<exists>b1 r b2 q. buffer_undo example_sort (fst example_edited) = Some (b1, r) \<and> buffer_redo example_sort b1 = Some (b2, Some q)
     \<and> visible_text (buf_snapshot b2) = [104, 33]"
proof -
  let ?e = "\<lparr>he_transaction = \<lparr>tr_id = Lamport 2 1, tr_edit_ids = [Lamport 3 1], tr_start = [1]\<rparr>, first_edit_at = 0, last_edit_at = 0,
       suppress_grouping = False\<rparr>"
  let ?b1 = "fst (the (buffer_undo example_sort (fst example_edited)))"
  have "\<not> Option.is_none (buffer_undo example_sort (fst example_edited))" by code_simp
  then have undo: "buffer_undo example_sort (fst example_edited) = Some (?b1, snd (the (buffer_undo example_sort (fst example_edited))))"
    by (simp add: Option.is_none_def)
  have again: "undo_possible example_sort (he_transaction ?e) ?b1" by code_simp
  have room: "clock_room (fst example_edited)" by (simp add: clock_room_def example_edited_facts)
  have "undo_possible example_sort (he_transaction ?e) (fst example_edited)" using example_possible by simp
  from redo_inverts_undo [OF example_edited_reachable example_sorts room example_edited_facts(1) example_stack this undo again]
  have "\<exists>b2 q. buffer_redo example_sort ?b1 = Some (b2, Some q) \<and> visible_text (buf_snapshot b2) = visible_text (buf_snapshot (fst example_edited))" by blast
  moreover have "visible_text (buf_snapshot (fst example_edited)) = [104, 33]" by code_simp
  ultimately show ?thesis using undo by metis
qed

end
