(* ===== verification/Remote_Correct.thy ===== *)
theory Remote_Correct
  imports Buffer_Correct
begin

text \<open>
  What remote edits guarantee: the loop over fragments does what the operation means byte by byte.
\<close>

subsection \<open>Remote edits do what they mean\<close>

text \<open>(C6) An edit of another replica does what it means. On a snapshot that satisfies the invariant, for an operation that the snapshot has
  not seen, whose observed fragments are older than it and whose ordered ranges lie within the text its version had observed, the
  loop returns; the bytes of the new snapshot are those of the abstract description of the operation, which splits, skips, inserts
  and deletes single bytes; the invariant holds again; and the patch published turns the old visible text into the new one.\<close>

theorem remote_edit_does_what_it_means:
  assumes "snap_inv ins snap" "new_timestamp ts snap" "ranges \<noteq> []" "length ranges = length new_text"
    and "\<forall>f \<in> set (fragments snap). global_observed version (frag_timestamp f) \<longrightarrow> frag_timestamp f < ts"
    and "edits_ok 0 (zip ranges new_text) (length (filter (observed_cell version) (cells (fragments snap))))"
    and "length (concat new_text) \<le> MAX_INSERTION_LEN"
  shows "\<exists>snap' p. apply_remote_edit version ranges new_text ts snap = Some (snap', Some p)
    \<and> cells (fragments snap') = remote_cells version (snap_undo_map snap) ts 0 0 (zip ranges new_text) (cells (fragments snap))
    \<and> snap_inv (ins(ts := concat new_text)) snap' \<and> describes p (visible_text snap) (visible_text snap') \<and> normal p
    \<and> snap_undo_map snap' = snap_undo_map snap \<and> snap_version snap' = snap_version snap"
  using apply_remote_edit_ok [OF assms] by blast

lemma buffer_new_undo_map: "buffer_new platform replica base = Some b \<Longrightarrow> snap_undo_map (buf_snapshot b) = um_new"
  by (auto simp: buffer_new_def new_normalized_def Let_def bind_eq_Some_conv)

lemma example_undo_map: "snap_undo_map (buf_snapshot example_buffer) = um_new"
  using buffer_new_undo_map [OF example_new] .

lemma undone_at_new: "\<not> undone_at version um_new e"
  by (simp add: undone_at_def max_count_def um_new_good)

lemma example_cells: "cells (fragments (buf_snapshot example_buffer)) =
  [\<lparr>cell_ts = Lamport 1 0, cell_offset = 0, cell_visible = True, cell_deletions = []\<rparr>,
   \<lparr>cell_ts = Lamport 1 0, cell_offset = 1, cell_visible = True, cell_deletions = []\<rparr>]"
  by code_simp

lemma example_new_timestamp: "new_timestamp (Lamport 3 2) (buf_snapshot example_buffer)"
proof -
  have "list_all (\<lambda>f. frag_timestamp f \<noteq> Lamport 3 2 \<and> frag_deletions f = []) (fragments (buf_snapshot example_buffer))" by code_simp
  then show ?thesis
    by (simp add: example_undo_map new_timestamp_def fresh_def um_new_good list_all_iff base_timestamp_def lamport_new_def lamport_MIN_def)
qed

theorem remote_edit_does_what_it_means_witness:
  "\<exists>snap' p. apply_remote_edit [1] [(1, 2)] [[33]] (Lamport 3 2) (buf_snapshot example_buffer) = Some (snap', Some p)
     \<and> map cell_visible (cells (fragments snap')) = [True, True, False]"
proof -
  let ?snap = "buf_snapshot example_buffer"
  obtain ins where inv: "snap_inv ins ?snap"
    using reachable_inv [OF example_reachable example_sorts] by (auto simp: buffer_inv_def)
  have old: "\<forall>f \<in> set (fragments ?snap). global_observed [1] (frag_timestamp f) \<longrightarrow> frag_timestamp f < Lamport 3 2"
  proof -
    have "list_all (\<lambda>f. frag_timestamp f < Lamport 3 2) (fragments ?snap)" by code_simp
    then show ?thesis by (simp add: list_all_iff)
  qed
  have "edits_ok 0 (zip [(1, 2)] [[33]]) (length (filter (observed_cell [1]) (cells (fragments ?snap))))" by code_simp
  moreover have "length (concat [[33 :: nat]]) \<le> MAX_INSERTION_LEN" by (simp add: MAX_INSERTION_LEN_def)
  moreover have "map cell_visible (remote_cells [1] (snap_undo_map ?snap) (Lamport 3 2) 0 0 (zip [(1, 2)] [[33]]) (cells (fragments ?snap)))
      = [True, True, False]"
  proof -
    have "global_observed [1] (Lamport 1 0)" "\<not> Lamport 3 2 < Lamport 1 0" by code_simp+
    then show ?thesis by (simp add: example_cells example_undo_map mark_cell_def visible_at_def undone_at_new observed_cell_def
          new_cells_def delete_cell_def)
  qed
  ultimately show ?thesis
    using remote_edit_does_what_it_means [OF inv example_new_timestamp _ _ old, of "[(1, 2)]" "[[33]]"] by auto
qed

end
