(* ===== verification/Replicas.thy ===== *)
theory Replicas
  imports Remote_Correct
begin

text \<open>
  Replicas of a buffer. Buffers that began with the same text and have made or applied the same operations, in whatever order their
  dependencies allow, have the same text; and an edit made by one can be applied by every other that has applied what it knew.
\<close>

subsection \<open>Documents and texts\<close>

text \<open>The text that documents stand for.\<close>

lemma undone_same: "um_abs m = um_abs m' \<Longrightarrow> undone m = undone m'"
  by (simp add: undone_def [abs_def])

definition view_flag :: "undo_map \<Rightarrow> lamport \<times> nat \<times> lamport multiset \<Rightarrow> bool" where
  "view_flag m = (\<lambda>(ts, offset, ds). \<not> undone m ts \<and> (\<forall>d \<in> set_mset ds. undone m d))"

lemma view_flag: "flag_cell m c = view_flag m (cell_view c)"
  by (simp add: flag_cell_def view_flag_def cell_view_def)

lemma view_byte: "byte_of ins c = (\<lambda>(ts, offset, ds). ins ts ! offset) (cell_view c)"
  by (simp add: byte_of_def cell_view_def)

lemma same_text:
  assumes "same_doc (doc_of s) (doc_of s')" "snap_inv ins s" "snap_inv ins s'"
  shows "visible_text s = visible_text s'"
proof -
  let ?byte = "\<lambda>(ts, offset, ds). ins ts ! offset"
  have bytes: "visible_text x = map ?byte (filter (view_flag (snap_undo_map x)) (map cell_view (cells (fragments x))))" if "snap_inv ins x" for x
    using visible_text_cells [OF that] by (simp add: view_flag [abs_def] view_byte [abs_def] filter_map comp_def)
  have "map cell_view (cells (fragments s)) = map cell_view (cells (fragments s'))"
    "view_flag (snap_undo_map s) = view_flag (snap_undo_map s')"
    using assms(1) undone_same [of "snap_undo_map s" "snap_undo_map s'"] by (simp_all add: same_doc_def doc_of_def view_flag_def)
  with bytes [OF assms(2)] bytes [OF assms(3)] show ?thesis by simp
qed

lemma ins_of_edit: "in_order ops \<Longrightarrow> Edit e \<in> set ops \<Longrightarrow> ins_of base ops (edit_timestamp e) = concat (edit_new_text e)"
proof (induction ops rule: rev_induct)
  case (snoc op ops)
  show ?case
  proof (cases "op = Edit e")
    case False
    then have e: "Edit e \<in> set ops" using snoc.prems(2) by auto
    then have "op_timestamp op \<noteq> edit_timestamp e" using snoc.prems(1) by (auto simp: in_order_append)
    with snoc.IH e snoc.prems(1) show ?thesis by (cases op) (auto simp: in_order_append)
  qed simp
qed simp

lemma ins_of_other: "\<forall>e. Edit e \<in> set ops \<longrightarrow> edit_timestamp e \<noteq> ts \<Longrightarrow> ins_of base ops ts = normalize_text base"
proof (induction ops rule: rev_induct)
  case (snoc op ops)
  then show ?case by (cases op) auto
qed simp

lemma ins_of_set:
  assumes "in_order ops" "in_order ops'" "set ops = set ops'"
  shows "ins_of base ops = ins_of base ops'"
proof
  fix ts
  show "ins_of base ops ts = ins_of base ops' ts"
  proof (cases "\<exists>e. Edit e \<in> set ops \<and> edit_timestamp e = ts")
    case True
    then show ?thesis using ins_of_edit assms by metis
  next
    case False
    then have "\<forall>e. Edit e \<in> set ops \<longrightarrow> edit_timestamp e \<noteq> ts" "\<forall>e. Edit e \<in> set ops' \<longrightarrow> edit_timestamp e \<noteq> ts"
      unfolding assms(3) by blast+
    then show ?thesis by (simp add: ins_of_other)
  qed
qed

lemma runs_agree:
  assumes "run_inv base ops b" "run_inv base ops' b'" "set ops = set ops'"
  shows "same_doc (doc_of (buf_snapshot b)) (doc_of (buf_snapshot b'))" "visible_text (buf_snapshot b) = visible_text (buf_snapshot b')"
proof -
  have r: "in_order ops" "in_order ops'" "all_fit ops (doc_new base)" "same_doc (run_doc ops (doc_new base)) (doc_of (buf_snapshot b))"
    "same_doc (run_doc ops' (doc_new base)) (doc_of (buf_snapshot b'))" using assms(1,2) by (simp_all add: run_inv_def)
  from orders_agree [OF r(1,2) assms(3) r(3)] r(4,5) show docs: "same_doc (doc_of (buf_snapshot b)) (doc_of (buf_snapshot b'))"
    using same_doc_trans same_doc_sym by blast
  show "visible_text (buf_snapshot b) = visible_text (buf_snapshot b')"
  proof (rule same_text [OF docs])
    show "snap_inv (ins_of base ops) (buf_snapshot b)" "snap_inv (ins_of base ops) (buf_snapshot b')"
      using assms(1,2) ins_of_set [OF r(1,2) assms(3)] by (simp_all add: run_inv_def buffer_inv_def)
  qed
qed

subsection \<open>An edit and the other replicas\<close>

lemma in_order_distinct: "in_order ops \<Longrightarrow> x \<in> set ops \<Longrightarrow> y \<in> set ops \<Longrightarrow> x \<noteq> y \<Longrightarrow> op_timestamp x \<noteq> op_timestamp y"
  by (induction ops) auto

lemma fits_later: "\<forall>x \<in> set ops. \<not> global_observed (op_version op) (op_timestamp x) \<Longrightarrow> fits_doc op (run_doc ops d) = fits_doc op d"
proof (induction ops arbitrary: d)
  case (Cons x ops)
  then show ?case using fits_effect [of op x d] by simp
qed simp

lemma gv_version_of: "gv (version_of base ops) n = Max (insert (gv (version_of base []) n)
    {lam_value (op_timestamp op) | op. op \<in> set ops \<and> unat (lam_replica (op_timestamp op)) = n})"
proof (induction ops rule: rev_induct)
  case (snoc op ops)
  let ?S = "\<lambda>ops. {lam_value (op_timestamp op) | op. op \<in> set ops \<and> unat (lam_replica (op_timestamp op)) = n}"
  have fin: "finite (?S ops)" by simp
  have "version_of base (ops @ [op]) = global_observe (version_of base ops) (op_timestamp op)" by (simp add: version_of_def)
  moreover have "?S (ops @ [op]) = (if unat (lam_replica (op_timestamp op)) = n then insert (lam_value (op_timestamp op)) (?S ops) else ?S ops)"
    by auto
  ultimately show ?case using snoc.IH fin by (auto simp: insert_commute max.commute)
qed simp

lemma version_of_mono: "set ops \<subseteq> set ops' \<Longrightarrow> observed_all (version_of base ops') (version_of base ops)"
proof -
  assume sub: "set ops \<subseteq> set ops'"
  have "wf_global (version_of base ops)"
    unfolding version_of_def by (induction ops rule: rev_induct) (auto intro: wf_global_observe wf_global_new)
  then have "canonical (version_of base ops)" by (simp add: wf_global_def)
  moreover have "gv (version_of base ops) n \<le> gv (version_of base ops') n" for n
    unfolding gv_version_of [of base ops] gv_version_of [of base ops'] using sub by (intro Max_mono) auto
  ultimately show ?thesis by (simp add: canonical_observed_all)
qed

text \<open>A replica that has applied more operations is as if it had applied the others last.\<close>

lemma runs_extend:
  assumes "run_inv base ops b" "run_inv base ops' b'" "set ops \<subseteq> set ops'"
    and "\<forall>x \<in> set ops' - set ops. \<not> global_observed (buffer_version b) (op_timestamp x)"
  shows "same_doc (run_doc (filter (\<lambda>x. x \<notin> set ops) ops') (run_doc ops (doc_new base))) (doc_of (buf_snapshot b'))"
proof -
  let ?d = "doc_new base" and ?new = "filter (\<lambda>x. x \<notin> set ops) ops'"
  have r: "in_order ops" "in_order ops'" "all_fit ops' ?d" "same_doc (run_doc ops' ?d) (doc_of (buf_snapshot b'))" "knows (buffer_version b) ops"
    using assms(1,2) by (simp_all add: run_inv_def)
  have unknown: "\<not> global_observed (op_version x) (op_timestamp y)" if "x \<in> set ops" "y \<in> set ?new" for x y
    using that assms(4) r(5) observed_all_observed by (fastforce simp: knows_def)
  have "in_order (filter P xs)" if "in_order xs" for P xs using that by (induction xs) auto
  then have "in_order (ops @ ?new)"
    using r(1,2) unknown in_order_distinct [OF r(2)] assms(3) by (fastforce simp: in_order_append)
  moreover have "set ops' = set (ops @ ?new)" using assms(3) by auto
  ultimately have "same_doc (run_doc ops' ?d) (run_doc (ops @ ?new) ?d)" using orders_agree [OF r(2) _ _ r(3)] by blast
  from same_doc_trans [OF same_doc_sym [OF this] r(4)] show ?thesis by simp
qed

text \<open>An edit fits every replica that has applied what its maker had, whatever else it has applied that the edit does not know of.\<close>

lemma edit_fits_replica:
  assumes "run_inv base (ops @ [Edit e]) b1" "run_inv base ops b" "edit_made b e" "run_inv base ops' b'" "set ops \<subseteq> set ops'"
    and "\<forall>x \<in> set ops' - set ops. \<not> global_observed (edit_version e) (op_timestamp x)"
  shows "op_fits srt (Edit e) b'" "observed_all (buffer_version b') (edit_version e)"
proof -
  let ?d = "doc_new base" and ?new = "filter (\<lambda>x. x \<notin> set ops) ops'"
  have r: "all_fit (ops @ [Edit e]) ?d" "version_of base ops = buffer_version b" "version_of base ops' = buffer_version b'"
    using assms(1,2,4) by (simp_all add: run_inv_def)
  have made: "edit_version e = buffer_version b" using assms(3) by (simp add: edit_made_def)
  have "same_doc (run_doc ?new (run_doc ops ?d)) (doc_of (buf_snapshot b'))"
    using runs_extend [OF assms(2,4,5)] assms(6) made by simp
  from fits_same [OF this, of "Edit e"]
  have "fits_doc (Edit e) (doc_of (buf_snapshot b')) = fits_doc (Edit e) (run_doc ?new (run_doc ops ?d))" by simp
  also have "\<dots> = fits_doc (Edit e) (run_doc ops ?d)" using assms(6) by (intro fits_later) auto
  finally have "fits_doc (Edit e) (doc_of (buf_snapshot b'))" using r(1) by simp
  then show "op_fits srt (Edit e) b'" using assms(3)
    by (auto simp: op_fits_def edit_fits_def edit_made_def doc_of_def observed_cells)
  show "observed_all (buffer_version b') (edit_version e)" using version_of_mono [OF assms(5), of base] r(2,3) made by simp
qed

subsection \<open>Two replicas that exchange concurrent edits\<close>

definition example_there :: buffer where
  "example_there = the (buffer_new Unix 2 [104, 105])"

definition edits_there :: text_edits where
  "edits_there = [((0, 0), [65])]"

definition edited_there :: "buffer \<times> bytes operation" where
  "edited_there = the (buffer_edit 0 0 edits_there example_there)"

lemma there_new: "buffer_new Unix 2 [104, 105] = Some example_there"
proof -
  have "\<not> Option.is_none (buffer_new Unix 2 [104, 105])" by code_simp
  then show ?thesis by (simp add: example_there_def Option.is_none_def)
qed

lemma there_edit: "buffer_edit 0 0 edits_there example_there = Some (fst edited_there, snd edited_there)"
proof -
  have "\<not> Option.is_none (buffer_edit 0 0 edits_there example_there)" by code_simp
  then show ?thesis by (simp add: edited_there_def Option.is_none_def)
qed

lemma there_facts:
  "visible_text (buf_snapshot example_there) = [104, 105]" "lam_value (lamport_clock example_there) = 2"
  "lam_value (lamport_clock (fst edited_there)) = 4" "deferred_replicas example_there = []"
  "global_observed (buffer_version example_there) (op_timestamp (snd example_edited)) = False"
  by code_simp+

lemma there_run: "buffer_run example_sort [104, 105] [] example_there"
proof (rule buffer_run.new [OF there_new])
  show "length (normalize_text [104, 105]) \<le> MAX_INSERTION_LEN" by (simp add: MAX_INSERTION_LEN_def CR_def)
qed

lemma edited_there_run: "buffer_run example_sort [104, 105] [snd edited_there] (fst edited_there)"
proof -
  have "clock_room example_there" by (simp add: clock_room_def there_facts)
  moreover have "edits_ok 0 edits_there (length (visible_text (buf_snapshot example_there)))" "length (inserted edits_there) \<le> MAX_INSERTION_LEN"
    by (simp_all add: there_facts edits_there_def CR_def MAX_INSERTION_LEN_def)
  ultimately have "buffer_run example_sort [104, 105] ([] @ [snd edited_there]) (fst edited_there)"
    by (rule buffer_run.edit [OF there_run _ _ _ there_edit])
  then show ?thesis by simp
qed

text \<open>An edit that can be received: what is left to check is small.\<close>

lemma edit_received:
  assumes "op = Edit e" "edit_made maker e" "run_inv base (ops @ [op]) b1" "run_inv base ops maker" "run_inv base ops' b" "set ops \<subseteq> set ops'"
    and "\<forall>x \<in> set ops' - set ops. \<not> global_observed (edit_version e) (op_timestamp x)"
    and "deferred_ops b = []" "deferred_replicas b = []" "clock_room b" "recordable op b"
  shows "ops_fit srt [op] b"
proof -
  note fits = edit_fits_replica [OF assms(3) [unfolded assms(1)] assms(4,2,5-7)]
  show ?thesis
    using fits by (intro single_fits assms) (simp_all add: assms(1,9) can_apply_op_def)
qed

lemma recordable_code:
  "Option.is_none (operations (buf_history b) (op_timestamp op)) \<Longrightarrow> below_clock (lamport_clock b) (op_timestamp op) \<Longrightarrow>
     op_timestamp op \<noteq> base_timestamp \<Longrightarrow> recordable op b"
  by (auto simp: recordable_def is_none_simps split: option.split)

definition example_here_after :: buffer where
  "example_here_after = the (apply_ops example_sort [snd edited_there] (fst example_edited))"

definition example_there_after :: buffer where
  "example_there_after = the (apply_ops example_sort [snd example_edited] (fst edited_there))"

text \<open>Each receives the edit of the other.\<close>

lemma example_exchange:
  assumes "buffer_run example_sort base [] maker" "clock_room maker" "edits_ok 0 edits (length (visible_text (buf_snapshot maker)))"
    and "length (inserted edits) \<le> MAX_INSERTION_LEN" "buffer_edit started ended edits maker = Some (maker1, op)"
    and "buffer_run example_sort base [op'] b" "\<not> global_observed (buffer_version maker) (op_timestamp op')"
    and "deferred_ops b = []" "deferred_replicas b = []" "clock_room b" "recordable op b"
  shows "ops_fit example_sort [op] b"
proof -
  have r: "run_inv base [] maker" "run_inv base [op'] b" using buffer_run_inv assms(1,6) example_sorts by blast+
  from edit_run_inv [OF r(1) assms(2-4), of started ended] assms(5) obtain e where
    e: "run_inv base ([] @ [op]) maker1" "op = Edit e" "edit_made maker e" by auto
  then show ?thesis using assms(7) by (intro edit_received [OF e(2,3,1) r _ _ assms(8-11)]) (simp_all add: edit_made_def)
qed

lemma example_here_received: "buffer_run example_sort [104, 105] [snd example_edited, snd edited_there] example_here_after"
proof -
  have "list_all (\<lambda>P. P) [Option.is_none (operations (buf_history (fst example_edited)) (op_timestamp (snd edited_there))),
      below_clock (lamport_clock (fst example_edited)) (op_timestamp (snd edited_there)), op_timestamp (snd edited_there) \<noteq> base_timestamp]"
    by code_simp
  then have "recordable (snd edited_there) (fst example_edited)" using recordable_code by simp
  moreover have "deferred_ops (fst example_edited) = []" "deferred_replicas (fst example_edited) = []" by code_simp+
  moreover have "clock_room example_there" "clock_room (fst example_edited)"
    by (simp_all add: clock_room_def there_facts example_edited_facts)
  ultimately have "ops_fit example_sort [snd edited_there] (fst example_edited)"
    by (intro example_exchange [OF there_run _ _ _ there_edit example_edited_reachable])
      (simp_all add: there_facts edits_there_def CR_def MAX_INSERTION_LEN_def)
  moreover have "apply_ops example_sort [snd edited_there] (fst example_edited) = Some example_here_after"
  proof -
    have "\<not> Option.is_none (apply_ops example_sort [snd edited_there] (fst example_edited))" by code_simp
    then show ?thesis by (simp add: example_here_after_def Option.is_none_def)
  qed
  moreover have "applied_ops example_sort [snd edited_there] (fst example_edited) = [snd edited_there]" by code_simp
  ultimately show ?thesis using buffer_run.remote [OF example_edited_reachable] by fastforce
qed

lemma example_there_received: "buffer_run example_sort [104, 105] [snd edited_there, snd example_edited] example_there_after"
proof -
  have "list_all (\<lambda>P. P) [Option.is_none (operations (buf_history (fst edited_there)) (op_timestamp (snd example_edited))),
      below_clock (lamport_clock (fst edited_there)) (op_timestamp (snd example_edited)), op_timestamp (snd example_edited) \<noteq> base_timestamp]"
    by code_simp
  then have "recordable (snd example_edited) (fst edited_there)" using recordable_code by simp
  moreover have "deferred_ops (fst edited_there) = []" "deferred_replicas (fst edited_there) = []"
    "\<not> global_observed (buffer_version example_buffer) (op_timestamp (snd edited_there))" by code_simp+
  moreover have "clock_room example_buffer" "clock_room (fst edited_there)"
    by (simp_all add: clock_room_def there_facts example_facts)
  moreover have edit: "buffer_edit 0 0 example_edits example_buffer = Some (fst example_edited, snd example_edited)" by (simp add: example_edit)
  ultimately have "ops_fit example_sort [snd example_edited] (fst edited_there)"
    by (intro example_exchange [OF example_reachable _ example_valid edit edited_there_run]) simp_all
  moreover have "apply_ops example_sort [snd example_edited] (fst edited_there) = Some example_there_after"
  proof -
    have "\<not> Option.is_none (apply_ops example_sort [snd example_edited] (fst edited_there))" by code_simp
    then show ?thesis by (simp add: example_there_after_def Option.is_none_def)
  qed
  moreover have "applied_ops example_sort [snd example_edited] (fst edited_there) = [snd example_edited]" by code_simp
  ultimately show ?thesis using buffer_run.remote [OF edited_there_run] by fastforce
qed

text \<open>An operation that has to wait for one that has not arrived.\<close>

definition example_late :: "bytes operation" where
  "example_late = Edit \<lparr>edit_timestamp = Lamport 5 2, edit_version = [1, 0, 3], edit_ranges = [(0, 0)], edit_new_text = [[65]]\<rparr>"

lemma example_late_fits: "ops_fit example_sort [example_late] example_buffer"
proof -
  let ?b = "record_op example_late example_buffer"
  have "list_all (\<lambda>P. P) [Option.is_none (operations (buf_history example_buffer) (op_timestamp example_late)),
      below_clock (lamport_clock example_buffer) (op_timestamp example_late), op_timestamp example_late \<noteq> base_timestamp]"
    by code_simp
  then have "recordable example_late example_buffer" using recordable_code by simp
  moreover have no: "\<not> can_apply_op example_late ?b" by code_simp
  moreover have rec: "record_and_apply example_sort [example_late] example_buffer = Some (defer_replica example_late ?b, [example_late])"
    using no by (simp only: record_and_apply_step Let_def) (simp add: case_prod_beta)
  moreover have "queue_insert [example_late] (deferred_ops (defer_replica example_late ?b)) = [example_late]" by code_simp
  moreover have "\<not> can_apply_op example_late (emptied (defer_replica example_late ?b))" by code_simp
  ultimately show ?thesis by (simp add: ops_fit_def del: record_and_apply.simps)
qed

subsection \<open>Convergence\<close>

text \<open>(C1) Replicas converge. Two buffers that began with the same text and have made or applied the same operations have the same text, the
  same bytes with the same deletions in the same order, the same undo counts and the same version, whatever the order in which the
  operations reached them and whatever else happened to them.\<close>

theorem replicas_converge:
  assumes "buffer_run srt base ops b" "buffer_run srt' base ops' b'" "sorts_edits srt" "sorts_edits srt'" "set ops = set ops'"
  shows "visible_text (buf_snapshot b) = visible_text (buf_snapshot b') \<and> same_doc (doc_of (buf_snapshot b)) (doc_of (buf_snapshot b'))
    \<and> observed_all (buffer_version b) (buffer_version b') \<and> observed_all (buffer_version b') (buffer_version b)"
proof -
  have r: "run_inv base ops b" "run_inv base ops' b'" using buffer_run_inv assms by blast+
  then have "version_of base ops = buffer_version b" "version_of base ops' = buffer_version b'" by (simp_all add: run_inv_def)
  with runs_agree [OF r assms(5)] version_of_mono [of ops ops' base] version_of_mono [of ops' ops base] assms(5) show ?thesis by simp
qed

theorem replicas_converge_witness:
  "visible_text (buf_snapshot example_here_after) = visible_text (buf_snapshot example_there_after)
     \<and> visible_text (buf_snapshot example_here_after) = [65, 104, 33]"
proof -
  have "visible_text (buf_snapshot example_here_after) = [65, 104, 33]" by code_simp
  then show ?thesis
    using replicas_converge [OF example_here_received example_there_received example_sorts example_sorts] by auto
qed

text \<open>(C2) An edit reaches every replica. The operation of a local edit can be applied by every buffer that has applied the operations its maker
  had, perhaps others the maker did not know of, and that is not waiting for another operation of the maker; the buffer's own check then
  succeeds; and if there were no others, both buffers have the same text.\<close>

theorem edit_reaches_replicas:
  assumes "buffer_run srt base ops b" "sorts_edits srt" "clock_room b" "edits_ok 0 edits (length (visible_text (buf_snapshot b)))"
    and "length (inserted edits) \<le> MAX_INSERTION_LEN" "buffer_edit started ended edits b = Some (b1, op)"
    and "buffer_run srt' base ops' b'" "sorts_edits srt'" "clock_room b'" "set ops \<subseteq> set ops'"
    and "\<forall>x \<in> set ops' - set ops. \<not> global_observed (op_version op) (op_timestamp x)"
    and "\<not> global_observed (buffer_version b') (op_timestamp op)" "op_replica op \<notin> set (deferred_replicas b')"
  shows "\<exists>b2. can_apply_op op b' \<and> apply_op srt' op b' = Some b2 \<and> check_invariants b2
    \<and> (set ops = set ops' \<longrightarrow> visible_text (buf_snapshot b2) = visible_text (buf_snapshot b1))"
proof -
  have r: "run_inv base ops b" "run_inv base ops' b'" using buffer_run_inv assms(1,2,7,8) by blast+
  from edit_run_inv [OF r(1) assms(3-5), of started ended] assms(6) obtain e where
    e: "run_inv base (ops @ [op]) b1" "op = Edit e" "edit_made b e" by auto
  have "\<forall>x \<in> set ops' - set ops. \<not> global_observed (edit_version e) (op_timestamp x)" using assms(11) by (simp add: e(2))
  note fits = edit_fits_replica [OF e(1) [unfolded e(2)] r(1) e(3) r(2) assms(10) this]
  have can: "can_apply_op op b'" using fits(2) assms(13) by (simp add: can_apply_op_def e(2))
  have "op_applies srt' op b'" using fits(1) assms(9) by (simp add: op_applies_def e(2))
  from apply_op_run [OF r(2) assms(8) can this] obtain b2 where
    b2: "apply_op srt' op b' = Some b2" "run_inv base (ops' @ [op]) b2" using assms(12) by (auto simp: new_op_def)
  have "visible_text (buf_snapshot b2) = visible_text (buf_snapshot b1)" if "set ops = set ops'"
    using runs_agree(2) [OF b2(2) e(1)] that by simp
  moreover have "check_invariants b2" using b2(2) check_invariants_ok by (auto simp: run_inv_def)
  ultimately show ?thesis using can b2(1) by blast
qed

theorem edit_reaches_replicas_witness:
  "\<exists>b2. can_apply_op (snd example_edited) example_there \<and> apply_op example_sort (snd example_edited) example_there = Some b2
     \<and> check_invariants b2 \<and> visible_text (buf_snapshot b2) = [104, 33]"
proof -
  have rooms: "clock_room example_buffer" "clock_room example_there" by (simp_all add: clock_room_def example_facts there_facts)
  have edit: "buffer_edit 0 0 example_edits example_buffer = Some (fst example_edited, snd example_edited)" by (simp add: example_edit)
  have "visible_text (buf_snapshot (fst example_edited)) = [104, 33]" by code_simp
  then show ?thesis
    using edit_reaches_replicas [OF example_reachable example_sorts rooms(1) example_valid edit there_run example_sorts rooms(2)]
    by (simp add: there_facts)
qed

subsection \<open>Delivery\<close>

text \<open>(C7) No operation is lost. A call that receives operations returns; every operation it received or that was waiting in the queue is
  afterwards known to the version of the buffer or waits in the queue, which holds nothing else and is strictly sorted by timestamps.
  Operations with the same timestamp are assumed to be the same.\<close>

theorem no_operation_lost:
  assumes "buffer_run srt base ops b" "sorts_edits srt" "ops_fit srt received b" "inj_on op_timestamp (set received \<union> set (deferred_ops b))"
  shows "\<exists>b1. apply_ops srt received b = Some b1
    \<and> (\<forall>op \<in> set received \<union> set (deferred_ops b). op \<in> set (deferred_ops b1) \<or> global_observed (buffer_version b1) (op_timestamp op))
    \<and> set (deferred_ops b1) \<subseteq> set received \<union> set (deferred_ops b) \<and> sorted_wrt (<) (map op_timestamp (deferred_ops b1))"
proof -
  obtain b1 where b1: "apply_ops srt received b = Some b1" using apply_ops_run [OF buffer_run_inv [OF assms(1,2)] assms(2,3)] by blast
  from apply_ops_queue [OF b1 run_queue_sorted [OF assms(1)] assms(4)] apply_or_defer_handed
  have "set (deferred_ops b1) \<subseteq> set received \<union> set (deferred_ops b)"
    "\<forall>op \<in> set received \<union> set (deferred_ops b). op \<in> set (deferred_ops b1) \<or> global_observed (buffer_version b1) (op_timestamp op)"
    unfolding handed_def by blast+
  with b1 apply_ops_sorted [OF b1] show ?thesis by (simp add: sorted_keys_def sorted_wrt_map)
qed

theorem no_operation_lost_witness:
  "\<exists>b1. apply_ops example_sort [example_late] example_buffer = Some b1
     \<and> (example_late \<in> set (deferred_ops b1) \<or> global_observed (buffer_version b1) (op_timestamp example_late))"
proof -
  have "deferred_ops example_buffer = []" by code_simp
  then show ?thesis using no_operation_lost [OF example_reachable example_sorts example_late_fits] by auto
qed

text \<open>(C8) One pass over the queue is enough. After a call, an operation that still waits depends on something the buffer has not observed, or on
  an earlier operation of its replica that waits too: none is left behind that could be applied. Every operation is assumed to know of
  the earlier ones of its replica and to be later than what it knows of.\<close>

theorem one_pass_is_enough:
  assumes "buffer_run srt base ops b" "sorts_edits srt" "ops_fit srt received b" "inj_on op_timestamp (set received \<union> set (deferred_ops b))"
    and "own_history (received @ deferred_ops b)"
  shows "\<exists>b1. apply_ops srt received b = Some b1
    \<and> (\<forall>op \<in> set (deferred_ops b1). \<not> observed_all (buffer_version b1) (op_version op)
         \<or> (\<exists>x \<in> set (deferred_ops b1). op_replica x = op_replica op \<and> op_timestamp x < op_timestamp op))"
proof -
  obtain b1 where b1: "apply_ops srt received b = Some b1" using apply_ops_run [OF buffer_run_inv [OF assms(1,2)] assms(2,3)] by blast
  from apply_ops_queue [OF b1 run_queue_sorted [OF assms(1)] assms(4)] obtain b0 q b' left where
    q: "set q \<subseteq> set (received @ deferred_ops b)" "sorted_keys op_timestamp q" "deferred_replicas b0 = []"
      "apply_or_defer srt q b0 = Some (b', left)" "set (deferred_ops b1) = set left" "buffer_version b1 = buffer_version b'" by auto
  from flush_complete [OF assms(5) q(4,1,2)] b1 q(3,5,6) show ?thesis by auto
qed

theorem one_pass_is_enough_witness:
  "\<exists>b1. apply_ops example_sort [example_late] example_buffer = Some b1
     \<and> (\<forall>op \<in> set (deferred_ops b1). \<not> observed_all (buffer_version b1) (op_version op)
          \<or> (\<exists>x \<in> set (deferred_ops b1). op_replica x = op_replica op \<and> op_timestamp x < op_timestamp op))
     \<and> map_option deferred_ops (apply_ops example_sort [example_late] example_buffer) = Some [example_late]"
proof -
  have "deferred_ops example_buffer = []" "own_history [example_late]"
    "map_option deferred_ops (apply_ops example_sort [example_late] example_buffer) = Some [example_late]" by code_simp+
  then show ?thesis using one_pass_is_enough [OF example_reachable example_sorts example_late_fits] by auto
qed

end
