(* ===== verification/Anchor_Runs.thy ===== *)
theory Anchor_Runs
  imports Anchor_Proofs Replicas
begin

text \<open>
  Anchors across operations. Operations keep the bytes of a document in their order, so an anchor that was made in one state of a buffer can be
  resolved in every later one, and in every replica that has applied the operations its maker had: it still stands next to its byte.
\<close>

subsection \<open>Cells of later documents\<close>

lemma mark_in_key [simp]: "cell_key (mark_in v m ts c) = cell_key c"
  by (simp add: cell_key_def)

lemma place_keeps_keys: "subseq (map cell_key C) (map cell_key (place_cells v m ts new del k W C))"
proof (induction C arbitrary: k W)
  case (Cons c C)
  show ?case using Cons.IH by (auto intro!: list_emb_append2)
qed simp

lemma place_other:
  assumes "\<forall>k. \<forall>c \<in> set (new k). cell_ts c = ts" "ts' \<noteq> ts"
  shows "\<forall>c \<in> set W. cell_ts c = ts \<Longrightarrow>
    map cell_key (filter (\<lambda>c. cell_ts c = ts') (place_cells v m ts new del k W C)) = map cell_key (filter (\<lambda>c. cell_ts c = ts') C)"
proof (induction C arbitrary: k W)
  case Nil
  then have "filter (\<lambda>c. cell_ts c = ts') W = []" using assms(2) by (auto simp: filter_empty_conv)
  then show ?case by simp
next
  case (Cons c C)
  then have "filter (\<lambda>c. cell_ts c = ts') W = []" using assms(2) by (auto simp: filter_empty_conv)
  then show ?case using Cons assms(1) by simp
qed

lemma place_own:
  "\<forall>c \<in> set C. cell_ts c \<noteq> ts \<and> (observed_cell v c \<longrightarrow> cell_ts c < ts) \<Longrightarrow> \<forall>k. \<forall>c \<in> set (new k). cell_ts c = ts \<Longrightarrow> \<forall>c \<in> set W. cell_ts c = ts \<Longrightarrow>
     filter (\<lambda>c. cell_ts c = ts) (place_cells v m ts new del k W C) = W @ concat (map new [Suc k..<Suc k + length (filter (observed_cell v) C)])"
proof (induction C arbitrary: k W)
  case Nil
  then show ?case by (simp add: filter_id_conv)
next
  case (Cons c C)
  have W: "filter (\<lambda>c. cell_ts c = ts) W = W" using Cons.prems(3) by (simp add: filter_id_conv)
  have new: "concat (map new [k..<j]) = new k @ concat (map new [Suc k..<j])" if "k < j" for k j using that by (simp add: upt_conv_Cons)
  show ?case using Cons W by (auto simp del: upt_Suc simp: new)
qed

lemma new_at_sorted:
  "edits_ok pos es n \<Longrightarrow> sorted_wrt (<) (map cell_offset (concat (map (new_at ts off es) [k..<m])))
     \<and> (\<forall>c \<in> set (concat (map (new_at ts off es) [k..<m])). off \<le> cell_offset c)"
proof (induction es arbitrary: pos off)
  case Nil
  have "concat (map (new_at ts off []) [k..<m]) = []" by simp
  then show ?case by (simp only:) simp
next
  case (Cons x es)
  obtain s e t where x: "x = ((s, e), t)" by (metis surj_pair)
  let ?new = "new_cells ts off (length t)" and ?N' = "new_at ts (off + length t) es"
  have ok: "s \<le> e" "edits_ok e es n" using Cons.prems by (simp_all add: x)
  have none: "?N' j = []" if "j < e" for j using edits_later [OF ok(2) that] by blast
  have all: "concat (map (new_at ts off (x # es)) [k..<m]) = (if k \<le> s \<and> s < m then ?new else []) @ concat (map ?N' [k..<m])"
  proof (cases "k \<le> s \<and> s < m")
    case True
    then have split: "[k..<m] = [k..<s] @ s # [Suc s..<m]" using upt_add_eq_append [of k s "m - s"] by (simp add: upt_conv_Cons)
    have before: "concat (map (new_at ts off (x # es)) [k..<s]) = []" "concat (map ?N' [k..<s]) = []" using ok(1) none by (auto simp: x)
    have after: "map (new_at ts off (x # es)) [Suc s..<m] = map ?N' [Suc s..<m]" by (auto simp: x)
    have at: "new_at ts off (x # es) s = ?new @ ?N' s" by (simp add: x)
    show ?thesis unfolding split map_append concat_append list.map concat.simps before after at using True by simp
  next
    case False
    then have "map (new_at ts off (x # es)) [k..<m] = map ?N' [k..<m]" by (auto simp: x)
    moreover have "(if k \<le> s \<and> s < m then ?new else []) = []" using False by (rule if_not_P)
    ultimately show ?thesis by (simp only: append_Nil)
  qed
  have "\<forall>c \<in> set ?new. off \<le> cell_offset c \<and> cell_offset c < off + length t" by (auto simp: new_cells_def)
  moreover have "sorted_wrt (<) (map cell_offset ?new)" by (simp add: new_cells_def comp_def sorted_wrt_map)
  ultimately show ?case using Cons.IH [OF ok(2), of "off + length t"] unfolding all by (fastforce simp: sorted_wrt_append)
qed

lemma new_at_ts_all: "\<forall>k. \<forall>c \<in> set (new_at ts off es k). cell_ts c = ts"
  using new_at_ts by blast

text \<open>The documents of runs.\<close>

definition plain_op :: "bytes operation \<Rightarrow> bool" where
  "plain_op op \<longleftrightarrow> (case op of
     Edit e \<Rightarrow> edit_timestamp e \<noteq> base_timestamp \<and> length (concat (edit_new_text e)) \<le> MAX_INSERTION_LEN
   | Undo u \<Rightarrow> True)"

lemma in_offset_order_keys:
  assumes "\<And>ts. map cell_key (filter (\<lambda>c. cell_ts c = ts) C) = map cell_key (filter (\<lambda>c. cell_ts c = ts) D)"
  shows "in_offset_order C = in_offset_order D"
proof -
  have "map cell_offset xs = map snd (map cell_key xs)" for xs by (simp add: cell_key_def comp_def)
  with assms show ?thesis unfolding in_offset_order_def by metis
qed

lemma effect_in_order:
  assumes "in_offset_order (fst d)" "fits_doc op d" "plain_op op" "\<forall>c \<in> set (fst d). cell_ts c \<noteq> op_timestamp op"
  shows "in_offset_order (fst (effect op d))"
proof (cases op)
  case (Edit e)
  obtain C M where d: "d = (C, M)" by fastforce
  let ?ts = "edit_timestamp e" and ?D = "fst (effect op d)"
  let ?new = "new_at ?ts 0 (edits_of e)"
  have D: "?D = place_cells (edit_version e) M ?ts ?new (deletes_at (edits_of e)) 0 (?new 0) C" by (simp add: Edit d)
  have ok: "edits_ok 0 (edits_of e) (length (filter (observed_cell (edit_version e)) C))" using assms(2) by (simp add: Edit d)
  have ts: "\<forall>c \<in> set (?new 0). cell_ts c = ?ts" using new_at_ts_all by blast
  have "sorted_wrt (<) (map cell_offset (filter (\<lambda>c. cell_ts c = ts) ?D))" for ts
  proof (cases "ts = ?ts")
    case True
    have "filter (\<lambda>c. cell_ts c = ?ts) ?D = ?new 0 @ concat (map ?new [Suc 0..<Suc 0 + length (filter (observed_cell (edit_version e)) C)])"
      unfolding D using assms(2,4) by (intro place_own new_at_ts_all ts) (simp add: Edit d)
    also have "\<dots> = concat (map ?new [0..<Suc 0 + length (filter (observed_cell (edit_version e)) C)])"
      by (simp add: upt_conv_Cons del: upt_Suc)
    finally show ?thesis using new_at_sorted [OF ok] True by (simp del: upt_Suc)
  next
    case False
    have "map cell_key (filter (\<lambda>c. cell_ts c = ts) ?D) = map cell_key (filter (\<lambda>c. cell_ts c = ts) C)"
      unfolding D using place_other [OF new_at_ts_all False ts] .
    then have "map cell_offset (filter (\<lambda>c. cell_ts c = ts) ?D) = map cell_offset (filter (\<lambda>c. cell_ts c = ts) C)"
      by (metis (no_types, lifting) cell_key_def list.map_comp map_eq_conv snd_conv comp_apply)
    with assms(1) show ?thesis by (simp add: d in_offset_order_def)
  qed
  then show ?thesis by (simp add: in_offset_order_def)
next
  case (Undo u)
  with assms(1) show ?thesis by (cases d) simp
qed

lemma place_ts:
  assumes "\<forall>k. \<forall>c \<in> set (new k). cell_ts c = ts"
  shows "\<forall>c \<in> set W. cell_ts c = ts \<Longrightarrow> c \<in> set (place_cells v m ts new del k W C) \<Longrightarrow> cell_ts c = ts \<or> cell_ts c \<in> cell_ts ` set C"
proof (induction C arbitrary: k W)
  case (Cons d C)
  have new: "\<forall>c \<in> set (new (Suc k)). cell_ts c = ts" using assms by blast
  show ?case using Cons.prems Cons.IH [OF Cons.prems(1)] Cons.IH [OF new] Cons.IH [of "[]"] by (auto split: if_splits)
qed simp

lemma effect_ts:
  assumes "c \<in> set (fst (effect op d))"
  shows "cell_ts c = op_timestamp op \<or> cell_ts c \<in> cell_ts ` set (fst d)"
proof (cases op)
  case (Edit e)
  with assms place_ts [OF new_at_ts_all] new_at_ts_all show ?thesis by (cases d) fastforce
next
  case (Undo u)
  with assms show ?thesis by (cases d) auto
qed

lemma run_doc_order:
  "in_order ops \<Longrightarrow> all_fit ops (doc_new base) \<Longrightarrow> list_all plain_op ops \<Longrightarrow>
     in_offset_order (fst (run_doc ops (doc_new base)))
     \<and> (\<forall>c \<in> set (fst (run_doc ops (doc_new base))). cell_ts c = base_timestamp \<or> (\<exists>e. Edit e \<in> set ops \<and> cell_ts c = edit_timestamp e))"
proof (induction ops rule: rev_induct)
  case Nil
  have "map cell_offset (filter (\<lambda>c. cell_ts c = ts) (new_cells base_timestamp 0 n)) = (if ts = base_timestamp then [0..<n] else [])" for ts n
    by (simp add: new_cells_def filter_map comp_def)
  then have "in_offset_order (new_cells base_timestamp 0 n)" for n by (simp add: in_offset_order_def)
  moreover have "\<forall>c \<in> set (new_cells base_timestamp 0 n). cell_ts c = base_timestamp" for n by (simp add: new_cells_def)
  ultimately show ?case by (simp add: doc_new_def)
next
  case (snoc op ops)
  let ?d = "run_doc ops (doc_new base)"
  have r: "in_order ops" "\<forall>x \<in> set ops. op_timestamp x \<noteq> op_timestamp op" "all_fit ops (doc_new base)" "fits_doc op ?d" "list_all plain_op ops" "plain_op op"
    using snoc.prems by (auto simp: in_order_append)
  note IH = snoc.IH [OF r(1,3,5)]
  show ?case
  proof (cases op)
    case (Undo u)
    then have "fst (effect op ?d) = fst ?d" by (cases ?d) simp
    with IH Undo show ?thesis by auto
  next
    case (Edit e)
    have "cell_ts c \<noteq> op_timestamp op" if "c \<in> set (fst ?d)" for c
      using IH that r(2,6) Edit by (fastforce simp: plain_op_def)
    with effect_in_order [OF _ r(4,6)] IH have "in_offset_order (fst (effect op ?d))" by blast
    moreover have "cell_ts c = base_timestamp \<or> (\<exists>e. Edit e \<in> set (ops @ [op]) \<and> cell_ts c = edit_timestamp e)" if c: "c \<in> set (fst (effect op ?d))" for c
    proof (cases "cell_ts c = op_timestamp op")
      case False
      then obtain x where "x \<in> set (fst ?d)" "cell_ts x = cell_ts c" using effect_ts [OF c] by auto
      with IH show ?thesis by fastforce
    qed (use Edit in auto)
    ultimately show ?thesis by simp
  qed
qed

subsection \<open>The operations of a run\<close>

lemma op_fits_plain: "op_fits srt op b \<Longrightarrow> plain_op op"
  by (cases op) (simp_all add: op_fits_def plain_op_def edit_fits_def)

lemma new_op_plain: "op_applies srt op b \<Longrightarrow> list_all plain_op (new_op op b)"
  using op_fits_plain by (auto simp: new_op_def op_applies_def)

lemma flushed_plain: "flush_fits srt ops b \<Longrightarrow> list_all plain_op (flushed srt ops b)"
  by (induction ops arbitrary: b) (auto simp: new_op_plain split: if_splits option.splits)

lemma recorded_plain: "record_fits srt ops b \<Longrightarrow> list_all plain_op (recorded srt ops b)"
  by (induction ops arbitrary: b) (auto simp: new_op_plain Let_def split: if_splits option.splits)

lemma applied_ops_plain: "ops_fit srt ops b \<Longrightarrow> list_all plain_op (applied_ops srt ops b)"
  using recorded_plain flushed_plain by (fastforce simp: ops_fit_def applied_ops_def split: option.splits)

lemma undo_or_redo_plain: "undo_or_redo srt t b = Some (b1, op) \<Longrightarrow> plain_op op"
  by (auto simp: undo_or_redo_def undo_operations_def plain_op_def bind_eq_Some_conv Let_def case_prod_beta)

lemma sent_op_plain:
  "buffer_undo srt b = Some (b1, r) \<Longrightarrow> list_all plain_op (sent_op r)"
  "buffer_redo srt b = Some (b1, r) \<Longrightarrow> list_all plain_op (sent_op r)"
  by (auto simp: buffer_undo_def buffer_redo_def bind_eq_Some_conv case_prod_beta split: option.splits dest!: undo_or_redo_plain)

lemma undo_or_redo_all_plain: "undo_or_redo_all srt es b = Some (b1, made) \<Longrightarrow> list_all plain_op made"
  by (induction es arbitrary: b made) (auto simp: bind_eq_Some_conv dest!: undo_or_redo_plain)

lemma by_transaction_plain:
  "undo_transaction srt tid b = Some (b1, r') \<Longrightarrow> list_all plain_op (sent_op (map_option (Pair tid) r'))"
  "undo_to_transaction srt tid b = Some (b1, made) \<Longrightarrow> list_all plain_op made"
  "redo_to_transaction srt tid b = Some (b1, made) \<Longrightarrow> list_all plain_op made"
  by (auto simp: undo_transaction_def undo_to_transaction_def redo_to_transaction_def bind_eq_Some_conv case_prod_beta
      split: option.splits dest!: undo_or_redo_plain undo_or_redo_all_plain)

lemma buffer_run_plain:
  assumes "buffer_run srt base ops b" "sorts_edits srt"
  shows "length (normalize_text base) \<le> MAX_INSERTION_LEN \<and> list_all plain_op ops"
  using assms(1)
proof (induction rule: buffer_run.induct)
  case (edit ops b edits started ended b1 op)
  from edit_run_inv [OF buffer_run_inv [OF edit(1) assms(2)] edit(2-4), of started ended] edit(5) obtain e where
    "op = Edit e" "edit_made b e" by auto
  with edit.IH show ?case by (simp add: plain_op_def edit_made_def)
qed (auto dest: sent_op_plain by_transaction_plain applied_ops_plain)

lemma ins_of_short:
  assumes "length (normalize_text base) \<le> MAX_INSERTION_LEN" "list_all plain_op ops"
  shows "length (ins_of base ops ts) \<le> MAX_INSERTION_LEN"
  using assms(2)
proof (induction ops rule: rev_induct)
  case (snoc op ops)
  then show ?case by (cases op) (auto simp: plain_op_def)
qed (simp add: assms(1))

text \<open>What anchors need of a reachable buffer.\<close>

lemma run_anchors:
  assumes "buffer_run srt base ops b" "sorts_edits srt"
  shows "snap_inv (ins_of base ops) (buf_snapshot b)" "\<forall>ts. length (ins_of base ops ts) \<le> MAX_INSERTION_LEN"
    "in_offset_order (cells (fragments (buf_snapshot b)))"
proof -
  have r: "run_inv base ops b" using buffer_run_inv assms by blast
  then show "snap_inv (ins_of base ops) (buf_snapshot b)" by (simp add: run_inv_def buffer_inv_def)
  show "\<forall>ts. length (ins_of base ops ts) \<le> MAX_INSERTION_LEN" using ins_of_short buffer_run_plain [OF assms] by blast
  have "in_offset_order (fst (run_doc ops (doc_new base)))"
    using r buffer_run_plain [OF assms] by (intro run_doc_order [THEN conjunct1]) (simp_all add: run_inv_def)
  moreover have views: "map cell_view (fst (run_doc ops (doc_new base))) = map cell_view (cells (fragments (buf_snapshot b)))"
    using r by (simp add: run_inv_def same_doc_def doc_of_def)
  have "in_offset_order C = in_offset_order D" if "map cell_view C = map cell_view D" for C D
  proof (rule in_offset_order_keys)
    fix ts
    have "map cell_key (filter (\<lambda>c. cell_ts c = ts) E) = map (\<lambda>(t, i, ds). (t, i)) (filter (\<lambda>(t, i, ds). t = ts) (map cell_view E))" for E
      by (simp add: filter_map comp_def cell_view_def cell_key_def)
    with that show "map cell_key (filter (\<lambda>c. cell_ts c = ts) C) = map cell_key (filter (\<lambda>c. cell_ts c = ts) D)" by metis
  qed
  from this [OF views] calculation show "in_offset_order (cells (fragments (buf_snapshot b)))" by blast
qed

text \<open>A replica that has applied more keeps the bytes in their order.\<close>

lemma run_doc_keys: "subseq (map cell_key (fst d)) (map cell_key (fst (run_doc ops d)))"
proof (induction ops arbitrary: d)
  case (Cons op ops)
  have "subseq (map cell_key (fst d)) (map cell_key (fst (effect op d)))"
    by (cases op; cases d) (simp_all add: place_keeps_keys)
  from subseq_order.order_trans [OF this Cons.IH] show ?case by simp
qed simp

lemma same_doc_keys: "same_doc d d' \<Longrightarrow> map cell_key (fst d) = map cell_key (fst d')"
proof -
  assume "same_doc d d'"
  then have "map (\<lambda>(t, i, ds). (t, i)) (map cell_view (fst d)) = map (\<lambda>(t, i, ds). (t, i)) (map cell_view (fst d'))" by (simp add: same_doc_def)
  then show ?thesis by (simp add: cell_view_def cell_key_def [abs_def] comp_def)
qed

subsection \<open>Anchors of later buffers\<close>

lemma runs_keys:
  assumes "run_inv base ops b" "run_inv base ops' b'" "set ops \<subseteq> set ops'"
    and "\<forall>x \<in> set ops' - set ops. \<not> global_observed (buffer_version b) (op_timestamp x)"
  shows "subseq (map cell_key (cells (fragments (buf_snapshot b)))) (map cell_key (cells (fragments (buf_snapshot b'))))"
proof -
  have "map cell_key (cells (fragments (buf_snapshot b))) = map cell_key (fst (run_doc ops (doc_new base)))"
    using same_doc_keys [of "run_doc ops (doc_new base)" "doc_of (buf_snapshot b)"] assms(1) by (simp add: run_inv_def doc_of_def)
  moreover have "map cell_key (fst (run_doc (filter (\<lambda>x. x \<notin> set ops) ops') (run_doc ops (doc_new base)))) = map cell_key (cells (fragments (buf_snapshot b')))"
    using same_doc_keys [OF runs_extend [OF assms]] by (simp add: doc_of_def)
  ultimately show ?thesis using run_doc_keys [of "run_doc ops (doc_new base)"] by metis
qed

lemma cell_pos_keys: "cell_pos C k = length (takeWhile (\<lambda>x. x \<noteq> k) (map cell_key C))"
  by (simp add: takeWhile_map comp_def)

lemma keys_keep_order:
  "subseq xs ys \<Longrightarrow> distinct ys \<Longrightarrow> x \<in> set xs \<Longrightarrow> y \<in> set xs \<Longrightarrow>
     length (takeWhile (\<lambda>z. z \<noteq> x) xs) < length (takeWhile (\<lambda>z. z \<noteq> y) xs) \<Longrightarrow>
     length (takeWhile (\<lambda>z. z \<noteq> x) ys) < length (takeWhile (\<lambda>z. z \<noteq> y) ys)"
proof (induction rule: list_emb.induct)
  case (list_emb_Cons xs ys z)
  then have "x \<in> set ys" "y \<in> set ys" by (auto dest: list_emb_set)
  with list_emb_Cons show ?case by auto
next
  case (list_emb_Cons2 z z' xs ys)
  then show ?case by (auto split: if_splits)
qed simp

text \<open>The byte an anchor is attached to when it is made.\<close>

definition next_byte :: "snapshot \<Rightarrow> nat \<Rightarrow> bias \<Rightarrow> lamport \<times> nat" where
  "next_byte snap off b = cell_key (filter cell_visible (cells (fragments snap)) ! (case b of Left \<Rightarrow> off - 1 | Right \<Rightarrow> off))"

lemma made_anchor:
  assumes "snap_inv ins snap" "\<forall>ts. length (ins ts) \<le> MAX_INSERTION_LEN" "is_char_boundary (visible_text snap) off"
  obtains (min) "b = Left" "off = 0" "anchor_at_offset remote_id snap off b = min_for_buffer remote_id"
  | (max) "b = Right" "off = length (visible_text snap)" "anchor_at_offset remote_id snap off b = max_for_buffer remote_id"
  | (byte) A c B where "b = Left \<Longrightarrow> 0 < off" "b = Right \<Longrightarrow> off < length (visible_text snap)"
      "cells (fragments snap) = A @ c # B" "cell_visible c" "anchor_byte (anchor_at_offset remote_id snap off b) = cell_key c"
      "after_byte (anchor_at_offset remote_id snap off b) = (b = Left)" "off = length (filter cell_visible A) + (if b = Left then 1 else 0)"
      "\<not> anchor_is_min (anchor_at_offset remote_id snap off b)" "\<not> anchor_is_max (anchor_at_offset remote_id snap off b)"
      "anchor_bias (anchor_at_offset remote_id snap off b) = b" "anchor_buffer (anchor_at_offset remote_id snap off b) = remote_id"
      "cell_key c = next_byte snap off b"
proof -
  have len: "off \<le> length (visible_text snap)" using boundary_le [OF assms(3)] .
  consider "b = Left" "off = 0" | "b = Right" "off = length (visible_text snap)"
    | "b = Left \<Longrightarrow> 0 < off" "b = Right \<Longrightarrow> off < length (visible_text snap)"
    using len by (cases b) force+
  then show thesis
  proof cases
    case 3
    from anchor_at_offset_byte [OF assms(1,2) len assms(3) 3 refl, where remote_id = remote_id] obtain A c B where
      c: "cells (fragments snap) = A @ c # B" "cell_visible c" "anchor_byte (anchor_at_offset remote_id snap off b) = cell_key c"
        "after_byte (anchor_at_offset remote_id snap off b) = (b = Left)" "off = length (filter cell_visible A) + (if b = Left then 1 else 0)"
        "\<not> anchor_is_min (anchor_at_offset remote_id snap off b)" "\<not> anchor_is_max (anchor_at_offset remote_id snap off b)"
        "anchor_bias (anchor_at_offset remote_id snap off b) = b" "anchor_buffer (anchor_at_offset remote_id snap off b) = remote_id" .
    have "filter cell_visible (cells (fragments snap)) ! length (filter cell_visible A) = c" by (simp add: c(1,2))
    then have "cell_key c = next_byte snap off b" using c(5) by (cases b) (simp_all add: next_byte_def)
    then show thesis using byte [OF 3 c] by blast
  qed (use min max anchor_at_offset_ends in simp_all)
qed

lemma made_anchored:
  assumes "snap_inv ins snap" "\<forall>ts. length (ins ts) \<le> MAX_INSERTION_LEN" "is_char_boundary (visible_text snap) off"
  shows "anchored (cells (fragments snap)) (anchor_at_offset remote_id snap off b)"
  using assms by (cases rule: made_anchor [where b = b and remote_id = remote_id]) (simp_all add: anchored_def anchor_ends)

lemma subseq_set: "subseq xs ys \<Longrightarrow> x \<in> set xs \<Longrightarrow> x \<in> set ys"
  by (erule (1) list_emb_set) simp

lemma anchored_later:
  assumes "subseq (map cell_key C) (map cell_key D)" "anchored C a"
  shows "anchored D a"
  using assms(2) subseq_set [OF assms(1), of "anchor_byte a"] by (auto simp: anchored_def)


lemma survives:
  assumes "snap_inv ins snap" "\<forall>ts. length (ins ts) \<le> MAX_INSERTION_LEN" "is_char_boundary (visible_text snap) off" "snap_inv ins' snap'"
    and "subseq (map cell_key (cells (fragments snap))) (map cell_key (cells (fragments snap')))"
    and "b = Left \<Longrightarrow> 0 < off" "b = Right \<Longrightarrow> off < length (visible_text snap)"
  shows "\<exists>A c B. cells (fragments snap') = A @ c # B \<and> cell_key c = next_byte snap off b
    \<and> offset_for_anchor snap' (anchor_at_offset remote_id snap off b) = Some (length (filter cell_visible A) + (if b = Left \<and> cell_visible c then 1 else 0))"
  using assms(1-3)
proof (cases rule: made_anchor [where b = b and remote_id = remote_id])
  case (byte A c B)
  have "cell_key c \<in> set (map cell_key (cells (fragments snap)))" using byte(3) by simp
  from subseq_set [OF assms(5) this] have "cell_key c \<in> cell_key ` set (cells (fragments snap'))" by simp
  then obtain d A' B' where d: "cells (fragments snap') = A' @ d # B'" "cell_key d = cell_key c" by (metis imageE split_list)
  then have "anchor_byte (anchor_at_offset remote_id snap off b) = cell_key d" using byte(5) by simp
  from offset_at [OF assms(4) d(1) this byte(8,9)] d byte(6,12) show ?thesis by auto
qed (use assms(6,7) in simp_all)

lemma split_before: "A @ c # B = A' @ c' # B' \<Longrightarrow> length A' < length A \<Longrightarrow> A = A' @ c' # drop (Suc (length A')) A"
proof (induction A' arbitrary: A)
  case Nil
  then show ?case by (cases A) simp_all
next
  case (Cons x A')
  then show ?case by (cases A) simp_all
qed

lemma anchor_cmp_sides:
  assumes "anchor_byte a = anchor_byte b" "\<not> after_byte a" "after_byte b"
  shows "anchor_cmp snap a b = Some Less"
proof -
  have "anchor_timestamp a = anchor_timestamp b" "anchor_offset a < anchor_offset b"
    using assms by (auto simp: anchor_byte_def after_byte_def word_less_nat_alt)
  then show ?thesis by (simp add: anchor_cmp_def then_with_def cmp_def)
qed

lemma later_order:
  assumes "snap_inv ins snap" "\<forall>ts. length (ins ts) \<le> MAX_INSERTION_LEN" "is_char_boundary (visible_text snap) off1" "is_char_boundary (visible_text snap) off2"
    and "snap_inv ins' snap'" "in_offset_order (cells (fragments snap'))"
    and "subseq (map cell_key (cells (fragments snap))) (map cell_key (cells (fragments snap')))"
    and "off1 < off2 \<or> off1 = off2 \<and> b1 \<le> b2"
    and "a1 = anchor_at_offset remote_id snap off1 b1" "a2 = anchor_at_offset remote_id snap off2 b2"
  shows "a1 = a2 \<or> anchor_cmp snap' a1 a2 = Some Less"
proof -
  let ?C = "cells (fragments snap)" and ?D = "cells (fragments snap')"
  have an: "anchored ?C a1" "anchored ?C a2" using made_anchored [OF assms(1,2)] assms(3,4,9,10) by simp_all
  have an': "anchored ?D a1" "anchored ?D a2" using an anchored_later [OF assms(7)] by simp_all
  have dist: "distinct (map cell_key ?C)" "distinct (map cell_key ?D)" using assms(1,5) by (simp_all add: snap_inv_def)
  show ?thesis using assms(1-3)
  proof (cases rule: made_anchor [where b = b1 and remote_id = remote_id])
    case min
    then have a1: "a1 = min_for_buffer remote_id" using assms(9) by simp
    show ?thesis
    proof (cases "anchor_is_min a2")
      case True
      show ?thesis using assms(1,2,4)
      proof (cases rule: made_anchor [where b = b2 and remote_id = remote_id])
        case max
        with True assms(10) show ?thesis by (simp add: anchor_is_min_def max_for_buffer_def)
      qed (use a1 True assms(10) in simp_all)
    next
      case False
      with anchor_cmp_ends(1) [OF assms(5) an'(2), of a1] a1 anchor_ends show ?thesis by simp
    qed
  next
    case max
    then have "off2 = length (visible_text snap)" "b2 = Right" using assms(8) boundary_le [OF assms(4)] by (auto simp: less_eq_bias_def)
    with max assms(9,10) anchor_at_offset_ends show ?thesis by simp
  next
    case (byte A c B)
    note c1 = byte
    show ?thesis using assms(1,2,4)
    proof (cases rule: made_anchor [where b = b2 and remote_id = remote_id])
      case min
      with assms(8) c1(1) show ?thesis by (auto simp: less_eq_bias_def)
    next
      case max
      with anchor_cmp_ends(2) [OF assms(5) an'(1), of a2] c1(9) assms(9,10) anchor_ends show ?thesis by simp
    next
      case (byte A2 c2 B2)
      have pos: "cell_pos ?C (cell_key c) = length A" "cell_pos ?C (cell_key c2) = length A2"
        using cell_pos_at dist(1) c1(3) byte(3) by metis+
      have "length A \<le> length A2"
      proof (rule ccontr)
        assume "\<not> length A \<le> length A2"
        then obtain X where A: "A = A2 @ c2 # X" using split_before [of A c B A2 c2 B2] c1(3) byte(3) by auto
        have "length (filter cell_visible A2) < length (filter cell_visible A)" using byte(4) by (simp add: A)
        with c1(7) byte(7) assms(8) show False by (cases b1; cases b2) (auto simp: less_eq_bias_def)
      qed
      then consider "length A < length A2" | "A = A2" "c = c2" using c1(3) byte(3) by (metis append_eq_append_conv le_neq_implies_less list.inject)
      then show ?thesis
      proof cases
        case 1
        have "cell_key c \<in> set (map cell_key ?C)" by (simp add: c1(3))
        moreover have "cell_key c2 \<in> set (map cell_key ?C)" by (simp add: byte(3))
        moreover have "cell_pos ?C (cell_key c) < cell_pos ?C (cell_key c2)" using 1 pos by (simp only:)
        ultimately have "cell_pos ?D (cell_key c) < cell_pos ?D (cell_key c2)"
          using keys_keep_order [OF assms(7) dist(2)] by (simp only: cell_pos_keys)
        then show ?thesis using anchor_cmp_bytes [OF assms(5,6) an'] c1(5,8,9) byte(5,8,9) assms(9,10) by simp
      next
        case 2
        then have "b1 = b2 \<and> off1 = off2 \<or> b1 = Right \<and> b2 = Left" using c1(7) byte(7) assms(8) by (cases b1; cases b2) (auto simp: less_eq_bias_def)
        then show ?thesis
        proof
          assume "b1 = Right \<and> b2 = Left"
          then show ?thesis using anchor_cmp_sides [of a1 a2 snap'] c1(5,6) byte(5,6) assms(9,10) 2 by simp
        qed (use assms(9,10) in simp)
      qed
    qed
  qed
qed

subsection \<open>Properties\<close>

text \<open>(C11) An anchor made at a position stands there. In a reachable buffer the anchor at any position, before or after it, can be resolved and
  gives the offset of the position (a position inside of a character or past the end stands for the boundary before it).\<close>

theorem anchors_resolve:
  assumes "buffer_run srt base ops b" "sorts_edits srt"
  shows "offset_for_anchor (buf_snapshot b) (anchor_at remote_id (buf_snapshot b) p side) = Some (usize_to_offset (buf_snapshot b) p)
    \<and> is_char_boundary (visible_text (buf_snapshot b)) (usize_to_offset (buf_snapshot b) p)
    \<and> (is_char_boundary (visible_text (buf_snapshot b)) p \<longrightarrow> usize_to_offset (buf_snapshot b) p = p)"
proof -
  note r = run_anchors [OF assms]
  have "is_char_boundary (visible_text (buf_snapshot b)) (usize_to_offset (buf_snapshot b) p)" by (rule usize_to_offset_boundary)
  from anchor_roundtrip_ok [OF r(1,2) boundary_le [OF this] this] this show ?thesis by (simp add: anchor_at_def usize_to_offset_def)
qed

theorem anchors_resolve_witness:
  "offset_for_anchor (buf_snapshot example_there_after) (anchor_at 7 (buf_snapshot example_there_after) 2 Left) = Some 2
     \<and> offset_for_anchor (buf_snapshot example_there_after) (anchor_at 7 (buf_snapshot example_there_after) 9 Right) = Some 3"
proof -
  have "usize_to_offset (buf_snapshot example_there_after) 2 = 2" "usize_to_offset (buf_snapshot example_there_after) 9 = 3" by code_simp+
  then show ?thesis using anchors_resolve [OF example_there_received example_sorts] by simp
qed

text \<open>(C9) Anchors survive edits. An anchor made in one state of a buffer can be resolved in every buffer that has applied the same operations and
  perhaps others it did not know of, its own later states and those of other replicas: the anchor before a position that is not the start then stands
  right after the byte it was made next to, one that is not the end right before it, with deleted bytes counting for nothing.\<close>

theorem anchors_survive:
  assumes "buffer_run srt base ops b" "sorts_edits srt" "buffer_run srt' base ops' b'" "sorts_edits srt'" "set ops \<subseteq> set ops'"
    and "\<forall>x \<in> set ops' - set ops. \<not> global_observed (buffer_version b) (op_timestamp x)"
    and "off = usize_to_offset (buf_snapshot b) p" "a = anchor_at remote_id (buf_snapshot b) p side"
  shows "(side = Left \<and> off = 0 \<longrightarrow> offset_for_anchor (buf_snapshot b') a = Some 0)
    \<and> (side = Right \<and> off = length (visible_text (buf_snapshot b)) \<longrightarrow>
         offset_for_anchor (buf_snapshot b') a = Some (length (visible_text (buf_snapshot b'))))
    \<and> ((side = Left \<longrightarrow> 0 < off) \<and> (side = Right \<longrightarrow> off < length (visible_text (buf_snapshot b))) \<longrightarrow>
         (\<exists>A c B. cells (fragments (buf_snapshot b')) = A @ c # B \<and> cell_key c = next_byte (buf_snapshot b) off side
           \<and> offset_for_anchor (buf_snapshot b') a = Some (length (filter cell_visible A) + (if side = Left \<and> cell_visible c then 1 else 0))))"
proof -
  note r = run_anchors [OF assms(1,2)] and r' = run_anchors [OF assms(3,4)]
  have bound: "is_char_boundary (visible_text (buf_snapshot b)) off" unfolding assms(7) by (rule usize_to_offset_boundary)
  have keys: "subseq (map cell_key (cells (fragments (buf_snapshot b)))) (map cell_key (cells (fragments (buf_snapshot b'))))"
    using runs_keys [OF buffer_run_inv [OF assms(1,2)] buffer_run_inv [OF assms(3,4)] assms(5,6)] .
  have a: "a = anchor_at_offset remote_id (buf_snapshot b) off side" by (simp add: assms(7,8) anchor_at_def)
  show ?thesis
    using survives [OF r(1,2) bound r'(1) keys, of side remote_id] unfolding a by (auto simp: anchor_at_offset_ends offset_ends)
qed

theorem anchors_survive_witness:
  "offset_for_anchor (buf_snapshot example_there_after) (anchor_at 7 (buf_snapshot example_there) 1 Left) = Some 2"
proof -
  let ?s = "buf_snapshot example_there" and ?s' = "buf_snapshot example_there_after"
  have new: "\<forall>x \<in> set [snd edited_there, snd example_edited] - set []. \<not> global_observed (buffer_version example_there) (op_timestamp x)"
  proof -
    have "\<not> global_observed (buffer_version example_there) (op_timestamp (snd edited_there))" by code_simp
    then show ?thesis using there_facts(5) by simp
  qed
  have off: "usize_to_offset ?s 1 = 1" "next_byte ?s 1 Left = (base_timestamp, 0)"
    "map cell_key (cells (fragments ?s')) ! 1 = (base_timestamp, 0)" "map cell_visible (take 2 (cells (fragments ?s'))) = [True, True]"
    "2 \<le> length (cells (fragments ?s'))"
    by code_simp+
  from anchors_survive [OF there_run example_sorts example_there_received example_sorts _ new refl refl, where p = 1 and remote_id = 7 and side = Left] off(1,2)
  obtain A c B where c: "cells (fragments ?s') = A @ c # B" "cell_key c = (base_timestamp, 0)"
    "offset_for_anchor ?s' (anchor_at 7 ?s 1 Left) = Some (length (filter cell_visible A) + (if cell_visible c then 1 else 0))" by auto
  have dist: "distinct (map cell_key (cells (fragments ?s')))"
    using run_anchors(1) [OF example_there_received example_sorts] by (simp add: snap_inv_def)
  have "map cell_key (cells (fragments ?s')) ! length A = (base_timestamp, 0)" "length A < length (cells (fragments ?s'))" using c(1,2) by (simp_all add: nth_append)
  then have "length A = 1" using off(3,5) nth_eq_iff_index_eq [OF dist, of "length A" 1] by simp
  then have "take 2 (cells (fragments ?s')) = A @ [c]" using c(1) by simp
  then have "map cell_visible A @ [cell_visible c] = [True, True]" using off(4) by simp
  moreover obtain x where "A = [x]" using \<open>length A = 1\<close> by (auto simp: length_Suc_conv)
  ultimately show ?thesis using c(3) by simp
qed

text \<open>(C10) Anchors keep their order. Of two anchors of one buffer, the one that was made at an earlier position (or, at the same position, before
  instead of after it) never resolves to a later offset in any buffer that has applied the same operations and perhaps others, and the comparison of
  anchors there says that it is the smaller one, unless they are the same.\<close>

theorem anchors_keep_order:
  assumes "buffer_run srt base ops b" "sorts_edits srt" "buffer_run srt' base ops' b'" "sorts_edits srt'" "set ops \<subseteq> set ops'"
    and "\<forall>x \<in> set ops' - set ops. \<not> global_observed (buffer_version b) (op_timestamp x)"
    and "usize_to_offset (buf_snapshot b) p < usize_to_offset (buf_snapshot b) q
      \<or> usize_to_offset (buf_snapshot b) p = usize_to_offset (buf_snapshot b) q \<and> side \<le> side'"
    and "a = anchor_at remote_id (buf_snapshot b) p side" "a' = anchor_at remote_id (buf_snapshot b) q side'"
  shows "\<exists>i j. offset_for_anchor (buf_snapshot b') a = Some i \<and> offset_for_anchor (buf_snapshot b') a' = Some j \<and> i \<le> j
    \<and> (anchor_cmp (buf_snapshot b') a a' = Some Less \<or> a = a')"
proof -
  note r = run_anchors [OF assms(1,2)] and r' = run_anchors [OF assms(3,4)]
  note bound = usize_to_offset_boundary [of "buf_snapshot b"]
  have keys: "subseq (map cell_key (cells (fragments (buf_snapshot b)))) (map cell_key (cells (fragments (buf_snapshot b'))))"
    using runs_keys [OF buffer_run_inv [OF assms(1,2)] buffer_run_inv [OF assms(3,4)] assms(5,6)] .
  have an: "anchored (cells (fragments (buf_snapshot b'))) a" "anchored (cells (fragments (buf_snapshot b'))) a'"
    using anchored_later [OF keys made_anchored [OF r(1,2) bound]] by (simp_all add: assms(8,9) anchor_at_def)
  obtain i j where ij: "offset_for_anchor (buf_snapshot b') a = Some i" "offset_for_anchor (buf_snapshot b') a' = Some j"
    using offset_for_anchor_ok [OF r'(1)] an by blast
  have less: "a = a' \<or> anchor_cmp (buf_snapshot b') a a' = Some Less"
    using later_order [OF r(1,2) bound bound r'(1,3) keys assms(7)] by (simp add: assms(8,9) anchor_at_def)
  then have "i \<le> j" using anchor_cmp_offsets [OF r'(1,3) an _ ij] ij by auto
  with ij less show ?thesis by blast
qed

theorem anchors_keep_order_witness:
  "\<exists>i j. offset_for_anchor (buf_snapshot example_there_after) (anchor_at 7 (buf_snapshot example_there) 0 Right) = Some i
     \<and> offset_for_anchor (buf_snapshot example_there_after) (anchor_at 7 (buf_snapshot example_there) 1 Left) = Some j \<and> i \<le> j"
proof -
  have "\<forall>x \<in> set [snd edited_there, snd example_edited] - set []. \<not> global_observed (buffer_version example_there) (op_timestamp x)"
  proof -
    have "\<not> global_observed (buffer_version example_there) (op_timestamp (snd edited_there))" by code_simp
    then show ?thesis using there_facts(5) by simp
  qed
  moreover have "usize_to_offset (buf_snapshot example_there) 0 < usize_to_offset (buf_snapshot example_there) 1" by code_simp
  ultimately show ?thesis
    using anchors_keep_order [OF there_run example_sorts example_there_received example_sorts,
      where p = 0 and q = 1 and side = Right and side' = Left and remote_id = 7] by fastforce
qed

text \<open>(C12) Resolving many anchors with one pass agrees with resolving each of them. For anchors of a reachable buffer (the minimum, the maximum or ones
  attached to a byte of it) each can be resolved; the loop that moves its cursors forward only gives the same offsets when the anchors come in their
  order, and the one that may move back gives them in any order.\<close>

theorem many_anchors_agree:
  assumes "buffer_run srt base ops b" "sorts_edits srt" "\<forall>a \<in> set as. anchored (cells (fragments (buf_snapshot b))) a"
  shows "\<exists>offs. those (map (offset_for_anchor (buf_snapshot b)) as) = Some offs \<and> summaries_for_anchors_unordered (buf_snapshot b) as = Some offs
    \<and> (anchor_order (buf_snapshot b) as \<longrightarrow> summaries_for_anchors (buf_snapshot b) as = Some offs)"
  using summaries_ok [OF run_anchors(1,3) [OF assms(1,2)] assms(3)] .

theorem many_anchors_agree_witness:
  "\<exists>offs. summaries_for_anchors_unordered (buf_snapshot example_there_after)
     [anchor_at 7 (buf_snapshot example_there_after) 2 Left, anchor_at 7 (buf_snapshot example_there_after) 1 Right] = Some offs"
proof -
  let ?s = "buf_snapshot example_there_after"
  have "anchored (cells (fragments ?s)) (anchor_at 7 ?s p side)" for p side
    using made_anchored [OF run_anchors(1,2) [OF example_there_received example_sorts] usize_to_offset_boundary] by (simp add: anchor_at_def)
  then show ?thesis
    using many_anchors_agree [OF example_there_received example_sorts, of "[anchor_at 7 ?s 2 Left, anchor_at 7 ?s 1 Right]"] by auto
qed

end
