(* ===== verification/Tiers.thy ===== *)
theory Tiers
  imports Prelude "HOL-Library.Sublist"
begin

text \<open>
  Model tiers (\<^verbatim>\<open>src/crates/paddleboard_tiers/src/paddleboard_tiers.rs\<close>): the settings, the classification of a
  check's result, the decision after a check, and the messages built from it. Texts are lists of characters.
\<close>

subsection \<open>Strings\<close>

text \<open>\<^verbatim>\<open>str::trim\<close>: the white space among the characters of a \<open>string\<close>.\<close>

definition is_whitespace :: "char \<Rightarrow> bool" where
  "is_whitespace c \<longleftrightarrow> (let n = of_char c :: nat in 9 \<le> n \<and> n \<le> 13 \<or> n = 32 \<or> n = 133 \<or> n = 160)"

definition trim :: "string \<Rightarrow> string" where
  "trim s = rev (dropWhile is_whitespace (rev (dropWhile is_whitespace s)))"

definition nl :: char where
  "nl = CHR 0x0A"

text \<open>\<^verbatim>\<open>str::lines\<close>: split at line feeds, drop the empty rest after a final one, strip a carriage return.\<close>

fun split_nl :: "string \<Rightarrow> string list" where
  "split_nl [] = [[]]"
| "split_nl (c # cs) =
     (if c = nl then [] # split_nl cs
      else case split_nl cs of [] \<Rightarrow> [[c]] | l # ls \<Rightarrow> (c # l) # ls)"

definition strip_cr :: "string \<Rightarrow> string" where
  "strip_cr l = (if l \<noteq> [] \<and> last l = CHR 0x0D then butlast l else l)"

definition str_lines :: "string \<Rightarrow> string list" where
  "str_lines s =
     (let ls = split_nl s; terminated = butlast ls; rest = last ls
      in map strip_cr terminated @ (if rest = [] then [] else [rest]))"

fun join_with :: "string \<Rightarrow> string list \<Rightarrow> string" where
  "join_with sep [] = []"
| "join_with sep [x] = x"
| "join_with sep (x # y # zs) = x @ sep @ join_with sep (y # zs)"

fun show_nat :: "nat \<Rightarrow> string" where
  "show_nat n = (if n < 10 then [char_of (48 + n)] else show_nat (n div 10) @ [char_of (48 + n mod 10)])"

declare show_nat.simps [simp del]

definition starts_with :: "string \<Rightarrow> string \<Rightarrow> bool" where
  "starts_with text marker \<longleftrightarrow> prefix marker text"

fun contains :: "string \<Rightarrow> string \<Rightarrow> bool" where
  "contains [] marker \<longleftrightarrow> marker = []"
| "contains (c # cs) marker \<longleftrightarrow> prefix marker (c # cs) \<or> contains cs marker"

subsection \<open>Settings\<close>

definition DEFAULT_RETRIES_PER_TIER :: u32 where "DEFAULT_RETRIES_PER_TIER = 1"
definition DEFAULT_CHECK_TIMEOUT_SECONDS :: u64 where "DEFAULT_CHECK_TIMEOUT_SECONDS = 300"
definition OUTPUT_TAIL_LINES :: nat where "OUTPUT_TAIL_LINES = 60"

record model_selection =
  sel_provider :: string
  sel_model :: string
  enable_thinking :: bool
  effort :: "string option"

record tier =
  tier_name :: string
  tier_model :: model_selection

record check_config =
  check_command :: string
  check_timeout :: u64

datatype escalation = Ask | Auto | Off

record tiers_settings =
  enabled :: bool
  tiers :: "tier list"
  check :: "check_config option"
  retries_per_tier :: u32
  escalation_mode :: escalation
  auto_ceiling :: "string option"

text \<open>The settings file: every field may be absent.\<close>

record tier_content =
  tc_name :: "string option"
  tc_model :: "model_selection option"

record check_content =
  cc_command :: "string option"
  cc_timeout_seconds :: "u64 option"

record tiers_content =
  c_enabled :: "bool option"
  c_tiers :: "tier_content list option"
  c_check :: "check_content option"
  c_retries_per_tier :: "u32 option"
  c_escalation :: "escalation option"
  c_auto_ceiling :: "string option"

definition tier_from_content :: "tier_content \<Rightarrow> tier option" where
  "tier_from_content t =
     map_option (\<lambda>m. \<lparr>tier_name = (case tc_name t of Some n \<Rightarrow> n | None \<Rightarrow> sel_model m), tier_model = m\<rparr>) (tc_model t)"

definition check_from_content :: "check_content \<Rightarrow> check_config option" where
  "check_from_content c = do {
     raw \<leftarrow> cc_command c;
     let command = trim raw;
     if command = [] then None
     else Some \<lparr>check_command = command,
       check_timeout = (case cc_timeout_seconds c of Some n \<Rightarrow> n | None \<Rightarrow> DEFAULT_CHECK_TIMEOUT_SECONDS)\<rparr>
   }"

definition from_settings :: "tiers_content option \<Rightarrow> tiers_settings" where
  "from_settings content =
     (case content of
        None \<Rightarrow> \<lparr>enabled = False, tiers = [], check = None, retries_per_tier = DEFAULT_RETRIES_PER_TIER,
                 escalation_mode = Ask, auto_ceiling = None\<rparr>
      | Some c \<Rightarrow>
          \<lparr>enabled = (case c_enabled c of Some b \<Rightarrow> b | None \<Rightarrow> False),
           tiers = List.map_filter tier_from_content (case c_tiers c of Some ts \<Rightarrow> ts | None \<Rightarrow> []),
           check = Option.bind (c_check c) check_from_content,
           retries_per_tier = (case c_retries_per_tier c of Some n \<Rightarrow> n | None \<Rightarrow> DEFAULT_RETRIES_PER_TIER),
           escalation_mode = (case c_escalation c of Some e \<Rightarrow> e | None \<Rightarrow> Ask),
           auto_ceiling = c_auto_ceiling c\<rparr>)"

definition is_active :: "tiers_settings \<Rightarrow> bool" where
  "is_active s \<longleftrightarrow> enabled s \<and> check s \<noteq> None"

text \<open>\<^verbatim>\<open>Iterator::position\<close>\<close>

fun position :: "('a \<Rightarrow> bool) \<Rightarrow> 'a list \<Rightarrow> nat option" where
  "position P [] = None"
| "position P (x # xs) = (if P x then Some 0 else map_option Suc (position P xs))"

definition tier_index_for_model :: "tiers_settings \<Rightarrow> string \<Rightarrow> string \<Rightarrow> nat option" where
  "tier_index_for_model s provider model =
     position (\<lambda>t. sel_provider (tier_model t) = provider \<and> sel_model (tier_model t) = model) (tiers s)"

definition escalation_targets :: "tiers_settings \<Rightarrow> nat option \<Rightarrow> nat list" where
  "escalation_targets s current =
     (let start = (case current of None \<Rightarrow> 0 | Some i \<Rightarrow> i + 1) in [start..<length (tiers s)])"

definition ceiling_index :: "tiers_settings \<Rightarrow> nat option" where
  "ceiling_index s = do {
     name \<leftarrow> auto_ceiling s;
     position (\<lambda>t. tier_name t = name) (tiers s)
   }"

subsection \<open>The outcome of a check\<close>

datatype check_outcome = Passed | Failed string | Stopped | CheckUnavailable string

definition has_paragraph :: "string \<Rightarrow> string \<Rightarrow> bool" where
  "has_paragraph text marker \<longleftrightarrow> starts_with text marker \<or> contains text ([nl, nl] @ marker)"

definition failure_markers :: "string \<Rightarrow> string list" where
  "failure_markers command =
     [''Command '' @ [CHR 0x22] @ command @ [CHR 0x22] @ '' failed with exit code'',
      ''Command '' @ [CHR 0x22] @ command @ [CHR 0x22] @ '' timed out'',
      ''Command terminated unexpectedly'']"

text \<open>The terminal tool's result: \<open>Inl\<close> an error, \<open>Inr\<close> its text.\<close>

definition classify_terminal_result :: "string \<Rightarrow> string + string \<Rightarrow> check_outcome" where
  "classify_terminal_result command result =
     (case result of
        Inl reason \<Rightarrow> CheckUnavailable reason
      | Inr text \<Rightarrow>
          if has_paragraph text ''The user stopped this command'' then Stopped
          else if \<exists>m \<in> set (failure_markers command). has_paragraph text m then Failed text
          else Passed)"

subsection \<open>The decision\<close>

datatype decision = Done | Retry | Escalate nat | Blocked "nat list" | Unavailable string

definition decide :: "tiers_settings \<Rightarrow> nat option \<Rightarrow> u32 \<Rightarrow> check_outcome \<Rightarrow> decision" where
  "decide s current_tier failed_attempts outcome =
     (case outcome of
        Passed \<Rightarrow> Done
      | Stopped \<Rightarrow> Done
      | CheckUnavailable reason \<Rightarrow> Unavailable reason
      | Failed _ \<Rightarrow>
          if failed_attempts < retries_per_tier s then Retry
          else
            let offer = escalation_targets s current_tier
            in case escalation_mode s of
                 Off \<Rightarrow> Blocked []
               | Ask \<Rightarrow> Blocked offer
               | Auto \<Rightarrow>
                   (case offer of
                      [] \<Rightarrow> Blocked offer
                    | next # _ \<Rightarrow>
                        if (case ceiling_index s of None \<Rightarrow> True | Some ceiling \<Rightarrow> next \<le> ceiling)
                        then Escalate next else Blocked offer))"

subsection \<open>Messages\<close>

definition output_tail :: "string \<Rightarrow> string" where
  "output_tail output =
     (let ls = str_lines output;
          start = length ls - OUTPUT_TAIL_LINES;
          tail = join_with [nl] (drop start ls)
      in if start > 0 then ''['' @ show_nat start @ '' earlier lines omitted]'' @ [nl] @ tail else tail)"

definition retry_message :: "string \<Rightarrow> u32 \<Rightarrow> u32 \<Rightarrow> string \<Rightarrow> string" where
  "retry_message command attempt attempts_allowed output =
     ''The project check `'' @ command @ ''` failed after your changes (attempt '' @ show_nat (unat attempt)
     @ '' of '' @ show_nat (unat attempts_allowed)
     @ '' on this model). Find and fix the cause, then stop: the check runs again automatically.'' @ [nl, nl]
     @ output_tail output"

record tier_attempts =
  ta_label :: string
  ta_failed_checks :: u32

definition blocker_summary :: "string \<Rightarrow> string \<Rightarrow> tier_attempts list \<Rightarrow> string list \<Rightarrow> string" where
  "blocker_summary command output history changed_files =
     ''Blocker Summary'' @ [nl, nl] @ ''Check: `'' @ command @ ''`'' @ [nl] @ ''Tried:'' @ [nl]
     @ concat (map (\<lambda>a. ''- '' @ ta_label a @ '': '' @ show_nat (unat (ta_failed_checks a)) @ '' ''
         @ (if ta_failed_checks a = 1 then ''failed check'' else ''failed checks'') @ [nl]) history)
     @ (if changed_files \<noteq> []
        then ''Files changed so far:'' @ [nl] @ concat (map (\<lambda>f. ''- '' @ f @ [nl]) changed_files) else [])
     @ [nl] @ ''Last check output:'' @ [nl] @ output_tail output"

definition escalation_message :: "string \<Rightarrow> string \<Rightarrow> string \<Rightarrow> string" where
  "escalation_message from_label to_label summary =
     ''Escalated from '' @ from_label @ '' to '' @ to_label
     @ '' because the project check kept failing. Continue the task and make the check pass.'' @ [nl, nl] @ summary"

subsection \<open>Properties\<close>

lemma contains_iff: "contains s m \<longleftrightarrow> (\<exists>a b. s = a @ m @ b)"
proof (induction s)
  case (Cons c cs)
  show ?case
  proof
    assume "contains (c # cs) m"
    then consider "prefix m (c # cs)" | "contains cs m" by auto
    then show "\<exists>a b. c # cs = a @ m @ b"
    proof cases
      case 1
      then obtain b where "c # cs = [] @ m @ b" by (auto simp: prefix_def)
      then show ?thesis by blast
    next
      case 2
      with Cons.IH obtain a b where "cs = a @ m @ b" by blast
      then have "c # cs = (c # a) @ m @ b" by simp
      then show ?thesis by blast
    qed
  next
    assume "\<exists>a b. c # cs = a @ m @ b"
    then obtain a b where eq: "c # cs = a @ m @ b" by blast
    show "contains (c # cs) m"
    proof (cases a)
      case Nil
      then have "prefix m (c # cs)" using eq by (auto simp: prefix_def)
      then show ?thesis by simp
    next
      case (Cons d a')
      then have "cs = a' @ m @ b" using eq by simp
      then have "contains cs m" using Cons.IH by blast
      then show ?thesis by simp
    qed
  qed
qed simp

lemma position_Some: "position P xs = Some i \<Longrightarrow> i < length xs \<and> P (xs ! i) \<and> (\<forall>j < i. \<not> P (xs ! j))"
  by (induction xs arbitrary: i) (auto split: if_splits simp: nth_Cons' less_Suc_eq_0_disj)

lemma position_None: "position P xs = None \<longleftrightarrow> (\<forall>x \<in> set xs. \<not> P x)"
  by (induction xs) auto

lemma position_unique: "i < length xs \<Longrightarrow> P (xs ! i) \<Longrightarrow> (\<And>j. j < i \<Longrightarrow> \<not> P (xs ! j)) \<Longrightarrow> position P xs = Some i"
proof (induction xs arbitrary: i)
  case (Cons x xs)
  show ?case
  proof (cases i)
    case (Suc k)
    have "\<not> P x" using Cons.prems(3) [of 0] Suc by simp
    moreover have "position P xs = Some k"
      using Cons.prems Suc by (intro Cons.IH) (auto, metis Suc_less_eq nth_Cons_Suc)
    ultimately show ?thesis using Suc by simp
  qed (use Cons.prems in simp)
qed simp

definition next_tier :: "nat option \<Rightarrow> nat" where
  "next_tier current = (case current of None \<Rightarrow> 0 | Some i \<Rightarrow> i + 1)"

lemma escalation_targets_upt: "escalation_targets s current = [next_tier current..<length (tiers s)]"
  by (simp add: escalation_targets_def next_tier_def Let_def)

lemma decide_Escalate:
  "decide s current n outcome = Escalate t \<longleftrightarrow>
     (\<exists>out. outcome = Failed out) \<and> escalation_mode s = Auto \<and> retries_per_tier s \<le> n
     \<and> t = next_tier current \<and> t < length (tiers s) \<and> (\<forall>c. ceiling_index s = Some c \<longrightarrow> t \<le> c)"
  by (auto simp: decide_def escalation_targets_upt Let_def not_less upt_rec split: check_outcome.splits escalation.splits option.splits if_splits)

text \<open>(C31) The decision after a check follows the policy: it ends the turn exactly when the check passed or the
  user stopped it; it retries exactly when the check failed with retries left on this tier; it moves to
  another model without asking only in \<open>auto\<close> mode, after the retries are used up, to the next tier above
  the current one, and never above a ceiling that names a tier; a blocked run is offered nothing when
  escalation is off and otherwise exactly the tiers above the current one.\<close>

theorem decide_follows_policy:
  "(decide s current n outcome = Done \<longleftrightarrow> outcome = Passed \<or> outcome = Stopped)
   \<and> (decide s current n outcome = Retry \<longleftrightarrow> (\<exists>out. outcome = Failed out) \<and> n < retries_per_tier s)
   \<and> (decide s current n outcome = Escalate t \<longleftrightarrow>
        (\<exists>out. outcome = Failed out) \<and> escalation_mode s = Auto \<and> retries_per_tier s \<le> n
        \<and> t = next_tier current \<and> t < length (tiers s) \<and> \<not> (\<exists>c < t. ceiling_index s = Some c))
   \<and> (decide s current n outcome = Blocked offer \<longleftrightarrow>
        (\<exists>out. outcome = Failed out) \<and> retries_per_tier s \<le> n
        \<and> offer = (if escalation_mode s = Off then [] else [next_tier current..<length (tiers s)])
        \<and> \<not> (escalation_mode s = Auto \<and> next_tier current < length (tiers s)
               \<and> \<not> (\<exists>c < next_tier current. ceiling_index s = Some c)))"
proof (intro conjI)
  show "decide s current n outcome = Escalate t \<longleftrightarrow>
        (\<exists>out. outcome = Failed out) \<and> escalation_mode s = Auto \<and> retries_per_tier s \<le> n
        \<and> t = next_tier current \<and> t < length (tiers s) \<and> \<not> (\<exists>c < t. ceiling_index s = Some c)"
    unfolding decide_Escalate by (cases "ceiling_index s") auto
  show "decide s current n outcome = Blocked offer \<longleftrightarrow>
        (\<exists>out. outcome = Failed out) \<and> retries_per_tier s \<le> n
        \<and> offer = (if escalation_mode s = Off then [] else [next_tier current..<length (tiers s)])
        \<and> \<not> (escalation_mode s = Auto \<and> next_tier current < length (tiers s)
               \<and> \<not> (\<exists>c < next_tier current. ceiling_index s = Some c))"
    by (cases "escalation_mode s"; cases "ceiling_index s")
      (auto simp: decide_def escalation_targets_upt Let_def not_less upt_rec [of "next_tier current"] split: check_outcome.splits)
qed (auto simp: decide_def Let_def split: check_outcome.splits escalation.splits list.splits option.splits)

text \<open>(C32) A ceiling that names no tier does not hold back automatic escalation: with a misspelt or removed
  tier name, every failing tier below the top moves up without asking.\<close>

theorem unknown_ceiling_is_no_ceiling:
  assumes "auto_ceiling s = Some name" "name \<notin> tier_name ` set (tiers s)" "escalation_mode s = Auto"
    "retries_per_tier s \<le> n" "next_tier current < length (tiers s)"
  shows "decide s current n (Failed out) = Escalate (next_tier current)"
proof -
  have "ceiling_index s = None" using assms(1,2) by (auto simp: ceiling_index_def position_None)
  with assms show ?thesis by (simp add: decide_Escalate)
qed

definition example_tier :: "string \<Rightarrow> string \<Rightarrow> tier" where
  "example_tier name model = \<lparr>tier_name = name, tier_model = \<lparr>sel_provider = ''ollama'', sel_model = model,
     enable_thinking = False, effort = None\<rparr>\<rparr>"

definition example_settings :: "tier list \<Rightarrow> string option \<Rightarrow> tiers_settings" where
  "example_settings ts ceiling = \<lparr>enabled = True, tiers = ts,
     check = Some \<lparr>check_command = ''cargo test'', check_timeout = 300\<rparr>, retries_per_tier = 0,
     escalation_mode = Auto, auto_ceiling = ceiling\<rparr>"

theorem unknown_ceiling_is_no_ceiling_witness:
  "decide (example_settings [example_tier ''Local'' ''gemma'', example_tier ''Fast'' ''flash'', example_tier ''Precise'' ''sonnet'']
      (Some ''Fats'')) (Some 1) 0 (Failed ''no'') = Escalate 2"
  using unknown_ceiling_is_no_ceiling [of "example_settings [example_tier ''Local'' ''gemma'', example_tier ''Fast'' ''flash'',
      example_tier ''Precise'' ''sonnet''] (Some ''Fats'')" "''Fats''" 0 "Some 1" "''no''"]
  by (simp add: example_settings_def example_tier_def next_tier_def)

lemma has_paragraph_iff:
  "has_paragraph text m \<longleftrightarrow> (\<exists>before rest. text = before @ m @ rest \<and> (before = [] \<or> (\<exists>b. before = b @ [nl, nl])))"
  by (auto simp: has_paragraph_def starts_with_def contains_iff prefix_def) (metis append_Cons append_Nil append_assoc)+

text \<open>(C33) A result of the terminal tool is read by its paragraphs, whatever the tool prints before or after them:
  it is \<open>Stopped\<close> exactly when a paragraph starts with the sentence that the user stopped the command; a failure,
  with the whole text, exactly when no paragraph does and one starts with one of the three sentences for a
  non-zero exit code, a timeout (both naming this command) and an unexpected end; passed exactly when no paragraph
  starts with any of the four; and an error of the tool, and only that, makes the check unavailable.\<close>

theorem classify_finds_failure_paragraph:
  fixes result_text command :: string
  defines "para \<equiv> \<lambda>m. \<exists>before rest. result_text = before @ m @ rest \<and> (before = [] \<or> (\<exists>b. before = b @ [nl, nl]))"
  defines "stopped \<equiv> para ''The user stopped this command''"
    and "failed \<equiv> para (''Command '' @ [CHR 0x22] @ command @ [CHR 0x22] @ '' failed with exit code'')
        \<or> para (''Command '' @ [CHR 0x22] @ command @ [CHR 0x22] @ '' timed out'')
        \<or> para ''Command terminated unexpectedly''"
  shows "(classify_terminal_result command (Inr result_text) = Stopped \<longleftrightarrow> stopped)
    \<and> (classify_terminal_result command (Inr result_text) = Failed out \<longleftrightarrow> failed \<and> \<not> stopped \<and> out = result_text)
    \<and> (classify_terminal_result command (Inr result_text) = Passed \<longleftrightarrow> \<not> (stopped \<or> failed))
    \<and> classify_terminal_result command (Inl reason) = CheckUnavailable reason"
proof -
  have "para = has_paragraph result_text" unfolding para_def by (intro ext) (rule has_paragraph_iff [symmetric])
  then have "stopped \<longleftrightarrow> has_paragraph result_text ''The user stopped this command''"
    "failed \<longleftrightarrow> (\<exists>m \<in> set (failure_markers command). has_paragraph result_text m)"
    by (simp_all only: stopped_def failed_def failure_markers_def list.set bex_simps bool_simps)
  then show ?thesis by (simp only: classify_terminal_result_def sum.case) auto
qed

theorem classify_finds_failure_paragraph_witness:
  "classify_terminal_result ''x'' (Inr (''Note.'' @ [nl, nl] @ ''Command terminated unexpectedly'')) =
     Failed (''Note.'' @ [nl, nl] @ ''Command terminated unexpectedly'')
   \<and> classify_terminal_result ''x'' (Inr (''Command terminated unexpectedly'' @ [nl, nl] @ ''The user stopped this command'')) = Stopped"
proof
  let ?text = "''Note.'' @ [nl, nl] @ ''Command terminated unexpectedly''"
  have "\<not> has_paragraph ?text ''The user stopped this command''" "has_paragraph ?text ''Command terminated unexpectedly''"
    by (simp_all add: has_paragraph_def starts_with_def nl_def)
  with classify_finds_failure_paragraph [of "''x''" ?text ?text, folded has_paragraph_iff]
  show "classify_terminal_result ''x'' (Inr ?text) = Failed ?text" by blast
  let ?stop = "''Command terminated unexpectedly'' @ [nl, nl] @ ''The user stopped this command''"
  have "has_paragraph ?stop ''The user stopped this command''"
    by (simp add: has_paragraph_def starts_with_def nl_def)
  with classify_finds_failure_paragraph [of "''x''" ?stop, folded has_paragraph_iff]
  show "classify_terminal_result ''x'' (Inr ?stop) = Stopped" by blast
qed

end
