(* ===== verification/Tier_Hook.thy ===== *)
theory Tier_Hook
  imports Tiers "HOL-Library.Char_ord" "HOL-Library.List_Lexorder"
begin

text \<open>
  Model tiers inside the agent thread (\<^verbatim>\<open>src/crates/agent/src/thread/paddleboard_tiers_hook.rs\<close>): the tier state of a
  thread, the operations the user triggers, and the step the turn loop takes when a turn has no tool calls
  left. The step has two parts, as in the code, because the check runs between them while the thread is not
  borrowed: \<open>prepare_check\<close> reads the settings and counts the check, \<open>finish_check\<close> acts on its outcome.

  What the code reads through \<^verbatim>\<open>cx\<close> is the record \<open>tier_env\<close>: the settings, the first visible worktree, the paths
  of the changed buffers (\<open>None\<close> for a buffer without a file), the models each provider provides and the models
  that are available now. The run of the terminal tool is an argument.
\<close>

subsection \<open>State\<close>

record language_model =
  lm_provider :: string
  lm_id :: string
  lm_name :: string

record tier_offer =
  offer_index :: nat
  offer_name :: string
  offer_model :: string
  offer_available :: bool

record tier_blocker =
  blocker_current_label :: string
  blocker_offer :: "tier_offer list"
  blocker_text :: string

record tier_state =
  failed_on_current :: u32
  attempts :: "tier_attempts list"
  blocker :: "tier_blocker option"
  escalation_pending :: bool
  check_count :: u64

datatype after_turn = End | Continue | ContinueOnNewModel

datatype message = UserText string | OtherMessage

record thread =
  th_parent :: "string option"
  th_model :: "language_model option"
  th_messages :: "message list"
  th_tools :: "string list"
  th_tiers :: tier_state

record tier_env =
  env_settings :: tiers_settings
  env_worktree :: "string option"
  env_changed_buffers :: "string option list"
  env_providers :: "string \<Rightarrow> language_model list option"
  env_available_models :: "language_model list"


datatype tool_status = InProgress | Completed | ToolFailed

record check_input =
  in_command :: string
  in_cd :: string
  in_timeout_ms :: u64
  in_tail_lines :: nat

datatype thread_event =
    SendToolCall string string string check_input
  | UpdateToolStatus string tool_status
  | SendUserMessage string
  | SendText string
  | SendRetry string string


definition set_tiers :: "(tier_state \<Rightarrow> tier_state) \<Rightarrow> thread \<Rightarrow> thread" where
  "set_tiers f th = th\<lparr>th_tiers := f (th_tiers th)\<rparr>"

subsection \<open>What the user does\<close>

definition note_user_message :: "thread \<Rightarrow> thread" where
  "note_user_message = set_tiers (\<lambda>st.
     let st1 = st\<lparr>blocker := None, failed_on_current := 0\<rparr>
     in if escalation_pending st1 then st1\<lparr>escalation_pending := False\<rparr> else st1\<lparr>attempts := []\<rparr>)"

definition dismiss_tier_blocker :: "thread \<Rightarrow> thread" where
  "dismiss_tier_blocker = set_tiers (\<lambda>st. st\<lparr>blocker := None\<rparr>)"

definition select_model :: "tier_env \<Rightarrow> string \<Rightarrow> string \<Rightarrow> language_model option" where
  "select_model env provider model = do {
     models \<leftarrow> env_providers env provider;
     find (\<lambda>m. lm_id m = model) models
   }"

definition resolve_model_from_selection :: "tier_env \<Rightarrow> model_selection \<Rightarrow> language_model option" where
  "resolve_model_from_selection env selection = select_model env (sel_provider selection) (sel_model selection)"

definition set_model :: "language_model \<Rightarrow> thread \<Rightarrow> thread" where
  "set_model m th = th\<lparr>th_model := Some m\<rparr>"

definition nth_opt :: "'a list \<Rightarrow> nat \<Rightarrow> 'a option" where
  "nth_opt xs i = (if i < length xs then Some (xs ! i) else None)"

definition tier_label :: "tier \<Rightarrow> string" where
  "tier_label t = tier_name t @ '' ('' @ sel_model (tier_model t) @ '')''"

definition escalate_to_tier :: "tier_env \<Rightarrow> nat \<Rightarrow> thread \<Rightarrow> thread \<times> string option" where
  "escalate_to_tier env tier th =
     (case nth_opt (tiers (env_settings env)) tier of
        None \<Rightarrow> (th, None)
      | Some target \<Rightarrow>
          (case resolve_model_from_selection env (tier_model target) of
             None \<Rightarrow> (th, None)
           | Some model \<Rightarrow>
               (case blocker (th_tiers th) of
                  None \<Rightarrow> (th, None)
                | Some b \<Rightarrow>
                    let th1 = set_tiers (\<lambda>st. st\<lparr>blocker := None\<rparr>) th;
                        th2 = set_model model th1;
                        th3 = set_tiers (\<lambda>st. st\<lparr>failed_on_current := 0, escalation_pending := True\<rparr>) th2
                    in (th3, Some (escalation_message (blocker_current_label b) (tier_label target) (blocker_text b))))))"

subsection \<open>The step after a turn\<close>

definition current_tier :: "thread \<Rightarrow> tiers_settings \<Rightarrow> nat option \<times> string" where
  "current_tier th s =
     (case th_model th of
        None \<Rightarrow> (None, ''no model'')
      | Some m \<Rightarrow>
          let index = tier_index_for_model s (lm_provider m) (lm_id m);
              label = (case Option.bind index (nth_opt (tiers s)) of
                         Some t \<Rightarrow> tier_label t
                       | None \<Rightarrow> lm_name m)
          in (index, label))"

definition changed_files :: "tier_env \<Rightarrow> string list" where
  "changed_files env = sort (List.map_filter (\<lambda>p. p) (env_changed_buffers env))"

definition record_attempt :: "string \<Rightarrow> tier_attempts list \<Rightarrow> tier_attempts list" where
  "record_attempt label h =
     (if h \<noteq> [] \<and> ta_label (last h) = label
      then butlast h @ [(last h)\<lparr>ta_failed_checks := ta_failed_checks (last h) + 1\<rparr>]
      else h @ [\<lparr>ta_label = label, ta_failed_checks = 1\<rparr>])"

definition record_failure :: "string \<Rightarrow> thread \<Rightarrow> thread" where
  "record_failure label = set_tiers (\<lambda>st.
     st\<lparr>failed_on_current := failed_on_current st + 1, attempts := record_attempt label (attempts st)\<rparr>)"

definition push_check_message :: "string \<Rightarrow> thread \<Rightarrow> thread \<times> thread_event list" where
  "push_check_message msg th = (th\<lparr>th_messages := th_messages th @ [UserText msg]\<rparr>, [SendUserMessage msg])"







definition make_offer :: "tier_env \<Rightarrow> tiers_settings \<Rightarrow> nat list \<Rightarrow> tier_offer list" where
  "make_offer env s offer =
     List.map_filter (\<lambda>index. do {
       t \<leftarrow> nth_opt (tiers s) index;
       let available = (\<exists>m \<in> set (env_available_models env).
             lm_provider m = sel_provider (tier_model t) \<and> lm_id m = sel_model (tier_model t));
       Some \<lparr>offer_index = index, offer_name = tier_name t, offer_model = sel_model (tier_model t),
             offer_available = available\<rparr>
     }) offer"

definition finish_check ::
  "tier_env \<Rightarrow> tiers_settings \<Rightarrow> check_config \<Rightarrow> check_outcome \<Rightarrow> thread \<Rightarrow> thread \<times> thread_event list \<times> after_turn" where
  "finish_check env s c outcome th =
     (let (tier_ix, current_label) = current_tier th s;
          failed_before = failed_on_current (th_tiers th);
          output = (case outcome of Failed out \<Rightarrow> out | _ \<Rightarrow> [])
      in case decide s tier_ix failed_before outcome of
           Done \<Rightarrow> (set_tiers (\<lambda>st. st\<lparr>attempts := [], failed_on_current := 0\<rparr>) th, [], End)
         | Unavailable reason \<Rightarrow>
             (th, [SendText ([nl, nl] @ ''The project check `'' @ check_command c @ ''` could not run: '' @ reason)], End)
         | Retry \<Rightarrow>
             let th1 = record_failure current_label th;
                 (th2, evs) = push_check_message
                   (retry_message (check_command c) (failed_before + 1) (retries_per_tier s + 1) output) th1
             in (th2, evs, Continue)
         | Escalate to \<Rightarrow>
             let th1 = record_failure current_label th;
                 summary = blocker_summary (check_command c) output (attempts (th_tiers th1)) (changed_files env)
             in (case nth_opt (tiers s) to of
                   None \<Rightarrow> (th1, [], End)
                 | Some t \<Rightarrow>
                     (case resolve_model_from_selection env (tier_model t) of
                        None \<Rightarrow>
                          (set_tiers (\<lambda>st. st\<lparr>blocker := Some \<lparr>blocker_current_label = current_label, blocker_offer = [],
                             blocker_text = summary @ [nl, nl] @ ''Automatic escalation to '' @ tier_name t
                               @ '' failed: its model '' @ sel_model (tier_model t) @ '' is not configured.''\<rparr>\<rparr>) th1, [], End)
                      | Some model \<Rightarrow>
                          let th2 = set_tiers (\<lambda>st. st\<lparr>failed_on_current := 0\<rparr>) (set_model model th1);
                              (th3, evs) = push_check_message
                                (escalation_message current_label (tier_label t) summary) th2
                          in (th3, SendRetry (''The check failed on '' @ current_label) (tier_label t) # evs,
                              ContinueOnNewModel)))
         | Blocked offer \<Rightarrow>
             let th1 = record_failure current_label th;
                 summary = blocker_summary (check_command c) output (attempts (th_tiers th1)) (changed_files env)
             in (set_tiers (\<lambda>st. st\<lparr>blocker := Some \<lparr>blocker_current_label = current_label,
                   blocker_offer = make_offer env s offer, blocker_text = summary\<rparr>\<rparr>) th1, [], End))"



subsection \<open>The tier state through one step\<close>

lemma set_tiers_simps [simp]:
  "th_tiers (set_tiers f th) = f (th_tiers th)" "th_model (set_tiers f th) = th_model th"
  "th_messages (set_tiers f th) = th_messages th" "th_parent (set_tiers f th) = th_parent th"
  "th_tools (set_tiers f th) = th_tools th"
  by (simp_all add: set_tiers_def)

lemma set_model_simps [simp]:
  "th_tiers (set_model m th) = th_tiers th" "th_model (set_model m th) = Some m"
  by (simp_all add: set_model_def)

lemma nth_opt_Some [simp]: "nth_opt xs i = Some x \<longleftrightarrow> i < length xs \<and> x = xs ! i"
  by (auto simp: nth_opt_def)







lemma unat_Suc_below: "(a :: u32) < b \<Longrightarrow> unat (a + 1) = Suc (unat a)"
  using unsigned_less [of b, where ?'a = nat] by (simp add: word_less_nat_alt unat_word_ariths)






subsection \<open>Properties of the turn loop\<close>


definition example_model :: "string \<Rightarrow> language_model" where
  "example_model m = \<lparr>lm_provider = ''ollama'', lm_id = m, lm_name = m\<rparr>"

definition example_env :: "tier list \<Rightarrow> tier_env" where
  "example_env ts = \<lparr>env_settings = example_settings ts None, env_worktree = Some ''/p'', env_changed_buffers = [],
     env_providers = (\<lambda>p. if p = ''ollama'' then Some [example_model ''gemma'', example_model ''flash''] else None),
     env_available_models = []\<rparr>"

definition example_thread :: thread where
  "example_thread = \<lparr>th_parent = None, th_model = Some (example_model ''gemma''), th_messages = [], th_tools = [''terminal''],
     th_tiers = \<lparr>failed_on_current = 0, attempts = [], blocker = None, escalation_pending = False, check_count = 0\<rparr>\<rparr>"












subsection \<open>Failures are reported and counted\<close>

text \<open>The labels of the failed checks in order, which the attempts encode by run length.\<close>

definition failed_labels :: "tier_attempts list \<Rightarrow> string list" where
  "failed_labels h = concat (map (\<lambda>a. replicate (unat (ta_failed_checks a)) (ta_label a)) h)"

lemma failed_labels_snoc: "failed_labels (h @ [a]) = failed_labels h @ replicate (unat (ta_failed_checks a)) (ta_label a)"
  by (simp add: failed_labels_def)

lemma record_attempt_appends:
  assumes "h = [] \<or> ta_failed_checks (last h) < max_word"
  shows "failed_labels (record_attempt label h) = failed_labels h @ [label]"
proof (cases "h \<noteq> [] \<and> ta_label (last h) = label")
  case True
  then obtain h' a where h: "h = h' @ [a]" by (metis append_butlast_last_id)
  with True assms have "ta_label a = label" "unat (ta_failed_checks a + 1) = Suc (unat (ta_failed_checks a))"
    by (auto simp: unat_Suc_below)
  then show ?thesis by (simp add: record_attempt_def h failed_labels_snoc replicate_append_same flip: replicate_Suc)
next
  case False
  then have "record_attempt label h = h @ [\<lparr>ta_label = label, ta_failed_checks = 1\<rparr>]"
    by (auto simp: record_attempt_def)
  then show ?thesis by (simp add: failed_labels_snoc)
qed

lemma finish_check_Failed_records:
  assumes "finish_check env s c (Failed out) th = (th', evs, after)"
  shows "attempts (th_tiers th') = record_attempt (snd (current_tier th s)) (attempts (th_tiers th))"
  using assms
  by (cases "decide s (fst (current_tier th s)) (failed_on_current (th_tiers th)) (Failed out)")
    (auto simp: finish_check_def Let_def split_beta push_check_message_def record_failure_def decide_def
      split: option.splits if_splits escalation.splits list.splits)

lemma decide_Blocked_offer:
  "decide s cur n outcome = Blocked offer \<Longrightarrow> set offer \<subseteq> {next_tier cur..<length (tiers s)}"
proof -
  assume "decide s cur n outcome = Blocked offer"
  then have "offer = [] \<or> offer = escalation_targets s cur"
    by (auto simp: decide_def Let_def split: check_outcome.splits if_splits escalation.splits list.splits option.splits)
  then show ?thesis by (auto simp: escalation_targets_upt)
qed

lemma make_offer_indices: "offer_index ` set (make_offer env s offer) \<subseteq> set offer"
  by (auto simp: make_offer_def List.map_filter_def nth_opt_def Let_def split: if_splits)

text \<open>(C36) A failed check is counted and never ends the turn silently: it is added to the attempts under the label of
  the current model, and if the turn ends, a blocker with that label is set, whose offers are tiers above the
  current one.\<close>

theorem failed_check_is_reported:
  assumes "finish_check env s c (Failed out) th = (th', evs, after)"
    and "attempts (th_tiers th) = [] \<or> ta_failed_checks (last (attempts (th_tiers th))) < max_word"
  shows "failed_labels (attempts (th_tiers th')) = failed_labels (attempts (th_tiers th)) @ [snd (current_tier th s)]
    \<and> (after = End \<longrightarrow> (\<exists>b. blocker (th_tiers th') = Some b \<and> blocker_current_label b = snd (current_tier th s)
        \<and> offer_index ` set (blocker_offer b) \<subseteq> {next_tier (fst (current_tier th s))..<length (tiers s)}))"
proof -
  have "\<exists>b. blocker (th_tiers th') = Some b \<and> blocker_current_label b = snd (current_tier th s)
        \<and> offer_index ` set (blocker_offer b) \<subseteq> {next_tier (fst (current_tier th s))..<length (tiers s)}" if "after = End"
  proof (cases "decide s (fst (current_tier th s)) (failed_on_current (th_tiers th)) (Failed out)")
    case (Escalate to)
    then have "to < length (tiers s)" by (simp add: decide_Escalate)
    with Escalate assms that show ?thesis
      by (auto simp: finish_check_def Let_def split_beta push_check_message_def nth_opt_def split: option.splits)
  next
    case (Blocked offer)
    from decide_Blocked_offer [OF this] make_offer_indices [of env s offer]
    have "offer_index ` set (make_offer env s offer) \<subseteq> {next_tier (fst (current_tier th s))..<length (tiers s)}" by blast
    with Blocked assms show ?thesis by (auto simp: finish_check_def Let_def split_beta)
  qed (use assms that in \<open>auto simp: finish_check_def Let_def split_beta push_check_message_def decide_def
      split: if_splits escalation.splits list.splits option.splits\<close>)
  then show ?thesis using finish_check_Failed_records [OF assms(1)] record_attempt_appends [OF assms(2)] by simp
qed

theorem failed_check_is_reported_witness:
  "\<exists>th' evs after. finish_check (example_env []) (example_settings [] None) \<lparr>check_command = ''x'', check_timeout = 1\<rparr>
       (Failed ''no'') example_thread = (th', evs, after)
     \<and> failed_labels (attempts (th_tiers th')) = [''gemma'']"
proof -
  obtain th' evs after where f: "finish_check (example_env []) (example_settings [] None)
      \<lparr>check_command = ''x'', check_timeout = 1\<rparr> (Failed ''no'') example_thread = (th', evs, after)"
    by (metis surj_pair)
  have "attempts (th_tiers example_thread) = []" by (simp add: example_thread_def)
  with failed_check_is_reported [OF f]
  have "failed_labels (attempts (th_tiers th')) = [snd (current_tier example_thread (example_settings [] None))]"
    by (simp add: failed_labels_def)
  also have "snd (current_tier example_thread (example_settings [] None)) = ''gemma''"
    by (simp add: current_tier_def example_thread_def example_model_def example_settings_def tier_index_for_model_def)
  finally show ?thesis using f by blast
qed

text \<open>(C37) An escalation the user chooses is one message: it takes the blocker, moves the thread to the tier's
  model and starts its count at zero; the message it sends keeps the attempts made so far, and any later user
  message starts a fresh task with none.\<close>

theorem escalation_keeps_attempts_once:
  assumes "escalate_to_tier env t th = (th', Some msg)"
  shows "blocker (th_tiers th) \<noteq> None \<and> t < length (tiers (env_settings env))
    \<and> th_model th' = resolve_model_from_selection env (tier_model (tiers (env_settings env) ! t))
    \<and> blocker (th_tiers th') = None \<and> failed_on_current (th_tiers th') = 0
    \<and> attempts (th_tiers (note_user_message th')) = attempts (th_tiers th)
    \<and> attempts (th_tiers (note_user_message (note_user_message th'))) = []
    \<and> escalate_to_tier env u th' = (th', None)"
  using assms
  by (auto simp: escalate_to_tier_def Let_def note_user_message_def split: option.splits)

definition blocked_thread :: thread where
  "blocked_thread = set_tiers (\<lambda>st. st\<lparr>blocker := Some \<lparr>blocker_current_label = ''Local'', blocker_offer = [], blocker_text = []\<rparr>\<rparr>)
     example_thread"

theorem escalation_keeps_attempts_once_witness:
  "\<exists>th' msg. escalate_to_tier (example_env [example_tier ''Local'' ''gemma'', example_tier ''Fast'' ''flash'']) 1 blocked_thread
       = (th', Some msg)
     \<and> th_model th' = Some (example_model ''flash'')"
proof -
  let ?env = "example_env [example_tier ''Local'' ''gemma'', example_tier ''Fast'' ''flash'']"
  have r: "resolve_model_from_selection ?env (tier_model (tiers (env_settings ?env) ! 1)) = Some (example_model ''flash'')"
    by (simp add: resolve_model_from_selection_def select_model_def example_env_def example_settings_def example_tier_def example_model_def)
  moreover have "length (tiers (env_settings ?env)) = 2" by (simp add: example_env_def example_settings_def)
  ultimately obtain th' msg where e: "escalate_to_tier ?env 1 blocked_thread = (th', Some msg)"
    by (simp add: escalate_to_tier_def nth_opt_def blocked_thread_def Let_def)
  from escalation_keeps_attempts_once [OF e] e r show ?thesis by simp
qed

end
