(* ===== verification/Spec2Isabelle.thy ===== *)
theory Spec2Isabelle
  imports Clock Locator Sum_Forward Tree_Map Undo_Map History Points Text_Summary Patch Line_Ending Anchor_Runs Tiers Tier_Hook
begin

text \<open>
  A verification development of the collaborative text core of PaddleBoard and of its model tiers.

  \<^bold>\<open>The program.\<close> A text buffer is a replicated data type. Replicas label their operations with Lamport
  timestamps and know each other's operations through version vectors (crate \<^verbatim>\<open>clock\<close>). The text is a sequence
  of fragments, each at a locator, a position in a dense order (\<^verbatim>\<open>text/src/locator.rs\<close>). Fragments, rope chunks,
  undo counts and ordered maps are all kept in one data structure, the sum tree (crate \<^verbatim>\<open>sum_tree\<close>): a B+ tree
  whose nodes cache a summary of their items, searched and sliced by a cursor along any dimension of the
  summary. The undo map records how often each edit has been undone, and the history groups edits into
  transactions with an undo and a redo stack (\<^verbatim>\<open>text/src/undo_map.rs\<close>, \<^verbatim>\<open>text/src/text.rs\<close>). The rope (crate
  \<^verbatim>\<open>rope\<close>) is a sum tree of text chunks with the text summary as its summary. The model tiers
  (crate \<^verbatim>\<open>paddleboard_tiers\<close> and its hook in the crate \<^verbatim>\<open>agent\<close>) run a project check after each turn of the agent and
  retry, escalate to a stronger model or stop and ask.

  \<^bold>\<open>Theories and sources\<close> (paths under \<^verbatim>\<open>src/crates\<close>).
  \<^item> \<open>Prelude\<close>: machine integers, orderings, panics as \<open>None\<close> (type \<open>run\<close>), vectors and list lemmas.
  \<^item> \<open>Clock\<close> models \<^verbatim>\<open>clock/src/clock.rs\<close>: \<open>observed_all\<close>, \<open>global_join\<close> and \<open>global_meet\<close> are the order, the least upper
    bound and the pointwise minimum of version vectors; the 64-bit packing of timestamps keeps their order.
  \<^item> \<open>Locator\<close> models \<^verbatim>\<open>text/src/locator.rs\<close>: a new locator lies strictly between its neighbours.
  \<^item> \<open>Sum_Tree\<close>, \<open>Sum_Find\<close>, \<open>Sum_Cursor\<close>, \<open>Sum_Seek\<close>, \<open>Sum_Forward\<close> and \<open>Keyed_Tree\<close> model \<^verbatim>\<open>sum_tree/src/sum_tree.rs\<close> and
    \<^verbatim>\<open>sum_tree/src/cursor.rs\<close>. A tree is well-formed when it is balanced, its nodes are filled within bounds and its
    cached summaries are exact; its meaning is the list of its items. Append, construction and edits keep trees
    well-formed and act on the lists; searches and cursors return what a linear scan returns. The laws of
    summaries, dimensions, cursor aggregates and filters are the locales \<open>summary_laws\<close>, \<open>seek_laws\<close>,
    \<open>seek_aggregate\<close>, \<open>filter_laws\<close> and \<open>keyed_laws\<close>.
  \<^item> \<open>Tree_Map\<close> models \<^verbatim>\<open>sum_tree/src/tree_map.rs\<close> and interprets these locales: the tree refines a partial map.
  \<^item> \<open>Undo_Map\<close> models \<^verbatim>\<open>text/src/undo_map.rs\<close>, and \<open>History\<close> the history of \<^verbatim>\<open>text/src/text.rs\<close> as a step relation with
    an invariant over its reachable states.
  \<^item> \<open>Points\<close> and \<open>Text_Summary\<close> model positions, text summaries and text dimensions of \<^verbatim>\<open>rope/src\<close>, generic in the type of their
    32-bit fields: with words they are the code's, with natural numbers they interpret the locales of the sum tree, and for texts
    below 4 GiB the two agree.
  \<^item> \<open>Patch\<close> models \<^verbatim>\<open>text/src/patch.rs\<close> and \<^verbatim>\<open>text/src/subscription.rs\<close>: composing patches is sound for the texts they relate, positions
    map there and back, and a subscription misses no change. \<open>Line_Ending\<close> models the line endings of \<^verbatim>\<open>text/src/text.rs\<close>.
  \<^item> \<open>Fragments\<close>, \<open>Local_Edit\<close> and \<open>Apply_Undo\<close> model the snapshot of a buffer, \<^verbatim>\<open>apply_edit_internal\<close> and \<^verbatim>\<open>apply_undo\<close> of
    \<^verbatim>\<open>text/src/text.rs\<close>. \<open>Local_Edit_Proofs\<close> shows that a local edit replaces exactly its ranges and publishes a patch that says so;
    \<open>Undo_Proofs\<close> that the index of insertions leads an undo operation to exactly the fragments it concerns; \<open>Cells\<close> follows edits
    byte by byte, and \<open>Buffer_Invariant\<close> combines the three into the invariant of a snapshot.
  \<^item> \<open>Buffer\<close> models the buffer itself with its local operations, and \<open>Buffer_Proofs\<close> and \<open>Stack_Edits\<close> its invariant.
  \<^item> \<open>Remote_Edit\<close> models \<^verbatim>\<open>apply_remote_edit\<close>, the edits of other replicas, located by versioned offsets; it also shows how these treat
    whole nodes of the tree of fragments. \<open>Remote_Proofs\<close> and
    \<open>Remote_Correct\<close> show that its loop over fragments does what the operation means for the single bytes.
  \<^item> \<open>Apply_Ops\<close> models \<^verbatim>\<open>text/src/operation_queue.rs\<close> and \<^verbatim>\<open>apply_ops\<close> of \<^verbatim>\<open>text/src/text.rs\<close>, which applies received operations or defers
    them. \<open>Apply_Ops_Proofs\<close> and \<open>Remote_Calls\<close> show that operations other replicas can have made keep the invariant of the buffer,
    \<open>Queue_Proofs\<close> and \<open>Delivery\<close> that none is lost and one pass over the queue is enough.
  \<^item> \<open>Concurrent_Edits\<close> and \<open>Convergence\<close> describe operations by their effect on a document, the bytes of a buffer with their deletions and
    its undo counts: effects of operations that do not know of each other commute. \<open>Local_Cells\<close> and \<open>Buffer_Run\<close> show that local
    edits, undo and received operations all have this effect.
  \<^item> \<open>Buffer_Correct\<close> describes the buffers that local operations and received ones can reach (\<open>buffer_run\<close>, all operations of \<open>Buffer\<close> and
    \<open>Apply_Ops\<close> but \<open>fast_forward\<close>, which takes over edits that no operation records): their operations return, the code's own
    \<^verbatim>\<open>check_invariants\<close> succeeds on them, undo inverts edits and redo inverts undo. \<open>Replicas\<close> shows that replicas with the same operations
    have the same text, and that a local edit can be applied by every replica that has what its maker had.
  \<^item> \<open>Anchor\<close> models \<^verbatim>\<open>text/src/anchor.rs\<close> and the anchors of \<^verbatim>\<open>text/src/text.rs\<close>, positions that name a byte instead of an offset. \<open>Anchor_Proofs\<close> shows
    where they stand in a snapshot, \<open>Anchor_Runs\<close> that they stay next to their byte and keep their order under all operations, on every replica.
  \<^item> \<open>Tiers\<close> models \<^verbatim>\<open>paddleboard_tiers/src/paddleboard_tiers.rs\<close>, and \<open>Tier_Hook\<close> models
    \<^verbatim>\<open>agent/src/thread/paddleboard_tiers_hook.rs\<close> with the end of a turn in \<^verbatim>\<open>agent/src/thread.rs\<close>.

  \<^bold>\<open>Conventions.\<close> Panics, failed unwraps and full fixed-size arrays are \<open>None\<close>. Loops that need not end are partial
  functions on options, so that every statement that they return is a termination statement too. Machine
  integers are words where the code depends on their width (clocks, locators, points, counters of undo
  operations and checks) and natural numbers where they count bytes or items of something held in memory (the offsets and lengths
  of fragments are below 4 GiB in all buffers that the statements speak of). The
  code is the release build: additions wrap and debug assertions are not executed. The cursor's stack has a
  capacity of 16, so statements about cursors assume trees of height below 16; with a branching factor of at
  least 6 below the root such a tree holds more items than memory can. In the theories of the buffer, sum trees of fragments,
  insertions and slices are represented by the lists of their items and ropes by their bytes, and the operations on them are linear
  scans. The theories of the sum tree show seeks to be such scans for every dimension that adds up along the items; the trees of
  fragments are not instantiated there. Versioned offsets do not add up, since a node of which the version has observed a part has no
  end; for them \<open>versioned_add_node\<close>, \<open>versioned_node_passed\<close> and \<open>versioned_node_entered\<close> show that a node is passed as a whole only where
  the scan passes its fragments, and is otherwise entered or, when it is mixed, looked into. Ranges of local edits are given as byte
  offsets, which the code first rounds down to character boundaries; slices of rope chunks, which the code rounds in the same way, are
  taken as they are, which is the same for all offsets at character boundaries. Statements about edits assume that at most \<^verbatim>\<open>MAX_INSERTION_LEN\<close> bytes
  (4 GiB) are inserted at once, statements about buffers that the clock of 32 bits does not wrap around. The loop over the turns of
  an agent and the loops of cursors and edits need no fuel: that they return is part of what is proved.

  The statements about received operations assume that they are ones a replica can have made (\<open>ops_fit\<close>, \<open>edit_made\<close>); the network is
  the sequence of calls of \<^verbatim>\<open>apply_ops\<close>, in which operations arrive in any order and any number of times.

  \<^bold>\<open>Not modelled.\<close> Chunks of ropes and their conversions between units, selections, the iterator over the edits
  since a version; the editor and its user interface, language servers, projects and the network, which are input and output around this
  core; debug and display output.
\<close>

end
